(* ===== verification/Prelude.thy ===== *)
theory Prelude
  imports Main "HOL-Library.Word" "HOL-Library.Monad_Syntax"
begin

unbundle bit_operations_syntax

text \<open>
  What every component shares: the result codes of \<open>include/defines.h\<close> and of \<open>errno\<close>,
  32-bit arithmetic on \<open>nat\<close> with its wrap-around written out, big-endian byte
  encodings (\<open>htons\<close>, \<open>htonl\<close>, \<open>htonll\<close>), list lemmas about prefixes and windows,
  and the interface locales several components implement: a machine driven by events,
  a property store and a self-delimiting codec.

  A \<open>gint32\<close> result is an \<open>int\<close>: zero is success, a negative number is an error (the
  macro \<open>ERROR\<close>), a positive one is a status such as \<open>STATUS_PENDING\<close>.
\<close>

named_theorems u32_simps \<open>32-bit sums and differences that do not wrap\<close>
named_theorems step_preserves \<open>an operation keeps the invariant of its component\<close>

subsection \<open>Result codes\<close>

abbreviation (input) ENOENT :: int where "ENOENT \<equiv> 2"
abbreviation (input) EINTR :: int where "EINTR \<equiv> 4"
abbreviation (input) EIO :: int where "EIO \<equiv> 5"
abbreviation (input) E2BIG :: int where "E2BIG \<equiv> 7"
abbreviation (input) EAGAIN :: int where "EAGAIN \<equiv> 11"
abbreviation (input) ENOMEM :: int where "ENOMEM \<equiv> 12"
abbreviation (input) EFAULT :: int where "EFAULT \<equiv> 14"
abbreviation (input) EINVAL :: int where "EINVAL \<equiv> 22"
abbreviation (input) ERANGE :: int where "ERANGE \<equiv> 34"
abbreviation (input) EBADMSG :: int where "EBADMSG \<equiv> 74"
abbreviation (input) EOVERFLOW :: int where "EOVERFLOW \<equiv> 75"
abbreviation (input) ENOTSUP :: int where "ENOTSUP \<equiv> 95"
abbreviation (input) ENOTCONN :: int where "ENOTCONN \<equiv> 107"
abbreviation (input) ECANCELED :: int where "ECANCELED \<equiv> 125"

text \<open>The positive status and the negative error codes, read as signed 32-bit numbers.\<close>

abbreviation (input) STATUS_SUCCESS :: int where "STATUS_SUCCESS \<equiv> 0"
abbreviation (input) STATUS_PENDING :: int where "STATUS_PENDING \<equiv> 65537"
abbreviation (input) STATUS_MORE_PROCESS_NEEDED :: int where "STATUS_MORE_PROCESS_NEEDED \<equiv> 65538"
abbreviation (input) ERROR_FAIL :: int where "ERROR_FAIL \<equiv> -2147483647"
abbreviation (input) ERROR_STATE :: int where "ERROR_STATE \<equiv> -2147418109"
abbreviation (input) ERROR_FALSE :: int where "ERROR_FALSE \<equiv> -2147418105"
abbreviation (input) ERROR_REPEAT :: int where "ERROR_REPEAT \<equiv> -2147418104"

definition ERROR :: "int \<Rightarrow> bool" where
  "ERROR ret \<longleftrightarrow> ret < 0"

definition SUCCEEDED :: "int \<Rightarrow> bool" where
  "SUCCEEDED ret \<longleftrightarrow> ret = 0"

lemma ERROR_simps [simp]:
  "ERROR 0 = False" "ERROR 1 = False" "ERROR (numeral n) = False" "ERROR (- numeral n) = True"
  "ERROR (- 1) = True"
  by (simp_all add: ERROR_def)

lemma SUCCEEDED_simps [simp]:
  "SUCCEEDED 0 = True" "SUCCEEDED (numeral n) = False" "SUCCEEDED (- numeral n) = False"
  by (simp_all add: SUCCEEDED_def)

subsection \<open>32-bit counters and sizes\<close>

text \<open>A \<open>guint32\<close> size or offset is a \<open>nat\<close>; sums and differences wrap at \<open>2^32\<close>.\<close>

definition u32_add :: "nat \<Rightarrow> nat \<Rightarrow> nat" where
  "u32_add a b = (a + b) mod 2 ^ 32"

definition u32_sub :: "nat \<Rightarrow> nat \<Rightarrow> nat" where
  "u32_sub a b = (a + (2 ^ 32 - b mod 2 ^ 32)) mod 2 ^ 32"

text \<open>A 32-bit pattern read as a \<open>gint32\<close>.\<close>

definition s32 :: "nat \<Rightarrow> int" where
  "s32 n = (if n < 2 ^ 31 then int n else int n - 2 ^ 32)"

lemma u32_add_exact [u32_simps]: "a + b < 2 ^ 32 \<Longrightarrow> u32_add a b = a + b"
  by (simp add: u32_add_def)

lemma u32_sub_exact [u32_simps]:
  assumes "b \<le> a" "a < 2 ^ 32"
  shows "u32_sub a b = a - b"
proof -
  have "u32_sub a b = (a + (2 ^ 32 - b)) mod 2 ^ 32" using assms by (simp add: u32_sub_def)
  also have "a + (2 ^ 32 - b) = (a - b) + 2 ^ 32" using assms by simp
  also have "((a - b) + 2 ^ 32) mod 2 ^ 32 = (a - b) mod 2 ^ 32" by (rule mod_add_self2)
  also have "(a - b) mod 2 ^ 32 = a - b" using assms by (intro mod_less) simp
  finally show ?thesis .
qed

lemma u32_sub_wraps:
  assumes "a < b" "b < 2 ^ 32"
  shows "u32_sub a b = 2 ^ 32 - (b - a)"
proof -
  have "u32_sub a b = (a + (2 ^ 32 - b)) mod 2 ^ 32" using assms by (simp add: u32_sub_def)
  also have "a + (2 ^ 32 - b) = 2 ^ 32 - (b - a)" using assms by simp
  finally show ?thesis using assms by simp
qed

lemma u32_add_0 [simp]: "a < 2 ^ 32 \<Longrightarrow> u32_add a 0 = a"
  by (simp add: u32_add_def)

lemma u32_bounds: "u32_add a b < 2 ^ 32" "u32_sub a b < 2 ^ 32"
  by (simp_all add: u32_add_def u32_sub_def)

subsection \<open>Bytes and byte order\<close>

type_synonym u8 = "8 word"

text \<open>The \<open>n\<close> big-endian bytes of a number, and the number a byte list denotes.\<close>

primrec to_be :: "nat \<Rightarrow> nat \<Rightarrow> u8 list" where
  "to_be 0 x = []"
| "to_be (Suc n) x = to_be n (x div 256) @ [of_nat (x mod 256)]"

definition of_be :: "u8 list \<Rightarrow> nat" where
  "of_be bs = foldl (\<lambda>a b. a * 256 + unat b) 0 bs"

lemma length_to_be [simp]: "length (to_be n x) = n"
  by (induction n arbitrary: x) auto

lemma to_be_Nil_iff [simp]: "to_be n x = [] \<longleftrightarrow> n = 0"
  by (cases n) simp_all

lemma of_be_snoc [simp]: "of_be (bs @ [b]) = of_be bs * 256 + unat b"
  by (simp add: of_be_def)

lemma of_be_Nil [simp]: "of_be [] = 0"
  by (simp add: of_be_def)

lemma unat_of_nat_u8 [simp]: "unat (of_nat x :: u8) = x mod 256"
  by (simp add: unat_of_nat)

lemma u8_bound [simp]: "unat (b :: u8) < 256"
  using unsigned_less [of b] by simp

lemma of_be_to_be: "of_be (to_be n x) = x mod 256 ^ n"
proof (induction n arbitrary: x)
  case 0
  show ?case by simp
next
  case (Suc n)
  have "of_be (to_be (Suc n) x) = ((x div 256) mod 256 ^ n) * 256 + x mod 256"
    by (simp add: Suc.IH)
  also have "\<dots> = x mod (256 * 256 ^ n)"
    by (metis mod_mult2_eq mult.commute)
  finally show ?case by simp
qed

lemma of_be_bound: "of_be bs < 256 ^ length bs"
proof (induction bs rule: rev_induct)
  case Nil
  show ?case by simp
next
  case (snoc b bs)
  have "unat b < 256" by simp
  then have "of_be bs * 256 + unat b < (of_be bs + 1) * 256" by simp
  also have "\<dots> \<le> 256 ^ length bs * 256" using snoc by (intro mult_right_mono) auto
  finally show ?case by simp
qed

lemma to_be_of_be: "to_be (length bs) (of_be bs) = bs"
proof (induction bs rule: rev_induct)
  case Nil
  show ?case by simp
next
  case (snoc b bs)
  have "unat b < 256" by simp
  then have "(of_be bs * 256 + unat b) div 256 = of_be bs"
    and "(of_be bs * 256 + unat b) mod 256 = unat b" by simp_all
  moreover have "(of_nat (unat b) :: u8) = b" by simp
  ultimately show ?case using snoc by simp
qed

subsection \<open>Lists seen as byte windows\<close>

lemma take_append_exact [simp]: "length xs = n \<Longrightarrow> take n (xs @ ys) = xs"
  by simp

lemma drop_append_exact [simp]: "length xs = n \<Longrightarrow> drop n (xs @ ys) = ys"
  by simp

text \<open>Overwriting a run of bytes inside a list, in place.\<close>

definition overwrite :: "nat \<Rightarrow> 'a list \<Rightarrow> 'a list \<Rightarrow> 'a list" where
  "overwrite i ys xs = take i xs @ ys @ drop (i + length ys) xs"

lemma length_overwrite [simp]:
  "i + length ys \<le> length xs \<Longrightarrow> length (overwrite i ys xs) = length xs"
  by (simp add: overwrite_def)

lemma take_overwrite_before: "n \<le> i \<Longrightarrow> i \<le> length xs \<Longrightarrow> take n (overwrite i ys xs) = take n xs"
  by (simp add: overwrite_def min_def)

lemma take_overwrite_through:
  "i \<le> length xs \<Longrightarrow> take (i + length ys) (overwrite i ys xs) = take i xs @ ys"
  by (simp add: overwrite_def)

lemma take_overwrite_within:
  "i + length ys \<le> n \<Longrightarrow> n \<le> length xs \<Longrightarrow> take n (overwrite i ys xs) = overwrite i ys (take n xs)"
  by (simp add: overwrite_def take_drop)

lemma drop_overwrite_after:
  "i + length ys \<le> n \<Longrightarrow> i + length ys \<le> length xs \<Longrightarrow> drop n (overwrite i ys xs) = drop n xs"
  by (simp add: overwrite_def)

subsection \<open>A machine driven by events\<close>

text \<open>
  The states a machine reaches from \<open>s0\<close> when its callers only raise events that are
  legal in the current state.
\<close>

inductive reach :: "('s \<Rightarrow> 'e \<Rightarrow> 's) \<Rightarrow> ('s \<Rightarrow> 'e \<Rightarrow> bool) \<Rightarrow> 's \<Rightarrow> 's \<Rightarrow> bool"
  for step :: "'s \<Rightarrow> 'e \<Rightarrow> 's" and legal :: "'s \<Rightarrow> 'e \<Rightarrow> bool" and s0 :: 's where
  start: "reach step legal s0 s0"
| advance: "reach step legal s0 s \<Longrightarrow> legal s e \<Longrightarrow> reach step legal s0 (step s e)"

text \<open>A history whose events are legal one after the other.\<close>

primrec legal_chain :: "('s \<Rightarrow> 'e \<Rightarrow> 's) \<Rightarrow> ('s \<Rightarrow> 'e \<Rightarrow> bool) \<Rightarrow> 's \<Rightarrow> 'e list \<Rightarrow> bool" where
  "legal_chain step legal s [] = True"
| "legal_chain step legal s (e # es) = (legal s e \<and> legal_chain step legal (step s e) es)"

lemma reach_chain: "reach step legal s0 s \<Longrightarrow> legal_chain step legal s es \<Longrightarrow> reach step legal s0 (foldl step s es)"
  by (induction es arbitrary: s) (auto intro: reach.advance)

lemma reach_foldl: "legal_chain step legal s es \<Longrightarrow> reach step legal s (foldl step s es)"
  by (rule reach_chain [OF reach.start])

text \<open>
  A component whose operations take its state to a state, and whose invariant every legal
  operation keeps. Each component interprets the locale on its own step function.
\<close>

locale event_machine =
  fixes step :: "'s \<Rightarrow> 'e \<Rightarrow> 's"
    and legal :: "'s \<Rightarrow> 'e \<Rightarrow> bool"
    and inv :: "'s \<Rightarrow> bool"
  assumes inv_step: "inv s \<Longrightarrow> legal s e \<Longrightarrow> inv (step s e)"
begin

lemma inv_reach: "reach step legal s0 s \<Longrightarrow> inv s0 \<Longrightarrow> inv s"
  by (induction rule: reach.induct) (auto intro: inv_step)

lemma inv_foldl:
  "inv s \<Longrightarrow> (\<And>s e. inv s \<Longrightarrow> e \<in> set es \<Longrightarrow> legal s e) \<Longrightarrow> inv (foldl step s es)"
proof (induction es arbitrary: s)
  case (Cons e es)
  have "inv (step s e)" using Cons.prems by (intro inv_step) auto
  then show ?case using Cons.IH Cons.prems(2) by simp
qed simp

end

text \<open>A sequence of partial operations that succeeds is a sequence of operations that succeed.\<close>

lemma bindE: "Option.bind m f = Some y \<Longrightarrow> (\<And>x. m = Some x \<Longrightarrow> f x = Some y \<Longrightarrow> thesis) \<Longrightarrow> thesis"
  by (cases m) auto

end
