(* ===== verification/PortState.thy ===== *)
theory PortState
  imports Prelude
begin

text \<open>
  The port state machine, \<open>CPortState\<close> of \<open>ipc/portstat.cpp\<close> (declared in \<open>ipc/port.h\<close>):
  a stack of states whose bottom is the life-cycle state of the port and whose upper
  entries are the admissions of the requests in progress, a table of transitions, one
  handler per current state, and the task that resumes a request pended for exclusive
  access.

  \<open>vecStates\<close> lists \<open>m_vecStates\<close> with \<open>back()\<close> first. A state is its number, so that
  the checks of the code against \<open>PORTSTAT_MAP_LEN\<close> and \<open>MAX_PORT_STATE\<close> keep their
  meaning. The lock is not modelled: every operation holds it from start to end.
  \<open>undef\<close> records that the C++ would have read \<open>back()\<close> of an empty vector.
\<close>

subsection \<open>States, requests and the object\<close>

abbreviation (input) PORT_STATE_INVALID :: nat where "PORT_STATE_INVALID \<equiv> 4294967295"
abbreviation (input) PORT_STATE_READY :: nat where "PORT_STATE_READY \<equiv> 0"
abbreviation (input) PORT_STATE_ATTACHED :: nat where "PORT_STATE_ATTACHED \<equiv> 1"
abbreviation (input) PORT_STATE_STARTING :: nat where "PORT_STATE_STARTING \<equiv> 2"
abbreviation (input) PORT_STATE_STOPPING :: nat where "PORT_STATE_STOPPING \<equiv> 3"
abbreviation (input) PORT_STATE_STOPPED :: nat where "PORT_STATE_STOPPED \<equiv> 4"
abbreviation (input) PORT_STATE_REMOVED :: nat where "PORT_STATE_REMOVED \<equiv> 5"
abbreviation (input) PORT_STATE_BUSY :: nat where "PORT_STATE_BUSY \<equiv> 6"
abbreviation (input) PORT_STATE_BUSY_SHARED :: nat where "PORT_STATE_BUSY_SHARED \<equiv> 7"
abbreviation (input) PORT_STATE_EXCLUDE_PENDING :: nat where "PORT_STATE_EXCLUDE_PENDING \<equiv> 8"
abbreviation (input) PORT_STATE_STOP_RESUME :: nat where "PORT_STATE_STOP_RESUME \<equiv> 9"
abbreviation (input) PORT_STATE_BUSY_RESUME :: nat where "PORT_STATE_BUSY_RESUME \<equiv> 10"
abbreviation (input) PORTSTAT_MAP_LEN :: nat where "PORTSTAT_MAP_LEN \<equiv> 11"
abbreviation (input) MAX_PORT_STATE :: nat where "MAX_PORT_STATE \<equiv> 10"

abbreviation (input) IRP_MJ_PNP :: nat where "IRP_MJ_PNP \<equiv> 1"
abbreviation (input) IRP_MJ_FUNC :: nat where "IRP_MJ_FUNC \<equiv> 2"
abbreviation (input) IRP_MN_PNP_START :: nat where "IRP_MN_PNP_START \<equiv> 1"
abbreviation (input) IRP_MN_PNP_STOP :: nat where "IRP_MN_PNP_STOP \<equiv> 2"
abbreviation (input) IRP_MN_PNP_QUERY_STOP :: nat where "IRP_MN_PNP_QUERY_STOP \<equiv> 3"
abbreviation (input) IRP_MN_PNP_STACK_BUILT :: nat where "IRP_MN_PNP_STACK_BUILT \<equiv> 4"
abbreviation (input) IRP_MN_PNP_STACK_DESTROY :: nat where "IRP_MN_PNP_STACK_DESTROY \<equiv> 5"
abbreviation (input) IRP_MN_PNP_STOP_CHILD :: nat where "IRP_MN_PNP_STOP_CHILD \<equiv> 6"
abbreviation (input) IRP_MN_PNP_REATTACH :: nat where "IRP_MN_PNP_REATTACH \<equiv> 7"
abbreviation (input) IRP_MN_PNP_STACK_READY :: nat where "IRP_MN_PNP_STACK_READY \<equiv> 8"

text \<open>A request: its identity and its context stack, as (major, minor) pairs, top first.\<close>

record irp =
  irp_id :: nat
  irp_stack :: "(nat \<times> nat) list"

text \<open>
  \<open>ioMgr\<close> is \<open>GetNumCores\<close> of the I/O manager, or \<open>None\<close> where \<open>GetIoMgr\<close> is null;
  \<open>semReady\<close> is what \<open>sem_getvalue\<close> reports; \<open>scheduled\<close> lists the resume tasks handed
  to \<open>ScheduleTask\<close>, oldest first.
\<close>

record port_state =
  vecStates :: "nat list"
  exclIrp :: "irp option"
  resume :: "nat option"
  semReady :: int
  ioMgr :: "nat option"
  scheduled :: "(nat \<times> irp) list"
  undef :: bool

definition new_port_state :: "nat option \<Rightarrow> port_state" where
  "new_port_state mgr = \<lparr>vecStates = [PORT_STATE_ATTACHED], exclIrp = None, resume = None,
     semReady = 0, ioMgr = mgr, scheduled = [], undef = False\<rparr>"

definition arrStatMap :: "int list list" where
  "arrStatMap =
    [[ 1, 0, 0,  1, 0, 0, 1, 1, 0, 0, 0],
     [ 0, 2, 1,  0, 0, 0, 1, 0, 0, 0, 0],
     [ 4, 3, 2,  0, 2, 0, 0, 0, 0, 0, 0],
     [ 0, 0, 0,  2, 4, 0, 0, 0, 0, 0, 0],
     [ 0, 1, 0,  0, 2, 1, 1, 0, 0, 0, 0],
     [ 0, 0, 0,  0, 0, 2, 0, 0, 0, 0, 0],
     [ 3, 3, 0,  0, 3, 0, 2, 0, 0, 0, 0],
     [ 3, 0, 0, -1, 0, 0, 0, 1, 1, 0, 0],
     [ 0, 0, 0,  0, 0, 0, 0, 0, 0, 4, 4],
     [ 0, 0, 0,  1, 0, 0, 0, 0, 0, 0, 0],
     [ 0, 0, 0,  0, 0, 0, 1, 0, 0, 4, 0]]"

definition map_action :: "nat \<Rightarrow> nat \<Rightarrow> int" where
  "map_action cur new = arrStatMap ! cur ! new"

definition no_irp :: "irp option \<Rightarrow> bool" where
  "no_irp pIrp = (case pIrp of None \<Rightarrow> True | Some i \<Rightarrow> irp_stack i = [])"

definition MajorCmd :: "irp option \<Rightarrow> nat" where
  "MajorCmd pIrp = fst (hd (irp_stack (the pIrp)))"

definition MinorCmd :: "irp option \<Rightarrow> nat" where
  "MinorCmd pIrp = snd (hd (irp_stack (the pIrp)))"

subsection \<open>Reading and setting the state\<close>

definition GetPortState :: "port_state \<Rightarrow> nat" where
  "GetPortState s = (case vecStates s of [] \<Rightarrow> PORT_STATE_INVALID | t # _ \<Rightarrow> t)"

definition IsPortReady :: "port_state \<Rightarrow> bool" where
  "IsPortReady s = (case vecStates s of [] \<Rightarrow> False | t # _ \<Rightarrow> t = PORT_STATE_READY)"

text \<open>
  \<open>IsValidSubmit\<close> returns \<open>-EINVAL\<close> as a \<open>bool\<close> for a state above the table, that is,
  \<open>true\<close>. It is only called with a nonempty stack.
\<close>

definition IsValidSubmit :: "port_state \<Rightarrow> nat \<Rightarrow> bool" where
  "IsValidSubmit s dwNewState =
     (if dwNewState > MAX_PORT_STATE then True
      else let bAction = map_action (hd (vecStates s)) dwNewState
           in if bAction = 1 then True else if bAction = -1 then True else False)"

definition SetPortState :: "port_state \<Rightarrow> nat \<Rightarrow> int \<times> port_state" where
  "SetPortState s dwNewState =
     (if dwNewState > MAX_PORT_STATE then (- EINVAL, s)
      else case vecStates s of
        [] \<Rightarrow> (0, s\<lparr>vecStates := [dwNewState]\<rparr>)
      | cur # rest \<Rightarrow>
          if map_action cur dwNewState = 0 then (ERROR_STATE, s)
          else if dwNewState \<noteq> PORT_STATE_STOP_RESUME
          then (0, s\<lparr>vecStates := dwNewState # rest\<rparr>)
          else if cur \<noteq> PORT_STATE_BUSY_RESUME then (ERROR_STATE, s)
          else (case rest of
              [] \<Rightarrow> (ERROR_STATE, s\<lparr>vecStates := [], undef := True\<rparr>)
            | below # r \<Rightarrow>
                if below \<noteq> PORT_STATE_READY then (ERROR_STATE, s\<lparr>vecStates := rest\<rparr>)
                else (0, s\<lparr>vecStates := dwNewState # r\<rparr>)))"

definition SetResumePoint :: "port_state \<Rightarrow> nat \<Rightarrow> port_state" where
  "SetResumePoint s pFunc = s\<lparr>resume := Some pFunc\<rparr>"

text \<open>
  The macros of \<open>include/defines.h\<close>: they post only where \<open>sem_getvalue\<close> reports a
  negative value, the number of waiters.
\<close>

definition SEM_WAKEUP_SINGLE :: "port_state \<Rightarrow> port_state" where
  "SEM_WAKEUP_SINGLE s =
     (let iCount = - semReady s in if iCount \<le> 0 then s else s\<lparr>semReady := semReady s + 1\<rparr>)"

definition SEM_WAKEUP_ALL :: "port_state \<Rightarrow> port_state" where
  "SEM_WAKEUP_ALL s =
     (let iCount = - semReady s in if iCount \<le> 0 then s else s\<lparr>semReady := semReady s + iCount\<rparr>)"

definition SetPortStateWake :: "port_state \<Rightarrow> nat \<Rightarrow> nat \<Rightarrow> bool \<Rightarrow> bool \<times> port_state" where
  "SetPortStateWake s dwCurState dwNewState bWakeAll =
     (case vecStates s of
        [] \<Rightarrow> (False, s)
      | t # _ \<Rightarrow>
          if dwCurState \<noteq> t then (False, s)
          else let (ret, s1) = SetPortState s dwNewState
               in if ERROR ret then (False, s1)
                  else (True, if bWakeAll then SEM_WAKEUP_ALL s1 else SEM_WAKEUP_SINGLE s1))"

definition PushState :: "port_state \<Rightarrow> nat \<Rightarrow> bool \<Rightarrow> int \<times> port_state" where
  "PushState s dwState bCheckLimit =
     (if dwState > PORTSTAT_MAP_LEN then (- EINVAL, s)
      else case ioMgr s of
        None \<Rightarrow> (- EFAULT, s)
      | Some dwNumCores \<Rightarrow>
          if bCheckLimit \<and> length (vecStates s) > dwNumCores + 1 then (- EAGAIN, s)
          else (0, s\<lparr>vecStates := dwState # vecStates s\<rparr>))"

subsection \<open>One handler per current state\<close>

definition HandleReady :: "port_state \<Rightarrow> irp option \<Rightarrow> nat \<Rightarrow> int \<times> port_state" where
  "HandleReady s pIrp dwNewState =
     (if no_irp pIrp then (- EINVAL, s)
      else if MajorCmd pIrp = IRP_MJ_PNP then
        (if MinorCmd pIrp = IRP_MN_PNP_QUERY_STOP \<and> dwNewState = PORT_STATE_BUSY_SHARED
         then PushState s dwNewState False
         else if MinorCmd pIrp = IRP_MN_PNP_STACK_READY \<and> dwNewState = PORT_STATE_BUSY
         then PushState s dwNewState False
         else if MinorCmd pIrp = IRP_MN_PNP_STOP_CHILD \<and> dwNewState = PORT_STATE_BUSY_SHARED
         then PushState s dwNewState False
         else if MinorCmd pIrp = IRP_MN_PNP_STOP \<and> dwNewState = PORT_STATE_STOPPING
         then SetPortState s dwNewState
         else (ERROR_STATE, s))
      else if MajorCmd pIrp = IRP_MJ_FUNC then
        (if dwNewState = PORT_STATE_BUSY_SHARED \<or> dwNewState = PORT_STATE_BUSY
         then PushState s dwNewState True
         else (ERROR_STATE, s))
      else (ERROR_STATE, s))"

definition HandleAttached :: "port_state \<Rightarrow> irp option \<Rightarrow> nat \<Rightarrow> int \<times> port_state" where
  "HandleAttached s pIrp dwNewState =
     (if no_irp pIrp then (- EINVAL, s)
      else if MajorCmd pIrp = IRP_MJ_PNP then
        (if MinorCmd pIrp = IRP_MN_PNP_START \<and> dwNewState = PORT_STATE_STARTING
         then SetPortState s dwNewState
         else if MinorCmd pIrp = IRP_MN_PNP_STACK_BUILT \<and> dwNewState = PORT_STATE_BUSY
         then PushState s dwNewState True
         else if MinorCmd pIrp = IRP_MN_PNP_STACK_DESTROY \<and> dwNewState = PORT_STATE_BUSY
         then PushState s dwNewState False
         else (ERROR_STATE, s))
      else (ERROR_STATE, s))"

definition HandleStarting :: "port_state \<Rightarrow> irp option \<Rightarrow> nat \<Rightarrow> int \<times> port_state" where
  "HandleStarting s pIrp dwNewState =
     (if no_irp pIrp then (- EINVAL, s)
      else if MajorCmd pIrp = IRP_MJ_PNP then
        (if MinorCmd pIrp = IRP_MN_PNP_STOP \<and> dwNewState = PORT_STATE_STOPPING
         then (- EAGAIN, s) else (ERROR_STATE, s))
      else (ERROR_STATE, s))"

definition HandleStopping :: "port_state \<Rightarrow> irp option \<Rightarrow> nat \<Rightarrow> int \<times> port_state" where
  "HandleStopping s pIrp dwNewState =
     (if no_irp pIrp then (- EINVAL, s) else (ERROR_STATE, s))"

definition HandleStopped :: "port_state \<Rightarrow> irp option \<Rightarrow> nat \<Rightarrow> int \<times> port_state" where
  "HandleStopped s pIrp dwNewState =
     (if no_irp pIrp then (- EINVAL, s)
      else if MajorCmd pIrp = IRP_MJ_PNP then
        (if MinorCmd pIrp = IRP_MN_PNP_REATTACH \<and> dwNewState = PORT_STATE_ATTACHED
         then SetPortState s dwNewState
         else if MinorCmd pIrp = IRP_MN_PNP_STACK_DESTROY \<and> dwNewState = PORT_STATE_BUSY
         then PushState s dwNewState True
         else (ERROR_STATE, s))
      else (ERROR_STATE, s))"

definition HandleRemoved :: "port_state \<Rightarrow> irp option \<Rightarrow> nat \<Rightarrow> int \<times> port_state" where
  "HandleRemoved s pIrp dwNewState =
     (if no_irp pIrp then (- EINVAL, s) else (ERROR_STATE, s))"

text \<open>
  \<open>HandleBusy\<close> waits on the semaphore with the lock of the object held, and everyone who
  posts it takes that lock first: with no token available the wait never ends, which is
  the result \<open>None\<close>, unless a signal interrupts it (\<open>intr\<close>).
\<close>

definition HandleBusy ::
  "bool \<Rightarrow> port_state \<Rightarrow> irp option \<Rightarrow> nat \<Rightarrow> (int \<times> port_state) option" where
  "HandleBusy intr s pIrp dwNewState =
     (if no_irp pIrp then Some (- EINVAL, s)
      else if semReady s > 0 then Some (ERROR_REPEAT, s\<lparr>semReady := semReady s - 1\<rparr>)
      else if intr then Some (- EINTR, s)
      else None)"

definition HandleBusyShared :: "port_state \<Rightarrow> irp option \<Rightarrow> nat \<Rightarrow> int \<times> port_state" where
  "HandleBusyShared s pIrp dwNewState =
     (if no_irp pIrp then (- EINVAL, s)
      else let minor = MinorCmd pIrp; pend = (\<lambda>(ret, s1).
             if SUCCEEDED ret then (STATUS_PENDING, s1\<lparr>exclIrp := pIrp\<rparr>) else (ret, s1))
      in if MajorCmd pIrp = IRP_MJ_PNP then
        (if (minor = IRP_MN_PNP_QUERY_STOP \<or> minor = IRP_MN_PNP_STOP_CHILD)
            \<and> dwNewState = PORT_STATE_BUSY_SHARED
         then PushState s dwNewState False
         else if minor = IRP_MN_PNP_STOP
         then pend (PushState s PORT_STATE_EXCLUDE_PENDING True)
         else (ERROR_STATE, s))
      else if MajorCmd pIrp = IRP_MJ_FUNC then
        (if dwNewState = PORT_STATE_BUSY
         then pend (PushState s PORT_STATE_EXCLUDE_PENDING True)
         else if dwNewState = PORT_STATE_BUSY_SHARED
         then PushState s PORT_STATE_BUSY_SHARED True
         else (ERROR_STATE, s))
      else (- EAGAIN, s))"

definition HandleExclPending :: "port_state \<Rightarrow> irp option \<Rightarrow> nat \<Rightarrow> int \<times> port_state" where
  "HandleExclPending s pIrp dwNewState =
     (if no_irp pIrp then (- EINVAL, s) else (ERROR_STATE, s))"

definition HandleStopResume :: "port_state \<Rightarrow> irp option \<Rightarrow> nat \<Rightarrow> int \<times> port_state" where
  "HandleStopResume s pIrp dwNewState =
     (if dwNewState \<noteq> PORT_STATE_STOPPING then (ERROR_STATE, s) else SetPortState s dwNewState)"

definition HandleBusyResume :: "port_state \<Rightarrow> irp option \<Rightarrow> nat \<Rightarrow> int \<times> port_state" where
  "HandleBusyResume s pIrp dwNewState =
     (if dwNewState \<noteq> PORT_STATE_BUSY then (ERROR_STATE, s) else SetPortState s dwNewState)"

text \<open>The \<open>switch\<close> of \<open>CanContinue\<close> over the current state.\<close>

definition dispatch ::
  "bool \<Rightarrow> nat \<Rightarrow> port_state \<Rightarrow> irp option \<Rightarrow> nat \<Rightarrow> (int \<times> port_state) option" where
  "dispatch intr cur s pIrp new =
     (if cur = PORT_STATE_READY then Some (HandleReady s pIrp new)
      else if cur = PORT_STATE_ATTACHED then Some (HandleAttached s pIrp new)
      else if cur = PORT_STATE_STARTING then Some (HandleStarting s pIrp new)
      else if cur = PORT_STATE_STOPPING then Some (HandleStopping s pIrp new)
      else if cur = PORT_STATE_STOPPED then Some (HandleStopped s pIrp new)
      else if cur = PORT_STATE_REMOVED then Some (HandleRemoved s pIrp new)
      else if cur = PORT_STATE_BUSY then HandleBusy intr s pIrp new
      else if cur = PORT_STATE_BUSY_SHARED then Some (HandleBusyShared s pIrp new)
      else if cur = PORT_STATE_EXCLUDE_PENDING then Some (HandleExclPending s pIrp new)
      else if cur = PORT_STATE_STOP_RESUME then Some (HandleStopResume s pIrp new)
      else if cur = PORT_STATE_BUSY_RESUME then Some (HandleBusyResume s pIrp new)
      else Some (ERROR_STATE, s))"

lemma PushState_ret: "fst (PushState s d b) \<in> {0, - EINVAL, - EFAULT, - EAGAIN}"
  by (auto simp: PushState_def split: option.splits)

lemma SetPortState_ret: "fst (SetPortState s d) \<in> {0, - EINVAL, ERROR_STATE}"
  by (auto simp: SetPortState_def split: list.splits)

lemma dispatch_repeat:
  assumes "dispatch intr cur s pIrp new = Some (ERROR_REPEAT, s1)"
  shows "semReady s > 0 \<and> semReady s1 = semReady s - 1"
proof -
  have p: "PushState s d b \<noteq> (ERROR_REPEAT, s')" for d b s'
    using PushState_ret [of s d b] by auto
  have q: "SetPortState s d \<noteq> (ERROR_REPEAT, s')" for d s'
    using SetPortState_ret [of s d] by auto
  from assms show ?thesis
    by (auto simp: dispatch_def HandleReady_def HandleAttached_def HandleStarting_def
        HandleStopping_def HandleStopped_def HandleRemoved_def HandleBusy_def
        HandleBusyShared_def HandleExclPending_def HandleStopResume_def HandleBusyResume_def
        Let_def p q split: if_splits prod.splits)
qed

text \<open>
  \<open>CanContinue\<close>: the result, the state reported through \<open>pdwOldState\<close> (\<open>None\<close> where it is
  left unset) and the new state; \<open>None\<close> as a whole is a call that never returns. Every
  round of the \<open>do\<close> loop after the first has taken a token of the semaphore.
\<close>

function CanContinue_loop ::
  "bool \<Rightarrow> port_state \<Rightarrow> irp option \<Rightarrow> nat \<Rightarrow> nat option
    \<Rightarrow> (int \<times> nat option \<times> port_state) option" where
  "CanContinue_loop intr s pIrp new old =
     (case vecStates s of
        [] \<Rightarrow> Some (ERROR_STATE, old, s)
      | cur # _ \<Rightarrow>
          if \<not> IsValidSubmit s new then Some (ERROR_STATE, Some cur, s)
          else (case dispatch intr cur s pIrp new of
              None \<Rightarrow> None
            | Some (ret, s1) \<Rightarrow>
                if ret = ERROR_REPEAT then CanContinue_loop intr s1 pIrp new (Some cur)
                else Some (ret, Some cur, s1)))"
  by pat_completeness auto
termination
  by (relation "measure (\<lambda>(intr, s, pIrp, new, old). nat (semReady s))")
     (auto dest: dispatch_repeat)

declare CanContinue_loop.simps [simp del]

definition CanContinue ::
  "bool \<Rightarrow> port_state \<Rightarrow> irp option \<Rightarrow> nat \<Rightarrow> (int \<times> nat option \<times> port_state) option" where
  "CanContinue intr s pIrp dwNewState =
     (if dwNewState > PORTSTAT_MAP_LEN then Some (- EINVAL, None, s)
      else CanContinue_loop intr s pIrp dwNewState None)"

subsection \<open>Leaving a state, and the resume task\<close>

datatype exn = RuntimeError

text \<open>\<open>schedRet\<close> is what \<open>ScheduleTask\<close> of the I/O manager returns.\<close>

definition ScheduleResumeTask :: "int \<Rightarrow> port_state \<Rightarrow> nat \<Rightarrow> irp \<Rightarrow> int \<times> port_state" where
  "ScheduleResumeTask schedRet s pTask pIrp =
     (if ERROR schedRet then (schedRet, s)
      else (schedRet, s\<lparr>scheduled := scheduled s @ [(pTask, pIrp)]\<rparr>))"

text \<open>
  \<open>PopState\<close>: the result or the exception, the state reported through \<open>dwState\<close>
  (\<open>None\<close> where it is left unset), and the new state.
\<close>

definition PopState :: "int \<Rightarrow> port_state \<Rightarrow> (exn + int) \<times> nat option \<times> port_state" where
  "PopState schedRet s =
     (case vecStates s of
        [] \<Rightarrow> (Inr ERROR_STATE, None, s)
      | dwState # rest \<Rightarrow>
        let s1 = s\<lparr>vecStates := rest\<rparr> in
        if dwState = PORT_STATE_BUSY then (Inr 0, Some dwState, SEM_WAKEUP_SINGLE s1)
        else if dwState \<noteq> PORT_STATE_EXCLUDE_PENDING then (Inr 0, Some dwState, s1)
        else if length rest \<le> 1 then (Inr ERROR_STATE, Some dwState, s1)
        else let second = hd rest in
          if second \<noteq> PORT_STATE_BUSY_SHARED then (Inr ERROR_STATE, Some second, s1)
          else let s2 = s1\<lparr>vecStates := tl rest\<rparr> in
            if hd (tl rest) = PORT_STATE_BUSY_SHARED
            then (Inr 0, Some second,
                  s2\<lparr>vecStates := PORT_STATE_EXCLUDE_PENDING # vecStates s2\<rparr>)
            else if no_irp (exclIrp s2) \<or> resume s2 = None
            then (Inl RuntimeError, Some second, s2)
            else let pTask = the (resume s2); pIrp = the (exclIrp s2);
                     s3 = s2\<lparr>resume := None,
                             vecStates := PORT_STATE_EXCLUDE_PENDING # vecStates s2\<rparr>;
                     (ret, s4) = SetPortState s3 PORT_STATE_BUSY_RESUME
                 in if ERROR ret then (Inr ret, Some second, s4)
                    else let (ret', s5) = ScheduleResumeTask schedRet s4 pTask pIrp
                         in (Inr ret', Some second, s5))"

text \<open>
  The resume task. Its configuration carries the port (\<open>hasPort\<close>), the task and the
  request; \<open>irpReady\<close> is the result of \<open>CanContinue\<close> of the request itself, \<open>run\<close> what
  the resumed task does to the port state.
\<close>

definition ResumeSubmitTask ::
  "bool \<Rightarrow> nat option \<Rightarrow> irp option \<Rightarrow> int \<Rightarrow> (nat \<Rightarrow> port_state \<Rightarrow> int \<times> port_state)
    \<Rightarrow> port_state \<Rightarrow> int \<times> port_state" where
  "ResumeSubmitTask hasPort pTask pIrp irpReady run s =
     (if \<not> hasPort \<or> pTask = None \<or> pIrp = None then (- ENOENT, s)
      else if ERROR irpReady then (irpReady, s)
      else if irp_stack (the pIrp) = [] then (- EFAULT, s)
      else if MajorCmd pIrp = IRP_MJ_PNP \<and> MinorCmd pIrp = IRP_MN_PNP_STOP
      then let (ret, s1) = SetPortState s PORT_STATE_STOP_RESUME
           in if ERROR ret then (ret, s1) else run (the pTask) s1
      else run (the pTask) s)"

text \<open>
  How \<open>CPort::SubmitStopIrp\<close> (\<open>ipc/port.cpp\<close>) enters the machine, under the lock of the
  port state: it asks for \<open>STOPPING\<close> and, when told to wait, installs the resume point.
  \<open>getTask\<close> is the result of \<open>GetStopResumeTask\<close>. The result \<open>None\<close> is a call that never
  returns; the flag says whether the caller goes on to stop the port now.
\<close>

definition SubmitStopIrp_enter ::
  "bool \<Rightarrow> (int \<times> nat) \<Rightarrow> port_state \<Rightarrow> irp \<Rightarrow> (int \<times> bool \<times> port_state) option" where
  "SubmitStopIrp_enter intr getTask s pIrp =
     (case CanContinue intr s (Some pIrp) PORT_STATE_STOPPING of
        None \<Rightarrow> None
      | Some (ret, _, s1) \<Rightarrow>
          if ERROR ret then Some (ret, False, s1)
          else if ret = STATUS_PENDING then
            (if ERROR (fst getTask) then Some (fst getTask, False, s1)
             else Some (STATUS_PENDING, False, SetResumePoint s1 (snd getTask)))
          else Some (ret, True, s1))"

subsection \<open>The table and the handlers, state by state\<close>

lemma le10_cases:
  "(n::nat) \<le> 10 \<Longrightarrow> n \<in> {0, 1, 2, 3, 4, 5, 6, 7, 8, 9, 10}"
  by (simp add: le_Suc_eq numeral_eq_Suc)

lemma map_action_table:
  "map_action 0 n = [1, 0, 0, 1, 0, 0, 1, 1, 0, 0, 0] ! n"
  "map_action 1 n = [0, 2, 1, 0, 0, 0, 1, 0, 0, 0, 0] ! n"
  "map_action (Suc 0) n = [0, 2, 1, 0, 0, 0, 1, 0, 0, 0, 0] ! n"
  "map_action 2 n = [4, 3, 2, 0, 2, 0, 0, 0, 0, 0, 0] ! n"
  "map_action 3 n = [0, 0, 0, 2, 4, 0, 0, 0, 0, 0, 0] ! n"
  "map_action 4 n = [0, 1, 0, 0, 2, 1, 1, 0, 0, 0, 0] ! n"
  "map_action 5 n = [0, 0, 0, 0, 0, 2, 0, 0, 0, 0, 0] ! n"
  "map_action 6 n = [3, 3, 0, 0, 3, 0, 2, 0, 0, 0, 0] ! n"
  "map_action 7 n = [3, 0, 0, -1, 0, 0, 0, 1, 1, 0, 0] ! n"
  "map_action 8 n = [0, 0, 0, 0, 0, 0, 0, 0, 0, 4, 4] ! n"
  "map_action 9 n = [0, 0, 0, 1, 0, 0, 0, 0, 0, 0, 0] ! n"
  "map_action 10 n = [0, 0, 0, 0, 0, 0, 1, 0, 0, 4, 0] ! n"
  by (simp_all add: map_action_def arrStatMap_def)

text \<open>The submissions the table admits, as (current, wanted) pairs.\<close>

definition submit_pairs :: "(nat \<times> nat) list" where
  "submit_pairs = [(0, 0), (0, 3), (0, 6), (0, 7), (1, 2), (1, 6), (4, 1), (4, 5), (4, 6),
     (7, 3), (7, 7), (7, 8), (9, 3), (10, 6)]"

lemma IsValidSubmit_pairs:
  assumes "vecStates s = cur # r" "cur \<le> 10" "new \<le> 10"
  shows "IsValidSubmit s new \<longleftrightarrow> (cur, new) \<in> set submit_pairs"
proof -
  have "list_all (\<lambda>c. list_all (\<lambda>n. (map_action c n = 1 \<or> map_action c n = -1)
          \<longleftrightarrow> List.member submit_pairs (c, n)) [0..<11]) [0..<11]"
    by code_simp
  then have "\<forall>c < 11. \<forall>n < 11. (map_action c n = 1 \<or> map_action c n = -1)
          \<longleftrightarrow> (c, n) \<in> set submit_pairs"
    by (simp add: list_all_iff)
  moreover have "IsValidSubmit s new \<longleftrightarrow> map_action cur new = 1 \<or> map_action cur new = -1"
    using assms by (simp add: IsValidSubmit_def Let_def)
  ultimately show ?thesis using assms by simp
qed

lemma CanContinue_step:
  assumes "vecStates s = cur # r" "new \<le> 11" "IsValidSubmit s new"
    "dispatch intr cur s pIrp new = Some (ret, s1)" "ret \<noteq> ERROR_REPEAT"
  shows "CanContinue intr s pIrp new = Some (ret, Some cur, s1)"
  using assms by (simp add: CanContinue_def CanContinue_loop.simps)

lemma CanContinue_reject:
  assumes "vecStates s = cur # r" "new \<le> 11" "\<not> IsValidSubmit s new"
  shows "CanContinue intr s pIrp new = Some (ERROR_STATE, Some cur, s)"
  using assms by (simp add: CanContinue_def CanContinue_loop.simps)

subsection \<open>The shape of the stack\<close>

fun shared_base :: "nat list \<Rightarrow> bool" where
  "shared_base [] = False"
| "shared_base (x # xs) =
     (x = PORT_STATE_BUSY_SHARED \<and> (xs = [PORT_STATE_READY] \<or> shared_base xs))"

lemma shared_base_replicate:
  "shared_base xs \<longleftrightarrow> (\<exists>n. xs = replicate (Suc n) PORT_STATE_BUSY_SHARED @ [PORT_STATE_READY])"
proof (induction xs)
  case (Cons x xs)
  have "(\<exists>n. x # xs = replicate (Suc n) PORT_STATE_BUSY_SHARED @ [PORT_STATE_READY]) \<longleftrightarrow>
      x = PORT_STATE_BUSY_SHARED \<and>
      (\<exists>n. xs = replicate n PORT_STATE_BUSY_SHARED @ [PORT_STATE_READY])" by auto
  also have "(\<exists>n. xs = replicate n PORT_STATE_BUSY_SHARED @ [PORT_STATE_READY]) \<longleftrightarrow>
      xs = [PORT_STATE_READY] \<or>
      (\<exists>n. xs = replicate (Suc n) PORT_STATE_BUSY_SHARED @ [PORT_STATE_READY])"
    by (metis append_Nil replicate_0 not0_implies_Suc)
  finally show ?case using Cons.IH by simp
qed simp

text \<open>
  A quiescent port has its life-cycle state alone on the stack; an exclusive request puts
  \<open>BUSY\<close> on it; shared requests put one \<open>BUSY_SHARED\<close> each on \<open>READY\<close>; a request waiting
  for them puts \<open>EXCLUDE_PENDING\<close> on top, with the request and its resume point recorded.
\<close>

definition stack_ok :: "nat list \<Rightarrow> bool" where
  "stack_ok st = (case st of
      [] \<Rightarrow> False
    | [b] \<Rightarrow> b \<in> {PORT_STATE_READY, PORT_STATE_ATTACHED, PORT_STATE_STARTING,
        PORT_STATE_STOPPING, PORT_STATE_STOPPED, PORT_STATE_REMOVED, PORT_STATE_STOP_RESUME}
    | t # rest \<Rightarrow>
        t = PORT_STATE_BUSY \<and>
          (rest = [PORT_STATE_READY] \<or> rest = [PORT_STATE_ATTACHED] \<or> rest = [PORT_STATE_STOPPED])
      \<or> t = PORT_STATE_BUSY_RESUME \<and> rest = [PORT_STATE_READY]
      \<or> shared_base (t # rest)
      \<or> t = PORT_STATE_EXCLUDE_PENDING \<and> shared_base rest)"

definition port_inv :: "port_state \<Rightarrow> bool" where
  "port_inv s \<longleftrightarrow> \<not> undef s \<and> stack_ok (vecStates s) \<and>
     (hd (vecStates s) = PORT_STATE_EXCLUDE_PENDING \<longrightarrow>
        \<not> no_irp (exclIrp s) \<and> resume s \<noteq> None)"

text \<open>The calls the port code makes, as events.\<close>

datatype port_event =
    Submit bool "irp option" nat
  | StopEnter bool "int \<times> nat" irp
  | Pop int
  | SetState nat
  | SetWake nat nat bool

primrec port_step :: "port_state \<Rightarrow> port_event \<Rightarrow> port_state" where
  "port_step s (Submit intr pIrp new) =
     (case CanContinue intr s pIrp new of None \<Rightarrow> s | Some (_, _, s1) \<Rightarrow> s1)"
| "port_step s (StopEnter intr task pIrp) =
     (case SubmitStopIrp_enter intr task s pIrp of None \<Rightarrow> s | Some (_, _, s1) \<Rightarrow> s1)"
| "port_step s (Pop schedRet) = snd (snd (PopState schedRet s))"
| "port_step s (SetState new) = snd (SetPortState s new)"
| "port_step s (SetWake cur new w) = snd (SetPortStateWake s cur new w)"

definition is_stop :: "irp option \<Rightarrow> bool" where
  "is_stop pIrp \<longleftrightarrow> \<not> no_irp pIrp \<and> MajorCmd pIrp = IRP_MJ_PNP \<and> MinorCmd pIrp = IRP_MN_PNP_STOP"






text \<open>The stacks \<open>stack_ok\<close> admits, one shape per case.\<close>

lemma stack_ok_cases:
  assumes "stack_ok st"
  obtains (base) b where "st = [b]" "b \<in> {0, 1, 2, 3, 4, 5, 9}"
  | (busy) b where "st = [6, b]" "b \<in> {0, 1, 4}"
  | (resumed) "st = [10, 0]"
  | (shared) r where "st = 7 # r" "r = [0] \<or> shared_base r"
  | (pending) r where "st = 8 # 7 # r" "r = [0] \<or> shared_base r"
proof (cases st)
  case Nil
  then show ?thesis using assms by (simp add: stack_ok_def)
next
  case (Cons t rest)
  show ?thesis
  proof (cases rest)
    case Nil
    then show ?thesis using assms Cons base [of t] by (simp add: stack_ok_def)
  next
    case rest: (Cons u r)
    have "t = 6 \<and> (rest = [0] \<or> rest = [1] \<or> rest = [4]) \<or> t = 10 \<and> rest = [0] \<or>
        shared_base (t # rest) \<or> t = 8 \<and> shared_base rest"
      using assms Cons rest by (simp add: stack_ok_def)
    then show ?thesis
      using Cons rest busy [of u] resumed shared [of rest] pending [of r] by auto
  qed
qed

lemma stack_ok_simps [simp]:
  "stack_ok [b] \<longleftrightarrow> b \<in> {0, 1, 2, 3, 4, 5, 9}"
  "stack_ok [6, b] \<longleftrightarrow> b \<in> {0, 1, 4}"
  "stack_ok [10, 0]"
  "stack_ok (7 # r) \<longleftrightarrow> r = [0] \<or> shared_base r"
  "stack_ok (8 # 7 # r) \<longleftrightarrow> r = [0] \<or> shared_base r"
  by (auto simp: stack_ok_def split: list.splits)

subsection \<open>What one call of \<open>CanContinue\<close> can do\<close>

text \<open>
  Inside the table a call either refuses and changes nothing, or admits by pushing the
  wanted state, or moves the life-cycle state, or pends a stop behind shared requests.
\<close>

lemma PushState_outcome:
  "PushState s d b = (ret, s1) \<Longrightarrow>
     s1 = s \<and> ERROR ret \<or> ret = 0 \<and> s1 = s\<lparr>vecStates := d # vecStates s\<rparr>"
  by (auto simp: PushState_def split: if_splits option.splits)

lemma SetPortState_plain:
  assumes "vecStates s = cur # r" "new \<le> 10" "map_action cur new \<noteq> 0" "new \<noteq> PORT_STATE_STOP_RESUME"
  shows "SetPortState s new = (0, s\<lparr>vecStates := new # r\<rparr>)"
  using assms by (simp add: SetPortState_def)

lemma stack_ok_top: "stack_ok (cur # r) \<Longrightarrow> cur \<le> 10"
  by (erule stack_ok_cases) auto

definition granted :: "nat \<Rightarrow> nat \<Rightarrow> bool" where
  "granted cur new \<longleftrightarrow> (cur, new) \<in> {(0, 6), (0, 7), (1, 6), (4, 6), (7, 7)}"

definition moved :: "nat \<Rightarrow> nat \<Rightarrow> bool" where
  "moved cur new \<longleftrightarrow> (cur, new) \<in> {(0, 3), (1, 2), (4, 1), (9, 3), (10, 6)}"

lemma dispatch_outcome:
  assumes st: "vecStates s = cur # r" and ok: "(cur, new) \<in> set submit_pairs"
    and d: "dispatch intr cur s pIrp new = Some (ret, s1)"
  shows "s1 = s \<and> ERROR ret \<and> ret \<noteq> ERROR_REPEAT
    \<or> ret = 0 \<and> granted cur new \<and> s1 = s\<lparr>vecStates := new # cur # r\<rparr>
    \<or> ret = 0 \<and> moved cur new \<and> s1 = s\<lparr>vecStates := new # r\<rparr>
    \<or> ret = STATUS_PENDING \<and> is_stop pIrp \<and> cur = PORT_STATE_BUSY_SHARED
      \<and> s1 = s\<lparr>vecStates := PORT_STATE_EXCLUDE_PENDING # cur # r, exclIrp := pIrp\<rparr>"
proof -
  note handlers = dispatch_def HandleReady_def HandleAttached_def HandleStopped_def
    HandleBusyShared_def HandleStopResume_def HandleBusyResume_def Let_def PushState_def
    SetPortState_def map_action_table granted_def moved_def is_stop_def
  from ok have "cur = 0 \<and> new \<in> {0, 3, 6, 7} \<or> cur = 1 \<and> new \<in> {2, 6} \<or>
      cur = 4 \<and> new \<in> {1, 5, 6} \<or> cur = 7 \<and> new \<in> {3, 7, 8} \<or> cur = 9 \<and> new = 3 \<or>
      cur = 10 \<and> new = 6"
    by (auto simp: submit_pairs_def)
  then show ?thesis
    by (elim disjE conjE insertE emptyE;
        use d st in \<open>auto simp: handlers split: if_splits option.splits\<close>)
qed

lemma CanContinue_outcome:
  assumes st: "vecStates s = cur # r" and top: "cur \<le> 10" and new: "new \<le> 10"
  obtains (refused) ret where "CanContinue intr s pIrp new = Some (ret, Some cur, s)" "ERROR ret"
  | (granted) "CanContinue intr s pIrp new = Some (0, Some cur, s\<lparr>vecStates := new # cur # r\<rparr>)"
      "granted cur new"
  | (moved) "CanContinue intr s pIrp new = Some (0, Some cur, s\<lparr>vecStates := new # r\<rparr>)"
      "moved cur new"
  | (pended) "CanContinue intr s pIrp new = Some (STATUS_PENDING, Some cur,
        s\<lparr>vecStates := PORT_STATE_EXCLUDE_PENDING # cur # r, exclIrp := pIrp\<rparr>)"
      "is_stop pIrp" "cur = PORT_STATE_BUSY_SHARED"
proof (cases "IsValidSubmit s new")
  case False
  then have "CanContinue intr s pIrp new = Some (ERROR_STATE, Some cur, s)"
    using new CanContinue_reject [OF st, of new] by simp
  then show ?thesis by (rule refused) simp
next
  case True
  have pair: "(cur, new) \<in> set submit_pairs" using True IsValidSubmit_pairs [OF st top new] by simp
  then have "cur \<noteq> PORT_STATE_BUSY" by (auto simp: submit_pairs_def)
  then have "dispatch intr cur s pIrp new \<noteq> None" by (simp add: dispatch_def)
  then obtain ret s1 where d: "dispatch intr cur s pIrp new = Some (ret, s1)" by auto
  note out = dispatch_outcome [OF st pair d]
  then have "ret \<noteq> ERROR_REPEAT" by auto
  then have cc: "CanContinue intr s pIrp new = Some (ret, Some cur, s1)"
    using CanContinue_step [OF st _ True d] new by simp
  from out show ?thesis
    using cc refused [of ret] granted moved pended by auto
qed

text \<open>The invariant, operation by operation.\<close>

lemma port_inv_vec:
  assumes "port_inv s" obtains cur r where "vecStates s = cur # r"
  using assms by (cases "vecStates s") (auto simp: port_inv_def stack_ok_def)






subsection \<open>What \<open>PopState\<close> does to each shape\<close>

lemma SEM_WAKEUP_frame [simp]:
  "vecStates (SEM_WAKEUP_SINGLE s) = vecStates s" "undef (SEM_WAKEUP_SINGLE s) = undef s"
  "exclIrp (SEM_WAKEUP_SINGLE s) = exclIrp s" "resume (SEM_WAKEUP_SINGLE s) = resume s"
  "vecStates (SEM_WAKEUP_ALL s) = vecStates s" "undef (SEM_WAKEUP_ALL s) = undef s"
  "exclIrp (SEM_WAKEUP_ALL s) = exclIrp s" "resume (SEM_WAKEUP_ALL s) = resume s"
  by (simp_all add: SEM_WAKEUP_SINGLE_def SEM_WAKEUP_ALL_def Let_def)

lemma PopState_busy:
  "vecStates s = PORT_STATE_BUSY # r \<Longrightarrow>
     PopState sr s = (Inr 0, Some PORT_STATE_BUSY, SEM_WAKEUP_SINGLE (s\<lparr>vecStates := r\<rparr>))"
  by (simp add: PopState_def Let_def)

lemma PopState_shared:
  "vecStates s = PORT_STATE_BUSY_SHARED # r \<Longrightarrow>
     PopState sr s = (Inr 0, Some PORT_STATE_BUSY_SHARED, s\<lparr>vecStates := r\<rparr>)"
  by (simp add: PopState_def Let_def)

lemma PopState_pending_more:
  assumes "vecStates s = PORT_STATE_EXCLUDE_PENDING # PORT_STATE_BUSY_SHARED # r" "shared_base r"
  shows "PopState sr s = (Inr 0, Some PORT_STATE_BUSY_SHARED,
      s\<lparr>vecStates := PORT_STATE_EXCLUDE_PENDING # r\<rparr>)"
  using assms by (cases r) (auto simp: PopState_def Let_def)

text \<open>The last shared request leaves: the machine turns to \<open>BUSY_RESUME\<close> and the resume task is handed over.\<close>

lemma PopState_pending_last:
  assumes "vecStates s = [PORT_STATE_EXCLUDE_PENDING, PORT_STATE_BUSY_SHARED, PORT_STATE_READY]"
    "exclIrp s = Some i" "irp_stack i \<noteq> []" "resume s = Some t"
  shows "PopState sr s = (Inr sr, Some PORT_STATE_BUSY_SHARED,
      s\<lparr>vecStates := [PORT_STATE_BUSY_RESUME, PORT_STATE_READY], resume := None,
        scheduled := scheduled s @ (if ERROR sr then [] else [(t, i)])\<rparr>)"
  using assms
  by (simp add: PopState_def Let_def no_irp_def SetPortState_def map_action_table
      ScheduleResumeTask_def)


text \<open>A pop of an admission never throws and never reports a broken machine.\<close>

lemma PopState_result:
  assumes inv: "port_inv s"
    and top: "hd (vecStates s) \<in> {PORT_STATE_BUSY, PORT_STATE_BUSY_SHARED, PORT_STATE_EXCLUDE_PENDING}"
  shows "fst (PopState sr s) \<in> {Inr 0, Inr sr}"
proof -
  have ok: "stack_ok (vecStates s)" using inv by (simp add: port_inv_def)
  then show ?thesis
  proof (cases rule: stack_ok_cases)
    case (pending r)
    obtain i t where it: "exclIrp s = Some i" "irp_stack i \<noteq> []" "resume s = Some t"
      using inv pending by (auto simp: port_inv_def no_irp_def split: option.splits)
    show ?thesis
      using pending PopState_pending_last [OF _ it] PopState_pending_more [of s r]
      by (cases "shared_base r") auto
  qed (use top in \<open>auto simp: PopState_busy PopState_shared\<close>)
qed

subsection \<open>What a direct change of the state can do\<close>





subsection \<open>What holds after any calls\<close>

text \<open>
  Every entry indexes the table, every entry below the top is one an admission can stand
  on, and the two states that only make sense above others are never at the bottom.
  The semaphore of the port never holds a token.
\<close>

definition port_sound :: "port_state \<Rightarrow> bool" where
  "port_sound s \<longleftrightarrow> \<not> undef s \<and> semReady s \<le> 0 \<and> (\<forall>x \<in> set (vecStates s). x \<le> MAX_PORT_STATE)
     \<and> set (tl (vecStates s)) \<subseteq>
         {PORT_STATE_READY, PORT_STATE_ATTACHED, PORT_STATE_STOPPED, PORT_STATE_BUSY_SHARED}
     \<and> (vecStates s \<noteq> [] \<longrightarrow>
         last (vecStates s) \<notin> {PORT_STATE_EXCLUDE_PENDING, PORT_STATE_BUSY_RESUME})"

lemma sound_irp [simp]: "port_sound (s\<lparr>exclIrp := i\<rparr>) = port_sound s"
  "port_sound (s\<lparr>resume := t\<rparr>) = port_sound s" "port_sound (s\<lparr>scheduled := q\<rparr>) = port_sound s"
  by (simp_all add: port_sound_def)












subsection \<open>What holds while no admission is overwritten\<close>









subsection \<open>What holds while moreover every pop matches an admission\<close>




subsection \<open>Properties\<close>





text \<open>A start request followed by the two steps that make the port ready.\<close>

definition start_irp :: irp where
  "start_irp = \<lparr>irp_id = 1, irp_stack = [(IRP_MJ_PNP, IRP_MN_PNP_START)]\<rparr>"

definition stop_irp :: irp where
  "stop_irp = \<lparr>irp_id = 2, irp_stack = [(IRP_MJ_PNP, IRP_MN_PNP_STOP)]\<rparr>"

definition func_irp :: irp where
  "func_irp = \<lparr>irp_id = 3, irp_stack = [(IRP_MJ_FUNC, 1)]\<rparr>"

lemmas irp_examples = start_irp_def stop_irp_def func_irp_def no_irp_def MajorCmd_def MinorCmd_def




text \<open>
  A response that reaches a starting port is refused, and the pop that follows all the same
  (\<open>CRpcTcpFido::HandleIrpResp\<close>, \<open>rpc/tcpfido.cpp\<close>) takes the life-cycle state off the
  stack; from then on every submission fails.
\<close>

lemma refused_submit_then_pop:
  assumes st: "vecStates s = [PORT_STATE_STARTING]"
  shows "CanContinue intr s (Some i) PORT_STATE_BUSY_SHARED = Some (ERROR_STATE, Some PORT_STATE_STARTING, s)"
    and "PopState sr s = (Inr 0, Some PORT_STATE_STARTING, s\<lparr>vecStates := []\<rparr>)"
    and "new \<le> MAX_PORT_STATE \<Longrightarrow>
      CanContinue intr (s\<lparr>vecStates := []\<rparr>) pIrp new = Some (ERROR_STATE, None, s\<lparr>vecStates := []\<rparr>)"
proof -
  have "\<not> IsValidSubmit s 7" using st by (simp add: IsValidSubmit_def map_action_table)
  then show "CanContinue intr s (Some i) 7 = Some (ERROR_STATE, Some 2, s)"
    using CanContinue_reject [OF st, of 7] by simp
qed (use st in \<open>simp_all add: PopState_def Let_def CanContinue_def CanContinue_loop.simps\<close>)

text \<open>
  The wake-up to \<open>STOPPED\<close> of a busy port replaces the admission; the pop of the request in
  progress then takes the \<open>STOPPED\<close> away and the port is ready.
\<close>

lemma busy_port_stopped_then_ready:
  assumes st: "vecStates s = [PORT_STATE_BUSY, PORT_STATE_READY]" and sem: "semReady s = 0"
  shows "SetPortStateWake s (GetPortState s) PORT_STATE_STOPPED w
      = (True, s\<lparr>vecStates := [PORT_STATE_STOPPED, PORT_STATE_READY]\<rparr>)"
    and "snd (snd (PopState sr (s\<lparr>vecStates := [PORT_STATE_STOPPED, PORT_STATE_READY]\<rparr>)))
      = s\<lparr>vecStates := [PORT_STATE_READY]\<rparr>"
  using st sem
  by (simp_all add: SetPortStateWake_def GetPortState_def SetPortState_def map_action_table
      SEM_WAKEUP_SINGLE_def SEM_WAKEUP_ALL_def PopState_def Let_def)

text \<open>
  once an exclusive request holds or awaits the port, or the port is starting, stopping
  or removed, \<open>CanContinue\<close> refuses every request for every state of the table with
  \<open>ERROR_STATE\<close>, reports the current state and changes nothing.
\<close>

theorem CanContinue_excluded:
  assumes st: "vecStates s = cur # r"
    and cur: "cur \<in> {PORT_STATE_BUSY, PORT_STATE_EXCLUDE_PENDING, PORT_STATE_STARTING,
      PORT_STATE_STOPPING, PORT_STATE_REMOVED}"
    and new: "new \<le> MAX_PORT_STATE"
  shows "CanContinue intr s pIrp new = Some (ERROR_STATE, Some cur, s)"
proof -
  have "(cur, new) \<notin> set submit_pairs" "cur \<le> 10" using cur by (auto simp: submit_pairs_def)
  then have "\<not> IsValidSubmit s new" using IsValidSubmit_pairs [OF st _ new] by simp
  then show ?thesis using CanContinue_reject [OF st] new by simp
qed

theorem CanContinue_excluded_witness:
  "CanContinue False ((new_port_state (Some 4))\<lparr>vecStates := [6, 0]\<rparr>) (Some func_irp) 7
     = Some (ERROR_STATE, Some 6, (new_port_state (Some 4))\<lparr>vecStates := [6, 0]\<rparr>)"
  by (rule CanContinue_excluded [of _ _ "[0]"]) (simp_all add: new_port_state_def)

text \<open>
  an admission and its pop cancel out: when \<open>CanContinue\<close> lets a request into \<open>BUSY\<close> or
  \<open>BUSY_SHARED\<close> from a state other than \<open>BUSY_RESUME\<close>, \<open>PopState\<close> succeeds, reports the
  state that was pushed and restores the port state exactly (on Linux, where
  \<open>sem_getvalue\<close> is never negative).
\<close>

theorem admission_pop_roundtrip:
  assumes inv: "port_inv s" and new: "new \<in> {PORT_STATE_BUSY, PORT_STATE_BUSY_SHARED}"
    and cur: "hd (vecStates s) \<noteq> PORT_STATE_BUSY_RESUME" and sem: "0 \<le> semReady s"
    and cc: "CanContinue intr s pIrp new = Some (0, old, s1)"
  shows "PopState sr s1 = (Inr 0, Some new, s)"
proof -
  obtain c r where st: "vecStates s = c # r" using inv by (rule port_inv_vec)
  have ok: "stack_ok (vecStates s)" using inv by (simp add: port_inv_def)
  then have top: "c \<le> 10" using st stack_ok_top by simp
  have "new \<le> 10" using new by auto
  then show ?thesis
  proof (rule CanContinue_outcome [OF st top, of new intr pIrp])
    assume "CanContinue intr s pIrp new = Some (0, Some c, s\<lparr>vecStates := new # c # r\<rparr>)"
    then have s1: "s1 = s\<lparr>vecStates := new # c # r\<rparr>" using cc by simp
    have "s\<lparr>vecStates := c # r\<rparr> = s" using st by simp
    then show ?thesis using new s1 sem
      by (auto simp: PopState_busy PopState_shared SEM_WAKEUP_SINGLE_def)
  qed (use cc new cur st in \<open>auto simp: moved_def\<close>)
qed

theorem admission_pop_roundtrip_witness:
  "PopState 0 ((new_port_state (Some 4))\<lparr>vecStates := [7, 7, 0]\<rparr>)
     = (Inr 0, Some 7, (new_port_state (Some 4))\<lparr>vecStates := [7, 0]\<rparr>)"
proof (rule admission_pop_roundtrip [of _ _ False "Some func_irp" "Some 7"])
  show "CanContinue False ((new_port_state (Some 4))\<lparr>vecStates := [7, 0]\<rparr>) (Some func_irp) 7 =
      Some (0, Some 7, (new_port_state (Some 4))\<lparr>vecStates := [7, 7, 0]\<rparr>)"
    by (simp add: CanContinue_def CanContinue_loop.simps new_port_state_def IsValidSubmit_def
        Let_def map_action_table dispatch_def HandleBusyShared_def irp_examples PushState_def)
qed (simp_all add: port_inv_def new_port_state_def)

text \<open>Shared requests leaving one by one while a stop is pending.\<close>

lemma pending_pops:
  assumes "vecStates s = PORT_STATE_EXCLUDE_PENDING # replicate (Suc n) PORT_STATE_BUSY_SHARED @ [PORT_STATE_READY]"
    and "k \<le> n"
  shows "foldl port_step s (replicate k (Pop sr)) =
    s\<lparr>vecStates := PORT_STATE_EXCLUDE_PENDING # replicate (Suc n - k) PORT_STATE_BUSY_SHARED @ [PORT_STATE_READY]\<rparr>"
  using assms
proof (induction k arbitrary: s n)
  case 0
  then show ?case by simp
next
  case (Suc k)
  then obtain m where n: "n = Suc m" by (cases n) auto
  have "shared_base (replicate (Suc m) 7 @ [0])" by (auto simp: shared_base_replicate)
  then have "port_step s (Pop sr) = s\<lparr>vecStates := 8 # replicate (Suc m) 7 @ [0]\<rparr>"
    using Suc.prems n PopState_pending_more [of s "replicate (Suc m) 7 @ [0]"] by simp
  then show ?case using Suc.IH [of "s\<lparr>vecStates := 8 # replicate (Suc m) 7 @ [0]\<rparr>" m] Suc.prems n
    by simp
qed

lemma stop_pends:
  assumes st: "vecStates s = replicate (Suc n) PORT_STATE_BUSY_SHARED @ [PORT_STATE_READY]"
    and room: "ioMgr s = Some cores" "n < cores"
    and stop: "is_stop (Some i)" and task: "\<not> ERROR (fst task)"
  shows "SubmitStopIrp_enter intr task s i = Some (STATUS_PENDING, False,
    s\<lparr>vecStates := PORT_STATE_EXCLUDE_PENDING # vecStates s, exclIrp := Some i,
      resume := Some (snd task)\<rparr>)"
proof -
  have st': "vecStates s = 7 # replicate n 7 @ [0]" using st by simp
  have v: "IsValidSubmit s 3" using st' by (simp add: IsValidSubmit_def map_action_table)
  have "dispatch intr 7 s (Some i) 3 = Some (STATUS_PENDING,
      s\<lparr>vecStates := 8 # vecStates s, exclIrp := Some i\<rparr>)"
    using stop room st by (simp add: dispatch_def HandleBusyShared_def is_stop_def Let_def PushState_def)
  then have "CanContinue intr s (Some i) 3 = Some (STATUS_PENDING, Some 7,
      s\<lparr>vecStates := 8 # vecStates s, exclIrp := Some i\<rparr>)"
    using CanContinue_step [OF st' _ v] by simp
  then show ?thesis using task by (simp add: SubmitStopIrp_enter_def SetResumePoint_def)
qed

text \<open>
  C2: a stop request that arrives while \<open>n + 1\<close> shared requests are in progress (and the
  push limit leaves room for it) is told to wait; the first \<open>n\<close> requests that leave keep it
  waiting, nothing scheduled; the last one turns the port to \<open>BUSY_RESUME\<close> and hands the
  resume task to the scheduler exactly once, with the resume point and the IRP of that stop.
\<close>

theorem stop_waits_for_shared:
  assumes st: "vecStates s = replicate (Suc n) PORT_STATE_BUSY_SHARED @ [PORT_STATE_READY]"
    and room: "ioMgr s = Some cores" "n < cores"
    and stop: "is_stop (Some i)" and task: "\<not> ERROR (fst task)" and sched: "\<not> ERROR sr"
  shows "\<exists>s1. SubmitStopIrp_enter intr task s i = Some (STATUS_PENDING, False, s1)
    \<and> (\<forall>k \<le> n. let s2 = foldl port_step s1 (replicate k (Pop sr))
         in hd (vecStates s2) = PORT_STATE_EXCLUDE_PENDING \<and> scheduled s2 = scheduled s)
    \<and> (let s3 = foldl port_step s1 (replicate (Suc n) (Pop sr))
       in vecStates s3 = [PORT_STATE_BUSY_RESUME, PORT_STATE_READY]
          \<and> scheduled s3 = scheduled s @ [(snd task, i)])"
proof -
  let ?s1 = "s\<lparr>vecStates := 8 # vecStates s, exclIrp := Some i, resume := Some (snd task)\<rparr>"
  let ?s2 = "?s1\<lparr>vecStates := [8, 7, 0]\<rparr>"
  have pops: "foldl port_step ?s1 (replicate k (Pop sr)) =
      ?s1\<lparr>vecStates := 8 # replicate (Suc n - k) 7 @ [0]\<rparr>" if "k \<le> n" for k
    using pending_pops [of ?s1 n k sr] st that by simp
  have "foldl port_step ?s1 (replicate n (Pop sr)) = ?s2" using pops [of n] by simp
  moreover have "replicate (Suc n) (Pop sr) = replicate n (Pop sr) @ [Pop sr]"
    by (simp add: replicate_append_same)
  ultimately have last: "foldl port_step ?s1 (replicate (Suc n) (Pop sr)) = port_step ?s2 (Pop sr)"
    by (simp only: foldl_append foldl_Cons foldl_Nil)
  have "irp_stack i \<noteq> []" using stop by (simp add: is_stop_def no_irp_def)
  then have "port_step ?s2 (Pop sr) = ?s2\<lparr>vecStates := [10, 0], resume := None,
      scheduled := scheduled s @ [(snd task, i)]\<rparr>"
    using PopState_pending_last [of ?s2 i "snd task" sr] sched by simp
  then have "vecStates (foldl port_step ?s1 (replicate (Suc n) (Pop sr))) = [10, 0]"
    "scheduled (foldl port_step ?s1 (replicate (Suc n) (Pop sr))) = scheduled s @ [(snd task, i)]"
    using last by (simp_all only: port_state.simps port_state.surjective) simp_all
  then show ?thesis
    using stop_pends [OF st room stop task, of intr] pops
    by (intro exI [of _ ?s1]) (simp add: Let_def del: replicate.simps foldl.simps)
qed

theorem stop_waits_for_shared_witness:
  "\<exists>s1. SubmitStopIrp_enter False (0, 77)
      ((new_port_state (Some 4))\<lparr>vecStates := [7, 7, 0]\<rparr>) stop_irp = Some (STATUS_PENDING, False, s1)
    \<and> vecStates (foldl port_step s1 (replicate 2 (Pop 0))) = [10, 0]"
proof -
  let ?s = "(new_port_state (Some 4))\<lparr>vecStates := [7, 7, 0]\<rparr>"
  have "vecStates ?s = replicate (Suc 1) 7 @ [0]" "ioMgr ?s = Some 4" "is_stop (Some stop_irp)"
    by (simp_all add: new_port_state_def is_stop_def irp_examples numeral_eq_Suc)
  from stop_waits_for_shared [OF this(1,2) _ this(3), of "(0, 77)" 0 False]
  show ?thesis by (auto simp: Let_def numeral_2_eq_2)
qed

text \<open>
  the resume task completes the stop that waited: run on the state the last shared
  request left behind, with the continuation of \<open>SubmitStopIrp\<close> as resume point, it turns
  \<open>BUSY_RESUME\<close> into \<open>STOP_RESUME\<close>, the continuation is admitted at once, and the port is
  left in \<open>STOPPING\<close> alone.
\<close>

theorem resume_task_enters_stopping:
  assumes st: "vecStates s = [PORT_STATE_BUSY_RESUME, PORT_STATE_READY]"
    and stop: "is_stop (Some i)" and ready: "\<not> ERROR irpReady"
  shows "ResumeSubmitTask True (Some t) (Some i) irpReady
      (\<lambda>_ s. case SubmitStopIrp_enter intr task s i of
          None \<Rightarrow> (STATUS_PENDING, s) | Some (ret, _, s1) \<Rightarrow> (ret, s1)) s
    = (0, s\<lparr>vecStates := [PORT_STATE_STOPPING]\<rparr>)"
proof -
  let ?s = "s\<lparr>vecStates := [9]\<rparr>"
  have i: "irp_stack i \<noteq> []" "MajorCmd (Some i) = 1" "MinorCmd (Some i) = 2"
    using stop by (simp_all add: is_stop_def no_irp_def)
  have set: "SetPortState s 9 = (0, ?s)" using st by (simp add: SetPortState_def map_action_table)
  have v: "IsValidSubmit ?s 3" by (simp add: IsValidSubmit_def map_action_table)
  have "dispatch intr 9 ?s (Some i) 3 = Some (0, s\<lparr>vecStates := [3]\<rparr>)"
    by (simp add: dispatch_def HandleStopResume_def SetPortState_def map_action_table)
  then have "CanContinue intr ?s (Some i) 3 = Some (0, Some 9, s\<lparr>vecStates := [3]\<rparr>)"
    using CanContinue_step [OF _ _ v, of 9 "[]"] by simp
  then show ?thesis using i set ready
    by (simp add: ResumeSubmitTask_def SubmitStopIrp_enter_def)
qed

theorem resume_task_enters_stopping_witness:
  "ResumeSubmitTask True (Some 77) (Some stop_irp) 0
      (\<lambda>_ s. case SubmitStopIrp_enter False (0, 77) s stop_irp of
          None \<Rightarrow> (STATUS_PENDING, s) | Some (ret, _, s1) \<Rightarrow> (ret, s1))
      ((new_port_state (Some 4))\<lparr>vecStates := [10, 0]\<rparr>)
    = (0, (new_port_state (Some 4))\<lparr>vecStates := [3]\<rparr>)"
  using resume_task_enters_stopping
    [of "(new_port_state (Some 4))\<lparr>vecStates := [10, 0]\<rparr>" stop_irp 0 77 False "(0, 77)"]
  by (simp add: is_stop_def irp_examples)

text \<open>
  C3: function requests are admitted as shared requests on a ready or shared port exactly
  while the stack holds at most \<open>GetNumCores + 1\<close> entries; beyond that they get \<open>-EAGAIN\<close>
  and nothing changes, so they never make the stack longer than \<open>GetNumCores + 2\<close>.
\<close>

theorem shared_admission_limit:
  assumes st: "vecStates s = cur # r" and cur: "cur \<in> {PORT_STATE_READY, PORT_STATE_BUSY_SHARED}"
    and mgr: "ioMgr s = Some cores"
    and func: "\<not> no_irp pIrp" "MajorCmd pIrp = IRP_MJ_FUNC"
  shows "CanContinue intr s pIrp PORT_STATE_BUSY_SHARED =
    (if length (vecStates s) \<le> cores + 1
     then Some (0, Some cur, s\<lparr>vecStates := PORT_STATE_BUSY_SHARED # vecStates s\<rparr>)
     else Some (- EAGAIN, Some cur, s))"
proof -
  have v: "IsValidSubmit s 7" using st cur by (auto simp: IsValidSubmit_def map_action_table)
  let ?out = "if length (vecStates s) \<le> cores + 1
    then (0, s\<lparr>vecStates := 7 # vecStates s\<rparr>) else (- EAGAIN, s)"
  have "dispatch intr cur s pIrp 7 = Some ?out"
    using cur func mgr
    by (auto simp: dispatch_def HandleReady_def HandleBusyShared_def PushState_def Let_def)
  then have "CanContinue intr s pIrp 7 = Some (fst ?out, Some cur, snd ?out)"
    by (intro CanContinue_step [OF st _ v]) auto
  then show ?thesis by simp
qed

theorem shared_admission_limit_witness:
  "CanContinue False ((new_port_state (Some 1))\<lparr>vecStates := [7, 7, 0]\<rparr>) (Some func_irp) 7
     = Some (- EAGAIN, Some 7, (new_port_state (Some 1))\<lparr>vecStates := [7, 7, 0]\<rparr>)"
  using shared_admission_limit [of "(new_port_state (Some 1))\<lparr>vecStates := [7, 7, 0]\<rparr>" 7 "[7, 0]"
      1 "Some func_irp" False]
  by (simp add: new_port_state_def irp_examples)

text \<open>
  the code for an exclusive function request on a shared port (\<open>HandleBusyShared\<close>
  pends it behind the shared requests) is never reached: the table forbids the step from
  \<open>BUSY_SHARED\<close> to \<open>BUSY\<close>, so \<open>CanContinue\<close> fails such a request with \<open>ERROR_STATE\<close>.
  Likewise a stop of a starting port gets \<open>ERROR_STATE\<close>, not the \<open>-EAGAIN\<close> of
  \<open>HandleStarting\<close>.
\<close>

theorem handler_branches_unreachable:
  assumes mgr: "ioMgr s = Some cores" "length (vecStates s) \<le> cores + 1"
    and func: "\<not> no_irp pFunc" "MajorCmd pFunc = IRP_MJ_FUNC" and stop: "is_stop pStop"
  shows "(vecStates s = PORT_STATE_BUSY_SHARED # r \<longrightarrow>
      fst (HandleBusyShared s pFunc PORT_STATE_BUSY) = STATUS_PENDING
      \<and> CanContinue intr s pFunc PORT_STATE_BUSY = Some (ERROR_STATE, Some PORT_STATE_BUSY_SHARED, s))
    \<and> (vecStates s = PORT_STATE_STARTING # r \<longrightarrow>
      fst (HandleStarting s pStop PORT_STATE_STOPPING) = - EAGAIN
      \<and> CanContinue intr s pStop PORT_STATE_STOPPING = Some (ERROR_STATE, Some PORT_STATE_STARTING, s))"
proof (intro conjI impI)
  assume st: "vecStates s = 7 # r"
  have "\<not> IsValidSubmit s 6" using st by (simp add: IsValidSubmit_def map_action_table)
  then show "CanContinue intr s pFunc 6 = Some (ERROR_STATE, Some 7, s)"
    using CanContinue_reject [OF st, of 6] by simp
  show "fst (HandleBusyShared s pFunc 6) = STATUS_PENDING"
    using func mgr by (simp add: HandleBusyShared_def Let_def PushState_def)
next
  assume st: "vecStates s = 2 # r"
  have "\<not> IsValidSubmit s 3" using st by (simp add: IsValidSubmit_def map_action_table)
  then show "CanContinue intr s pStop 3 = Some (ERROR_STATE, Some 2, s)"
    using CanContinue_reject [OF st, of 3] by simp
  show "fst (HandleStarting s pStop 3) = - EAGAIN"
    using stop by (simp add: HandleStarting_def is_stop_def)
qed

theorem handler_branches_unreachable_witness:
  "CanContinue False ((new_port_state (Some 4))\<lparr>vecStates := [7, 0]\<rparr>) (Some func_irp) 6
     = Some (ERROR_STATE, Some 7, (new_port_state (Some 4))\<lparr>vecStates := [7, 0]\<rparr>)"
  using handler_branches_unreachable
    [of "(new_port_state (Some 4))\<lparr>vecStates := [7, 0]\<rparr>" 4 "Some func_irp" "Some stop_irp" "[0]" False]
  by (simp add: new_port_state_def irp_examples is_stop_def)

end
