(* ===== verification/Buffer.thy ===== *)
theory Buffer
  imports Prelude
begin

text \<open>
  The byte buffer \<open>CBuffer\<close> of \<open>combase/buffer.cpp\<close> and \<open>include/buffer.h\<close>: a block of
  memory that is either the array inside the object (up to 48 bytes) or a heap block, a
  window \<open>[m_dwOffset, m_dwTailOff)\<close> on it, and a type word. Every byte the code touches
  is checked against the block it lies in: an access outside is the outcome \<open>Undefined\<close>,
  an exception is \<open>Throw\<close>.

  The heap is a parameter: whether an allocation of so many bytes succeeds, and which
  bytes \<open>malloc\<close> and \<open>realloc\<close> leave in fresh memory. A smart pointer constructed inside
  the window (an \<open>ObjPtr\<close> or \<open>DMsgPtr\<close> buffer) is the field \<open>held\<close>, the address it holds;
  its representation bytes are not modelled. The objects themselves are parameters
  (\<open>objects\<close>): they are reached through virtual methods of arbitrary classes.
\<close>

subsection \<open>The object\<close>

datatype membase = NullBase | ArrBase | HeapBase "u8 list"

text \<open>
  \<open>arrBuf\<close> is \<open>m_arrBuf\<close>, \<open>base\<close> is \<open>m_pData\<close> with the heap block it points to, \<open>actSize\<close> is
  \<open>m_dwSize\<close>, \<open>dwType\<close> is \<open>m_dwType\<close>.
\<close>

record cbuffer =
  arrBuf :: "u8 list"
  base :: membase
  actSize :: nat
  dwType :: "32 word"
  dwOffset :: nat
  dwTailOff :: nat
  held :: nat

record heap =
  allocOk :: "nat \<Rightarrow> bool"
  junk :: "nat \<Rightarrow> u8"

datatype 'a outcome = Return 'a | Throw cbuffer | Undefined

abbreviation (input) ARR_SIZE :: nat where "ARR_SIZE \<equiv> 48"
abbreviation (input) MAX_BYTES_PER_BUFFER :: nat where "MAX_BYTES_PER_BUFFER \<equiv> 16777216"
abbreviation (input) BUF_MAX_SIZE :: nat where "BUF_MAX_SIZE \<equiv> 536870912"
abbreviation (input) SIZEOF_OBJPTR :: nat where "SIZEOF_OBJPTR \<equiv> 16"

abbreviation (input) DataTypeMem :: "32 word" where "DataTypeMem \<equiv> 0"
abbreviation (input) DataTypeObjPtr :: "32 word" where "DataTypeObjPtr \<equiv> 1"
abbreviation (input) DataTypeMsgPtr :: "32 word" where "DataTypeMsgPtr \<equiv> 2"

abbreviation (input) typeNone :: "32 word" where "typeNone \<equiv> 0"
abbreviation (input) typeByte :: "32 word" where "typeByte \<equiv> 1"
abbreviation (input) typeUInt16 :: "32 word" where "typeUInt16 \<equiv> 2"
abbreviation (input) typeUInt32 :: "32 word" where "typeUInt32 \<equiv> 3"
abbreviation (input) typeUInt64 :: "32 word" where "typeUInt64 \<equiv> 4"
abbreviation (input) typeFloat :: "32 word" where "typeFloat \<equiv> 5"
abbreviation (input) typeDouble :: "32 word" where "typeDouble \<equiv> 6"
abbreviation (input) typeString :: "32 word" where "typeString \<equiv> 7"
abbreviation (input) typeDMsg :: "32 word" where "typeDMsg \<equiv> 8"
abbreviation (input) typeObj :: "32 word" where "typeObj \<equiv> 9"
abbreviation (input) typeByteArr :: "32 word" where "typeByteArr \<equiv> 10"

subsection \<open>The type word\<close>

abbreviation (input) DATATYPE_MASK :: "32 word" where "DATATYPE_MASK \<equiv> 0x0F"
abbreviation (input) DATATYPE_MASK_EX :: "32 word" where "DATATYPE_MASK_EX \<equiv> 0xF0"

definition SetDataType :: "32 word \<Rightarrow> cbuffer \<Rightarrow> cbuffer" where
  "SetDataType dt b = b\<lparr>dwType := (dwType b AND NOT DATATYPE_MASK) OR (dt AND DATATYPE_MASK)\<rparr>"

definition GetDataType :: "cbuffer \<Rightarrow> 32 word" where
  "GetDataType b = dwType b AND DATATYPE_MASK"

definition SetExDataType :: "32 word \<Rightarrow> cbuffer \<Rightarrow> cbuffer" where
  "SetExDataType dt b =
     b\<lparr>dwType := (dwType b AND NOT DATATYPE_MASK_EX) OR (push_bit 4 dt AND DATATYPE_MASK_EX)\<rparr>"

definition GetExDataType :: "cbuffer \<Rightarrow> 32 word" where
  "GetExDataType b = drop_bit 4 (dwType b AND DATATYPE_MASK_EX)"

subsection \<open>Memory\<close>

text \<open>The bytes \<open>m_pData\<close> points to, read and written relative to \<open>m_pData\<close>.\<close>

definition memBytes :: "cbuffer \<Rightarrow> u8 list" where
  "memBytes b = (case base b of NullBase \<Rightarrow> [] | ArrBase \<Rightarrow> arrBuf b | HeapBase bs \<Rightarrow> bs)"

definition loadBytes :: "cbuffer \<Rightarrow> nat \<Rightarrow> nat \<Rightarrow> u8 list option" where
  "loadBytes b i n = (if i + n \<le> length (memBytes b) then Some (take n (drop i (memBytes b))) else None)"

definition storeBytes :: "cbuffer \<Rightarrow> nat \<Rightarrow> u8 list \<Rightarrow> cbuffer option" where
  "storeBytes b i bs =
     (if i + length bs \<le> length (memBytes b)
      then Some (case base b of
          NullBase \<Rightarrow> b
        | ArrBase \<Rightarrow> b\<lparr>arrBuf := overwrite i bs (arrBuf b)\<rparr>
        | HeapBase hs \<Rightarrow> b\<lparr>base := HeapBase (overwrite i bs hs)\<rparr>)
      else None)"

text \<open>\<open>malloc\<close> or, beyond 1024 bytes, \<open>calloc\<close>; and \<open>realloc\<close> of a block to \<open>n\<close> bytes.\<close>

definition freshBlock :: "heap \<Rightarrow> nat \<Rightarrow> u8 list" where
  "freshBlock hp n = (if n > 1024 then replicate n 0 else map (junk hp) [0..<n])"

definition reallocBlock :: "heap \<Rightarrow> u8 list \<Rightarrow> nat \<Rightarrow> u8 list" where
  "reallocBlock hp bs n = take n bs @ map (junk hp) [length bs..<n]"

definition SetBuffer :: "membase \<Rightarrow> nat \<Rightarrow> cbuffer \<Rightarrow> cbuffer" where
  "SetBuffer p n b = b\<lparr>base := p, actSize := n, dwTailOff := n, dwOffset := 0\<rparr>"

definition GetActSize :: "cbuffer \<Rightarrow> nat" where
  "GetActSize b = actSize b"

definition GetTailOff :: "cbuffer \<Rightarrow> nat" where
  "GetTailOff b = dwTailOff b"

definition GetShadowSize :: "cbuffer \<Rightarrow> nat" where
  "GetShadowSize b = u32_sub (GetActSize b) (GetTailOff b)"

definition bufSize :: "cbuffer \<Rightarrow> nat" where
  "bufSize b = u32_sub (GetTailOff b) (dwOffset b)"

text \<open>The window the user of the buffer sees: \<open>size()\<close> bytes from \<open>ptr()\<close>.\<close>

definition window :: "cbuffer \<Rightarrow> u8 list" where
  "window b = take (bufSize b) (drop (dwOffset b) (memBytes b))"

text \<open>\<open>empty()\<close>: with a null \<open>m_pData\<close> the offset is zero, so \<open>ptr()\<close> is null exactly then.\<close>

definition bufEmpty :: "cbuffer \<Rightarrow> bool" where
  "bufEmpty b \<longleftrightarrow> bufSize b = 0 \<or> base b = NullBase"

subsection \<open>Resizing\<close>

text \<open>
  \<open>ResizeWithOffset\<close> serves a buffer whose window is not the whole block. The four
  branches are array to array, array to heap, heap to array and heap to heap.
\<close>

definition ResizeWithOffset :: "heap \<Rightarrow> nat \<Rightarrow> cbuffer \<Rightarrow> (int \<times> cbuffer) option" where
  "ResizeWithOffset hp n b =
    (if n = 0 \<or> n > MAX_BYTES_PER_BUFFER then Some (- EINVAL, b)
     else if GetDataType b \<noteq> DataTypeMem then Some (- ENOTSUP, b)
     else if n = bufSize b then Some (0, b)
     else
       let dwActSize = GetActSize b; bArrBuf = (base b = ArrBase);
           dwBytesCopy = min (bufSize b) n;
           bMove = (dwBytesCopy > 0 \<and> dwOffset b > 0);
           done = (\<lambda>b'. Some (0, SetExDataType typeByteArr b'))
       in if ARR_SIZE \<ge> n \<and> ARR_SIZE \<ge> dwActSize then
            if bMove then
              do { bs \<leftarrow> loadBytes b (dwOffset b) dwBytesCopy;
                   done (SetBuffer ArrBase n (b\<lparr>arrBuf := overwrite 0 bs (arrBuf b)\<rparr>)) }
            else done (SetBuffer ArrBase n b)
          else if n > ARR_SIZE \<and> ARR_SIZE \<ge> dwActSize then
            if \<not> bArrBuf then Some (ERROR_STATE, b)
            else if \<not> allocOk hp n then Some (- ENOMEM, b)
            else do { bs \<leftarrow> (if dwBytesCopy > 0 then loadBytes b (dwOffset b) dwBytesCopy else Some []);
                      done (SetBuffer (HeapBase (overwrite 0 bs (freshBlock hp n))) n b) }
          else if dwActSize > ARR_SIZE \<and> ARR_SIZE \<ge> n then
            if bArrBuf then Some (ERROR_STATE, b)
            else do { bs \<leftarrow> (if dwBytesCopy > 0 then loadBytes b (dwOffset b) dwBytesCopy else Some []);
                      done (SetBuffer ArrBase n (b\<lparr>arrBuf := overwrite 0 bs (arrBuf b)\<rparr>)) }
          else
            if bArrBuf then Some (ERROR_STATE, b)
            else do { b1 \<leftarrow> (if bMove
                             then loadBytes b (dwOffset b) dwBytesCopy \<bind> storeBytes b 0
                             else Some b);
                      (if n > dwActSize then
                         if \<not> allocOk hp n then Some (- ENOMEM, b1)
                         else done (SetBuffer (HeapBase (reallocBlock hp (memBytes b1) n)) n b1)
                       else done (SetBuffer (base b1) n b1)) })"

text \<open>
  \<open>Resize\<close> of a buffer that holds plain bytes; the result before the check that throws.
  Handing \<open>m_arrBuf\<close> to \<open>free\<close> or \<open>realloc\<close> would be undefined.
\<close>

definition ResizeMem :: "heap \<Rightarrow> nat \<Rightarrow> cbuffer \<Rightarrow> (int \<times> cbuffer) option" where
  "ResizeMem hp n b =
    (if n = 0 then Some (0, SetBuffer NullBase 0 b)
     else if dwOffset b > 0 \<or> GetShadowSize b > 0 then ResizeWithOffset hp n b
     else if n = bufSize b then Some (0, b)
     else
       let done = (\<lambda>b'. Some (0, SetExDataType typeByteArr b'))
       in if ARR_SIZE \<ge> n \<and> ARR_SIZE \<ge> bufSize b then done (SetBuffer ArrBase n b)
          else if n > ARR_SIZE \<and> ARR_SIZE \<ge> bufSize b then
            if \<not> allocOk hp n then Some (- ENOMEM, b)
            else done (SetBuffer (HeapBase (overwrite 0 (take (bufSize b) (arrBuf b)) (freshBlock hp n))) n b)
          else if base b = ArrBase then None
          else if bufSize b > ARR_SIZE \<and> ARR_SIZE \<ge> n then
            do { bs \<leftarrow> loadBytes b 0 n;
                 done (SetBuffer ArrBase n (b\<lparr>arrBuf := overwrite 0 bs (arrBuf b)\<rparr>)) }
          else if \<not> allocOk hp n then Some (- ENOMEM, b)
          else done (SetBuffer (HeapBase (reallocBlock hp (memBytes b) n)) n b))"

definition throwOnError :: "(int \<times> cbuffer) option \<Rightarrow> (int \<times> cbuffer) outcome" where
  "throwOnError r = (case r of
      None \<Rightarrow> Undefined
    | Some (ret, b) \<Rightarrow> if ERROR ret then Throw b else Return (ret, b))"

text \<open>A smart pointer in the buffer is released before the buffer becomes plain memory.\<close>

definition Resize :: "heap \<Rightarrow> nat \<Rightarrow> cbuffer \<Rightarrow> (int \<times> cbuffer) outcome" where
  "Resize hp n b =
    (if n > MAX_BYTES_PER_BUFFER then Return (- E2BIG, b)
     else if GetDataType b = DataTypeMsgPtr \<or> GetDataType b = DataTypeObjPtr then
       throwOnError (ResizeMem hp n
         (SetExDataType typeNone (SetDataType DataTypeMem (b\<lparr>held := 0\<rparr>))))
     else if GetDataType b = DataTypeMem then throwOnError (ResizeMem hp n b)
     else Return (0, b))"

text \<open>\<open>CBuffer( guint32 )\<close> and \<open>CBuffer( const char*, guint32 )\<close>; the array holds what it held.\<close>

definition newBuffer :: "u8 list \<Rightarrow> cbuffer" where
  "newBuffer stale = SetExDataType typeNone (SetDataType DataTypeMem
     \<lparr>arrBuf = stale, base = NullBase, actSize = 0, dwType = 0, dwOffset = 0, dwTailOff = 0, held = 0\<rparr>)"

definition constructSize :: "heap \<Rightarrow> u8 list \<Rightarrow> nat \<Rightarrow> cbuffer outcome" where
  "constructSize hp stale n =
    (if n > BUF_MAX_SIZE then Return (newBuffer stale)
     else case Resize hp n (newBuffer stale) of
         Return (_, b) \<Rightarrow> Return b | Throw b \<Rightarrow> Throw b | Undefined \<Rightarrow> Undefined)"

text \<open>
  \<open>pData\<close> is the memory at the source pointer; \<open>size()\<close> bytes of it are copied. A size that
  \<open>Resize\<close> refuses leaves the buffer empty.
\<close>

definition constructData :: "heap \<Rightarrow> u8 list \<Rightarrow> u8 list option \<Rightarrow> nat \<Rightarrow> cbuffer outcome" where
  "constructData hp stale pData n =
    (case constructSize hp stale n of
       Return b \<Rightarrow>
        (case pData of
           None \<Rightarrow> Return b
         | Some src \<Rightarrow>
             if base b = NullBase then Return b
             else if bufSize b > length src then Undefined
             else (case storeBytes b (dwOffset b) (take (bufSize b) src) of
                     None \<Rightarrow> Undefined | Some b' \<Rightarrow> Return b'))
     | r \<Rightarrow> r)"

subsection \<open>Appending\<close>

text \<open>\<open>Append\<close>: \<open>pBlock\<close> is the memory at the source pointer, \<open>None\<close> when it is null.\<close>

definition Append :: "heap \<Rightarrow> u8 list option \<Rightarrow> nat \<Rightarrow> cbuffer \<Rightarrow> (int \<times> cbuffer) outcome" where
  "Append hp pBlock n b =
    (if GetDataType b \<noteq> DataTypeMem then Return (- EINVAL, b)
     else case pBlock of
       None \<Rightarrow> Return (- EINVAL, b)
     | Some blk \<Rightarrow>
        if n > BUF_MAX_SIZE \<or> n = 0 then Return (- EINVAL, b)
        else (case Resize hp (u32_add (bufSize b) n) b of
            Throw b' \<Rightarrow> Throw b'
          | Undefined \<Rightarrow> Undefined
          | Return (_, b1) \<Rightarrow>
              if n > length blk then Undefined
              else (case storeBytes b1 (dwOffset b1 + bufSize b) (take n blk) of
                      None \<Rightarrow> Undefined
                    | Some b2 \<Rightarrow> Return (0, SetExDataType typeByteArr b2))))"

subsection \<open>The window\<close>

definition SetOffset :: "nat \<Rightarrow> cbuffer \<Rightarrow> int \<times> cbuffer" where
  "SetOffset n b =
    (if GetDataType b \<noteq> DataTypeMem then (ERROR_STATE, b)
     else if base b = NullBase then (ERROR_STATE, b)
     else if n > GetTailOff b then (- EINVAL, b)
     else (STATUS_SUCCESS, b\<lparr>dwOffset := n\<rparr>))"

definition SetTailOff :: "nat \<Rightarrow> cbuffer \<Rightarrow> cbuffer" where
  "SetTailOff n b =
    (if GetDataType b \<noteq> DataTypeMem then b
     else let n1 = (if n > GetActSize b then GetActSize b else n);
              n2 = (if n1 < dwOffset b then dwOffset b else n1)
          in b\<lparr>dwTailOff := n2\<rparr>)"

definition SetWinSize :: "nat \<Rightarrow> cbuffer \<Rightarrow> cbuffer" where
  "SetWinSize n b = SetTailOff (u32_add (dwOffset b) n) b"

definition IncOffset :: "nat \<Rightarrow> cbuffer \<Rightarrow> int \<times> cbuffer" where
  "IncOffset n b = SetOffset (u32_add (dwOffset b) n) b"

definition SlideWindow :: "nat \<Rightarrow> cbuffer \<Rightarrow> int \<times> cbuffer" where
  "SlideWindow n b =
    (if GetDataType b \<noteq> DataTypeMem then (ERROR_STATE, b)
     else let dwOldWin = bufSize b
          in IncOffset dwOldWin (SetWinSize (u32_add dwOldWin n) b))"

subsection \<open>The invariant of the object\<close>

text \<open>
  The window lies inside the block, and where the block lies is decided by its size: no
  block for size zero, the array up to 48 bytes, the heap beyond.
\<close>

definition buf_wf :: "cbuffer \<Rightarrow> bool" where
  "buf_wf b \<longleftrightarrow> length (arrBuf b) = ARR_SIZE \<and> dwOffset b \<le> dwTailOff b \<and> dwTailOff b \<le> actSize b \<and>
     actSize b \<le> MAX_BYTES_PER_BUFFER \<and>
     (case base b of NullBase \<Rightarrow> actSize b = 0
        | ArrBase \<Rightarrow> 0 < actSize b \<and> actSize b \<le> ARR_SIZE
        | HeapBase bs \<Rightarrow> ARR_SIZE < actSize b \<and> actSize b \<le> length bs)"

lemma buf_wf_lengths:
  assumes "buf_wf b"
  shows "actSize b \<le> length (memBytes b)" "bufSize b = dwTailOff b - dwOffset b"
    "GetShadowSize b = actSize b - dwTailOff b" "length (window b) = bufSize b"
    "dwOffset b + bufSize b \<le> length (memBytes b)"
  using assms unfolding window_def
  by (auto simp: buf_wf_def memBytes_def bufSize_def GetShadowSize_def GetTailOff_def GetActSize_def
      u32_simps window_def split: membase.splits)

lemma loadBytes_window:
  "buf_wf b \<Longrightarrow> n \<le> bufSize b \<Longrightarrow> loadBytes b (dwOffset b) n = Some (take n (window b))"
  using buf_wf_lengths [of b] by (simp add: loadBytes_def window_def)

text \<open>The type word: its two fields are independent of each other and of everything else.\<close>

lemma mask_bits:
  "(DATATYPE_MASK :: 32 word) = mask 4" "(DATATYPE_MASK_EX :: 32 word) = push_bit 4 (mask 4)"
  by (simp_all add: mask_eq_exp_minus_1 push_bit_eq_mult)

lemma type_fields [simp]:
  "GetDataType (SetDataType dt b) = dt AND DATATYPE_MASK"
  "GetDataType (SetExDataType dt b) = GetDataType b"
  "GetExDataType (SetExDataType dt b) = dt AND DATATYPE_MASK"
  "GetExDataType (SetDataType dt b) = GetExDataType b"
  unfolding GetDataType_def SetDataType_def GetExDataType_def SetExDataType_def mask_bits
  by (auto simp: bit_simps intro!: bit_eqI)

lemma type_irrelevant [simp]:
  "memBytes (SetDataType dt b) = memBytes b" "memBytes (SetExDataType dt b) = memBytes b"
  "bufSize (SetDataType dt b) = bufSize b" "bufSize (SetExDataType dt b) = bufSize b"
  "window (SetDataType dt b) = window b" "window (SetExDataType dt b) = window b"
  "buf_wf (SetDataType dt b) = buf_wf b" "buf_wf (SetExDataType dt b) = buf_wf b"
  "dwOffset (SetDataType dt b) = dwOffset b" "dwOffset (SetExDataType dt b) = dwOffset b"
  "base (SetDataType dt b) = base b" "base (SetExDataType dt b) = base b"
  by (simp_all add: SetDataType_def SetExDataType_def memBytes_def bufSize_def GetTailOff_def
      window_def buf_wf_def split: membase.split)

lemma held_irrelevant [simp]:
  "memBytes (b\<lparr>held := p\<rparr>) = memBytes b" "bufSize (b\<lparr>held := p\<rparr>) = bufSize b"
  "window (b\<lparr>held := p\<rparr>) = window b" "buf_wf (b\<lparr>held := p\<rparr>) = buf_wf b"
  by (simp_all add: memBytes_def bufSize_def GetTailOff_def window_def buf_wf_def
      split: membase.split)

lemma SetBuffer_simps [simp]:
  "bufSize (SetBuffer p n b) = n mod 2 ^ 32" "GetDataType (SetBuffer p n b) = GetDataType b"
  "dwOffset (SetBuffer p n b) = 0" "base (SetBuffer p n b) = p"
  by (simp_all add: SetBuffer_def bufSize_def u32_sub_def GetTailOff_def GetDataType_def)

lemma window_SetBuffer:
  "n < 2 ^ 32 \<Longrightarrow> window (SetBuffer p n b) =
     take n (case p of NullBase \<Rightarrow> [] | ArrBase \<Rightarrow> arrBuf b | HeapBase bs \<Rightarrow> bs)"
  by (simp add: window_def) (simp add: memBytes_def SetBuffer_def split: membase.split)

lemma GetDataType_arrBuf [simp]: "GetDataType (b\<lparr>arrBuf := a\<rparr>) = GetDataType b"
  by (simp add: GetDataType_def)

lemma GetDataType_base [simp]: "GetDataType (b\<lparr>base := a\<rparr>) = GetDataType b"
  by (simp add: GetDataType_def)

subsection \<open>Resizing keeps the invariant and the bytes\<close>

text \<open>What a successful resize promises: the new size, and the old bytes that still fit.\<close>

definition resized :: "cbuffer \<Rightarrow> nat \<Rightarrow> cbuffer \<Rightarrow> bool" where
  "resized b n b' \<longleftrightarrow> buf_wf b' \<and> bufSize b' = n \<and> GetDataType b' = GetDataType b \<and>
     take (bufSize b) (window b') = take n (window b)"

lemma resized_SetBuffer:
  assumes "buf_wf b" "n \<le> MAX_BYTES_PER_BUFFER" "length (arrBuf b') = ARR_SIZE"
    "GetDataType b' = GetDataType b"
    and place: "p = NullBase \<and> n = 0 \<or> p = ArrBase \<and> 0 < n \<and> n \<le> ARR_SIZE \<and> bs = arrBuf b' \<or>
      (p = HeapBase bs \<and> ARR_SIZE < n \<and> n \<le> length bs)"
    and kept: "n \<noteq> 0 \<Longrightarrow> take (min (bufSize b) n) bs = take n (window b)"
  shows "resized b n (SetBuffer p n b')" "resized b n (SetExDataType t (SetBuffer p n b'))"
proof -
  have w: "buf_wf (SetBuffer p n b')"
    using place assms(2,3) by (auto simp: buf_wf_def SetBuffer_def)
  have "window (SetBuffer p n b') = (if n = 0 then [] else take n bs)"
    using place assms(2) by (auto simp: window_SetBuffer)
  then have "take (bufSize b) (window (SetBuffer p n b')) = take n (window b)"
    using kept buf_wf_lengths(4) [OF assms(1)] by (cases "n = 0") (auto simp: min_def)
  then show "resized b n (SetBuffer p n b')" "resized b n (SetExDataType t (SetBuffer p n b'))"
    using w assms by (auto simp: resized_def)
qed

lemma length_freshBlock [simp]: "length (freshBlock hp n) = n"
  by (simp add: freshBlock_def)

lemma length_reallocBlock [simp]: "length (reallocBlock hp bs n) = n"
  by (simp add: reallocBlock_def)

lemma take_reallocBlock [simp]: "k \<le> n \<Longrightarrow> k \<le> length bs \<Longrightarrow> take k (reallocBlock hp bs n) = take k bs"
  by (simp add: reallocBlock_def)

lemma take_overwrite_prefix [simp]:
  "length ys = m \<Longrightarrow> take m (overwrite 0 ys xs) = ys"
  by (auto simp: overwrite_def)

lemma buf_wf_cases:
  assumes "buf_wf b"
  obtains (null) "base b = NullBase" "actSize b = 0" "dwTailOff b = 0" "dwOffset b = 0" "bufSize b = 0"
  | (arr) "base b = ArrBase" "0 < actSize b" "actSize b \<le> ARR_SIZE" "memBytes b = arrBuf b"
  | (heap) bs where "base b = HeapBase bs" "ARR_SIZE < actSize b" "actSize b \<le> length bs" "memBytes b = bs"
  using assms buf_wf_lengths(2) [OF assms] by (cases "base b") (auto simp: buf_wf_def memBytes_def)

lemma ResizeWithOffset_spec:
  assumes wf: "buf_wf b" and n: "0 < n" "n \<le> MAX_BYTES_PER_BUFFER" and mem: "GetDataType b = DataTypeMem"
    and nn: "base b \<noteq> NullBase"
  shows "(\<exists>b'. ResizeWithOffset hp n b = Some (0, b') \<and> resized b n b') \<or>
         \<not> allocOk hp n \<and> (\<exists>b'. ResizeWithOffset hp n b = Some (- ENOMEM, b') \<and> buf_wf b' \<and> GetDataType b' = GetDataType b)"
proof (cases "n = bufSize b")
  case True
  then show ?thesis using assms by (auto simp: ResizeWithOffset_def resized_def)
next
  case False
  note lens = buf_wf_lengths [OF wf]
  let ?k = "min (bufSize b) n"
  have tk: "take ?k (window b) = take n (window b)" using lens by (auto simp: min_def)
  have load: "loadBytes b (dwOffset b) ?k = Some (take n (window b))"
    using loadBytes_window [OF wf, of ?k] tk by simp
  have len: "length (take n (window b)) = ?k" using lens by simp
  show ?thesis using wf
  proof (cases rule: buf_wf_cases)
    case null
    then show ?thesis using nn by simp
  next
    case arr
    note hd = ResizeWithOffset_def Let_def GetActSize_def
    have al: "length (arrBuf b) = ARR_SIZE" using wf by (simp add: buf_wf_def)
    have sz: "bufSize b \<le> ARR_SIZE" using lens arr al by simp
    show ?thesis
    proof (cases "n \<le> ARR_SIZE")
      case small: True
      show ?thesis
      proof (cases "?k > 0 \<and> dwOffset b > 0")
        case True
        have "resized b n (SetExDataType typeByteArr (SetBuffer ArrBase n
            (b\<lparr>arrBuf := overwrite 0 (take n (window b)) (arrBuf b)\<rparr>)))"
          using small n len al tk wf sz
          by (intro resized_SetBuffer [where bs = "overwrite 0 (take n (window b)) (arrBuf b)"]) simp_all
        then show ?thesis using n False mem arr small True load by (simp add: hd)
      next
        case nomove: False
        have "take ?k (arrBuf b) = take n (window b)"
          using nomove arr(4) sz al unfolding window_def by (cases "bufSize b = 0") (auto simp: min_def)
        then have "resized b n (SetExDataType typeByteArr (SetBuffer ArrBase n b))"
          using small n al wf by (intro resized_SetBuffer [where bs = "arrBuf b"]) simp_all
        moreover have "ResizeWithOffset hp n b = Some (0, SetExDataType typeByteArr (SetBuffer ArrBase n b))"
          using n False mem arr small nomove by (auto simp: hd)
        ultimately show ?thesis by blast
      qed
    next
      case big: False
      let ?hs = "overwrite 0 (take n (window b)) (freshBlock hp n)"
      have "resized b n (SetExDataType typeByteArr (SetBuffer (HeapBase ?hs) n b))"
        using big n len al tk wf sz by (intro resized_SetBuffer [where bs = ?hs]) simp_all
      moreover have "(if 0 < ?k then loadBytes b (dwOffset b) ?k else Some []) = Some (take n (window b))"
        using load lens(4) by auto
      ultimately show ?thesis using n False mem arr big wf by (cases "allocOk hp n") (simp_all add: hd)
    qed
  next
    case (heap bs)
    note hd = ResizeWithOffset_def Let_def GetActSize_def
    have al: "length (arrBuf b) = ARR_SIZE" using wf by (simp add: buf_wf_def)
    have sz: "bufSize b \<le> actSize b" "dwOffset b + bufSize b \<le> actSize b"
      using wf lens by (auto simp: buf_wf_def)
    show ?thesis
    proof (cases "n \<le> ARR_SIZE")
      case small: True
      let ?a = "overwrite 0 (take n (window b)) (arrBuf b)"
      have "resized b n (SetExDataType typeByteArr (SetBuffer ArrBase n (b\<lparr>arrBuf := ?a\<rparr>)))"
        using small n len al tk wf by (intro resized_SetBuffer [where bs = ?a]) simp_all
      moreover have "(if 0 < ?k then loadBytes b (dwOffset b) ?k else Some []) = Some (take n (window b))"
        using load lens(4) by auto
      ultimately show ?thesis using n False mem heap small by (simp add: hd)
    next
      case big: False
      let ?b1 = "if ?k > 0 \<and> dwOffset b > 0 then b\<lparr>base := HeapBase (overwrite 0 (take n (window b)) bs)\<rparr> else b"
      have st: "(if 0 < ?k \<and> 0 < dwOffset b then loadBytes b (dwOffset b) ?k \<bind> storeBytes b 0 else Some b) = Some ?b1"
        using load len heap sz by (auto simp: storeBytes_def)
      obtain hs where hs: "base ?b1 = HeapBase hs" "memBytes ?b1 = hs" "length hs = length bs"
          "take ?k hs = take n (window b)"
      proof
        let ?hs = "if ?k > 0 \<and> dwOffset b > 0 then overwrite 0 (take n (window b)) bs else bs"
        show "base ?b1 = HeapBase ?hs" "memBytes ?b1 = ?hs" using heap by (simp_all add: memBytes_def)
        show "length ?hs = length bs" using sz heap len by auto
        show "take ?k ?hs = take n (window b)"
        proof (cases "?k > 0 \<and> dwOffset b > 0")
          case False
          show ?thesis
          proof (cases "?k = 0")
            case True
            then have "take n (window b) = []" using lens(4) by (auto simp: min_def split: if_splits)
            then show ?thesis using True by simp
          next
            case nz: False
            then have "dwOffset b = 0" using False by simp
            then show ?thesis using heap nz by (auto simp: window_def min_def)
          qed
        qed (use len in simp)
      qed
      have wf1: "buf_wf ?b1" using wf hs heap by (auto simp: buf_wf_def)
      show ?thesis
      proof (cases "n > actSize b")
        case True
        have "resized b n (SetExDataType typeByteArr (SetBuffer (HeapBase (reallocBlock hp hs n)) n ?b1))"
          using big n wf hs al heap sz(1) True
          by (intro resized_SetBuffer [where bs = "reallocBlock hp hs n"]) simp_all
        then show ?thesis using n False mem heap big True st hs wf1
          by (cases "allocOk hp n") (simp_all add: hd)
      next
        case False2: False
        have "resized b n (SetExDataType typeByteArr (SetBuffer (base ?b1) n ?b1))"
          using big n wf hs al heap False2 by (intro resized_SetBuffer [where bs = hs]) simp_all
        then show ?thesis using n False mem heap big False2 st by (simp add: hd)
      qed
    qed
  qed
qed

lemma ResizeMem_spec:
  assumes wf: "buf_wf b" and n: "n \<le> MAX_BYTES_PER_BUFFER" and mem: "GetDataType b = DataTypeMem"
  shows "(\<exists>b'. ResizeMem hp n b = Some (0, b') \<and> resized b n b') \<or>
         \<not> allocOk hp n \<and> (\<exists>b'. ResizeMem hp n b = Some (- ENOMEM, b') \<and> buf_wf b' \<and> GetDataType b' = GetDataType b)"
proof -
  note lens = buf_wf_lengths [OF wf]
  have al: "length (arrBuf b) = ARR_SIZE" using wf by (simp add: buf_wf_def)
  consider (zero) "n = 0" | (shaped) "n > 0" "dwOffset b > 0 \<or> GetShadowSize b > 0"
    | (same) "n > 0" "dwOffset b = 0" "GetShadowSize b = 0" "n = bufSize b"
    | (whole) "n > 0" "dwOffset b = 0" "GetShadowSize b = 0" "n \<noteq> bufSize b" by linarith
  then show ?thesis
  proof cases
    case zero
    have "resized b 0 (SetBuffer NullBase 0 b)"
      using wf al by (intro resized_SetBuffer [where bs = "[]"]) simp_all
    then show ?thesis using zero by (simp add: ResizeMem_def)
  next
    case shaped
    then have "base b \<noteq> NullBase" using wf lens by (auto simp: buf_wf_def)
    then show ?thesis using ResizeWithOffset_spec [OF wf shaped(1) n mem] shaped
      by (simp add: ResizeMem_def)
  next
    case same
    then show ?thesis using wf by (auto simp: ResizeMem_def resized_def)
  next
    case whole
    then have act: "bufSize b = actSize b" using wf lens by (auto simp: buf_wf_def)
    have win: "window b = take (actSize b) (memBytes b)" using whole act by (simp add: window_def)
    note hd = ResizeMem_def Let_def
    show ?thesis
    proof (cases "actSize b \<le> ARR_SIZE")
      case small: True
      then have mb: "actSize b = 0 \<or> memBytes b = arrBuf b" using wf by (auto elim: buf_wf_cases)
      then have keep: "take (min (bufSize b) n) (arrBuf b) = take n (window b)"
        using act win al small by (auto simp: min_def)
      show ?thesis
      proof (cases "n \<le> ARR_SIZE")
        case True
        have "resized b n (SetExDataType typeByteArr (SetBuffer ArrBase n b))"
          using True whole n wf al keep by (intro resized_SetBuffer [where bs = "arrBuf b"]) simp_all
        then show ?thesis using True whole small act by (simp add: hd)
      next
        case False
        let ?hs = "overwrite 0 (take (bufSize b) (arrBuf b)) (freshBlock hp n)"
        have "take n (window b) = take (bufSize b) (arrBuf b)"
          using keep act small False by (simp add: min_def)
        then have "resized b n (SetExDataType typeByteArr (SetBuffer (HeapBase ?hs) n b))"
          using False whole n wf al act small
          by (intro resized_SetBuffer [where bs = ?hs]) (simp_all add: min_def)
        then show ?thesis using False whole small act wf by (cases "allocOk hp n") (simp_all add: hd)
      qed
    next
      case big: False
      then obtain bs where hb: "base b = HeapBase bs" "actSize b \<le> length bs" "memBytes b = bs"
        using wf by (auto elim: buf_wf_cases)
      show ?thesis
      proof (cases "n \<le> ARR_SIZE")
        case True
        let ?a = "overwrite 0 (take n bs) (arrBuf b)"
        have "resized b n (SetExDataType typeByteArr (SetBuffer ArrBase n (b\<lparr>arrBuf := ?a\<rparr>)))"
          using True whole n wf al act big win hb
          by (intro resized_SetBuffer [where bs = ?a]) (simp_all add: min_def)
        then show ?thesis using True whole big act hb by (simp add: hd loadBytes_def)
      next
        case False
        have "resized b n (SetExDataType typeByteArr (SetBuffer (HeapBase (reallocBlock hp bs n)) n b))"
          using False whole n wf al act big win hb
          by (intro resized_SetBuffer [where bs = "reallocBlock hp bs n"]) (simp_all add: min_def)
        then show ?thesis using False whole big act hb wf by (cases "allocOk hp n") (simp_all add: hd)
      qed
    qed
  qed
qed

text \<open>
  \<open>Resize\<close> of a well-formed buffer never leaves its memory: it succeeds, or throws because
  the allocation failed, or refuses a size beyond the limit and changes nothing.
\<close>

lemma Resize_cases:
  assumes wf: "buf_wf b" and ty: "GetDataType b \<in> {DataTypeMem, DataTypeObjPtr, DataTypeMsgPtr}"
  obtains (big) "n > MAX_BYTES_PER_BUFFER" "Resize hp n b = Return (- E2BIG, b)"
  | (ok) b' where "n \<le> MAX_BYTES_PER_BUFFER" "Resize hp n b = Return (0, b')" "buf_wf b'" "bufSize b' = n"
      "GetDataType b' = DataTypeMem" "take (bufSize b) (window b') = take n (window b)"
  | (nomem) b' where "n \<le> MAX_BYTES_PER_BUFFER" "\<not> allocOk hp n" "Resize hp n b = Throw b'" "buf_wf b'"
      "GetDataType b' = DataTypeMem"
proof (cases "n \<le> MAX_BYTES_PER_BUFFER")
  case False
  then show thesis by (intro big) (simp_all add: Resize_def)
next
  case True
  define c where "c = (if GetDataType b = DataTypeMem then b
    else SetExDataType typeNone (SetDataType DataTypeMem (b\<lparr>held := 0\<rparr>)))"
  have c: "buf_wf c" "GetDataType c = DataTypeMem" "bufSize c = bufSize b" "window c = window b"
    using wf by (simp_all add: c_def)
  have r: "Resize hp n b = throwOnError (ResizeMem hp n c)"
    using True ty by (auto simp: Resize_def c_def)
  from ResizeMem_spec [OF c(1) True c(2), of hp] show thesis
  proof (elim disjE exE conjE)
    fix b' assume "ResizeMem hp n c = Some (0, b')" "resized c n b'"
    then show thesis using r c True by (intro ok [of b']) (simp_all add: throwOnError_def resized_def)
  next
    fix b' assume "\<not> allocOk hp n" "ResizeMem hp n c = Some (- ENOMEM, b')" "buf_wf b'"
      "GetDataType b' = GetDataType c"
    then show thesis using r c True by (intro nomem [of b']) (simp_all add: throwOnError_def)
  qed
qed
subsection \<open>Every operation keeps the invariant\<close>

lemma SetOffset_wf [step_preserves]: "buf_wf b \<Longrightarrow> buf_wf (snd (SetOffset n b))"
  by (auto simp: SetOffset_def buf_wf_def GetTailOff_def split: membase.splits)

lemma SetTailOff_wf [step_preserves]: "buf_wf b \<Longrightarrow> buf_wf (SetTailOff n b)"
  by (auto simp: SetTailOff_def Let_def buf_wf_def GetActSize_def split: membase.splits)

lemma window_ops_type [simp]:
  "GetDataType (snd (SetOffset n b)) = GetDataType b" "GetDataType (SetTailOff n b) = GetDataType b"
  by (auto simp: SetOffset_def SetTailOff_def GetDataType_def Let_def)

lemma storeBytes_wf:
  assumes "storeBytes b i bs = Some b'" "buf_wf b"
  shows "buf_wf b'" "memBytes b' = overwrite i bs (memBytes b)" "bufSize b' = bufSize b"
    "dwOffset b' = dwOffset b" "GetDataType b' = GetDataType b"
  using assms by (auto simp: storeBytes_def buf_wf_def memBytes_def bufSize_def GetTailOff_def
      GetDataType_def overwrite_def split: if_splits membase.splits)

text \<open>The calls a user of a plain buffer makes. \<open>None\<close> is the state after an undefined access.\<close>

datatype buf_op =
    OpResize nat
  | OpAppend "u8 list option" nat
  | OpSetOffset nat
  | OpIncOffset nat
  | OpSetTailOff nat
  | OpSetWinSize nat
  | OpSlideWindow nat
  | OpSetExDataType "32 word"

definition settle :: "(int \<times> cbuffer) outcome \<Rightarrow> cbuffer option" where
  "settle r = (case r of Return (_, b) \<Rightarrow> Some b | Throw b \<Rightarrow> Some b | Undefined \<Rightarrow> None)"

primrec buf_do :: "heap \<Rightarrow> buf_op \<Rightarrow> cbuffer \<Rightarrow> cbuffer option" where
  "buf_do hp (OpResize n) b = settle (Resize hp n b)"
| "buf_do hp (OpAppend blk n) b = settle (Append hp blk n b)"
| "buf_do hp (OpSetOffset n) b = Some (snd (SetOffset n b))"
| "buf_do hp (OpIncOffset n) b = Some (snd (IncOffset n b))"
| "buf_do hp (OpSetTailOff n) b = Some (SetTailOff n b)"
| "buf_do hp (OpSetWinSize n) b = Some (SetWinSize n b)"
| "buf_do hp (OpSlideWindow n) b = Some (snd (SlideWindow n b))"
| "buf_do hp (OpSetExDataType t) b = Some (SetExDataType t b)"

definition buf_step :: "heap \<Rightarrow> cbuffer option \<Rightarrow> buf_op \<Rightarrow> cbuffer option" where
  "buf_step hp s e = s \<bind> buf_do hp e"

text \<open>
  What the caller owes: the source of an \<open>Append\<close> has the bytes, and the sum of the sizes
  stays within \<open>MAX_BYTES_PER_BUFFER\<close>. \<open>Append\<close> itself checks neither.
\<close>

definition buf_legal :: "cbuffer option \<Rightarrow> buf_op \<Rightarrow> bool" where
  "buf_legal s e = (case (s, e) of
      (Some b, OpAppend (Some blk) n) \<Rightarrow> n \<le> length blk \<and> bufSize b + n \<le> MAX_BYTES_PER_BUFFER
    | _ \<Rightarrow> True)"

definition buf_inv :: "cbuffer option \<Rightarrow> bool" where
  "buf_inv s = (case s of None \<Rightarrow> False | Some b \<Rightarrow> buf_wf b \<and> GetDataType b = DataTypeMem)"

lemma take_drop_overwrite:
  assumes "i + k + length ys \<le> length xs"
  shows "take (k + length ys) (drop i (overwrite (i + k) ys xs)) = take k (drop i xs) @ ys"
proof -
  have "drop i (take (i + k) xs) = take k (drop i xs)" by (simp add: drop_take)
  then have "drop i (overwrite (i + k) ys xs) = take k (drop i xs) @ ys @ drop (i + k + length ys) xs"
    using assms by (simp add: overwrite_def)
  then show ?thesis using assms by simp
qed

lemma Append_cases:
  assumes wf: "buf_wf b" and mem: "GetDataType b = DataTypeMem"
    and n: "0 < n" "bufSize b + n \<le> MAX_BYTES_PER_BUFFER" "n \<le> length blk"
  obtains (ok) b' where "Append hp (Some blk) n b = Return (0, b')" "buf_wf b'"
      "GetDataType b' = DataTypeMem" "window b' = window b @ take n blk"
  | (nomem) b' where "\<not> allocOk hp (bufSize b + n)" "Append hp (Some blk) n b = Throw b'" "buf_wf b'"
      "GetDataType b' = DataTypeMem"
proof -
  have u: "u32_add (bufSize b) n = bufSize b + n" using n by (simp add: u32_simps)
  have ty: "GetDataType b \<in> {DataTypeMem, DataTypeObjPtr, DataTypeMsgPtr}" using mem by simp
  show thesis
  proof (cases rule: Resize_cases [OF wf ty, of "bufSize b + n" hp])
    case 1
    then show thesis using n by simp
  next
    case (2 b1)
    note l1 = buf_wf_lengths [OF 2(3)] and l = buf_wf_lengths [OF wf]
    have "dwOffset b1 + bufSize b + n \<le> length (memBytes b1)" using l1 2(4) by simp
    then obtain b2 where st: "storeBytes b1 (dwOffset b1 + bufSize b) (take n blk) = Some b2"
      using n by (simp add: storeBytes_def)
    note s2 = storeBytes_wf [OF st 2(3)]
    have "window b2 = take (bufSize b1) (drop (dwOffset b1) (memBytes b2))"
      using s2 by (simp add: window_def)
    also have "\<dots> = take (bufSize b) (drop (dwOffset b1) (memBytes b1)) @ take n blk"
      using take_drop_overwrite [of "dwOffset b1" "bufSize b" "take n blk" "memBytes b1"] s2(2) 2(4) n l1(5)
      by (simp add: min_absorb2)
    also have "take (bufSize b) (drop (dwOffset b1) (memBytes b1)) = take (bufSize b) (window b1)"
      using 2(4) by (simp add: window_def min_def)
    also have "take (bufSize b) (window b1) = window b" using 2(6) l by simp
    finally show thesis using 2 st s2 u n mem
      by (intro ok [of "SetExDataType typeByteArr b2"]) (simp_all add: Append_def)
  next
    case (3 b')
    then show thesis using n mem u by (intro nomem [of b']) (simp_all add: Append_def)
  qed
qed

lemma buf_do_inv:
  assumes "buf_wf b" "GetDataType b = DataTypeMem" "buf_legal (Some b) e"
  shows "buf_inv (buf_do hp e b)"
proof (cases e)
  case (OpResize n)
  have ty: "GetDataType b \<in> {DataTypeMem, DataTypeObjPtr, DataTypeMsgPtr}" using assms by simp
  show ?thesis using OpResize assms
    by (cases rule: Resize_cases [OF assms(1) ty, of n hp]) (simp_all add: settle_def buf_inv_def)
next
  case (OpAppend blk n)
  show ?thesis
  proof (cases "blk = None \<or> n = 0 \<or> n > BUF_MAX_SIZE")
    case True
    then show ?thesis using OpAppend assms
      by (auto simp: Append_def settle_def buf_inv_def split: option.split)
  next
    case False
    then obtain bs where bs: "blk = Some bs" "0 < n" by auto
    then have pre: "bufSize b + n \<le> MAX_BYTES_PER_BUFFER" "n \<le> length bs"
      using assms(3) OpAppend by (auto simp: buf_legal_def)
    show ?thesis using OpAppend bs
      by (cases rule: Append_cases [OF assms(1,2) bs(2) pre, of hp]) (auto simp: settle_def buf_inv_def)
  qed
qed (use assms in \<open>auto simp: buf_inv_def IncOffset_def SetWinSize_def SlideWindow_def Let_def
       intro!: step_preserves\<close>)

lemma newBuffer_facts [simp]:
  "GetDataType (newBuffer stale) = DataTypeMem" "bufSize (newBuffer stale) = 0"
  "length stale = ARR_SIZE \<Longrightarrow> buf_wf (newBuffer stale)" "base (newBuffer stale) = NullBase"
  by (simp_all add: newBuffer_def) (simp_all add: bufSize_def GetTailOff_def u32_sub_def buf_wf_def)

interpretation bm: event_machine "buf_step hp" buf_legal buf_inv for hp
proof
  fix s e assume "buf_inv s" "buf_legal s e"
  then show "buf_inv (buf_step hp s e)"
    by (cases s) (auto simp: buf_inv_def [of None] buf_inv_def [of "Some _"] buf_step_def intro!: buf_do_inv)
qed

text \<open>Memory is available, and the array of a new buffer is an array.\<close>

definition roomy :: "heap \<Rightarrow> u8 list \<Rightarrow> bool" where
  "roomy hp stale \<longleftrightarrow> (\<forall>k. allocOk hp k) \<and> length stale = ARR_SIZE"

text \<open>A buffer read from the front: \<open>inp\<close> is what is left in its window.\<close>

definition rd :: "cbuffer \<Rightarrow> u8 list \<Rightarrow> bool" where
  "rd b inp \<longleftrightarrow> buf_wf b \<and> GetDataType b = DataTypeMem \<and> base b \<noteq> NullBase \<and> window b = inp"

lemma rd_facts:
  assumes "rd b inp"
  shows "bufSize b = length inp" "bufEmpty b \<longleftrightarrow> inp = []" "length inp \<le> MAX_BYTES_PER_BUFFER"
    "dwOffset b + length inp < 2 ^ 32"
    "n \<le> length inp \<Longrightarrow> loadBytes b (dwOffset b) n = Some (take n inp)"
proof -
  have b: "buf_wf b" "base b \<noteq> NullBase" "window b = inp" using assms by (simp_all add: rd_def)
  note l = buf_wf_lengths [OF b(1)]
  show s: "bufSize b = length inp" using l(4) b(3) by simp
  show "bufEmpty b \<longleftrightarrow> inp = []" using s b(2) by (simp add: bufEmpty_def)
  show "length inp \<le> MAX_BYTES_PER_BUFFER" "dwOffset b + length inp < 2 ^ 32" using s l(2) b(1) by (auto simp: buf_wf_def)
  show "n \<le> length inp \<Longrightarrow> loadBytes b (dwOffset b) n = Some (take n inp)"
    using loadBytes_window [OF b(1), of n] s b(3) by simp
qed

lemma IncOffset_spec:
  assumes "rd b inp" "n \<le> length inp"
  obtains b' where "IncOffset n b = (STATUS_SUCCESS, b')" "rd b' (drop n inp)" "dwOffset b' = dwOffset b + n"
proof -
  have b: "buf_wf b" "GetDataType b = DataTypeMem" "base b \<noteq> NullBase" "window b = inp" using assms(1) by (simp_all add: rd_def)
  note l = buf_wf_lengths [OF b(1)] and r = rd_facts [OF assms(1)]
  have u: "u32_add (dwOffset b) n = dwOffset b + n" using r(4) assms(2) by (simp add: u32_simps)
  have le: "dwOffset b + n \<le> dwTailOff b" using l(2) r(1) assms(2) b(1) by (auto simp: buf_wf_def)
  define b' where "b' = b\<lparr>dwOffset := dwOffset b + n\<rparr>"
  have wf: "buf_wf b'" using b(1) le by (auto simp: buf_wf_def b'_def split: membase.splits)
  have mem: "memBytes b' = memBytes b" by (simp add: b'_def memBytes_def split: membase.split)
  have "window b' = take (dwTailOff b - (dwOffset b + n)) (drop (dwOffset b + n) (memBytes b))"
    using buf_wf_lengths(2) [OF wf] mem by (simp add: window_def b'_def)
  also have "\<dots> = drop n (window b)" using l(2) by (simp add: window_def drop_take add.commute)
  finally have "rd b' (drop n inp)" using wf b by (simp add: rd_def b'_def GetDataType_def)
  moreover have "IncOffset n b = (STATUS_SUCCESS, b')"
    using b le u by (simp add: IncOffset_def SetOffset_def GetTailOff_def b'_def)
  ultimately show thesis by (intro that [of b']) (simp_all add: b'_def)
qed

subsection \<open>Properties\<close>

definition wit_heap :: heap where
  "wit_heap = \<lparr>allocOk = (\<lambda>_. True), junk = (\<lambda>_. 0)\<rparr>"

lemma wit_roomy: "roomy wit_heap (replicate 48 0)"
  by (simp add: roomy_def wit_heap_def)

definition wit_buffer :: "nat \<Rightarrow> cbuffer" where
  "wit_buffer n = \<lparr>arrBuf = replicate ARR_SIZE 0, base = HeapBase (replicate n 7), actSize = n, dwType = 0,
     dwOffset = 0, dwTailOff = n, held = 0\<rparr>"

lemma wit_buffer_facts:
  "48 < n \<Longrightarrow> n \<le> MAX_BYTES_PER_BUFFER \<Longrightarrow> buf_wf (wit_buffer n)" "GetDataType (wit_buffer n) = DataTypeMem"
  by (simp_all add: wit_buffer_def buf_wf_def GetDataType_def)

text \<open>
  C4: Whatever sequence of resizes, appends and window moves a user performs on a new plain
  buffer, no access leaves the block the buffer points to and the buffer stays well formed
  (the window inside the block, the block in the array exactly up to 48 bytes), whether or
  not the allocations succeed, as long as the sum of the sizes given to \<open>Append\<close> respects
  the 16 MB limit.
\<close>

theorem buffer_memory_safe:
  assumes "length stale = ARR_SIZE" "reach (buf_step hp) buf_legal (Some (newBuffer stale)) s"
  shows "\<exists>b. s = Some b \<and> buf_wf b \<and> length (window b) = bufSize b \<and> loadBytes b (dwOffset b) (bufSize b) = Some (window b)"
proof -
  have "buf_inv (Some (newBuffer stale))"
    using assms(1) by (simp add: buf_inv_def)
  then have "buf_inv s" using assms(2) by (rule bm.inv_reach [rotated])
  then obtain b where "s = Some b" "buf_wf b" by (auto simp: buf_inv_def split: option.splits)
  then show ?thesis using buf_wf_lengths(4) [of b] loadBytes_window [of b "bufSize b"] by auto
qed

lemma buffer_memory_safe_witness:
  "\<exists>b. buf_step wit_heap (buf_step wit_heap (Some (newBuffer (replicate 48 0))) (OpAppend (Some (replicate 60 5)) 60))
      (OpSlideWindow 0) = Some b \<and> buf_wf b \<and> length (window b) = bufSize b \<and>
      loadBytes b (dwOffset b) (bufSize b) = Some (window b)"
proof (rule buffer_memory_safe [of "replicate 48 0"])
  have "buf_legal (Some (newBuffer (replicate 48 0))) (OpAppend (Some (replicate 60 5)) 60)"
    by (simp add: buf_legal_def)
  moreover have "buf_legal s (OpSlideWindow 0)" for s by (simp add: buf_legal_def split: option.split)
  ultimately show "reach (buf_step wit_heap) buf_legal (Some (newBuffer (replicate 48 0)))
     (buf_step wit_heap (buf_step wit_heap (Some (newBuffer (replicate 48 0))) (OpAppend (Some (replicate 60 5)) 60)) (OpSlideWindow 0))"
    by (intro reach.intros)
qed simp

text \<open>
  C5: \<open>Append\<close> appends: on a plain buffer, with memory available and the sum of the sizes
  within 16 MB, it returns 0 and the window becomes the old window followed by the block,
  wherever the window lies in its block and whichever of the four memory layouts it moves
  the bytes between.
\<close>

theorem append_refines:
  assumes "buf_wf b" "GetDataType b = DataTypeMem" "blk \<noteq> []"
    "bufSize b + length blk \<le> MAX_BYTES_PER_BUFFER" "allocOk hp (bufSize b + length blk)"
  shows "\<exists>b'. Append hp (Some blk) (length blk) b = Return (0, b') \<and> buf_wf b' \<and> window b' = window b @ blk"
proof -
  have "0 < length blk" "length blk \<le> length blk" using assms(3) by simp_all
  from Append_cases [OF assms(1,2) this(1) assms(4) this(2), of hp] assms(5) show ?thesis
    by (metis take_all_iff order_refl)
qed

lemma append_refines_witness:
  "\<exists>b'. Append wit_heap (Some [1, 2]) (length [1 :: u8, 2]) (wit_buffer 50) = Return (0, b') \<and> buf_wf b' \<and>
     window b' = window (wit_buffer 50) @ [1, 2]"
  by (rule append_refines)
    (simp_all add: wit_buffer_facts, simp_all add: wit_buffer_def wit_heap_def bufSize_def GetTailOff_def u32_sub_def)

text \<open>
  \<open>Append\<close> does not look at what \<open>Resize\<close> returned: when the sum of the sizes exceeds
  16 MB, \<open>Resize\<close> refuses with \<open>-E2BIG\<close> without throwing, and the block is copied behind
  the end of the memory the buffer has.
\<close>

theorem append_beyond_limit_overflows:
  assumes "buf_wf b" "GetDataType b = DataTypeMem" "0 < length blk" "length blk \<le> BUF_MAX_SIZE"
    "bufSize b + length blk > MAX_BYTES_PER_BUFFER" "length (memBytes b) \<le> MAX_BYTES_PER_BUFFER"
  shows "Resize hp (bufSize b + length blk) b = Return (- E2BIG, b) \<and>
         Append hp (Some blk) (length blk) b = Undefined"
proof -
  have "bufSize b \<le> MAX_BYTES_PER_BUFFER" using assms(1) buf_wf_lengths(2) by (auto simp: buf_wf_def)
  then have "u32_add (bufSize b) (length blk) = bufSize b + length blk" using assms(4) by (simp add: u32_simps)
  moreover have "Resize hp (bufSize b + length blk) b = Return (- E2BIG, b)"
    using assms(5) by (simp add: Resize_def)
  moreover have "storeBytes b (dwOffset b + bufSize b) blk = None" using assms(5,6) by (simp add: storeBytes_def)
  ultimately show ?thesis using assms(2,3,4) by (simp add: Append_def)
qed

lemma append_beyond_limit_witness:
  "Resize wit_heap (bufSize (wit_buffer 60) + length (replicate MAX_BYTES_PER_BUFFER (1 :: u8))) (wit_buffer 60) =
      Return (- E2BIG, wit_buffer 60) \<and>
   Append wit_heap (Some (replicate MAX_BYTES_PER_BUFFER 1)) (length (replicate MAX_BYTES_PER_BUFFER (1 :: u8))) (wit_buffer 60) = Undefined"
  by (rule append_beyond_limit_overflows)
    (simp_all add: wit_buffer_facts, simp_all add: wit_buffer_def bufSize_def GetTailOff_def u32_sub_def memBytes_def)

text \<open>
  \<open>SlideWindow\<close> moves the window to the bytes that follow it: it succeeds and the new
  window is the next \<open>n\<close> bytes of the block, fewer where the block ends.
\<close>

theorem slide_window_next:
  assumes "buf_wf b" "GetDataType b = DataTypeMem" "base b \<noteq> NullBase" "n \<le> MAX_BYTES_PER_BUFFER"
  shows "fst (SlideWindow n b) = STATUS_SUCCESS \<and>
         window (snd (SlideWindow n b)) = take n (drop (dwTailOff b) (take (actSize b) (memBytes b))) \<and>
         dwOffset (snd (SlideWindow n b)) = dwTailOff b"
proof -
  note l = buf_wf_lengths [OF assms(1)]
  have le: "dwOffset b \<le> dwTailOff b" "dwTailOff b \<le> actSize b" "actSize b \<le> MAX_BYTES_PER_BUFFER"
    using assms(1) by (auto simp: buf_wf_def)
  define c where "c = SetWinSize (u32_add (bufSize b) n) b"
  have sum: "u32_add (dwOffset b) (u32_add (bufSize b) n) = dwTailOff b + n"
    using le l(2) assms(4) by (simp add: u32_simps)
  have c: "dwOffset c = dwOffset b" "dwTailOff c = min (dwTailOff b + n) (actSize b)" "memBytes c = memBytes b"
      "GetDataType c = DataTypeMem" "base c = base b"
    using assms(2) le sum by (auto simp: c_def SetWinSize_def SetTailOff_def Let_def GetActSize_def memBytes_def
        GetDataType_def min_def split: membase.split)
  have inc: "u32_add (dwOffset b) (bufSize b) = dwTailOff b" using le l(2) by (simp add: u32_simps)
  have r: "SlideWindow n b = (STATUS_SUCCESS, c\<lparr>dwOffset := dwTailOff b\<rparr>)"
    using assms(2,3) c inc le unfolding SlideWindow_def Let_def c_def [symmetric]
    by (simp add: IncOffset_def SetOffset_def GetTailOff_def)
  have mb: "memBytes (c\<lparr>dwOffset := k\<rparr>) = memBytes c" for k by (simp add: memBytes_def split: membase.split)
  have "window (c\<lparr>dwOffset := dwTailOff b\<rparr>) = take (min (dwTailOff b + n) (actSize b) - dwTailOff b) (drop (dwTailOff b) (memBytes b))"
    using c le mb by (simp add: window_def bufSize_def GetTailOff_def u32_simps)
  also have "\<dots> = take n (drop (dwTailOff b) (take (actSize b) (memBytes b)))"
    using le by (auto simp: drop_take min_def)
  finally show ?thesis using r by simp
qed

lemma slide_window_next_witness:
  "fst (SlideWindow 5 (wit_buffer 60)) = STATUS_SUCCESS \<and>
   window (snd (SlideWindow 5 (wit_buffer 60))) = take 5 (drop (dwTailOff (wit_buffer 60)) (take (actSize (wit_buffer 60)) (memBytes (wit_buffer 60)))) \<and>
   dwOffset (snd (SlideWindow 5 (wit_buffer 60))) = dwTailOff (wit_buffer 60)"
  by (rule slide_window_next) (simp_all add: wit_buffer_facts, simp add: wit_buffer_def)

end
