(* ===== verification/BufSeri.thy ===== *)
theory BufSeri
  imports Buffer
begin

text \<open>
  Copying, comparing, serialising and compressing a \<open>CBuffer\<close> (\<open>combase/buffer.cpp\<close>). A
  serialised buffer is a header of 20 bytes followed by the payload; numbers in the payload
  are turned to network order, so the bytes of a number in memory are reversed on the
  little-endian hosts the code runs on.

  Objects and D-Bus messages held by a buffer are reached through the record \<open>objects\<close>: how
  to create an object of a class, to serialise and to deserialise it. LZ4 is a parameter.
\<close>

subsection \<open>The header\<close>

record seri_header =
  hClsid :: nat
  hSize :: nat
  hVersion :: u8
  hType :: nat
  hObjClsid :: nat

abbreviation (input) SIZEOF_HEADER :: nat where "SIZEOF_HEADER \<equiv> 20"
abbreviation (input) Clsid_CBuffer :: nat where "Clsid_CBuffer \<equiv> 2085"

definition new_header :: seri_header where
  "new_header = \<lparr>hClsid = Clsid_CBuffer, hSize = 0, hVersion = 1, hType = 0, hObjClsid = 0\<rparr>"

text \<open>
  \<open>hton\<close> and the assignment \<open>*pheader = oHeader\<close>: the assignment operator of the base does
  not copy \<open>bReserved\<close>, so the three bytes at offset 9 keep what the memory held.
\<close>

definition write_header :: "seri_header \<Rightarrow> cbuffer \<Rightarrow> cbuffer option" where
  "write_header h b =
     storeBytes b (dwOffset b) (to_be 4 (hClsid h) @ to_be 4 (hSize h) @ [hVersion h]) \<bind>
     (\<lambda>b1. storeBytes b1 (dwOffset b + 12) (to_be 4 (hType h) @ to_be 4 (hObjClsid h)))"

text \<open>Copying the header out of the source memory, and \<open>ntoh\<close>.\<close>

definition read_header :: "u8 list \<Rightarrow> seri_header option" where
  "read_header src =
    (if length src < SIZEOF_HEADER then None
     else Some \<lparr>hClsid = of_be (take 4 src), hSize = of_be (take 4 (drop 4 src)), hVersion = src ! 8,
                hType = of_be (take 4 (drop 12 src)), hObjClsid = of_be (take 4 (drop 16 src))\<rparr>)"

subsection \<open>Objects held by a buffer\<close>

record objects =
  CreateObj :: "nat \<Rightarrow> int \<times> nat"
  ObjSerialize :: "nat \<Rightarrow> int \<times> u8 list"
  ObjDeserialize :: "nat \<Rightarrow> u8 list \<Rightarrow> int"
  ObjGetClsid :: "nat \<Rightarrow> nat"
  ObjGetId :: "nat \<Rightarrow> nat"
  DMsgSerialize :: "nat \<Rightarrow> int \<times> u8 list"
  DMsgDeserialize :: "u8 list \<Rightarrow> int \<times> nat"
  DMsgGetType :: "nat \<Rightarrow> nat"

abbreviation (input) Clsid_Invalid :: nat where "Clsid_Invalid \<equiv> 4294967295"

text \<open>
  \<open>NewObj\<close> of an \<open>ObjPtr\<close>: the class \<open>Clsid_Invalid\<close> leaves the pointer null and returns 0;
  \<open>CreateObj\<close> is the class factory, the result of the cast included.
\<close>

definition NewObj :: "objects \<Rightarrow> nat \<Rightarrow> int \<times> nat" where
  "NewObj ob c = (if c = Clsid_Invalid then (0, 0) else CreateObj ob c)"

subsection \<open>Payloads\<close>

text \<open>\<open>strncpy\<close> of \<open>n\<close> bytes followed by the terminator the code forces.\<close>

definition strncpy0 :: "nat \<Rightarrow> u8 list \<Rightarrow> u8 list" where
  "strncpy0 n src = take (n - 1) (takeWhile (\<lambda>c. c \<noteq> 0) (take n src) @ replicate n 0) @ [0]"

text \<open>How far \<open>strncpy\<close> reads: \<open>n\<close> bytes, or less when it meets the terminator.\<close>

definition strnlen :: "nat \<Rightarrow> u8 list \<Rightarrow> nat" where
  "strnlen n src = min n (if 0 \<in> set src then length (takeWhile (\<lambda>c. c \<noteq> 0) src) else n)"

text \<open>The width of the number a type stands for, where it is one.\<close>

definition numWidth :: "32 word \<Rightarrow> nat option" where
  "numWidth ty = (if ty = typeUInt16 then Some 2
     else if ty = typeUInt32 \<or> ty = typeFloat then Some 4
     else if ty = typeUInt64 \<or> ty = typeDouble then Some 8 else None)"

text \<open>
  \<open>SerializePrimeType\<close>: the result and the bytes written at \<open>pDest\<close>. \<open>None\<close> when it reads
  outside the block.
\<close>

definition SerializePrimeType :: "cbuffer \<Rightarrow> (int \<times> u8 list) option" where
  "SerializePrimeType b =
    (let ty = GetExDataType b in
     if ty = typeNone \<or> ty = typeByteArr then
       map_option (\<lambda>bs. (0, bs)) (loadBytes b (dwOffset b) (bufSize b))
     else if ty = typeByte then map_option (\<lambda>bs. (0, bs)) (loadBytes b (dwOffset b) 1)
     else if ty = typeString then
       map_option (\<lambda>bs. (0, strncpy0 (bufSize b) bs)) (loadBytes b (dwOffset b) (bufSize b))
     else (case numWidth ty of
         Some w \<Rightarrow> map_option (\<lambda>bs. (0, rev bs)) (loadBytes b (dwOffset b) w)
       | None \<Rightarrow> Some (- ENOTSUP, [])))"

text \<open>\<open>DeserializePrimeType\<close> from the memory at \<open>pSrc\<close>.\<close>

definition DeserializePrimeType :: "u8 list \<Rightarrow> cbuffer \<Rightarrow> (int \<times> cbuffer) option" where
  "DeserializePrimeType src b =
    (let ty = GetExDataType b;
         put = (\<lambda>n f. if n \<le> length src
                 then map_option (Pair 0) (storeBytes b (dwOffset b) (f (take n src))) else None)
     in if ty = typeNone \<or> ty = typeByteArr then put (bufSize b) id
        else if ty = typeByte then put 1 id
        else if ty = typeString then put (strnlen (bufSize b) src) (strncpy0 (bufSize b))
        else (case numWidth ty of
            Some w \<Rightarrow> put w rev
          | None \<Rightarrow> Some (- ENOTSUP, b)))"

subsection \<open>Serialize and Deserialize\<close>

definition optOutcome :: "'a option \<Rightarrow> 'a outcome" where
  "optOutcome r = (case r of None \<Rightarrow> Undefined | Some x \<Rightarrow> Return x)"

definition bindOutcome :: "'a outcome \<Rightarrow> ('a \<Rightarrow> 'b outcome) \<Rightarrow> 'b outcome" where
  "bindOutcome r f = (case r of Return x \<Rightarrow> f x | Throw b \<Rightarrow> Throw b | Undefined \<Rightarrow> Undefined)"

text \<open>
  The tail the three data types share: room for header and payload, the header, the payload
  behind it. The result of \<open>Resize\<close> is not looked at.
\<close>

definition emit :: "heap \<Rightarrow> seri_header \<Rightarrow> nat \<Rightarrow> (int \<times> u8 list) option \<Rightarrow> cbuffer \<Rightarrow> (int \<times> cbuffer) outcome" where
  "emit hp h n payload toBuf =
     bindOutcome (Resize hp (u32_add SIZEOF_HEADER n) toBuf) (\<lambda>(_, b1).
     bindOutcome (optOutcome (write_header h b1)) (\<lambda>b2.
     bindOutcome (optOutcome payload) (\<lambda>(ret, bs).
     bindOutcome (optOutcome (storeBytes b2 (dwOffset b2 + SIZEOF_HEADER) bs)) (\<lambda>b3. Return (ret, b3)))))"

text \<open>
  The cast \<open>*( ObjPtr* )ptr()\<close> reads the smart pointer, \<open>held\<close>. Serialising an object or a
  message fills a temporary buffer, whose window is the payload.
\<close>

definition Serialize :: "heap \<Rightarrow> objects \<Rightarrow> cbuffer \<Rightarrow> cbuffer \<Rightarrow> (int \<times> cbuffer) outcome" where
  "Serialize hp ob b toBuf =
     bindOutcome (Resize hp SIZEOF_HEADER toBuf) (\<lambda>(_, t1).
     if bufEmpty b then
       bindOutcome (optOutcome (write_header (new_header\<lparr>hType := unat DataTypeMem\<rparr>) t1)) (\<lambda>t2. Return (0, t2))
     else if GetDataType b = DataTypeMsgPtr then
       (if held b = 0 then Return (- EFAULT, t1)
        else let (ret, bs) = DMsgSerialize ob (held b) in
          if ERROR ret then Return (ret, t1)
          else emit hp (new_header\<lparr>hSize := length bs, hType := unat (dwType b), hObjClsid := DMsgGetType ob (held b)\<rparr>)
                 (length bs) (Some (ret, bs)) t1)
     else if GetDataType b = DataTypeObjPtr then
       (if held b = 0 then Return (- EFAULT, t1)
        else let (ret, bs) = ObjSerialize ob (held b) in
          if ERROR ret then Return (ret, t1)
          else emit hp (new_header\<lparr>hSize := length bs, hType := unat (dwType b), hObjClsid := ObjGetClsid ob (held b)\<rparr>)
                 (length bs) (Some (ret, bs)) t1)
     else if GetDataType b = DataTypeMem then
       emit hp (new_header\<lparr>hSize := bufSize b, hType := unat (dwType b)\<rparr>) (bufSize b) (SerializePrimeType b) t1
     else Return (- ENOTSUP, t1))"

text \<open>
  \<open>Deserialize( pBuf, dwBufSize )\<close>: \<open>src\<close> is the memory at \<open>pBuf\<close>; \<open>dwBufSize\<close> is not used
  by the code. \<open>stale\<close> is the array of the temporary buffer the payload of an object is
  copied to.
\<close>

definition Deserialize :: "heap \<Rightarrow> objects \<Rightarrow> u8 list \<Rightarrow> u8 list \<Rightarrow> nat \<Rightarrow> cbuffer \<Rightarrow> (int \<times> cbuffer) outcome" where
  "Deserialize hp ob stale src dwBufSize b =
     bindOutcome (optOutcome (read_header src)) (\<lambda>h.
     let dt = of_nat (hType h) AND DATATYPE_MASK; payload = drop SIZEOF_HEADER src in
     if hClsid h \<noteq> Clsid_CBuffer then Return (- EINVAL, b)
     else if hSize h > BUF_MAX_SIZE then Return (- EINVAL, b)
     else if dt = DataTypeMem then
       (if hSize h = 0 then bindOutcome (Resize hp 0 b) (\<lambda>(_, b1). Return (0, b1))
        else bindOutcome (Resize hp (hSize h) b) (\<lambda>(_, b1).
          if base b1 = NullBase then Return (- EFAULT, b1)
          else optOutcome (DeserializePrimeType payload (b1\<lparr>dwType := of_nat (hType h)\<rparr>))))
     else if dt = DataTypeObjPtr then
       bindOutcome (Resize hp SIZEOF_OBJPTR b) (\<lambda>(_, b1).
       if base b1 = NullBase then Return (- ENOMEM, b1)
       else let b2 = SetExDataType typeObj (SetDataType DataTypeObjPtr (b1\<lparr>held := 0\<rparr>)) in
         if hSize h > 0 then
           (case NewObj ob (hObjClsid h) of (ret, p) \<Rightarrow>
              if ret \<noteq> 0 then Return (ret, b2)
              else if p = 0 then Undefined
              else bindOutcome (constructData hp stale (Some payload) (hSize h)) (\<lambda>a.
                   Return (ObjDeserialize ob p (window a), b2\<lparr>held := p\<rparr>)))
         else bindOutcome (Resize hp 0 b2) (\<lambda>(_, b3). Return (- ERANGE, b3)))
     else if dt = DataTypeMsgPtr then
       bindOutcome (Resize hp SIZEOF_OBJPTR b) (\<lambda>(_, b1).
       if base b1 = NullBase then Return (- ENOMEM, b1)
       else let b2 = SetExDataType typeDMsg (SetDataType DataTypeMsgPtr (b1\<lparr>held := 0\<rparr>)) in
         if hSize h > 0 then
           bindOutcome (constructData hp stale (Some payload) (hSize h)) (\<lambda>a.
             case DMsgDeserialize ob (window a) of (ret, p) \<Rightarrow> Return (ret, b2\<lparr>held := p\<rparr>))
         else bindOutcome (Resize hp 0 b2) (\<lambda>(_, b3). Return (- ERANGE, b3)))
     else Return (- ENOTSUP, b))"

text \<open>\<open>Deserialize( const CBuffer& )\<close>.\<close>

definition DeserializeFrom :: "heap \<Rightarrow> objects \<Rightarrow> u8 list \<Rightarrow> cbuffer \<Rightarrow> cbuffer \<Rightarrow> (int \<times> cbuffer) outcome" where
  "DeserializeFrom hp ob stale oBuf b =
     Deserialize hp ob stale (drop (dwOffset oBuf) (memBytes oBuf)) (bufSize oBuf) b"

subsection \<open>Assignments and comparison\<close>

text \<open>\<open>operator=( const ObjPtr& )\<close> and \<open>operator=( const DMsgPtr& )\<close>.\<close>

definition assignPtr :: "heap \<Rightarrow> 32 word \<Rightarrow> 32 word \<Rightarrow> nat \<Rightarrow> cbuffer \<Rightarrow> cbuffer outcome" where
  "assignPtr hp dt ext p b =
     bindOutcome (Resize hp SIZEOF_OBJPTR b) (\<lambda>(_, b1).
     if base b1 = NullBase then Throw b1
     else Return (SetExDataType ext (SetDataType dt (b1\<lparr>held := p\<rparr>))))"

definition assignObj :: "heap \<Rightarrow> nat \<Rightarrow> cbuffer \<Rightarrow> cbuffer outcome" where
  "assignObj hp = assignPtr hp DataTypeObjPtr typeObj"

definition assignMsg :: "heap \<Rightarrow> nat \<Rightarrow> cbuffer \<Rightarrow> cbuffer outcome" where
  "assignMsg hp = assignPtr hp DataTypeMsgPtr typeDMsg"

text \<open>\<open>operator=( const stdstr& )\<close>: the characters and one terminator.\<close>

definition assignStr :: "heap \<Rightarrow> u8 list \<Rightarrow> cbuffer \<Rightarrow> cbuffer outcome" where
  "assignStr hp str b =
     bindOutcome (Resize hp (length str + 1) b) (\<lambda>(_, b1).
     if base b1 = NullBase then Return b1
     else bindOutcome (optOutcome (storeBytes b1 (dwOffset b1) (str @ [0]))) (\<lambda>b2.
       Return (SetExDataType typeString (SetDataType DataTypeMem b2))))"

text \<open>
  \<open>operator=( const T& )\<close> for a plain value: its bytes and its type id. The data type is set
  before \<open>Resize\<close> looks at it.
\<close>

definition assignScalar :: "heap \<Rightarrow> 32 word \<Rightarrow> u8 list \<Rightarrow> cbuffer \<Rightarrow> cbuffer outcome" where
  "assignScalar hp ty bs b =
     bindOutcome (Resize hp (length bs) (SetDataType DataTypeMem b)) (\<lambda>(_, b1).
     if base b1 = NullBase then Return b1
     else bindOutcome (optOutcome (storeBytes b1 (dwOffset b1) bs)) (\<lambda>b2. Return (SetExDataType ty b2)))"

text \<open>\<open>operator=( const CBuffer& )\<close>.\<close>

definition assignBuf :: "heap \<Rightarrow> cbuffer \<Rightarrow> cbuffer \<Rightarrow> cbuffer outcome" where
  "assignBuf hp rhs b =
     bindOutcome (Resize hp (bufSize rhs) b) (\<lambda>(_, b1).
     if bufSize b1 = 0 then Return b1
     else if base b1 = NullBase then Throw b1
     else if GetDataType rhs = DataTypeMem then
       bindOutcome (optOutcome (loadBytes rhs (dwOffset rhs) (bufSize b1))) (\<lambda>bs.
       bindOutcome (optOutcome (storeBytes (SetDataType DataTypeMem b1) (dwOffset b1) bs)) (\<lambda>b2.
       Return (SetExDataType (GetExDataType rhs) b2)))
     else if GetDataType rhs = DataTypeMsgPtr then assignMsg hp (held rhs) b1
     else if GetDataType rhs = DataTypeObjPtr then assignObj hp (held rhs) b1
     else Throw b1)"

text \<open>\<open>operator==\<close>: bytes, object identities, or message pointers.\<close>

definition bufEq :: "objects \<Rightarrow> cbuffer \<Rightarrow> cbuffer \<Rightarrow> bool option" where
  "bufEq ob a b =
    (if bufSize a \<noteq> bufSize b \<or> GetDataType a \<noteq> GetDataType b then Some False
     else if GetDataType a = DataTypeMem then
       do { xs \<leftarrow> loadBytes a (dwOffset a) (bufSize a);
            ys \<leftarrow> loadBytes b (dwOffset b) (bufSize a);
            Some (xs = ys) }
     else if GetDataType a = DataTypeObjPtr then
       Some (if held b = 0 then held a = 0
             else if held a = 0 then False else ObjGetId ob (held a) = ObjGetId ob (held b))
     else if GetDataType a = DataTypeMsgPtr then Some (held a = held b)
     else Some False)"

subsection \<open>Compression\<close>

text \<open>
  \<open>bound\<close>, \<open>compress\<close> and \<open>decompress\<close> are the three LZ4 functions: the capacity needed, the
  compressed bytes (or a failure code), the bytes decompressed into a capacity.
\<close>

definition Compress :: "(nat \<Rightarrow> nat) \<Rightarrow> (u8 list \<Rightarrow> nat \<Rightarrow> int \<times> u8 list) \<Rightarrow> cbuffer \<Rightarrow> bool \<Rightarrow> nat \<Rightarrow>
    int \<times> nat \<times> u8 list" where
  "Compress bound compress b bDest dwSize =
    (let dwMaxSize = bound (bufSize b) in
     if \<not> bDest then (0, dwMaxSize, [])
     else if dwSize < dwMaxSize then (- EOVERFLOW, dwSize, [])
     else (case compress (window b) dwMaxSize of (n, out) \<Rightarrow>
       if n \<le> 0 then (ERROR_FAIL, dwSize, []) else (0, nat n, out)))"

text \<open>The result is kept in a \<open>guint32\<close>, so a negative result of LZ4 is a large size.\<close>

definition Decompress :: "(u8 list \<Rightarrow> nat \<Rightarrow> int \<times> u8 list) \<Rightarrow> cbuffer \<Rightarrow> nat \<Rightarrow> int \<times> u8 list" where
  "Decompress decompress b dwOrigSize =
    (case decompress (window b) dwOrigSize of (n, out) \<Rightarrow>
       let dwActSize = n mod 2 ^ 32 in
       if dwActSize \<le> 0 then (ERROR_FAIL, out)
       else if dwActSize \<noteq> int dwOrigSize then (ERROR_FAIL, out)
       else (0, out))"

subsection \<open>Windows, headers and payloads\<close>

lemma dwType_irrelevant [simp]:
  "bufSize (b\<lparr>dwType := t\<rparr>) = bufSize b" "buf_wf (b\<lparr>dwType := t\<rparr>) = buf_wf b"
  "memBytes (b\<lparr>dwType := t\<rparr>) = memBytes b" "window (b\<lparr>dwType := t\<rparr>) = window b"
  by (simp_all add: memBytes_def bufSize_def GetTailOff_def window_def buf_wf_def split: membase.split)

lemma store_window:
  assumes "buf_wf b" "i + length bs \<le> bufSize b"
  obtains b' where "storeBytes b (dwOffset b + i) bs = Some b'" "buf_wf b'"
    "window b' = overwrite i bs (window b)" "bufSize b' = bufSize b" "dwOffset b' = dwOffset b"
    "dwType b' = dwType b" "base b' = NullBase \<longleftrightarrow> base b = NullBase"
proof -
  note l = buf_wf_lengths [OF assms(1)]
  have le: "dwOffset b + i + length bs \<le> length (memBytes b)" using assms(2) l by simp
  then obtain b' where st: "storeBytes b (dwOffset b + i) bs = Some b'" by (simp add: storeBytes_def)
  note s = storeBytes_wf [OF st assms(1)]
  have mem: "drop (dwOffset b) (memBytes b') = overwrite i bs (drop (dwOffset b) (memBytes b))"
    using s(2) le by (simp add: overwrite_def drop_take ac_simps)
  have "take n (overwrite i bs xs) = overwrite i bs (take n xs)"
    if "i + length bs \<le> n" "n \<le> length xs" for n and xs :: "u8 list"
    using that by (simp add: overwrite_def take_drop min_absorb2)
  then have "window b' = overwrite i bs (window b)"
    using s mem l assms(2) by (simp add: window_def)
  moreover have "dwType b' = dwType b" "base b' = NullBase \<longleftrightarrow> base b = NullBase"
    using st by (auto simp: storeBytes_def split: if_splits membase.splits)
  ultimately show thesis using that st s by blast
qed

lemma window_prefix: "buf_wf b \<Longrightarrow> \<exists>rest. drop (dwOffset b) (memBytes b) = window b @ rest"
  unfolding window_def by (metis append_take_drop_id)

definition header_bytes :: "seri_header \<Rightarrow> u8 list \<Rightarrow> u8 list" where
  "header_bytes h res = to_be 4 (hClsid h) @ to_be 4 (hSize h) @ [hVersion h] @ res @
     to_be 4 (hType h) @ to_be 4 (hObjClsid h)"

lemma length_header_bytes [simp]: "length res = 3 \<Longrightarrow> length (header_bytes h res) = SIZEOF_HEADER"
  by (simp add: header_bytes_def)

lemma read_header_bytes:
  assumes "length res = 3" "hClsid h < 2 ^ 32" "hSize h < 2 ^ 32" "hType h < 2 ^ 32" "hObjClsid h < 2 ^ 32"
  shows "read_header (header_bytes h res @ rest) = Some h"
proof -
  obtain a b c where res: "res = [a, b, c]" using assms(1)
    by (auto simp: numeral_3_eq_3 length_Suc_conv)
  have "take 4 (drop 12 (header_bytes h res @ rest)) = to_be 4 (hType h)"
    "take 4 (drop 16 (header_bytes h res @ rest)) = to_be 4 (hObjClsid h)"
    "take 4 (drop 4 (header_bytes h res @ rest)) = to_be 4 (hSize h)"
    "take 4 (header_bytes h res @ rest) = to_be 4 (hClsid h)"
    "(header_bytes h res @ rest) ! 8 = hVersion h"
    by (simp_all add: header_bytes_def res nth_append)
  then show ?thesis using assms by (simp add: read_header_def of_be_to_be)
qed

lemma overwrite_header:
  "length p = 9 \<Longrightarrow> length q = 8 \<Longrightarrow> SIZEOF_HEADER \<le> length w \<Longrightarrow>
   overwrite 12 q (overwrite 0 p w) = overwrite 0 (p @ take 3 (drop 9 w) @ q) w"
  by (simp add: overwrite_def)

lemma write_header_window:
  assumes "buf_wf b" "SIZEOF_HEADER \<le> bufSize b"
  obtains b' res where "write_header h b = Some b'" "buf_wf b'" "length res = 3"
    "window b' = overwrite 0 (header_bytes h res) (window b)" "bufSize b' = bufSize b"
    "dwOffset b' = dwOffset b" "dwType b' = dwType b"
proof -
  let ?p = "to_be 4 (hClsid h) @ to_be 4 (hSize h) @ [hVersion h]"
  let ?q = "to_be 4 (hType h) @ to_be 4 (hObjClsid h)"
  let ?res = "take 3 (drop 9 (window b))"
  note l = buf_wf_lengths [OF assms(1)]
  obtain b1 where b1: "storeBytes b (dwOffset b + 0) ?p = Some b1" "buf_wf b1"
      "window b1 = overwrite 0 ?p (window b)" "bufSize b1 = bufSize b" "dwOffset b1 = dwOffset b" "dwType b1 = dwType b"
    by (rule store_window [OF assms(1), of 0 ?p]) (use assms(2) in auto)
  obtain b2 where b2: "storeBytes b1 (dwOffset b1 + 12) ?q = Some b2" "buf_wf b2"
      "window b2 = overwrite 12 ?q (window b1)" "bufSize b2 = bufSize b1" "dwOffset b2 = dwOffset b1" "dwType b2 = dwType b1"
    by (rule store_window [OF b1(2), of 12 ?q]) (use assms(2) b1 in auto)
  have "window b2 = overwrite 0 (header_bytes h ?res) (window b)"
    using b1(3) b2(3) assms(2) l(4) overwrite_header [of ?p ?q "window b"]
    by (simp add: header_bytes_def)
  moreover have "length ?res = 3" using assms(2) l(4) by simp
  ultimately show thesis using b1 b2 by (intro that [of b2 ?res]) (simp_all add: write_header_def)
qed

lemma storeBytes_held: "storeBytes b i bs = Some b' \<Longrightarrow> held b' = held b"
  by (auto simp: storeBytes_def split: if_splits membase.splits)

lemma ResizeWithOffset_held: "ResizeWithOffset hp n b = Some (r, b') \<Longrightarrow> held b' = held b"
  by (auto simp: ResizeWithOffset_def Let_def SetBuffer_def SetExDataType_def
      bind_eq_Some_conv dest: storeBytes_held split: if_splits)

lemma ResizeMem_held: "ResizeMem hp n b = Some (r, b') \<Longrightarrow> held b' = held b"
  by (auto simp: ResizeMem_def Let_def SetBuffer_def SetExDataType_def
      bind_eq_Some_conv dest: ResizeWithOffset_held split: if_splits)

lemma Resize_held:
  assumes "Resize hp n b = Return (r, b')" "n \<le> MAX_BYTES_PER_BUFFER"
    "GetDataType b \<in> {DataTypeMem, DataTypeObjPtr, DataTypeMsgPtr}"
  shows "held b' = (if GetDataType b = DataTypeMem then held b else 0)"
  using assms by (auto simp: Resize_def throwOnError_def SetExDataType_def SetDataType_def
      dest!: ResizeMem_held split: option.splits if_splits)

lemma write_header_held: "write_header h b = Some b' \<Longrightarrow> held b' = held b"
  by (auto simp: write_header_def Let_def bind_eq_Some_conv split: if_splits dest!: storeBytes_held)

lemma emit_window:
  assumes "buf_wf t" "GetDataType t \<in> {DataTypeMem, DataTypeObjPtr, DataTypeMsgPtr}"
    "\<And>k. allocOk hp k" "SIZEOF_HEADER + length bs \<le> MAX_BYTES_PER_BUFFER"
  obtains t' res where "emit hp h (length bs) (Some (ret, bs)) t = Return (ret, t')" "buf_wf t'" "length res = 3"
    "window t' = header_bytes h res @ bs" "bufSize t' = SIZEOF_HEADER + length bs"
    "held t' = (if GetDataType t = DataTypeMem then held t else 0)"
proof (cases rule: Resize_cases [OF assms(1,2), of "SIZEOF_HEADER + length bs" hp])
  case (2 b1)
  have sz: "SIZEOF_HEADER \<le> bufSize b1" using 2(4) by simp
  obtain b2 res where b2: "write_header h b1 = Some b2" "buf_wf b2" "length res = 3"
    "window b2 = overwrite 0 (header_bytes h res) (window b1)" "bufSize b2 = bufSize b1" "dwOffset b2 = dwOffset b1"
    by (rule write_header_window [OF 2(3) sz, of h]) blast
  obtain b3 where b3: "storeBytes b2 (dwOffset b2 + SIZEOF_HEADER) bs = Some b3" "buf_wf b3"
    "window b3 = overwrite SIZEOF_HEADER bs (window b2)" "bufSize b3 = bufSize b2"
    by (rule store_window [OF b2(2), of SIZEOF_HEADER bs]) (use 2 b2 in auto)
  have "window b3 = header_bytes h res @ bs"
    using b3(3) b2(3,4) 2(4) buf_wf_lengths(4) [OF 2(3)] by (simp add: overwrite_def)
  moreover have "u32_add SIZEOF_HEADER (length bs) = SIZEOF_HEADER + length bs" using assms(4) by (simp add: u32_simps)
  moreover have "held b3 = (if GetDataType t = DataTypeMem then held t else 0)"
    using storeBytes_held [OF b3(1)] write_header_held [OF b2(1)] Resize_held [OF 2(2,1) assms(2)] by simp
  ultimately show thesis using 2 b2 b3
    by (intro that [of b3 res]) (simp_all add: emit_def bindOutcome_def optOutcome_def)
qed (use assms in auto)

text \<open>
  The buffers whose value a serialisation carries: plain bytes, a number of its width, a
  string with its terminator and no other zero byte.
\<close>

definition plain_value :: "cbuffer \<Rightarrow> bool" where
  "plain_value b \<longleftrightarrow> GetDataType b = DataTypeMem \<and> 0 < bufSize b \<and>
     (let ty = GetExDataType b in
        ty = typeNone \<or> ty = typeByteArr \<or> ty = typeByte \<and> bufSize b = 1 \<or>
        numWidth ty = Some (bufSize b) \<or>
        ty = typeString \<and> last (window b) = 0 \<and> 0 \<notin> set (butlast (window b)))"

lemma strncpy0_value:
  assumes "w \<noteq> []" "last w = 0" "0 \<notin> set (butlast w)"
  shows "strncpy0 (length w) w = w" "strnlen (length w) (w @ rest) \<le> length (w @ rest)"
    "strncpy0 (length w) (take (strnlen (length w) (w @ rest)) (w @ rest)) = w"
proof -
  obtain s where w: "w = s @ [0]" and s: "0 \<notin> set s"
    using assms by (metis append_butlast_last_id)
  have tw: "takeWhile (\<lambda>c. c \<noteq> 0) (s @ 0 # ys) = s" for ys using s by (induction s) auto
  show "strncpy0 (length w) w = w" by (simp add: strncpy0_def w tw)
  show "strnlen (length w) (w @ rest) \<le> length (w @ rest)" by (simp add: strnlen_def w tw)
  have "strnlen (length w) (w @ rest) = length s" by (simp add: strnlen_def w tw)
  moreover have tws: "takeWhile (\<lambda>c. c \<noteq> 0) s = s" using s by (induction s) auto
  ultimately show "strncpy0 (length w) (take (strnlen (length w) (w @ rest)) (w @ rest)) = w"
    by (simp add: strncpy0_def w tws)
qed

lemma prime_roundtrip:
  assumes "buf_wf b" "plain_value b"
  obtains bs where "SerializePrimeType b = Some (0, bs)" "length bs = bufSize b"
    "\<And>d rest. \<lbrakk>buf_wf d; bufSize d = bufSize b; dwType d = dwType b\<rbrakk> \<Longrightarrow>
       DeserializePrimeType (bs @ rest) d = map_option (Pair 0) (storeBytes d (dwOffset d) (window b))"
proof -
  have ld: "loadBytes b (dwOffset b) (bufSize b) = Some (window b)"
    using loadBytes_window [OF assms(1)] buf_wf_lengths [OF assms(1)] by simp
  have len: "length (window b) = bufSize b" using buf_wf_lengths [OF assms(1)] by simp
  note dd = SerializePrimeType_def DeserializePrimeType_def Let_def
  from assms(2) consider (bytes) "GetExDataType b = typeNone \<or> GetExDataType b = typeByteArr"
    | (byte) "GetExDataType b = typeByte" "bufSize b = 1"
    | (num) "numWidth (GetExDataType b) = Some (bufSize b)"
    | (str) "GetExDataType b = typeString" "last (window b) = 0" "0 \<notin> set (butlast (window b))" "window b \<noteq> []"
    using len by (cases "window b = []") (auto simp: plain_value_def Let_def)
  then show thesis
  proof cases
    case bytes
    show thesis by (rule that [of "window b"]) (use bytes ld len in \<open>auto simp: dd GetExDataType_def\<close>)
  next
    case byte
    show thesis by (rule that [of "window b"]) (use byte ld len in \<open>auto simp: dd GetExDataType_def\<close>)
  next
    case num
    then have ty: "GetExDataType b \<notin> {typeNone, typeByteArr, typeByte, typeString}"
      by (auto simp: numWidth_def)
    show thesis
      by (rule that [of "rev (window b)"]) (use num ty ld len in \<open>auto simp: dd GetExDataType_def\<close>)
  next
    case str
    have "strnlen (bufSize b) (window b @ rest) \<le> length (window b @ rest)" for rest
      using strncpy0_value(2) [OF str(4,2,3)] len by simp
    then show thesis
      by (intro that [of "window b"]) (use str ld len strncpy0_value [OF str(4,2,3)] in \<open>auto simp: dd GetExDataType_def\<close>)
  qed
qed

lemma Serialize_plain:
  assumes "buf_wf b" "plain_value b" "SIZEOF_HEADER + bufSize b \<le> MAX_BYTES_PER_BUFFER" "\<And>k. allocOk hp k"
    "buf_wf t" "GetDataType t \<in> {DataTypeMem, DataTypeObjPtr, DataTypeMsgPtr}"
    "SerializePrimeType b = Some (0, bs)" "length bs = bufSize b"
  obtains t' res where "Serialize hp ob b t = Return (0, t')" "buf_wf t'" "length res = 3"
    "bufSize t' = SIZEOF_HEADER + bufSize b"
    "window t' = header_bytes (new_header\<lparr>hSize := bufSize b, hType := unat (dwType b)\<rparr>) res @ bs"
    "held t' = (if GetDataType t = DataTypeMem then held t else 0)"
proof (cases rule: Resize_cases [OF assms(5,6), of SIZEOF_HEADER hp])
  case (2 t1)
  let ?h = "new_header\<lparr>hSize := bufSize b, hType := unat (dwType b)\<rparr>"
  have le: "SIZEOF_HEADER + length bs \<le> MAX_BYTES_PER_BUFFER" using assms(3,8) by simp
  have ty: "GetDataType t1 \<in> {DataTypeMem, DataTypeObjPtr, DataTypeMsgPtr}" using 2 by simp
  obtain t' res where e: "emit hp ?h (length bs) (Some (0, bs)) t1 = Return (0, t')" "buf_wf t'" "length res = 3"
    "window t' = header_bytes ?h res @ bs" "bufSize t' = SIZEOF_HEADER + length bs"
    "held t' = (if GetDataType t1 = DataTypeMem then held t1 else 0)"
    by (rule emit_window [OF 2(3) ty assms(4) le, of ?h 0]) blast
  have held: "held t' = (if GetDataType t = DataTypeMem then held t else 0)"
    using e(6) 2(5) Resize_held [OF 2(2,1) assms(6)] by simp
  have "\<not> bufEmpty b" "GetDataType b = DataTypeMem"
    using assms(1,2) by (auto simp: bufEmpty_def plain_value_def elim: buf_wf_cases)
  then have "Serialize hp ob b t = emit hp ?h (length bs) (Some (0, bs)) t1"
    using 2 assms(7,8) by (simp add: Serialize_def bindOutcome_def)
  then show thesis using e(1-5) held assms(8) by (intro that [of t' res]) simp_all
qed (use assms in auto)

text \<open>The bytes a buffer with a plain value is serialised to, and reading them back.\<close>

definition plain_header :: "cbuffer \<Rightarrow> seri_header" where
  "plain_header b = new_header\<lparr>hSize := bufSize b, hType := unat (dwType b)\<rparr>"

lemma Deserialize_plain:
  assumes "buf_wf b" "plain_value b" "SIZEOF_HEADER + bufSize b \<le> MAX_BYTES_PER_BUFFER" "\<And>k. allocOk hp k"
    "buf_wf d" "GetDataType d \<in> {DataTypeMem, DataTypeObjPtr, DataTypeMsgPtr}"
    "SerializePrimeType b = Some (0, bs)" "length res = 3"
  obtains d' where "Deserialize hp ob stale (header_bytes (plain_header b) res @ bs @ rest) n d = Return (0, d')"
    "buf_wf d'" "window d' = window b" "dwType d' = dwType b" "bufSize d' = bufSize b"
    "held d' = (if GetDataType d = DataTypeMem then held d else 0)"
proof -
  have de: "DeserializePrimeType (bs @ rest) d = map_option (Pair 0) (storeBytes d (dwOffset d) (window b))"
    if "buf_wf d" "bufSize d = bufSize b" "dwType d = dwType b" for d rest
  proof (rule prime_roundtrip [OF assms(1,2)])
    fix bs' assume "SerializePrimeType b = Some (0, bs')"
      "\<And>d rest. \<lbrakk>buf_wf d; bufSize d = bufSize b; dwType d = dwType b\<rbrakk> \<Longrightarrow>
       DeserializePrimeType (bs' @ rest) d = map_option (Pair 0) (storeBytes d (dwOffset d) (window b))"
    then show ?thesis using assms(7) that by simp
  qed
  let ?src = "header_bytes (plain_header b) res @ bs @ rest"
  have "unat (dwType b) < 2 ^ 32" using unsigned_less [of "dwType b"] by simp
  then have rd: "read_header ?src = Some (plain_header b)"
    using assms(3,8) read_header_bytes [of res "plain_header b" "bs @ rest"] by (simp add: new_header_def plain_header_def)
  have pay: "drop SIZEOF_HEADER ?src = bs @ rest" using assms(8) by simp
  have gt: "dwType b AND DATATYPE_MASK = DataTypeMem" "0 < bufSize b"
    using assms(2) by (simp_all add: plain_value_def GetDataType_def)
  show thesis
  proof (cases rule: Resize_cases [OF assms(5,6), of "bufSize b" hp])
    case (2 d1)
    let ?d1 = "d1\<lparr>dwType := dwType b\<rparr>"
    have d1: "buf_wf ?d1" "bufSize ?d1 = bufSize b" "dwOffset ?d1 = dwOffset d1"
      using 2 by simp_all
    have l: "length (window b) = bufSize b" using buf_wf_lengths [OF assms(1)] by simp
    obtain d2 where d2: "storeBytes ?d1 (dwOffset ?d1 + 0) (window b) = Some d2" "buf_wf d2"
      "window d2 = overwrite 0 (window b) (window ?d1)" "dwType d2 = dwType ?d1" "bufSize d2 = bufSize ?d1"
      by (rule store_window [OF d1(1), of 0 "window b"]) (use l d1 in auto)
    have w: "window d2 = window b" using d2(3) l d1 buf_wf_lengths(4) [OF d1(1)] by (simp add: overwrite_def)
    have "base d1 \<noteq> NullBase" using 2 gt by (auto elim: buf_wf_cases)
    then have "Deserialize hp ob stale ?src n d = Return (0, d2)"
      using 2 rd pay gt de [OF d1(1,2), of rest] d2 assms(3)
      by (simp add: Deserialize_def bindOutcome_def optOutcome_def Let_def plain_header_def new_header_def)
    moreover have "held d2 = (if GetDataType d = DataTypeMem then held d else 0)"
      using storeBytes_held [OF d2(1)] Resize_held [OF 2(2,1) assms(6)] by simp
    ultimately show thesis using d2 w d1 by (intro that [of d2]) simp_all
  qed (use assms in auto)
qed

subsection \<open>Properties\<close>

text \<open>
  C6: A buffer with a plain value survives the wire: serialised into any well-formed buffer and
  deserialised into any other, whether they hold bytes, an object or a message, it comes
  back with the same bytes and the same type, and
  \<open>operator==\<close> holds between the two, for plain bytes, every number type (whose bytes cross the
  wire reversed) and strings without inner zero bytes, not empty and up to 20 bytes below the 16 MB
  limit; the object or message a target held is released. Allocations succeed.
\<close>

theorem buffer_serialize_roundtrip:
  assumes "buf_wf b" "plain_value b" "SIZEOF_HEADER + bufSize b \<le> MAX_BYTES_PER_BUFFER" "\<And>k. allocOk hp k"
    "buf_wf t" "GetDataType t \<in> {DataTypeMem, DataTypeObjPtr, DataTypeMsgPtr}"
    "buf_wf d" "GetDataType d \<in> {DataTypeMem, DataTypeObjPtr, DataTypeMsgPtr}"
  shows "\<exists>t' d'. Serialize hp ob b t = Return (0, t') \<and> bufSize t' = SIZEOF_HEADER + bufSize b \<and>
     DeserializeFrom hp ob stale t' d = Return (0, d') \<and> buf_wf d' \<and> window d' = window b \<and>
     dwType d' = dwType b \<and> bufEq ob d' b = Some True \<and>
     (GetDataType t \<noteq> DataTypeMem \<longrightarrow> held t' = 0) \<and> (GetDataType d \<noteq> DataTypeMem \<longrightarrow> held d' = 0)"
proof -
  obtain bs where bs: "SerializePrimeType b = Some (0, bs)" "length bs = bufSize b"
    by (rule prime_roundtrip [OF assms(1,2)]) blast
  obtain t' res where t': "Serialize hp ob b t = Return (0, t')" "buf_wf t'" "length res = 3"
    "bufSize t' = SIZEOF_HEADER + bufSize b" "window t' = header_bytes (plain_header b) res @ bs"
    "held t' = (if GetDataType t = DataTypeMem then held t else 0)"
    unfolding plain_header_def by (rule Serialize_plain [OF assms(1-6) bs]) blast
  obtain rest where src: "drop (dwOffset t') (memBytes t') = window t' @ rest"
    using window_prefix [OF t'(2)] by blast
  obtain d' where d': "Deserialize hp ob stale (header_bytes (plain_header b) res @ bs @ rest) (bufSize t') d = Return (0, d')"
    "buf_wf d'" "window d' = window b" "dwType d' = dwType b" "bufSize d' = bufSize b"
    "held d' = (if GetDataType d = DataTypeMem then held d else 0)"
    by (rule Deserialize_plain [OF assms(1-4,7,8) bs(1) t'(3)]) blast
  then have "DeserializeFrom hp ob stale t' d = Return (0, d')" using src t'(5) by (simp add: DeserializeFrom_def)
  moreover have "bufEq ob d' b = Some True"
    using d' loadBytes_window [OF d'(2), of "bufSize b"] loadBytes_window [OF assms(1), of "bufSize b"] assms(2)
    by (simp add: bufEq_def GetDataType_def plain_value_def)
  ultimately show ?thesis using t' d' by auto
qed

definition wit_objects :: objects where
  "wit_objects = \<lparr>CreateObj = (\<lambda>c. (0, c)), ObjSerialize = (\<lambda>p. (0, [])), ObjDeserialize = (\<lambda>p bs. 0),
     ObjGetClsid = id, ObjGetId = id, DMsgSerialize = (\<lambda>p. (0, [])), DMsgDeserialize = (\<lambda>bs. (0, 1)),
     DMsgGetType = id\<rparr>"

lemma buffer_serialize_roundtrip_witness:
  "\<exists>t' d'. Serialize wit_heap wit_objects (wit_buffer 50) (wit_buffer 60\<lparr>dwType := 0x91, held := 77\<rparr>) = Return (0, t') \<and>
     bufSize t' = SIZEOF_HEADER + bufSize (wit_buffer 50) \<and>
     DeserializeFrom wit_heap wit_objects [] t' (wit_buffer 70) = Return (0, d') \<and> buf_wf d' \<and>
     window d' = window (wit_buffer 50) \<and> dwType d' = dwType (wit_buffer 50) \<and>
     bufEq wit_objects d' (wit_buffer 50) = Some True \<and>
     (GetDataType (wit_buffer 60\<lparr>dwType := 0x91, held := 77\<rparr>) \<noteq> DataTypeMem \<longrightarrow> held t' = 0) \<and>
     (GetDataType (wit_buffer 70) \<noteq> DataTypeMem \<longrightarrow> held d' = 0)"
proof (rule buffer_serialize_roundtrip)
  show "plain_value (wit_buffer 50)"
    by (simp add: plain_value_def wit_buffer_facts) (simp add: wit_buffer_def GetExDataType_def bufSize_def
        GetTailOff_def u32_sub_def)
  show "SIZEOF_HEADER + bufSize (wit_buffer 50) \<le> MAX_BYTES_PER_BUFFER"
    by (simp add: wit_buffer_def bufSize_def GetTailOff_def u32_sub_def)
  show "GetDataType (wit_buffer 60\<lparr>dwType := 0x91, held := 77\<rparr>) \<in> {DataTypeMem, DataTypeObjPtr, DataTypeMsgPtr}"
    by (simp add: GetDataType_def)
qed (simp_all add: wit_buffer_facts wit_heap_def)

text \<open>
  \<open>Deserialize\<close> trusts the size in the header: when the input ends before the payload
  the header announces, the bytes behind the input are read, whatever \<open>dwBufSize\<close> says.
\<close>

theorem deserialize_reads_behind_input:
  assumes "length res = 3" "length bs < n" "n \<le> MAX_BYTES_PER_BUFFER" "\<And>k. allocOk hp k"
    "buf_wf d" "GetDataType d = DataTypeMem"
  shows "Deserialize hp ob stale
     (header_bytes (new_header\<lparr>hSize := n, hType := unat (push_bit 4 typeByteArr)\<rparr>) res @ bs) dwBufSize d = Undefined"
proof -
  let ?h = "new_header\<lparr>hSize := n, hType := unat (push_bit 4 typeByteArr)\<rparr>"
  have rd: "read_header (header_bytes ?h res @ bs) = Some ?h"
    using assms(1,3) by (intro read_header_bytes) (simp_all add: new_header_def)
  have ty: "GetDataType d \<in> {DataTypeMem, DataTypeObjPtr, DataTypeMsgPtr}" using assms(6) by simp
  show ?thesis
  proof (cases rule: Resize_cases [OF assms(5) ty, of n hp])
    case (2 d1)
    have "base d1 \<noteq> NullBase" using 2 assms(2) by (auto elim: buf_wf_cases)
    moreover have "DeserializePrimeType bs (d1\<lparr>dwType := 160\<rparr>) = None"
      using 2 assms(2) by (simp add: DeserializePrimeType_def Let_def GetExDataType_def)
    ultimately show ?thesis using rd 2 assms(1,2,3)
      by (simp add: Deserialize_def bindOutcome_def optOutcome_def Let_def new_header_def)
  qed (use assms in auto)
qed

lemma deserialize_reads_behind_input_witness:
  "Deserialize wit_heap wit_objects []
     (header_bytes (new_header\<lparr>hSize := 9, hType := unat (push_bit 4 typeByteArr)\<rparr>) [0, 0, 0] @ [1, 2]) 22 (wit_buffer 50) = Undefined"
  by (rule deserialize_reads_behind_input) (simp_all add: wit_buffer_facts wit_heap_def)

text \<open>
  A header that announces an object of class \<open>Clsid_Invalid\<close> passes every check:
  \<open>NewObj\<close> returns success with a null pointer, and \<open>Deserialize\<close> calls through it.
\<close>

theorem deserialize_invalid_class_null_call:
  assumes "length res = 3" "0 < n" "n \<le> BUF_MAX_SIZE" "\<And>k. allocOk hp k" "buf_wf d" "GetDataType d = DataTypeMem"
  shows "Deserialize hp ob stale
     (header_bytes (new_header\<lparr>hSize := n, hType := unat DataTypeObjPtr, hObjClsid := Clsid_Invalid\<rparr>) res @ bs) dwBufSize d = Undefined"
proof -
  let ?h = "new_header\<lparr>hSize := n, hType := unat DataTypeObjPtr, hObjClsid := Clsid_Invalid\<rparr>"
  have rd: "read_header (header_bytes ?h res @ bs) = Some ?h"
    using assms(1,3) by (intro read_header_bytes) (simp_all add: new_header_def)
  have ty: "GetDataType d \<in> {DataTypeMem, DataTypeObjPtr, DataTypeMsgPtr}" using assms(6) by simp
  show ?thesis
  proof (cases rule: Resize_cases [OF assms(5) ty, of SIZEOF_OBJPTR hp])
    case (2 d1)
    have "base d1 \<noteq> NullBase" using 2 by (auto elim: buf_wf_cases)
    then show ?thesis using rd 2 assms(2,3)
      by (simp add: Deserialize_def bindOutcome_def optOutcome_def Let_def new_header_def NewObj_def)
  qed (use assms in auto)
qed

lemma deserialize_invalid_class_witness:
  "Deserialize wit_heap wit_objects []
     (header_bytes (new_header\<lparr>hSize := 1, hType := unat DataTypeObjPtr, hObjClsid := Clsid_Invalid\<rparr>) [0, 0, 0] @ [1]) 21 (wit_buffer 50) = Undefined"
  by (rule deserialize_invalid_class_null_call) (simp_all add: wit_buffer_facts wit_heap_def)

subsection \<open>Copies\<close>

lemma assignBuf_spec:
  assumes "buf_wf rhs" "GetDataType rhs = DataTypeMem" "buf_wf b" "\<And>k. allocOk hp k"
    "GetDataType b \<in> {DataTypeMem, DataTypeObjPtr, DataTypeMsgPtr}"
  obtains b' where "assignBuf hp rhs b = Return b'" "buf_wf b'" "GetDataType b' = DataTypeMem"
    "window b' = window rhs" "bufSize rhs > 0 \<Longrightarrow> GetExDataType b' = GetExDataType rhs"
proof -
  have l: "length (window rhs) = bufSize rhs" "bufSize rhs \<le> MAX_BYTES_PER_BUFFER"
    using buf_wf_lengths [OF assms(1)] assms(1) by (auto simp: buf_wf_def)
  show thesis
  proof (cases rule: Resize_cases [OF assms(3,5), of "bufSize rhs" hp])
    case (2 b1)
    show thesis
    proof (cases "bufSize rhs = 0")
      case True
      then have "window b1 = []" "window rhs = []" using 2 l buf_wf_lengths(4) [OF 2(3)] by simp_all
      then show thesis using 2 True by (intro that [of b1]) (simp_all add: assignBuf_def bindOutcome_def)
    next
      case False
      let ?b1 = "SetDataType DataTypeMem b1"
      have wf1: "buf_wf ?b1" "bufSize ?b1 = bufSize rhs" using 2 by simp_all
      obtain b2 where b2: "storeBytes ?b1 (dwOffset ?b1 + 0) (window rhs) = Some b2" "buf_wf b2"
        "window b2 = overwrite 0 (window rhs) (window ?b1)" "dwType b2 = dwType ?b1" "bufSize b2 = bufSize ?b1"
        by (rule store_window [OF wf1(1), of 0 "window rhs"]) (use l wf1 in auto)
      have "window b2 = window rhs" using b2(3) l 2(4) buf_wf_lengths(4) [OF 2(3)] by (simp add: overwrite_def)
      moreover have "base b1 \<noteq> NullBase" using 2 False by (auto elim: buf_wf_cases)
      moreover have "GetDataType b2 = DataTypeMem"
        using b2(4) by (metis GetDataType_def and_zero_eq type_fields(1) word_bw_comms(1))
      moreover have "GetExDataType rhs AND DATATYPE_MASK = GetExDataType rhs"
        unfolding GetExDataType_def mask_bits by (auto simp: bit_simps intro!: bit_eqI)
      ultimately show thesis using 2 False assms(2) b2 l loadBytes_window [OF assms(1), of "bufSize rhs"]
        by (intro that [of "SetExDataType (GetExDataType rhs) b2"])
          (simp_all add: assignBuf_def bindOutcome_def optOutcome_def)
    qed
  qed (use assms l in auto)
qed

lemma fill_window:
  assumes "buf_wf b" "bufSize b = length bs"
  obtains b' where "storeBytes b (dwOffset b) bs = Some b'" "buf_wf b'" "window b' = bs"
    "dwType b' = dwType b" "held b' = held b"
proof -
  obtain b' where b': "storeBytes b (dwOffset b + 0) bs = Some b'" "buf_wf b'"
    "window b' = overwrite 0 bs (window b)" "dwType b' = dwType b"
    by (rule store_window [OF assms(1), of 0 bs]) (use assms in auto)
  then show thesis using assms buf_wf_lengths(4) [OF assms(1)]
    by (intro that [of b']) (simp_all add: overwrite_def storeBytes_held)
qed

text \<open>
  Assigning a plain value to a buffer that holds an object drops the type before the
  buffer is resized, so the reference to the object is never released; assigning a string
  resizes first and releases it.
\<close>

theorem assign_scalar_leaks_object:
  assumes "buf_wf b" "GetDataType b = DataTypeObjPtr" "held b = p" "bs \<noteq> []" "length bs \<le> 8" "length str < 100"
    "\<And>k. allocOk hp k"
  shows "\<exists>b1 b2. assignScalar hp ty bs b = Return b1 \<and> window b1 = bs \<and> GetDataType b1 = DataTypeMem \<and> held b1 = p \<and>
     assignStr hp str b = Return b2 \<and> window b2 = str @ [0] \<and> GetDataType b2 = DataTypeMem \<and> held b2 = 0"
proof -
  have ty: "GetDataType (SetDataType DataTypeMem b) \<in> {DataTypeMem, DataTypeObjPtr, DataTypeMsgPtr}"
    "GetDataType b \<in> {DataTypeMem, DataTypeObjPtr, DataTypeMsgPtr}" using assms(2) by simp_all
  have wf: "buf_wf (SetDataType DataTypeMem b)" using assms(1) by simp
  have nn: "buf_wf c \<Longrightarrow> 0 < bufSize c \<Longrightarrow> base c \<noteq> NullBase" for c by (auto elim: buf_wf_cases)
  have sc: "\<exists>b1. assignScalar hp ty bs b = Return b1 \<and> window b1 = bs \<and> GetDataType b1 = DataTypeMem \<and> held b1 = p"
  proof (cases rule: Resize_cases [OF wf ty(1), of "length bs" hp])
    case (2 c)
    obtain c' where "storeBytes c (dwOffset c) bs = Some c'" "window c' = bs" "dwType c' = dwType c" "held c' = held c"
      by (rule fill_window [OF 2(3,4)]) blast
    moreover have "held c = p" using Resize_held [OF 2(2,1) ty(1)] assms(3)
      by (simp split: if_splits) (simp add: SetDataType_def)
    moreover have "GetDataType c' = DataTypeMem" using 2(5) calculation(3) by (simp add: GetDataType_def)
    ultimately show ?thesis using 2 nn [OF 2(3)] assms(4)
      by (simp add: assignScalar_def bindOutcome_def optOutcome_def) (simp add: SetExDataType_def)
  qed (use assms in auto)
  have "\<exists>b2. assignStr hp str b = Return b2 \<and> window b2 = str @ [0] \<and> GetDataType b2 = DataTypeMem \<and> held b2 = 0"
  proof (cases rule: Resize_cases [OF assms(1) ty(2), of "length str + 1" hp])
    case (2 c)
    have sz: "bufSize c = length (str @ [0])" using 2 by simp
    obtain c' where "storeBytes c (dwOffset c) (str @ [0]) = Some c'" "window c' = str @ [0]" "held c' = held c"
      by (rule fill_window [OF 2(3) sz]) blast
    moreover have "held c = 0" using Resize_held [OF 2(2,1) ty(2)] assms(2) by simp
    ultimately show ?thesis using 2 nn [OF 2(3)]
      by (simp add: assignStr_def bindOutcome_def optOutcome_def) (simp add: SetExDataType_def SetDataType_def)
  qed (use assms in auto)
  then show ?thesis using sc by blast
qed

lemma assign_scalar_leaks_object_witness:
  "\<exists>b1 b2. assignScalar wit_heap typeUInt16 [1, 2] (wit_buffer 50\<lparr>dwType := 0x91, held := 77\<rparr>) = Return b1 \<and>
     window b1 = [1, 2] \<and> GetDataType b1 = DataTypeMem \<and> held b1 = 77 \<and>
     assignStr wit_heap [65] (wit_buffer 50\<lparr>dwType := 0x91, held := 77\<rparr>) = Return b2 \<and> window b2 = [65] @ [0] \<and>
     GetDataType b2 = DataTypeMem \<and> held b2 = 0"
  by (rule assign_scalar_leaks_object) (simp_all add: wit_buffer_facts wit_heap_def GetDataType_def)

end
