(* ===== verification/ConfigDb.thy ===== *)
theory ConfigDb
  imports BufSeri "HOL-Library.AList"
begin

text \<open>
  The property map \<open>CConfigDb\<close> of \<open>combase/config.cpp\<close> and \<open>include/configdb.h\<close>: buffers under
  \<open>gint32\<close> keys, in a hash map. The model lists the pairs in the order the hash map is
  iterated; no key occurs twice. \<open>SetProperty\<close> and \<open>GetProperty\<close> copy the buffers; the two
  overloads that share a buffer by reference are modelled by value.

  The locale \<open>prop_store\<close> is what the users of a property map rely on; the map and, in
  \<open>Registry\<close>, the entries of the registry implement it.
\<close>

subsection \<open>The interface of a property store\<close>

text \<open>
  \<open>put k v s\<close> is the store after a successful set, \<open>del k s\<close> after a successful removal,
  \<open>look k s\<close> the value read, as its user sees it through \<open>val\<close>.
\<close>

primrec put_all :: "(int \<Rightarrow> 'v \<Rightarrow> 's \<Rightarrow> 's option) \<Rightarrow> (int \<times> 'v) list \<Rightarrow> 's \<Rightarrow> 's option" where
  "put_all f [] s = Some s"
| "put_all f (kv # kvs) s = Option.bind (f (fst kv) (snd kv) s) (put_all f kvs)"

locale prop_store =
  fixes good :: "'s \<Rightarrow> bool"
    and sound :: "'v \<Rightarrow> bool"
    and put :: "int \<Rightarrow> 'v \<Rightarrow> 's \<Rightarrow> 's option"
    and del :: "int \<Rightarrow> 's \<Rightarrow> 's option"
    and look :: "int \<Rightarrow> 's \<Rightarrow> 'w option"
    and val :: "'v \<Rightarrow> 'w"
  assumes put_ok: "good s \<Longrightarrow> sound v \<Longrightarrow> \<exists>s'. put k v s = Some s' \<and> good s'"
    and look_put: "good s \<Longrightarrow> sound v \<Longrightarrow> put k v s = Some s' \<Longrightarrow> look k' s' = (if k' = k then Some (val v) else look k' s)"
    and del_ok: "good s \<Longrightarrow> del k s = Some s' \<Longrightarrow> good s'"
    and look_del: "good s \<Longrightarrow> del k s = Some s' \<Longrightarrow> look k' s' = (if k' = k then None else look k' s)"
    and del_absent: "good s \<Longrightarrow> del k s = None \<longleftrightarrow> look k s = None"
begin

text \<open>After any sequence of sets the last value of each key is the one read.\<close>

lemma look_put_all:
  "good s \<Longrightarrow> (\<And>v. v \<in> snd ` set kvs \<Longrightarrow> sound v) \<Longrightarrow>
   \<exists>s'. put_all put kvs s = Some s' \<and> good s' \<and>
     look k s' = (case map_of (rev kvs) k of Some v \<Rightarrow> Some (val v) | None \<Rightarrow> look k s)"
proof (induction kvs arbitrary: s)
  case (Cons kv kvs)
  obtain s1 where s1: "put (fst kv) (snd kv) s = Some s1" "good s1"
    using put_ok [OF Cons.prems(1), of "snd kv" "fst kv"] Cons.prems(2) by auto
  obtain s' where s': "put_all put kvs s1 = Some s'" "good s'"
    "look k s' = (case map_of (rev kvs) k of Some v \<Rightarrow> Some (val v) | None \<Rightarrow> look k s1)"
    using Cons.IH [OF s1(2)] Cons.prems(2) by auto
  have "look k s1 = (if k = fst kv then Some (val (snd kv)) else look k s)"
    using look_put [OF Cons.prems(1) _ s1(1)] Cons.prems(2) by simp
  then show ?case using s1 s' by (auto simp: map_add_def split: option.splits)
qed simp

text \<open>Removing what was just set leaves every other key as it was.\<close>

lemma put_del: "good s \<Longrightarrow> sound v \<Longrightarrow> put k v s = Some s1 \<Longrightarrow>
   \<exists>s2. del k s1 = Some s2 \<and> (\<forall>k'. look k' s2 = (if k' = k then None else look k' s))"
proof -
  assume a: "good s" "sound v" "put k v s = Some s1"
  have g: "good s1" using put_ok [OF a(1,2), of k] a(3) by auto
  have "look k s1 = Some (val v)" using look_put [OF a, of k] by simp
  then obtain s2 where s2: "del k s1 = Some s2" using del_absent [OF g, of k] by auto
  then show ?thesis using look_del [OF g s2] look_put [OF a] by auto
qed

end

subsection \<open>The map\<close>

type_synonym configdb = "(int \<times> cbuffer) list"

abbreviation (input) propObjId :: int where "propObjId \<equiv> 12311"
abbreviation (input) propClsid :: int where "propClsid \<equiv> 12312"
abbreviation (input) propRefCount :: int where "propRefCount \<equiv> 12313"
abbreviation (input) Clsid_CConfigDb :: nat where "Clsid_CConfigDb \<equiv> 2095"

text \<open>What \<open>CObjBase\<close> knows of an object: its id, reference count and class.\<close>

record objbase =
  qwObjId :: nat
  refCount :: nat
  dwClsid :: nat

definition ObjBase_GetProperty :: "heap \<Rightarrow> objbase \<Rightarrow> int \<Rightarrow> cbuffer \<Rightarrow> (int \<times> cbuffer) outcome" where
  "ObjBase_GetProperty hp o1 iProp oBuf =
    (if iProp = propObjId then
       bindOutcome (assignScalar hp typeUInt64 (rev (to_be 8 (qwObjId o1))) oBuf) (\<lambda>b. Return (0, b))
     else if iProp = propRefCount then
       bindOutcome (assignScalar hp typeUInt32 (rev (to_be 4 (refCount o1))) oBuf) (\<lambda>b. Return (0, b))
     else if iProp = propClsid then
       bindOutcome (assignScalar hp typeUInt32 (rev (to_be 4 (dwClsid o1))) oBuf) (\<lambda>b. Return (0, b))
     else Return (- ENOENT, oBuf))"

definition ObjBase_GetPropertyType :: "int \<Rightarrow> int \<times> 32 word option" where
  "ObjBase_GetPropertyType iProp =
    (if iProp = propObjId then (0, Some typeUInt64)
     else if iProp = propClsid \<or> iProp = propRefCount then (0, Some typeUInt32)
     else (- ENOENT, None))"

definition exist :: "int \<Rightarrow> configdb \<Rightarrow> bool" where
  "exist iProp db \<longleftrightarrow> map_of db iProp \<noteq> None"

text \<open>
  \<open>SetProperty( iProp, const CBuffer& )\<close>: a copy of the buffer is stored. The copy may throw
  a \<open>runtime_error\<close>, which the handler for \<open>bad_alloc\<close> does not catch.
\<close>

definition SetProperty :: "heap \<Rightarrow> u8 list \<Rightarrow> int \<Rightarrow> cbuffer \<Rightarrow> configdb \<Rightarrow> (int \<times> configdb) outcome" where
  "SetProperty hp stale iProp oProp db =
     bindOutcome (assignBuf hp oProp (newBuffer stale)) (\<lambda>b. Return (0, AList.update iProp b db))"

text \<open>\<open>SetProperty( iProp, const BufPtr& )\<close>: a null pointer erases the property.\<close>

definition SetPropertyPtr :: "int \<Rightarrow> cbuffer option \<Rightarrow> configdb \<Rightarrow> int \<times> configdb" where
  "SetPropertyPtr iProp pBuf db = (case pBuf of
      None \<Rightarrow> (0, AList.delete iProp db)
    | Some b \<Rightarrow> (0, AList.update iProp b db))"

definition GetProperty :: "heap \<Rightarrow> objbase \<Rightarrow> int \<Rightarrow> cbuffer \<Rightarrow> configdb \<Rightarrow> (int \<times> cbuffer) outcome" where
  "GetProperty hp o1 iProp oBuf db = (case map_of db iProp of
      Some b \<Rightarrow> bindOutcome (assignBuf hp b oBuf) (\<lambda>b'. Return (0, b'))
    | None \<Rightarrow> ObjBase_GetProperty hp o1 iProp oBuf)"

definition GetPropertyPtr :: "int \<Rightarrow> configdb \<Rightarrow> int \<times> cbuffer option" where
  "GetPropertyPtr iProp db = (case map_of db iProp of Some b \<Rightarrow> (0, Some b) | None \<Rightarrow> (- ENOENT, None))"

definition GetPropertyType :: "int \<Rightarrow> configdb \<Rightarrow> int \<times> 32 word option" where
  "GetPropertyType iProp db = (case map_of db iProp of
      Some b \<Rightarrow> (0, Some (GetExDataType b)) | None \<Rightarrow> ObjBase_GetPropertyType iProp)"

text \<open>\<open>operator[]\<close> creates the entry it does not find; the const version throws, \<open>None\<close>.\<close>

definition indexRef :: "u8 list \<Rightarrow> int \<Rightarrow> configdb \<Rightarrow> cbuffer \<times> configdb" where
  "indexRef stale iProp db = (case map_of db iProp of
      Some b \<Rightarrow> (b, db)
    | None \<Rightarrow> (newBuffer stale, AList.update iProp (newBuffer stale) db))"

definition indexConst :: "int \<Rightarrow> configdb \<Rightarrow> cbuffer option" where
  "indexConst iProp db = map_of db iProp"

definition RemoveProperty :: "int \<Rightarrow> configdb \<Rightarrow> int \<times> configdb" where
  "RemoveProperty iProp db = (if exist iProp db then (0, AList.delete iProp db) else (- ENOENT, db))"

definition RemoveAll :: "configdb \<Rightarrow> configdb" where
  "RemoveAll db = []"

definition EnumProperties :: "int list \<Rightarrow> configdb \<Rightarrow> int \<times> int list" where
  "EnumProperties vecProps db = (0, sort (vecProps @ List.map fst db))"

text \<open>
  \<open>GetPropIds\<close>: the loop never advances its iterator. \<open>None\<close> is a loop that does not end (the
  code then grows the vector until memory is exhausted).
\<close>

partial_function (option) GetPropIds_loop :: "configdb \<Rightarrow> int list \<Rightarrow> int list option" where
  "GetPropIds_loop itr vecIds = (case itr of
      [] \<Rightarrow> Some vecIds
    | (k, b) # _ \<Rightarrow> GetPropIds_loop itr (vecIds @ [k]))"

definition GetPropIds :: "int list \<Rightarrow> configdb \<Rightarrow> (int \<times> int list) option" where
  "GetPropIds vecIds db =
     map_option (\<lambda>ids. (int (length ids), sort ids)) (GetPropIds_loop db vecIds)"

text \<open>
  \<open>operator=\<close>: a copy of every buffer, when the source is a \<open>CConfigDb\<close>; other classes throw
  \<open>invalid_argument\<close>, \<open>None\<close>.
\<close>

primrec assignCfg_loop :: "heap \<Rightarrow> u8 list \<Rightarrow> configdb \<Rightarrow> configdb \<Rightarrow> configdb outcome" where
  "assignCfg_loop hp stale [] db = Return db"
| "assignCfg_loop hp stale (kb # rest) db =
     bindOutcome (assignBuf hp (snd kb) (newBuffer stale))
       (\<lambda>b. assignCfg_loop hp stale rest (AList.update (fst kb) b db))"

definition assignCfg :: "heap \<Rightarrow> u8 list \<Rightarrow> nat \<Rightarrow> configdb \<Rightarrow> configdb \<Rightarrow> configdb outcome option" where
  "assignCfg hp stale clsid rhs db =
     (if clsid = Clsid_CConfigDb then Some (assignCfg_loop hp stale rhs []) else None)"

subsection \<open>The invariant, and the map as a property store\<close>

definition cfg_ok :: "configdb \<Rightarrow> bool" where
  "cfg_ok db \<longleftrightarrow> distinct (List.map fst db) \<and>
     (\<forall>b \<in> snd ` set db. buf_wf b \<and> GetDataType b = DataTypeMem \<and> 0 < bufSize b)"

text \<open>The values whose copies are faithful: plain bytes, at least one.\<close>

definition cfg_value_ok :: "cbuffer \<Rightarrow> bool" where
  "cfg_value_ok b \<longleftrightarrow> buf_wf b \<and> GetDataType b = DataTypeMem \<and> 0 < bufSize b"

definition cfg_val :: "cbuffer \<Rightarrow> u8 list \<times> 32 word" where
  "cfg_val b = (window b, GetExDataType b)"

definition cfg_put :: "heap \<Rightarrow> u8 list \<Rightarrow> int \<Rightarrow> cbuffer \<Rightarrow> configdb \<Rightarrow> configdb option" where
  "cfg_put hp stale k v db = (case SetProperty hp stale k v db of
      Return (ret, db') \<Rightarrow> if ret = 0 then Some db' else None | _ \<Rightarrow> None)"

definition cfg_del :: "int \<Rightarrow> configdb \<Rightarrow> configdb option" where
  "cfg_del k db = (case RemoveProperty k db of (ret, db') \<Rightarrow> if ret = 0 then Some db' else None)"

definition cfg_look :: "int \<Rightarrow> configdb \<Rightarrow> (u8 list \<times> 32 word) option" where
  "cfg_look k db = map_option cfg_val (snd (GetPropertyPtr k db))"

lemma SetProperty_spec:
  assumes "roomy hp stale" "cfg_value_ok v"
  obtains b where "SetProperty hp stale k v db = Return (0, AList.update k b db)" "cfg_value_ok b"
    "cfg_val b = cfg_val v"
proof -
  have nb: "buf_wf (newBuffer stale)" "GetDataType (newBuffer stale) \<in> {DataTypeMem, DataTypeObjPtr, DataTypeMsgPtr}"
    using assms(1) by (simp_all add: roomy_def)
  have v: "buf_wf v" "GetDataType v = DataTypeMem" "0 < bufSize v" "\<And>k. allocOk hp k"
    using assms by (auto simp: cfg_value_ok_def roomy_def)
  show thesis
  proof (rule assignBuf_spec [OF v(1,2) nb(1) v(4) nb(2)])
    fix b assume b: "assignBuf hp v (newBuffer stale) = Return b" "buf_wf b" "GetDataType b = DataTypeMem"
      "window b = window v" "0 < bufSize v \<Longrightarrow> GetExDataType b = GetExDataType v"
    have "bufSize b = bufSize v" using b(2,4) v(1) buf_wf_lengths(4) by metis
    then show thesis using b v by (intro that [of b]) (auto simp: SetProperty_def bindOutcome_def cfg_value_ok_def cfg_val_def)
  qed
qed

lemma cfg_look_map: "cfg_look k db = map_option cfg_val (map_of db k)"
  by (simp add: cfg_look_def GetPropertyPtr_def split: option.split)

lemma set_AList_update: "kb \<in> set (AList.update k b db) \<Longrightarrow> snd kb = b \<or> snd kb \<in> snd ` set db"
  by (induction db) (auto split: if_splits)

lemma cfg_ok_update: "cfg_ok db \<Longrightarrow> cfg_value_ok b \<Longrightarrow> cfg_ok (AList.update k b db)"
  by (auto simp: cfg_ok_def cfg_value_ok_def distinct_update dest!: set_AList_update)

lemma cfg_ok_delete: "cfg_ok db \<Longrightarrow> cfg_ok (AList.delete k db)"
  using distinct_delete [of db k] by (auto simp: cfg_ok_def AList.delete_eq simp del: filter_map)

interpretation cs: prop_store cfg_ok "\<lambda>v. roomy hp stale \<and> cfg_value_ok v" "cfg_put hp stale" cfg_del cfg_look cfg_val
  for hp stale
proof
  fix s v k k' and s' :: configdb
  assume s: "cfg_ok s"
  { assume "roomy hp stale \<and> cfg_value_ok v"
    then obtain b where b: "SetProperty hp stale k v s = Return (0, AList.update k b s)" "cfg_value_ok b"
      "cfg_val b = cfg_val v" using SetProperty_spec by blast
    then have p: "cfg_put hp stale k v s = Some (AList.update k b s)" by (simp add: cfg_put_def)
    then show "\<exists>s'. cfg_put hp stale k v s = Some s' \<and> cfg_ok s'" using s b cfg_ok_update by blast
    assume "cfg_put hp stale k v s = Some s'"
    with p have "s' = AList.update k b s" by simp
    then show "cfg_look k' s' = (if k' = k then Some (cfg_val v) else cfg_look k' s)"
      using b(3) by (auto simp: cfg_look_map update_conv') }
  { assume d: "cfg_del k s = Some s'"
    then have e: "s' = AList.delete k s" by (auto simp: cfg_del_def RemoveProperty_def split: if_splits)
    show "cfg_ok s'" using s e cfg_ok_delete by blast
    show "cfg_look k' s' = (if k' = k then None else cfg_look k' s)"
      using e by (simp add: cfg_look_map delete_conv') }
  show "(cfg_del k s = None) = (cfg_look k s = None)"
    by (auto simp: cfg_del_def RemoveProperty_def cfg_look_map exist_def)
qed

lemma GetProperty_spec:
  assumes "cfg_ok db" "cfg_look k db = Some w" "buf_wf oBuf" "GetDataType oBuf = DataTypeMem" "\<And>k. allocOk hp k"
  shows "\<exists>o'. GetProperty hp ob k oBuf db = Return (0, o') \<and> cfg_val o' = w"
proof -
  obtain b where b: "map_of db k = Some b" "cfg_val b = w" using assms(2) by (auto simp: cfg_look_map)
  then have bo: "buf_wf b" "GetDataType b = DataTypeMem" "0 < bufSize b"
    using assms(1) by (auto simp: cfg_ok_def dest!: map_of_SomeD)
  have ty: "GetDataType oBuf \<in> {DataTypeMem, DataTypeObjPtr, DataTypeMsgPtr}" using assms(4) by simp
  show ?thesis
    by (rule assignBuf_spec [OF bo(1,2) assms(3,5) ty])
      (use b bo in \<open>auto simp: GetProperty_def bindOutcome_def cfg_val_def\<close>)
qed

subsection \<open>Properties\<close>

text \<open>
  A property map returns what was last stored: after any sequence of successful
  \<open>SetProperty\<close> calls on a fresh map, \<open>GetProperty\<close> of a stored key succeeds and fills the
  caller's buffer with the bytes and the type of the last buffer stored under that key.
\<close>

theorem config_last_set_wins:
  assumes "roomy hp stale" "\<And>v. v \<in> snd ` set kvs \<Longrightarrow> cfg_value_ok v" "map_of (rev kvs) k = Some v"
    "buf_wf oBuf" "GetDataType oBuf = DataTypeMem"
  shows "\<exists>db o'. put_all (cfg_put hp stale) kvs [] = Some db \<and> GetProperty hp ob k oBuf db = Return (0, o') \<and>
     window o' = window v \<and> GetExDataType o' = GetExDataType v"
proof -
  have "cfg_ok []" by (simp add: cfg_ok_def)
  then obtain db where db: "put_all (cfg_put hp stale) kvs [] = Some db" "cfg_ok db" "cfg_look k db = Some (cfg_val v)"
    using cs.look_put_all [of "[]" kvs hp stale k] assms(1,2,3) by auto
  moreover have "\<And>k. allocOk hp k" using assms(1) by (simp add: roomy_def)
  ultimately show ?thesis using GetProperty_spec [OF db(2,3) assms(4,5), of hp ob]
    by (auto simp: cfg_val_def)
qed

lemma wit_value_ok: "48 < n \<Longrightarrow> n \<le> MAX_BYTES_PER_BUFFER \<Longrightarrow> cfg_value_ok (wit_buffer n)"
  by (simp add: cfg_value_ok_def wit_buffer_facts)
    (simp add: wit_buffer_def bufSize_def GetTailOff_def u32_sub_def)

lemma config_last_set_wins_witness:
  "\<exists>db o'. put_all (cfg_put wit_heap (replicate 48 0)) [(1, wit_buffer 50), (2, wit_buffer 60), (1, wit_buffer 70)] [] = Some db \<and>
     GetProperty wit_heap \<lparr>qwObjId = 1, refCount = 1, dwClsid = 2095\<rparr> 1 (wit_buffer 80) db = Return (0, o') \<and>
     window o' = window (wit_buffer 70) \<and> GetExDataType o' = GetExDataType (wit_buffer 70)"
proof (rule config_last_set_wins)
  show "roomy wit_heap (replicate 48 0)" by (simp add: roomy_def wit_heap_def)
  show "v \<in> snd ` set [(1, wit_buffer 50), (2, wit_buffer 60), (1, wit_buffer 70)] \<Longrightarrow> cfg_value_ok v" for v
    by (auto simp: wit_value_ok)
qed (simp_all add: wit_buffer_facts)

lemma GetPropIds_loop_result: "GetPropIds_loop itr vecIds = Some r \<Longrightarrow> itr = []"
  by (erule GetPropIds_loop.raw_induct [where P = "\<lambda>itr _ _. itr = []", rotated])
    (auto split: list.splits)

text \<open>
  \<open>GetPropIds\<close> returns for the empty map only: its loop does not advance the iterator, so
  on a map with any property it never ends.
\<close>

theorem get_prop_ids_never_returns:
  "GetPropIds vecIds db = (if db = [] then Some (int (length vecIds), sort vecIds) else None)"
proof (cases "db = []")
  case True
  then show ?thesis by (simp add: GetPropIds_def GetPropIds_loop.simps)
next
  case False
  then have "GetPropIds_loop db vecIds = None"
    using GetPropIds_loop_result [of db vecIds] by (cases "GetPropIds_loop db vecIds") auto
  then show ?thesis using False by (simp add: GetPropIds_def)
qed

end
