(* ===== verification/Registry.thy ===== *)
theory Registry
  imports ConfigDb "HOL-Library.Char_ord" "HOL-Library.List_Lexorder" "HOL-Library.Sublist"
begin

text \<open>
  The registry of \<open>combase/registry.cpp\<close> and \<open>include/registry.h\<close>: a tree of directory
  entries (\<open>CDirEntry\<close>), each with a map of named children and a property map, and a
  current directory. \<open>m_mapChilds\<close> is the list of its pairs in the order of the names, the
  order a \<open>std::map\<close> of strings is iterated. A pointer to an entry is its path from the
  root, so \<open>GetParent\<close> is \<open>butlast\<close>; \<open>CfgPtr\<close> is \<open>None\<close> after \<open>Clear\<close>. The recursive lock is
  the atomicity of each operation.
\<close>

abbreviation (input) REG_MAX_PATH :: nat where "REG_MAX_PATH \<equiv> 2048"
abbreviation (input) REG_MAX_NAME :: nat where "REG_MAX_NAME \<equiv> 128"

subsection \<open>Directory entries\<close>

datatype dir_entry = DirEntry (mapProps: "configdb option") (mapChilds: "(string \<times> dir_entry) list")

type_synonym dir_path = "string list"

definition new_entry :: dir_entry where
  "new_entry = DirEntry (Some []) []"

text \<open>Insertion into a \<open>std::map\<close> of a key it does not have.\<close>

fun map_insert :: "string \<Rightarrow> 'a \<Rightarrow> (string \<times> 'a) list \<Rightarrow> (string \<times> 'a) list" where
  "map_insert k v [] = [(k, v)]"
| "map_insert k v ((k', v') # kvs) = (if k < k' then (k, v) # (k', v') # kvs else (k', v') # map_insert k v kvs)"

definition GetChild :: "string \<Rightarrow> dir_entry \<Rightarrow> dir_entry option" where
  "GetChild strName d = (if length strName > REG_MAX_NAME then None else map_of (mapChilds d) strName)"

definition AddChild :: "string \<Rightarrow> dir_entry \<Rightarrow> int \<times> dir_entry" where
  "AddChild strName d =
    (if length strName > REG_MAX_NAME then (- EINVAL, d)
     else case map_of (mapChilds d) strName of
         None \<Rightarrow> (0, DirEntry (mapProps d) (map_insert strName new_entry (mapChilds d)))
       | Some _ \<Rightarrow> (- ENOENT, d))"

definition RemoveChild :: "string \<Rightarrow> dir_entry \<Rightarrow> int \<times> dir_entry" where
  "RemoveChild strName d =
    (if length strName > REG_MAX_NAME then (- EINVAL, d)
     else case map_of (mapChilds d) strName of
         None \<Rightarrow> (- ENOENT, d)
       | Some _ \<Rightarrow> (0, DirEntry (mapProps d) (AList.delete strName (mapChilds d))))"

definition RemoveAllChildren :: "dir_entry \<Rightarrow> dir_entry" where
  "RemoveAllChildren d = DirEntry (mapProps d) []"

text \<open>
  The property operations of an entry. A null \<open>m_mapProps\<close> is dereferenced: \<open>Undefined\<close>.
  \<open>SetProperty\<close> copies the value once itself and once in the map.
\<close>

definition Entry_SetProperty :: "heap \<Rightarrow> u8 list \<Rightarrow> int \<Rightarrow> cbuffer \<Rightarrow> dir_entry \<Rightarrow> (int \<times> dir_entry) outcome" where
  "Entry_SetProperty hp stale iProp oBuf d =
     bindOutcome (assignBuf hp oBuf (newBuffer stale)) (\<lambda>b.
       case mapProps d of
         None \<Rightarrow> Undefined
       | Some db \<Rightarrow> bindOutcome (SetProperty hp stale iProp b db)
           (\<lambda>(ret, db'). Return (ret, DirEntry (Some db') (mapChilds d))))"

definition Entry_GetProperty :: "heap \<Rightarrow> objbase \<Rightarrow> int \<Rightarrow> cbuffer \<Rightarrow> dir_entry \<Rightarrow> (int \<times> cbuffer) outcome" where
  "Entry_GetProperty hp ob iProp oBuf d = (case mapProps d of
      None \<Rightarrow> Undefined
    | Some db \<Rightarrow> if \<not> exist iProp db then Return (- ENOENT, oBuf) else GetProperty hp ob iProp oBuf db)"

definition Entry_RemoveProp :: "int \<Rightarrow> dir_entry \<Rightarrow> (int \<times> dir_entry) outcome" where
  "Entry_RemoveProp iProp d = (case mapProps d of
      None \<Rightarrow> Undefined
    | Some db \<Rightarrow> (case RemoveProperty iProp db of (ret, db') \<Rightarrow> Return (ret, DirEntry (Some db') (mapChilds d))))"

subsection \<open>Pointers into the tree\<close>

fun entry_at :: "dir_path \<Rightarrow> dir_entry \<Rightarrow> dir_entry option" where
  "entry_at [] d = Some d"
| "entry_at (n # ns) d = (case map_of (mapChilds d) n of None \<Rightarrow> None | Some c \<Rightarrow> entry_at ns c)"

text \<open>Writing through a pointer.\<close>

fun update_at :: "dir_path \<Rightarrow> (dir_entry \<Rightarrow> dir_entry) \<Rightarrow> dir_entry \<Rightarrow> dir_entry" where
  "update_at [] f d = f d"
| "update_at (n # ns) f d =
     DirEntry (mapProps d) (List.map (\<lambda>(k, c). (k, if k = n then update_at ns f c else c)) (mapChilds d))"

record registry =
  oRootDir :: dir_entry
  pCurDir :: dir_path

definition new_registry :: registry where
  "new_registry = \<lparr>oRootDir = new_entry, pCurDir = []\<rparr>"

text \<open>The entry behind a pointer; the pointers the code holds are never dangling (see below).\<close>

definition deref :: "dir_path \<Rightarrow> registry \<Rightarrow> dir_entry" where
  "deref p r = (case entry_at p (oRootDir r) of Some d \<Rightarrow> d | None \<Rightarrow> new_entry)"

definition write_through :: "dir_path \<Rightarrow> (dir_entry \<Rightarrow> int \<times> dir_entry) \<Rightarrow> registry \<Rightarrow> int \<times> registry" where
  "write_through p f r =
     (fst (f (deref p r)), r\<lparr>oRootDir := update_at p (\<lambda>d. snd (f d)) (oRootDir r)\<rparr>)"

subsection \<open>Splitting a path\<close>

text \<open>\<open>rfind( '/' )\<close>: the position of the last slash.\<close>

definition rfind_slash :: "string \<Rightarrow> nat option" where
  "rfind_slash s = (if CHR ''/'' \<in> set s
     then Some (length s - 1 - length (takeWhile (\<lambda>c. c \<noteq> CHR ''/'') (rev s))) else None)"

lemma rfind_slash_append:
  "CHR ''/'' \<notin> set b \<Longrightarrow> rfind_slash (a @ CHR ''/'' # b) = Some (length a)"
proof -
  assume b: "CHR ''/'' \<notin> set b"
  have "takeWhile (\<lambda>c. c \<noteq> CHR ''/'') (rev b @ CHR ''/'' # rev a) = rev b"
    using b by (subst takeWhile_append2) auto
  then show ?thesis by (simp add: rfind_slash_def)
qed

lemma rfind_slash_Some:
  "rfind_slash s = Some pos \<longleftrightarrow> (\<exists>a b. s = a @ CHR ''/'' # b \<and> CHR ''/'' \<notin> set b \<and> pos = length a)"
proof
  assume r: "rfind_slash s = Some pos"
  then have "CHR ''/'' \<in> set s" by (auto simp: rfind_slash_def split: if_splits)
  then obtain a b where "s = a @ CHR ''/'' # b" "CHR ''/'' \<notin> set b" by (metis split_list_last)
  then show "\<exists>a b. s = a @ CHR ''/'' # b \<and> CHR ''/'' \<notin> set b \<and> pos = length a"
    using r rfind_slash_append by auto
qed (auto simp: rfind_slash_append)

text \<open>
  The loop of \<open>Namei\<close> takes the components off the end of the path; a trailing slash is
  erased, the slash that is left over at the front is the root directory.
\<close>

function Namei_loop :: "string \<Rightarrow> string list \<Rightarrow> string list" where
  "Namei_loop strTemp vecComponents =
    (if strTemp = [] then vecComponents
     else case rfind_slash strTemp of
         None \<Rightarrow> vecComponents @ [strTemp]
       | Some pos \<Rightarrow>
           if pos > 0 \<and> pos + 1 = length strTemp then Namei_loop (take pos strTemp) vecComponents
           else if pos = 0 \<and> pos + 1 = length strTemp then vecComponents @ [strTemp]
           else if pos > 0 then Namei_loop (take pos strTemp) (vecComponents @ [drop (pos + 1) strTemp])
           else Namei_loop (take (pos + 1) strTemp) (vecComponents @ [drop (pos + 1) strTemp]))"
  by pat_completeness auto
termination
  by (relation "measure (length \<circ> fst)") (auto simp: rfind_slash_Some)

declare Namei_loop.simps [simp del]

definition Namei :: "string \<Rightarrow> int \<times> string list" where
  "Namei strPath =
    (if strPath = [] \<or> length strPath > REG_MAX_PATH then (- EINVAL, [])
     else (0, rev (Namei_loop strPath [])))"

subsection \<open>The operations of the registry\<close>

definition ListDir :: "registry \<Rightarrow> int \<times> string list" where
  "ListDir r = (0, List.map fst (mapChilds (deref (pCurDir r) r)))"

fun ChangeDir_loop :: "registry \<Rightarrow> string list \<Rightarrow> dir_path \<Rightarrow> dir_path option" where
  "ChangeDir_loop r [] pCur = Some pCur"
| "ChangeDir_loop r (c # cs) pCur =
    (if c = ''.'' then ChangeDir_loop r cs pCur
     else if c = ''..'' then (if pCur = [] then None else ChangeDir_loop r cs (butlast pCur))
     else if c = ''/'' then ChangeDir_loop r cs []
     else case GetChild c (deref pCur r) of
         None \<Rightarrow> None
       | Some _ \<Rightarrow> ChangeDir_loop r cs (pCur @ [c]))"

definition ChangeDir :: "string \<Rightarrow> registry \<Rightarrow> int \<times> registry" where
  "ChangeDir strDir r =
    (if length strDir > REG_MAX_PATH then (- EINVAL, r)
     else case Namei strDir of (ret, vecComp) \<Rightarrow>
       if ret \<noteq> 0 then (ret, r)
       else case ChangeDir_loop r vecComp (pCurDir r) of
           None \<Rightarrow> (- ENOENT, r)
         | Some p \<Rightarrow> (0, r\<lparr>pCurDir := p\<rparr>))"

text \<open>\<open>MakeEntry\<close> checks the components of the name, but creates the entry under the name itself.\<close>

definition MakeEntry :: "string \<Rightarrow> registry \<Rightarrow> int \<times> registry" where
  "MakeEntry strName r =
    (if length strName > REG_MAX_NAME then (- EINVAL, r)
     else case Namei strName of (ret, vecComp) \<Rightarrow>
       if ret < 0 then (ret, r)
       else if length vecComp > 1 then (- EINVAL, r)
       else if hd vecComp = ''/'' then (- EINVAL, r)
       else write_through (pCurDir r) (AddChild strName) r)"

fun ExistingDir_loop :: "registry \<Rightarrow> string list \<Rightarrow> dir_path \<Rightarrow> bool" where
  "ExistingDir_loop r [] pCur = True"
| "ExistingDir_loop r (c # cs) pCur = (case GetChild c (deref pCur r) of
      None \<Rightarrow> False
    | Some _ \<Rightarrow> ExistingDir_loop r cs (pCur @ [c]))"

definition ExistingDir :: "string \<Rightarrow> registry \<Rightarrow> int" where
  "ExistingDir strPath r =
    (if length strPath > REG_MAX_PATH \<or> strPath = [] then - EINVAL
     else case Namei strPath of (ret, vecComp) \<Rightarrow>
       if ret < 0 then ret
       else let (pCur, cs) = (if hd vecComp = ''/'' then ([], tl vecComp) else (pCurDir r, vecComp))
         in if ExistingDir_loop r cs pCur then 0 else - ENOENT)"

text \<open>
  The loop of \<open>MakeDir\<close>: the result, the tree as the loop leaves it, the directory reached,
  \<open>pParent\<close> and \<open>pRollback\<close> (the parent of the first entry created).
\<close>

fun MakeDir_loop :: "string list \<Rightarrow> registry \<Rightarrow> dir_path \<Rightarrow> dir_path \<Rightarrow> dir_path option \<Rightarrow>
    int \<times> registry \<times> dir_path \<times> dir_path \<times> dir_path option" where
  "MakeDir_loop [] r pCur pParent pRollback = (0, r, pCur, pParent, pRollback)"
| "MakeDir_loop (c # cs) r pCur pParent pRollback =
    (case GetChild c (deref pCur r) of
       Some _ \<Rightarrow> MakeDir_loop cs r (pCur @ [c]) pCur pRollback
     | None \<Rightarrow>
        let pRollback' = (if pRollback = None then Some pCur else pRollback);
            (ret, r1) = write_through pCur (AddChild c) r
        in if ret < 0 then (ret, r1, pCur, pCur, pRollback')
           else (case GetChild c (deref pCur r1) of
               None \<Rightarrow> (- EFAULT, r1, pCur, pCur, pRollback')
             | Some _ \<Rightarrow> MakeDir_loop cs r1 (pCur @ [c]) pCur pRollback'))"

text \<open>Undoing: from \<open>pParent\<close> up to \<open>pRollback\<close>, each entry is removed from its parent.\<close>

function MakeDir_undo :: "dir_path \<Rightarrow> dir_path option \<Rightarrow> registry \<Rightarrow> registry" where
  "MakeDir_undo pLeaf pRollback r =
    (if pRollback = Some pLeaf \<or> pLeaf = [] then r
     else MakeDir_undo (butlast pLeaf) pRollback
            (snd (write_through (butlast pLeaf) (RemoveChild (last pLeaf)) r)))"
  by pat_completeness auto
termination by (relation "measure (length \<circ> fst)") auto

declare MakeDir_undo.simps [simp del]

definition MakeDir :: "string \<Rightarrow> registry \<Rightarrow> int \<times> registry" where
  "MakeDir strPath r =
    (if strPath = [] \<or> length strPath > REG_MAX_PATH then (- EINVAL, r)
     else case Namei strPath of (ret, vecComp) \<Rightarrow>
       if ret < 0 then (ret, r)
       else let (pCur, cs) = (if hd vecComp = ''/'' then ([], tl vecComp) else (pCurDir r, vecComp))
         in case MakeDir_loop cs r pCur [] None of (ret, r1, pCur', pParent, pRollback) \<Rightarrow>
           if ERROR ret then (ret, MakeDir_undo pParent pRollback r1)
           else (ret, r1\<lparr>pCurDir := pCur'\<rparr>))"

definition RemoveDir :: "string \<Rightarrow> registry \<Rightarrow> int \<times> registry" where
  "RemoveDir strPath r =
    (case ChangeDir strPath r of (ret, r1) \<Rightarrow>
       if ERROR ret then (ret, r1)
       else let r2 = r1\<lparr>oRootDir := update_at (pCurDir r1) RemoveAllChildren (oRootDir r1)\<rparr>;
                r3 = r2\<lparr>oRootDir := update_at (pCurDir r2) (\<lambda>d. DirEntry None (mapChilds d)) (oRootDir r2)\<rparr>
         in if pCurDir r3 = [] then (0, r3)
            else let strName = last (pCurDir r3); pParent = butlast (pCurDir r3);
                     r4 = snd (ChangeDir ''..'' r3)
              in (0, snd (write_through pParent (RemoveChild strName) r4)))"

definition Reg_SetProperty :: "heap \<Rightarrow> u8 list \<Rightarrow> int \<Rightarrow> cbuffer \<Rightarrow> registry \<Rightarrow> (int \<times> registry) outcome" where
  "Reg_SetProperty hp stale iProp oVal r =
     bindOutcome (Entry_SetProperty hp stale iProp oVal (deref (pCurDir r) r)) (\<lambda>(ret, d).
       Return (ret, r\<lparr>oRootDir := update_at (pCurDir r) (\<lambda>_. d) (oRootDir r)\<rparr>))"

definition Reg_GetProperty :: "heap \<Rightarrow> objbase \<Rightarrow> int \<Rightarrow> cbuffer \<Rightarrow> registry \<Rightarrow> (int \<times> cbuffer) outcome" where
  "Reg_GetProperty hp ob iProp oVal r = Entry_GetProperty hp ob iProp oVal (deref (pCurDir r) r)"

definition Reg_RemoveProperty :: "int \<Rightarrow> registry \<Rightarrow> (int \<times> registry) outcome" where
  "Reg_RemoveProperty iProp r =
     bindOutcome (Entry_RemoveProp iProp (deref (pCurDir r) r)) (\<lambda>(ret, d).
       Return (ret, r\<lparr>oRootDir := update_at (pCurDir r) (\<lambda>_. d) (oRootDir r)\<rparr>))"

subsection \<open>The tree\<close>

text \<open>The children of every entry are in strict order of their names, none too long.\<close>

fun tree_ok :: "dir_entry \<Rightarrow> bool" where
  "tree_ok (DirEntry p cs) \<longleftrightarrow> sorted_wrt (<) (List.map fst cs) \<and>
     (\<forall>kc \<in> set cs. length (fst kc) \<le> REG_MAX_NAME \<and> tree_ok (snd kc))"

lemma tree_ok_iff:
  "tree_ok d \<longleftrightarrow> sorted_wrt (<) (List.map fst (mapChilds d)) \<and>
     (\<forall>kc \<in> set (mapChilds d). length (fst kc) \<le> REG_MAX_NAME \<and> tree_ok (snd kc))"
  by (cases d) simp

lemma sorted_distinct_keys: "sorted_wrt (<) (ks :: string list) \<Longrightarrow> distinct ks"
  by (induction ks) auto

lemma map_of_map_insert: "k \<notin> fst ` set kvs \<Longrightarrow> map_of (map_insert k v kvs) k' = (if k' = k then Some v else map_of kvs k')"
  by (induction k v kvs rule: map_insert.induct) auto

lemma set_map_insert: "set (map_insert k v kvs) = insert (k, v) (set kvs)"
  by (induction k v kvs rule: map_insert.induct) auto

lemma sorted_map_insert:
  "sorted_wrt (<) (List.map fst kvs) \<Longrightarrow> k \<notin> fst ` set kvs \<Longrightarrow> sorted_wrt (<) (List.map fst (map_insert k v kvs))"
proof (induction kvs)
  case (Cons kv kvs)
  obtain k' v' where kv: "kv = (k', v')" by (cases kv)
  show ?case
  proof (cases "k < k'")
    case True
    then show ?thesis using Cons.prems kv by auto
  next
    case False
    then have "k' < k" using Cons.prems(2) kv by auto
    then show ?thesis using Cons kv False by (auto simp: set_map_insert)
  qed
qed simp

lemma delete_map_insert: "k \<notin> fst ` set kvs \<Longrightarrow> AList.delete k (map_insert k v kvs) = kvs"
  by (induction k v kvs rule: map_insert.induct)
    (auto simp: AList.delete_eq filter_id_conv image_iff)

lemma map_map_insert:
  "List.map (\<lambda>(k', c). (k', if k' = n then f c else c)) (map_insert n v kvs) = map_insert n (f v) kvs"
  if "n \<notin> fst ` set kvs"
proof -
  have other: "List.map (\<lambda>(k', c). (k', if k' = n then f c else c)) xs = xs" if "n \<notin> fst ` set xs" for xs
    using that by (induction xs) auto
  show ?thesis using that by (induction kvs) (auto simp: other)
qed

lemma entry_at_append: "entry_at (p @ q) d = Option.bind (entry_at p d) (entry_at q)"
  by (induction p arbitrary: d) (auto split: option.split)

lemma map_of_update_child:
  "map_of (List.map (\<lambda>(k, c). (k, if k = n then f c else c)) cs) m =
     (if m = n then map_option f (map_of cs m) else map_of cs m)"
  by (induction cs) auto

lemma entry_at_update_at: "entry_at (p @ q) (update_at p f d) = Option.bind (entry_at p d) (\<lambda>e. entry_at q (f e))"
  by (induction p arbitrary: d) (auto simp: map_of_update_child split: option.split)

lemma update_at_append: "update_at (p @ q) f d = update_at p (update_at q f) d"
  by (induction p arbitrary: d) auto

lemma update_at_compose: "update_at p f (update_at p g d) = update_at p (\<lambda>e. f (g e)) d"
  by (induction p g d rule: update_at.induct) auto

lemma update_at_id [simp]: "update_at p (\<lambda>d. d) d = d"
proof (induction p arbitrary: d)
  case (Cons n ns)
  have "List.map (\<lambda>(k, c). (k, if k = n then update_at ns (\<lambda>d. d) c else c)) cs = cs" for cs
    using Cons.IH by (induction cs) auto
  then show ?case by (cases d) simp
qed simp

lemma tree_ok_entry: "tree_ok d \<Longrightarrow> entry_at p d = Some e \<Longrightarrow> tree_ok e"
proof (induction p arbitrary: d)
  case (Cons n ns)
  then show ?case by (auto simp: tree_ok_iff [of d] split: option.splits dest!: map_of_SomeD)
qed simp

lemma update_at_cong:
  "tree_ok d \<Longrightarrow> (\<And>e. entry_at p d = Some e \<Longrightarrow> f e = g e) \<Longrightarrow> update_at p f d = update_at p g d"
proof (induction p arbitrary: d)
  case (Cons n ns)
  have "update_at ns f c = update_at ns g c" if "(n, c) \<in> set (mapChilds d)" for c
  proof (rule Cons.IH)
    show "tree_ok c" using that Cons.prems(1) by (auto simp: tree_ok_iff [of d])
    have "map_of (mapChilds d) n = Some c"
      using that Cons.prems(1) sorted_distinct_keys by (auto simp: tree_ok_iff [of d])
    then show "\<And>e. entry_at ns c = Some e \<Longrightarrow> f e = g e" using Cons.prems(2) by simp
  qed
  then show ?case by auto
qed simp

lemma tree_ok_update_at:
  "tree_ok d \<Longrightarrow> (\<And>e. entry_at p d = Some e \<Longrightarrow> tree_ok e \<Longrightarrow> tree_ok (f e)) \<Longrightarrow> tree_ok (update_at p f d)"
proof (induction p arbitrary: d)
  case (Cons n ns)
  have "tree_ok (update_at ns f c)" if "(n, c) \<in> set (mapChilds d)" for c
  proof (rule Cons.IH)
    show "tree_ok c" using that Cons.prems(1) by (auto simp: tree_ok_iff [of d])
    have "map_of (mapChilds d) n = Some c"
      using that Cons.prems(1) sorted_distinct_keys by (auto simp: tree_ok_iff [of d])
    then show "\<And>e. entry_at ns c = Some e \<Longrightarrow> tree_ok e \<Longrightarrow> tree_ok (f e)" using Cons.prems(2) by simp
  qed
  moreover have "List.map fst (List.map (\<lambda>(k, c). (k, if k = n then update_at ns f c else c)) cs) = List.map fst cs" for cs
    by (induction cs) auto
  moreover have "tree_ok c" if "(k, c) \<in> set (mapChilds d)" for k c
    using that Cons.prems(1) by (auto simp: tree_ok_iff [of d])
  ultimately show ?case using Cons.prems(1) by (auto simp: tree_ok_iff [of d] simp del: List.map_map map_map)
qed simp

text \<open>Adding a child and what becomes of it.\<close>

definition add_sub :: "string \<Rightarrow> dir_entry \<Rightarrow> dir_entry \<Rightarrow> dir_entry" where
  "add_sub n x d = DirEntry (mapProps d) (map_insert n x (mapChilds d))"

lemma tree_ok_new_entry [simp]: "tree_ok new_entry"
  by (simp add: new_entry_def)

lemma AddChild_cases:
  obtains (long) "length n > REG_MAX_NAME" "AddChild n d = (- EINVAL, d)"
  | (present) "length n \<le> REG_MAX_NAME" "n \<in> fst ` set (mapChilds d)" "AddChild n d = (- ENOENT, d)"
  | (fresh) "length n \<le> REG_MAX_NAME" "n \<notin> fst ` set (mapChilds d)" "AddChild n d = (0, add_sub n new_entry d)"
proof (cases "length n > REG_MAX_NAME")
  case True
  then show thesis by (intro long) (simp_all add: AddChild_def)
next
  case False
  have k: "map_of (mapChilds d) n = None \<longleftrightarrow> n \<notin> fst ` set (mapChilds d)"
    by (rule map_of_eq_None_iff)
  show thesis
  proof (cases "map_of (mapChilds d) n")
    case None
    then show thesis using False k by (intro fresh) (simp_all add: AddChild_def add_sub_def)
  next
    case (Some a)
    then have "n \<in> fst ` set (mapChilds d)" using k by (metis option.distinct(1))
    then show thesis using Some False by (intro present) (simp_all add: AddChild_def)
  qed
qed

lemma tree_ok_add_sub: "tree_ok d \<Longrightarrow> length n \<le> REG_MAX_NAME \<Longrightarrow> n \<notin> fst ` set (mapChilds d) \<Longrightarrow> tree_ok x \<Longrightarrow>
   tree_ok (add_sub n x d)"
  by (auto simp: tree_ok_iff [of d] tree_ok_iff [of "add_sub n x d"] add_sub_def set_map_insert sorted_map_insert)

lemma tree_ok_AddChild: "tree_ok d \<Longrightarrow> tree_ok (snd (AddChild n d))"
  by (cases rule: AddChild_cases [of n d]) (simp_all add: tree_ok_add_sub)

lemma sorted_delete: "sorted_wrt (<) (List.map fst kvs) \<Longrightarrow> sorted_wrt (<) (List.map fst (AList.delete k kvs))"
  by (induction kvs) (auto simp: AList.delete_eq)

lemma tree_ok_RemoveChild: "tree_ok d \<Longrightarrow> tree_ok (snd (RemoveChild n d))"
  using sorted_delete [of "mapChilds d" n]
  by (auto simp: RemoveChild_def tree_ok_iff [of d] AList.delete_eq split: option.split)

lemma RemoveChild_add_sub:
  "length n \<le> REG_MAX_NAME \<Longrightarrow> n \<notin> fst ` set (mapChilds d) \<Longrightarrow> RemoveChild n (add_sub n x d) = (0, d)"
  by (cases d) (simp add: RemoveChild_def add_sub_def map_of_map_insert delete_map_insert)

lemma update_at_add_sub:
  "n \<notin> fst ` set (mapChilds d) \<Longrightarrow> update_at (n # s) f (add_sub n x d) = add_sub n (update_at s f x) d"
  by (simp add: add_sub_def map_map_insert)

lemma GetChild_entry_at:
  "entry_at p (oRootDir r) = Some d \<Longrightarrow> GetChild c (deref p r) = (if length c > REG_MAX_NAME then None else entry_at (p @ [c]) (oRootDir r))"
  by (simp add: GetChild_def deref_def entry_at_append split: option.split)

text \<open>
  The undo loop: entries created below \<open>P\<close> under the name \<open>n\<close> are removed again, whatever the
  new subtree looks like.
\<close>

lemma update_grafted:
  assumes "tree_ok root" "entry_at P root = Some e" "n \<notin> fst ` set (mapChilds e)"
  shows "update_at (P @ n # s) f (update_at P (add_sub n x) root) = update_at P (add_sub n (update_at s f x)) root"
proof -
  have "update_at (P @ n # s) f (update_at P (add_sub n x) root) =
      update_at P (\<lambda>d. update_at (n # s) f (add_sub n x d)) root"
    by (simp add: update_at_append update_at_compose del: update_at.simps)
  also have "\<dots> = update_at P (add_sub n (update_at s f x)) root"
    by (rule update_at_cong [OF assms(1)]) (use assms update_at_add_sub in auto)
  finally show ?thesis .
qed

lemma MakeDir_undo_grafted:
  assumes "tree_ok (oRootDir r)" "entry_at P (oRootDir r) = Some e" "n \<notin> fst ` set (mapChilds e)"
    "length n \<le> REG_MAX_NAME"
  shows "MakeDir_undo (P @ n # s) (Some P) (r\<lparr>oRootDir := update_at P (add_sub n x) (oRootDir r)\<rparr>) = r"
proof (induction s arbitrary: x rule: rev_induct)
  case Nil
  have "update_at P (\<lambda>d. snd (RemoveChild n d)) (update_at P (add_sub n x) (oRootDir r)) =
      update_at P (\<lambda>d. d) (oRootDir r)"
    unfolding update_at_compose by (rule update_at_cong [OF assms(1)]) (use assms RemoveChild_add_sub in auto)
  then show ?case
    by (simp add: MakeDir_undo.simps [of "P @ [n]"] MakeDir_undo.simps [of P] write_through_def)
next
  case (snoc m s)
  have "MakeDir_undo (P @ n # s @ [m]) (Some P) (r\<lparr>oRootDir := update_at P (add_sub n x) (oRootDir r)\<rparr>) =
    MakeDir_undo (P @ n # s) (Some P)
      (r\<lparr>oRootDir := update_at P (add_sub n (update_at s (\<lambda>d. snd (RemoveChild m d)) x)) (oRootDir r)\<rparr>)"
    using update_grafted [OF assms(1-3), of s "\<lambda>d. snd (RemoveChild m d)" x]
    by (subst MakeDir_undo.simps) (simp add: write_through_def butlast_append del: update_at.simps)
  then show ?case using snoc.IH by simp
qed

lemma entry_at_grafted:
  assumes "entry_at P root = Some e" "n \<notin> fst ` set (mapChilds e)"
  shows "entry_at (P @ n # s) (update_at P (add_sub n x) root) = entry_at s x"
  using assms by (simp add: entry_at_update_at add_sub_def map_of_map_insert)

lemma MakeDir_loop_grafted:
  assumes "tree_ok (oRootDir r)" "entry_at P (oRootDir r) = Some e" "n \<notin> fst ` set (mapChilds e)"
    "length n \<le> REG_MAX_NAME"
  shows "entry_at s x = Some d \<Longrightarrow> tree_ok x \<Longrightarrow>
     MakeDir_loop cs (r\<lparr>oRootDir := update_at P (add_sub n x) (oRootDir r)\<rparr>) (P @ n # s) pp (Some P) = (ret, r', pc, pp', rb) \<Longrightarrow>
     (ret = 0 \<and> pc = P @ n # s @ cs \<and> pCurDir r' = pCurDir r \<and> (\<exists>x'. tree_ok x' \<and> entry_at (s @ cs) x' \<noteq> None \<and>
        r' = r\<lparr>oRootDir := update_at P (add_sub n x') (oRootDir r)\<rparr>) \<and> (\<forall>c \<in> set cs. length c \<le> REG_MAX_NAME)) \<or>
     (ret = - EINVAL \<and> MakeDir_undo pp' rb r' = r)"
proof (induction cs arbitrary: s x d pp)
  case Nil
  then show ?case by auto
next
  case (Cons c cs)
  let ?r = "\<lambda>x. r\<lparr>oRootDir := update_at P (add_sub n x) (oRootDir r)\<rparr>"
  have at: "entry_at s x = Some d \<Longrightarrow> entry_at (P @ n # s) (oRootDir (?r x)) = Some d" for s x d
    using entry_at_grafted [OF assms(2,3)] by simp
  have gc: "GetChild c (deref (P @ n # s) (?r x)) = (if length c > REG_MAX_NAME then None else entry_at (s @ [c]) x)"
    using GetChild_entry_at [OF at [OF Cons.prems(1)], of c] entry_at_grafted [OF assms(2,3), of "s @ [c]" x] by simp
  have dr: "deref (P @ n # s) (?r x) = d" using at [OF Cons.prems(1)] by (simp add: deref_def)
  show ?case
  proof (cases "GetChild c (deref (P @ n # s) (?r x))")
    case (Some y)
    then have "entry_at (s @ [c]) x = Some y" "length c \<le> REG_MAX_NAME" using gc by (auto split: if_splits)
    then show ?thesis using Cons.IH [of "s @ [c]" x y "P @ n # s"] Cons.prems(2,3) Some by auto
  next
    case None
    show ?thesis
    proof (cases rule: AddChild_cases [of c d])
      case long
      then have "update_at (P @ n # s) (\<lambda>d. snd (AddChild c d)) t = t" for t
        by (simp add: AddChild_def)
      then have "write_through (P @ n # s) (AddChild c) (?r x) = (- EINVAL, ?r x)"
        using long dr by (simp add: write_through_def)
      then show ?thesis using Cons.prems(3) None MakeDir_undo_grafted [OF assms] by auto
    next
      case present
      then have "map_of (mapChilds d) c \<noteq> None" using map_of_eq_None_iff [of "mapChilds d" c] by blast
      then show ?thesis using None present dr by (simp add: GetChild_def)
    next
      case fresh
      let ?x = "update_at s (\<lambda>d. snd (AddChild c d)) x"
      have w: "write_through (P @ n # s) (AddChild c) (?r x) = (0, ?r ?x)"
        using fresh dr update_grafted [OF assms(1-3), of s "\<lambda>d. snd (AddChild c d)" x] by (simp add: write_through_def)
      have tk: "tree_ok ?x" using Cons.prems(2) by (intro tree_ok_update_at) (auto intro: tree_ok_AddChild)
      have y: "entry_at (s @ [c]) ?x = Some new_entry"
        using Cons.prems(1) fresh by (simp add: entry_at_update_at add_sub_def map_of_map_insert)
      have sx: "\<exists>d'. entry_at s ?x = Some d'" using Cons.prems(1) entry_at_update_at [of s "[]"] by simp
      then have g: "GetChild c (deref (P @ n # s) (?r ?x)) = Some new_entry"
        using GetChild_entry_at [OF at, of s ?x _ c] entry_at_grafted [OF assms(2,3), of "s @ [c]" ?x] y fresh by auto
      show ?thesis using Cons.IH [OF y tk, of "P @ n # s"] Cons.prems(3) None w g fresh by simp
    qed
  qed
qed

text \<open>A tree that has every entry of another, with its properties.\<close>

definition grows :: "dir_entry \<Rightarrow> dir_entry \<Rightarrow> bool" where
  "grows d d' \<longleftrightarrow> (\<forall>s e. entry_at s d = Some e \<longrightarrow> (\<exists>e'. entry_at s d' = Some e' \<and> mapProps e' = mapProps e))"

lemma growsD: "grows d d' \<Longrightarrow> entry_at s d = Some e \<Longrightarrow> \<exists>e'. entry_at s d' = Some e' \<and> mapProps e' = mapProps e"
  by (auto simp: grows_def)

lemma grows_refl [simp]: "grows d d"
  by (simp add: grows_def)

lemma grows_add_sub: "n \<notin> fst ` set (mapChilds e) \<Longrightarrow> grows e (add_sub n x e)"
  unfolding grows_def
proof (intro allI impI)
  fix s d assume n: "n \<notin> fst ` set (mapChilds e)" and s: "entry_at s e = Some d"
  show "\<exists>e'. entry_at s (add_sub n x e) = Some e' \<and> mapProps e' = mapProps d"
  proof (cases s)
    case Nil
    then show ?thesis using s by (auto simp: add_sub_def)
  next
    case (Cons m ms)
    have "map_of (mapChilds e) n = None" using n by (simp add: map_of_eq_None_iff)
    then have "m \<noteq> n" using s Cons by auto
    then show ?thesis using s Cons n by (auto simp: add_sub_def map_of_map_insert)
  qed
qed

lemma grows_update_at: "entry_at P d = Some e \<Longrightarrow> grows e (f e) \<Longrightarrow> grows d (update_at P f d)"
proof (induction P arbitrary: d)
  case (Cons n ns)
  then obtain c where c: "map_of (mapChilds d) n = Some c" "entry_at ns c = Some e" by (auto split: option.splits)
  have g: "grows c (update_at ns f c)" using Cons.IH [OF c(2) Cons.prems(2)] .
  show ?case unfolding grows_def
  proof (intro allI impI)
    fix s x assume "entry_at s d = Some x"
    then show "\<exists>e'. entry_at s (update_at (n # ns) f d) = Some e' \<and> mapProps e' = mapProps x"
      using c g growsD by (cases s) (auto simp: map_of_update_child split: option.splits)
  qed
qed simp

lemma MakeDir_loop_spec:
  assumes "tree_ok (oRootDir r)"
  shows "entry_at p (oRootDir r) = Some e \<Longrightarrow> MakeDir_loop cs r p pp None = (ret, r', pc, pp', rb) \<Longrightarrow>
     (ret = 0 \<and> pc = p @ cs \<and> pCurDir r' = pCurDir r \<and> tree_ok (oRootDir r') \<and> entry_at pc (oRootDir r') \<noteq> None \<and>
        grows (oRootDir r) (oRootDir r') \<and> (\<forall>c \<in> set cs. length c \<le> REG_MAX_NAME)) \<or>
     (ret = - EINVAL \<and> MakeDir_undo pp' rb r' = r)"
proof (induction cs arbitrary: p e pp)
  case Nil
  then show ?case using assms by auto
next
  case (Cons c cs)
  have dr: "deref p r = e" using Cons.prems(1) by (simp add: deref_def)
  have te: "tree_ok e" using tree_ok_entry [OF assms Cons.prems(1)] .
  show ?case
  proof (cases "GetChild c (deref p r)")
    case (Some y)
    then have "entry_at (p @ [c]) (oRootDir r) = Some y" "length c \<le> REG_MAX_NAME"
      using GetChild_entry_at [OF Cons.prems(1), of c] by (auto split: if_splits)
    then show ?thesis using Cons.IH [of "p @ [c]" y p] Cons.prems(2) Some by auto
  next
    case None
    show ?thesis
    proof (cases rule: AddChild_cases [of c e])
      case long
      then have "update_at p (\<lambda>d. snd (AddChild c d)) t = t" for t by (simp add: AddChild_def)
      then have "write_through p (AddChild c) r = (- EINVAL, r)"
        using long dr by (simp add: write_through_def)
      then show ?thesis using Cons.prems(2) None MakeDir_undo.simps [of p "Some p" r] by auto
    next
      case present
      then have "map_of (mapChilds e) c \<noteq> None" using map_of_eq_None_iff [of "mapChilds e" c] by blast
      then show ?thesis using None present dr by (simp add: GetChild_def)
    next
      case fresh
      let ?r = "r\<lparr>oRootDir := update_at p (add_sub c new_entry) (oRootDir r)\<rparr>"
      have "update_at p (\<lambda>d. snd (AddChild c d)) (oRootDir r) = update_at p (add_sub c new_entry) (oRootDir r)"
        by (rule update_at_cong [OF assms]) (use fresh Cons.prems(1) in auto)
      then have w: "write_through p (AddChild c) r = (0, ?r)"
        using fresh dr by (simp add: write_through_def)
      have "GetChild c (deref p ?r) = Some new_entry"
        using entry_at_grafted [OF Cons.prems(1) fresh(2), of "[]" new_entry] fresh(1)
          GetChild_entry_at [of p ?r "add_sub c new_entry e" c]
          entry_at_update_at [of p "[]" "add_sub c new_entry" "oRootDir r"] Cons.prems(1) by simp
      then have lp: "MakeDir_loop cs ?r (p @ c # []) p (Some p) = (ret, r', pc, pp', rb)"
        using Cons.prems(2) None w by simp
      have "(ret = 0 \<and> pc = p @ c # [] @ cs \<and> pCurDir r' = pCurDir r \<and> (\<exists>x'. tree_ok x' \<and> entry_at ([] @ cs) x' \<noteq> None \<and>
          r' = r\<lparr>oRootDir := update_at p (add_sub c x') (oRootDir r)\<rparr>) \<and> (\<forall>c \<in> set cs. length c \<le> REG_MAX_NAME)) \<or>
        (ret = - EINVAL \<and> MakeDir_undo pp' rb r' = r)"
        by (rule MakeDir_loop_grafted [OF assms Cons.prems(1) fresh(2,1) _ _ lp]) simp_all
      then show ?thesis
      proof (elim disjE conjE exE)
        fix x assume x: "ret = 0" "pc = p @ c # [] @ cs" "pCurDir r' = pCurDir r" "tree_ok x" "entry_at ([] @ cs) x \<noteq> None"
          "r' = r\<lparr>oRootDir := update_at p (add_sub c x) (oRootDir r)\<rparr>" "\<forall>c \<in> set cs. length c \<le> REG_MAX_NAME"
        have "tree_ok (oRootDir r')" using x assms fresh Cons.prems(1)
          by (auto intro!: tree_ok_update_at tree_ok_add_sub)
        moreover have "grows (oRootDir r) (oRootDir r')"
          using x(6) grows_update_at [OF Cons.prems(1), of "add_sub c x"] grows_add_sub [OF fresh(2)] by simp
        ultimately show ?thesis using x fresh entry_at_grafted [OF Cons.prems(1) fresh(2), of cs x] by simp
      qed simp
    qed
  qed
qed

definition reg_ok :: "registry \<Rightarrow> bool" where
  "reg_ok r \<longleftrightarrow> tree_ok (oRootDir r) \<and> entry_at (pCurDir r) (oRootDir r) \<noteq> None"

lemma MakeDir_spec:
  assumes "reg_ok r" "MakeDir strPath r = (ret, r')"
  shows "if ret = 0 then reg_ok r' \<and> grows (oRootDir r) (oRootDir r') \<and>
      (\<exists>cs. snd (Namei strPath) = cs \<and> fst (Namei strPath) = 0 \<and>
        pCurDir r' = (if hd cs = ''/'' then tl cs else pCurDir r @ cs) \<and>
        (\<forall>c \<in> set (if hd cs = ''/'' then tl cs else cs). length c \<le> REG_MAX_NAME))
    else ret = - EINVAL \<and> r' = r"
proof (cases "strPath = [] \<or> length strPath > REG_MAX_PATH")
  case True
  then show ?thesis using assms by (auto simp: MakeDir_def)
next
  case False
  obtain vc where n: "Namei strPath = (0, vc)" using False by (simp add: Namei_def)
  define p cs where "p = (if hd vc = ''/'' then [] else pCurDir r)" and "cs = (if hd vc = ''/'' then tl vc else vc)"
  obtain lr r1 pc pp rb where lp: "MakeDir_loop cs r p [] None = (lr, r1, pc, pp, rb)" by (metis prod_cases5)
  have m: "MakeDir strPath r = (if ERROR lr then (lr, MakeDir_undo pp rb r1) else (lr, r1\<lparr>pCurDir := pc\<rparr>))"
    using False n lp by (simp add: MakeDir_def p_def cs_def Let_def split: if_splits)
  have tk: "tree_ok (oRootDir r)" using assms(1) by (simp add: reg_ok_def)
  have "entry_at p (oRootDir r) \<noteq> None" using assms(1) by (simp add: p_def reg_ok_def)
  then obtain e where "entry_at p (oRootDir r) = Some e" by blast
  from MakeDir_loop_spec [OF tk this lp] show ?thesis
    using m assms(2) n by (auto simp: p_def cs_def reg_ok_def split: if_splits)
qed

subsection \<open>Paths\<close>

definition good_comp :: "string \<Rightarrow> bool" where
  "good_comp c \<longleftrightarrow> c \<noteq> [] \<and> CHR ''/'' \<notin> set c"

fun join_path :: "string list \<Rightarrow> string" where
  "join_path [] = []"
| "join_path [c] = c"
| "join_path (c # cs) = c @ CHR ''/'' # join_path cs"

lemma join_path_snoc: "cs \<noteq> [] \<Longrightarrow> join_path (cs @ [c]) = join_path cs @ CHR ''/'' # c"
  by (induction cs rule: join_path.induct) auto

lemma join_path_Nil: "\<forall>c \<in> set cs. good_comp c \<Longrightarrow> join_path cs = [] \<longleftrightarrow> cs = []"
  by (cases cs rule: join_path.cases) (auto simp: good_comp_def)

lemma Namei_loop_no_slash: "CHR ''/'' \<notin> set s \<Longrightarrow> s \<noteq> [] \<Longrightarrow> Namei_loop s acc = acc @ [s]"
  by (simp add: Namei_loop.simps [of s] rfind_slash_def)

lemma Namei_loop_split:
  assumes "good_comp c"
  shows "Namei_loop (p @ CHR ''/'' # c) acc = Namei_loop (if p = [] then ''/'' else p) (acc @ [c])"
  using assms by (simp add: Namei_loop.simps [of "p @ CHR ''/'' # c"] rfind_slash_append good_comp_def)

lemma Namei_loop_root: "Namei_loop ''/'' acc = acc @ [''/'']"
  using rfind_slash_append [of "[]" "[]"] by (simp add: Namei_loop.simps [of "''/''"])

lemma Namei_loop_trailing: "p \<noteq> [] \<Longrightarrow> Namei_loop (p @ ''/'') acc = Namei_loop p acc"
  using rfind_slash_append [of "[]" p] by (simp add: Namei_loop.simps [of "p @ ''/''"])

lemma Namei_loop_join:
  "\<forall>c \<in> set cs. good_comp c \<Longrightarrow> cs \<noteq> [] \<Longrightarrow> Namei_loop (join_path cs) acc = acc @ rev cs"
proof (induction cs arbitrary: acc rule: rev_induct)
  case (snoc c cs)
  show ?case
  proof (cases "cs = []")
    case True
    then show ?thesis using snoc.prems Namei_loop_no_slash by (simp add: good_comp_def)
  next
    case False
    then have "join_path cs \<noteq> []" using snoc.prems join_path_Nil [of cs] by simp
    then show ?thesis using snoc False by (simp add: join_path_snoc Namei_loop_split)
  qed
qed simp

lemma Namei_loop_join_root:
  "\<forall>c \<in> set cs. good_comp c \<Longrightarrow> Namei_loop (CHR ''/'' # join_path cs) acc = acc @ rev cs @ [''/'']"
proof (induction cs arbitrary: acc rule: rev_induct)
  case Nil
  then show ?case using Namei_loop_root by simp
next
  case (snoc c cs)
  show ?case
  proof (cases "cs = []")
    case True
    then show ?thesis using snoc.prems Namei_loop_split [of c "[]" acc] Namei_loop_root by simp
  next
    case False
    then show ?thesis using snoc Namei_loop_split [of c "CHR ''/'' # join_path cs" acc]
      by (simp add: join_path_snoc)
  qed
qed

lemma Namei_loop_shape:
  "s \<noteq> [] \<Longrightarrow> \<exists>ys. Namei_loop s acc = acc @ ys \<and> (\<exists>zs. (ys = zs \<and> zs \<noteq> [] \<or> ys = zs @ [''/'']) \<and> (\<forall>c \<in> set zs. good_comp c))"
proof (induction s acc rule: Namei_loop.induct)
  case (1 s acc)
  show ?case
  proof (cases "rfind_slash s")
    case None
    then have "CHR ''/'' \<notin> set s" by (simp add: rfind_slash_def split: if_splits)
    then show ?thesis using 1(4) Namei_loop_no_slash [of s acc] by (intro exI [of _ "[s]"]) (auto simp: good_comp_def)
  next
    case (Some pos)
    then obtain a b where s: "s = a @ CHR ''/'' # b" "CHR ''/'' \<notin> set b" "pos = length a"
      by (auto simp: rfind_slash_Some)
    consider "b = []" "a = []" | "b = []" "a \<noteq> []" | "b \<noteq> []" "a \<noteq> []" | "b \<noteq> []" "a = []" by blast
    then show ?thesis
    proof cases
      case 1
      then show ?thesis using s Namei_loop_root [of acc] by (intro exI [of _ "[''/'']"]) auto
    next
      case 2
      then show ?thesis using "1.IH"(1) [OF 1(4) Some] s Namei_loop_trailing [of a acc] by simp
    next
      case 3
      have g: "good_comp b" using s 3 by (simp add: good_comp_def)
      obtain zs ys where "Namei_loop a (acc @ [b]) = (acc @ [b]) @ ys" "ys = zs \<and> zs \<noteq> [] \<or> ys = zs @ [''/'']"
          "\<forall>c \<in> set zs. good_comp c"
        using "1.IH"(2) [OF 1(4) Some] s 3 by auto
      then show ?thesis using Namei_loop_split [OF g, of a acc] s(1) 3 g
        by (intro exI [of _ "b # ys"] conjI exI [of _ "b # zs"]) auto
    next
      case 4
      have "good_comp b" using s 4 by (simp add: good_comp_def)
      then show ?thesis using Namei_loop_split [of b "[]" acc] s(1) 4 Namei_loop_root
        by (intro exI [of _ "[b, ''/'']"] conjI exI [of _ "[b]"]) auto
    qed
  qed
qed

lemma Namei_shape:
  assumes "Namei s = (0, cs)"
  obtains zs where "cs = zs \<and> zs \<noteq> [] \<or> cs = ''/'' # zs" "\<forall>c \<in> set zs. good_comp c"
proof -
  have s: "s \<noteq> []" "cs = rev (Namei_loop s [])" using assms by (auto simp: Namei_def split: if_splits)
  from Namei_loop_shape [OF s(1), of "[]"] obtain ys zs where
    "Namei_loop s [] = ys" "ys = zs \<and> zs \<noteq> [] \<or> ys = zs @ [''/'']" "\<forall>c \<in> set zs. good_comp c" by auto
  then show thesis using s(2) by (intro that [of "rev zs"]) auto
qed

text \<open>
  \<open>Namei\<close> inverts joining: the path made of any components (non-empty, without a slash),
  relative or behind the root slash, splits into exactly these components, the root being
  the component \<open>/\<close>.
\<close>

theorem namei_inverts_join:
  assumes "\<forall>c \<in> set cs. good_comp c" "cs \<noteq> []" "length (join_path cs) < REG_MAX_PATH"
  shows "Namei (join_path cs) = (0, cs) \<and> Namei (CHR ''/'' # join_path cs) = (0, ''/'' # cs) \<and>
     Namei (join_path cs @ ''/'') = (0, cs)"
proof -
  have "join_path cs \<noteq> []" using join_path_Nil [OF assms(1)] assms(2) by simp
  then show ?thesis using assms Namei_loop_join Namei_loop_join_root Namei_loop_trailing by (simp add: Namei_def)
qed

lemma namei_inverts_join_witness:
  "Namei (join_path [''port'', ''bus0'', ''p1'']) = (0, [''port'', ''bus0'', ''p1'']) \<and>
   Namei (CHR ''/'' # join_path [''port'', ''bus0'', ''p1'']) = (0, ''/'' # [''port'', ''bus0'', ''p1'']) \<and>
   Namei (join_path [''port'', ''bus0'', ''p1''] @ ''/'') = (0, [''port'', ''bus0'', ''p1''])"
  by (rule namei_inverts_join) (simp_all add: good_comp_def)

subsection \<open>The current directory\<close>

lemma entry_at_butlast: "entry_at p d \<noteq> None \<Longrightarrow> entry_at (butlast p) d \<noteq> None"
  by (cases p rule: rev_cases; cases "entry_at (butlast p) d") (auto simp: entry_at_append)

lemma ChangeDir_loop_exists:
  "ChangeDir_loop r cs p = Some q \<Longrightarrow> entry_at p (oRootDir r) \<noteq> None \<Longrightarrow> entry_at q (oRootDir r) \<noteq> None"
proof (induction r cs p rule: ChangeDir_loop.induct)
  case (2 r c cs p)
  have "entry_at (p @ [c]) (oRootDir r) \<noteq> None" if "GetChild c (deref p r) = Some y" for y
    using that 2(6) GetChild_entry_at by (fastforce split: if_splits)
  then show ?case using 2 entry_at_butlast by (auto split: if_splits option.splits)
qed simp

lemma ChangeDir_cases:
  obtains (ok) q where "ChangeDir s r = (0, r\<lparr>pCurDir := q\<rparr>)"
      "ChangeDir_loop r (snd (Namei s)) (pCurDir r) = Some q" "fst (Namei s) = 0" "length s \<le> REG_MAX_PATH"
  | (err) ret where "ret < 0" "ChangeDir s r = (ret, r)"
proof (cases "s = [] \<or> length s > REG_MAX_PATH")
  case True
  then show thesis by (intro err [of "- EINVAL"]) (auto simp: ChangeDir_def Namei_def)
next
  case False
  then obtain vc where n: "Namei s = (0, vc)" by (simp add: Namei_def)
  show thesis
  proof (cases "ChangeDir_loop r vc (pCurDir r)")
    case None
    then show thesis using False n by (intro err [of "- ENOENT"]) (auto simp: ChangeDir_def)
  next
    case (Some q)
    then show thesis using False n by (intro ok [of q]) (auto simp: ChangeDir_def)
  qed
qed

lemma ChangeDir_ok [step_preserves]: "reg_ok r \<Longrightarrow> reg_ok (snd (ChangeDir s r))"
  by (cases rule: ChangeDir_cases [of s r]) (auto simp: reg_ok_def dest: ChangeDir_loop_exists)

lemma MakeDir_ok [step_preserves]: "reg_ok r \<Longrightarrow> reg_ok (snd (MakeDir s r))"
  using MakeDir_spec [of r s "fst (MakeDir s r)" "snd (MakeDir s r)"] by (auto split: if_splits)

lemma write_AddChild_ok: "reg_ok r \<Longrightarrow> reg_ok (snd (write_through (pCurDir r) (AddChild n) r))"
  using entry_at_update_at [of "pCurDir r" "[]" "\<lambda>d. snd (AddChild n d)" "oRootDir r"]
  by (auto simp: reg_ok_def write_through_def intro!: tree_ok_update_at tree_ok_AddChild)

lemma MakeEntry_ok [step_preserves]: "reg_ok r \<Longrightarrow> reg_ok (snd (MakeEntry s r))"
  using write_AddChild_ok by (auto simp: MakeEntry_def split: prod.split)

lemma Namei_dotdot: "Namei ''..'' = (0, [''..''])"
  using Namei_loop_no_slash [of "''..''" "[]"] by (simp add: Namei_def)

lemma AList_delete_update_child:
  "AList.delete n (List.map (\<lambda>(k, c). (k, if k = n then f c else c)) cs) = AList.delete n cs"
  by (induction cs) (auto simp: AList.delete_eq)

definition drop_child :: "string \<Rightarrow> dir_entry \<Rightarrow> dir_entry" where
  "drop_child n d = DirEntry (mapProps d) (AList.delete n (mapChilds d))"

text \<open>What \<open>RemoveDir\<close> amounts to: the directory disappears from its parent.\<close>

lemma RemoveDir_spec:
  assumes "reg_ok r" "ChangeDir s r = (0, r\<lparr>pCurDir := q\<rparr>)"
  shows "q = [] \<Longrightarrow> RemoveDir s r = (0, r\<lparr>oRootDir := DirEntry None [], pCurDir := []\<rparr>)"
    and "q \<noteq> [] \<Longrightarrow> RemoveDir s r =
      (0, r\<lparr>oRootDir := update_at (butlast q) (drop_child (last q)) (oRootDir r), pCurDir := butlast q\<rparr>)"
proof -
  show "q = [] \<Longrightarrow> RemoveDir s r = (0, r\<lparr>oRootDir := DirEntry None [], pCurDir := []\<rparr>)"
    using assms(2) by (simp add: RemoveDir_def Let_def RemoveAllChildren_def)
  assume q: "q \<noteq> []"
  then obtain p n where pn: "q = p @ [n]" by (metis rev_exhaust)
  have tk: "tree_ok (oRootDir r)" using assms(1) by (simp add: reg_ok_def)
  have "reg_ok (r\<lparr>pCurDir := q\<rparr>)" using ChangeDir_ok [OF assms(1), of s] assms(2) by simp
  then obtain e c where e: "entry_at p (oRootDir r) = Some e" "map_of (mapChilds e) n = Some c"
    by (auto simp: reg_ok_def pn entry_at_append split: option.splits bind_splits)
  have len: "length n \<le> REG_MAX_NAME"
    using tree_ok_entry [OF tk e(1)] e(2) by (auto simp: tree_ok_iff [of e] dest!: map_of_SomeD)
  let ?f = "\<lambda>d. DirEntry None (mapChilds (RemoveAllChildren d))"
  let ?root = "update_at q ?f (oRootDir r)"
  let ?r3 = "r\<lparr>pCurDir := q, oRootDir := ?root\<rparr>"
  have cd: "ChangeDir ''..'' ?r3 = (0, ?r3\<lparr>pCurDir := p\<rparr>)"
    using pn by (simp add: ChangeDir_def Namei_dotdot)
  have root: "?root = update_at p (update_at [n] ?f) (oRootDir r)" by (simp add: pn update_at_append)
  have "update_at p (\<lambda>d. snd (RemoveChild n d)) ?root = update_at p (drop_child n) (oRootDir r)"
    unfolding root update_at_compose
  proof (rule update_at_cong [OF tk])
    fix x assume "entry_at p (oRootDir r) = Some x"
    then have "map_of (mapChilds x) n = Some c" using e by simp
    then show "snd (RemoveChild n (update_at [n] ?f x)) = drop_child n x"
      using len by (simp add: RemoveChild_def drop_child_def map_of_update_child AList_delete_update_child)
  qed
  then show "RemoveDir s r =
      (0, r\<lparr>oRootDir := update_at (butlast q) (drop_child (last q)) (oRootDir r), pCurDir := butlast q\<rparr>)"
    using assms(2) q cd pn by (simp add: RemoveDir_def Let_def update_at_compose write_through_def)
qed

lemma tree_ok_drop_child: "tree_ok d \<Longrightarrow> tree_ok (drop_child n d)"
  using sorted_delete [of "mapChilds d" n]
  by (auto simp: drop_child_def tree_ok_iff [of d] AList.delete_eq)

lemma RemoveDir_ok [step_preserves]:
  assumes "reg_ok r"
  shows "reg_ok (snd (RemoveDir s r))"
proof (cases rule: ChangeDir_cases [of s r])
  case (ok q)
  have q: "entry_at q (oRootDir r) \<noteq> None" using ChangeDir_loop_exists ok assms by (auto simp: reg_ok_def)
  show ?thesis
  proof (cases "q = []")
    case True
    then show ?thesis using RemoveDir_spec(1) [OF assms ok(1)] by (simp add: reg_ok_def)
  next
    case False
    have "entry_at (butlast q) (update_at (butlast q) (drop_child (last q)) (oRootDir r)) \<noteq> None"
      using entry_at_butlast [OF q] entry_at_update_at [of "butlast q" "[]"] by auto
    moreover have "tree_ok (update_at (butlast q) (drop_child (last q)) (oRootDir r))"
      using assms by (intro tree_ok_update_at tree_ok_drop_child) (auto simp: reg_ok_def)
    ultimately show ?thesis using RemoveDir_spec(2) [OF assms ok(1) False] by (simp add: reg_ok_def)
  qed
next
  case (err ret)
  then show ?thesis using assms by (simp add: RemoveDir_def ERROR_def)
qed

lemma ChangeDir_loop_follows:
  "\<forall>c \<in> set cs. good_comp c \<and> c \<noteq> ''.'' \<and> c \<noteq> ''..'' \<and> length c \<le> REG_MAX_NAME \<Longrightarrow>
   entry_at (p @ cs) (oRootDir r) \<noteq> None \<Longrightarrow> ChangeDir_loop r cs p = Some (p @ cs) \<and> ExistingDir_loop r cs p"
proof (induction cs arbitrary: p)
  case (Cons c cs)
  obtain e where e: "entry_at p (oRootDir r) = Some e" using Cons.prems(2)
    by (cases "entry_at p (oRootDir r)") (auto simp: entry_at_append)
  have "Option.bind (entry_at (p @ [c]) (oRootDir r)) (entry_at cs) \<noteq> None"
    using Cons.prems(2) entry_at_append [of "p @ [c]" cs] by simp
  then obtain x where "entry_at (p @ [c]) (oRootDir r) = Some x"
    by (cases "entry_at (p @ [c]) (oRootDir r)") auto
  then have "GetChild c (deref p r) = Some x" using GetChild_entry_at [OF e, of c] Cons.prems(1) by simp
  moreover have "good_comp c" using Cons.prems(1) by simp
  then have "c \<noteq> ''/''" by (auto simp: good_comp_def)
  moreover have "ChangeDir_loop r cs (p @ [c]) = Some ((p @ [c]) @ cs) \<and> ExistingDir_loop r cs (p @ [c])"
    using Cons.prems by (intro Cons.IH) auto
  moreover have "c \<noteq> ''.''" "c \<noteq> ''..''" using Cons.prems(1) by auto
  ultimately show ?case by simp
qed simp

subsection \<open>Properties of an entry in the registry\<close>

definition reg_props_ok :: "registry \<Rightarrow> bool" where
  "reg_props_ok r \<longleftrightarrow> reg_ok r \<and> (case mapProps (deref (pCurDir r) r) of None \<Rightarrow> False | Some db \<Rightarrow> cfg_ok db)"

definition reg_put :: "heap \<Rightarrow> u8 list \<Rightarrow> int \<Rightarrow> cbuffer \<Rightarrow> registry \<Rightarrow> registry option" where
  "reg_put hp stale k v r = (case Reg_SetProperty hp stale k v r of
      Return (ret, r') \<Rightarrow> if ret = 0 then Some r' else None | _ \<Rightarrow> None)"

definition reg_del :: "int \<Rightarrow> registry \<Rightarrow> registry option" where
  "reg_del k r = (case Reg_RemoveProperty k r of
      Return (ret, r') \<Rightarrow> if ret = 0 then Some r' else None | _ \<Rightarrow> None)"

definition reg_look :: "int \<Rightarrow> registry \<Rightarrow> (u8 list \<times> 32 word) option" where
  "reg_look k r = Option.bind (mapProps (deref (pCurDir r) r)) (cfg_look k)"

lemma write_entry:
  assumes "reg_ok r"
  shows "deref (pCurDir r) (r\<lparr>oRootDir := update_at (pCurDir r) (\<lambda>_. d) (oRootDir r)\<rparr>) = d"
    and "mapChilds d = mapChilds (deref (pCurDir r) r) \<Longrightarrow> reg_ok (r\<lparr>oRootDir := update_at (pCurDir r) (\<lambda>_. d) (oRootDir r)\<rparr>)"
proof -
  obtain e where e: "entry_at (pCurDir r) (oRootDir r) = Some e" using assms by (auto simp: reg_ok_def)
  then have at: "entry_at (pCurDir r) (update_at (pCurDir r) (\<lambda>_. d) (oRootDir r)) = Some d"
    using entry_at_update_at [of "pCurDir r" "[]"] by simp
  then show "deref (pCurDir r) (r\<lparr>oRootDir := update_at (pCurDir r) (\<lambda>_. d) (oRootDir r)\<rparr>) = d"
    by (simp add: deref_def)
  assume "mapChilds d = mapChilds (deref (pCurDir r) r)"
  then have "tree_ok e \<Longrightarrow> tree_ok d" using e by (simp add: tree_ok_iff [of e] tree_ok_iff [of d] deref_def)
  then have "tree_ok (update_at (pCurDir r) (\<lambda>_. d) (oRootDir r))"
    using assms e by (intro tree_ok_update_at) (auto simp: reg_ok_def)
  then show "reg_ok (r\<lparr>oRootDir := update_at (pCurDir r) (\<lambda>_. d) (oRootDir r)\<rparr>)"
    using at by (simp add: reg_ok_def)
qed

lemma Reg_SetProperty_spec:
  assumes "roomy hp stale" "cfg_value_ok v" "reg_props_ok r"
  obtains b db where "Reg_SetProperty hp stale k v r =
      Return (0, r\<lparr>oRootDir := update_at (pCurDir r) (\<lambda>_. DirEntry (Some (AList.update k b db)) (mapChilds (deref (pCurDir r) r))) (oRootDir r)\<rparr>)"
    "mapProps (deref (pCurDir r) r) = Some db" "cfg_ok db" "cfg_value_ok b" "cfg_val b = cfg_val v"
proof -
  obtain db where db: "mapProps (deref (pCurDir r) r) = Some db" "cfg_ok db"
    using assms(3) by (auto simp: reg_props_ok_def split: option.splits)
  have nb: "buf_wf (newBuffer stale)" "GetDataType (newBuffer stale) \<in> {DataTypeMem, DataTypeObjPtr, DataTypeMsgPtr}"
    using assms(1) by (simp_all add: roomy_def)
  have v: "buf_wf v" "GetDataType v = DataTypeMem" "0 < bufSize v" "\<And>k. allocOk hp k"
    using assms by (auto simp: cfg_value_ok_def roomy_def)
  obtain c where c: "assignBuf hp v (newBuffer stale) = Return c" "cfg_value_ok c" "cfg_val c = cfg_val v"
  proof -
    obtain b where b: "SetProperty hp stale 0 v [] = Return (0, AList.update 0 b [])" "cfg_value_ok b" "cfg_val b = cfg_val v"
      by (rule SetProperty_spec [OF assms(1,2), of 0 "[]"]) blast
    have "assignBuf hp v (newBuffer stale) = Return b"
      using b(1) by (cases "assignBuf hp v (newBuffer stale)") (simp_all add: SetProperty_def bindOutcome_def)
    with b that show thesis by blast
  qed
  obtain b where "SetProperty hp stale k c db = Return (0, AList.update k b db)" "cfg_value_ok b" "cfg_val b = cfg_val c"
    using SetProperty_spec [OF assms(1) c(2), of k db] by blast
  then show thesis using c db by (intro that [of b db])
      (simp_all add: Reg_SetProperty_def Entry_SetProperty_def bindOutcome_def)
qed

interpretation rs: prop_store reg_props_ok "\<lambda>v. roomy hp stale \<and> cfg_value_ok v" "reg_put hp stale" reg_del reg_look cfg_val
  for hp stale
proof
  fix s v k k' and s' :: registry
  assume s: "reg_props_ok s"
  then have rk: "reg_ok s" by (simp add: reg_props_ok_def)
  obtain db where db: "mapProps (deref (pCurDir s) s) = Some db" "cfg_ok db"
    using s by (auto simp: reg_props_ok_def split: option.splits)
  { assume "roomy hp stale \<and> cfg_value_ok v"
    then obtain b where b: "Reg_SetProperty hp stale k v s =
      Return (0, s\<lparr>oRootDir := update_at (pCurDir s) (\<lambda>_. DirEntry (Some (AList.update k b db)) (mapChilds (deref (pCurDir s) s))) (oRootDir s)\<rparr>)"
      "cfg_value_ok b" "cfg_val b = cfg_val v"
      using Reg_SetProperty_spec [OF _ _ s, of hp stale v k] db by auto
    let ?d = "DirEntry (Some (AList.update k b db)) (mapChilds (deref (pCurDir s) s))"
    let ?s = "s\<lparr>oRootDir := update_at (pCurDir s) (\<lambda>_. ?d) (oRootDir s)\<rparr>"
    have p: "reg_put hp stale k v s = Some ?s" using b by (simp add: reg_put_def)
    have w: "deref (pCurDir s) ?s = ?d" "reg_ok ?s" using write_entry [OF rk, of ?d] by simp_all
    then show "\<exists>s'. reg_put hp stale k v s = Some s' \<and> reg_props_ok s'"
      using p cfg_ok_update [OF db(2) b(2)] by (auto simp: reg_props_ok_def)
    assume "reg_put hp stale k v s = Some s'"
    with p have "s' = ?s" by simp
    then show "reg_look k' s' = (if k' = k then Some (cfg_val v) else reg_look k' s)"
      using w b(3) db by (simp add: reg_look_def cfg_look_map update_conv') }
  { assume d: "reg_del k s = Some s'"
    let ?d = "DirEntry (Some (AList.delete k db)) (mapChilds (deref (pCurDir s) s))"
    let ?s = "s\<lparr>oRootDir := update_at (pCurDir s) (\<lambda>_. ?d) (oRootDir s)\<rparr>"
    have e: "s' = ?s" using d db
      by (auto simp: reg_del_def Reg_RemoveProperty_def Entry_RemoveProp_def RemoveProperty_def bindOutcome_def split: if_splits)
    have w: "deref (pCurDir s) ?s = ?d" "reg_ok ?s" using write_entry [OF rk, of ?d] by simp_all
    show "reg_props_ok s'" using e w cfg_ok_delete [OF db(2)] by (simp add: reg_props_ok_def)
    show "reg_look k' s' = (if k' = k then None else reg_look k' s)"
      using e w db by (simp add: reg_look_def cfg_look_map delete_conv') }
  show "(reg_del k s = None) = (reg_look k s = None)" using db
    by (auto simp: reg_del_def Reg_RemoveProperty_def Entry_RemoveProp_def RemoveProperty_def bindOutcome_def
        reg_look_def cfg_look_map exist_def)
qed

subsection \<open>The registry as a machine\<close>

datatype reg_op =
    RMakeEntry string
  | RMakeDir string
  | RChangeDir string
  | RRemoveDir string
  | RSetProperty int cbuffer
  | RRemoveProperty int

text \<open>A call that throws leaves the registry as it was.\<close>

definition landed :: "registry \<Rightarrow> (int \<times> registry) outcome \<Rightarrow> registry" where
  "landed r out = (case out of Return (_, r') \<Rightarrow> r' | _ \<Rightarrow> r)"

primrec reg_do :: "heap \<Rightarrow> u8 list \<Rightarrow> registry \<Rightarrow> reg_op \<Rightarrow> registry" where
  "reg_do hp stale r (RMakeEntry s) = snd (MakeEntry s r)"
| "reg_do hp stale r (RMakeDir s) = snd (MakeDir s r)"
| "reg_do hp stale r (RChangeDir s) = snd (ChangeDir s r)"
| "reg_do hp stale r (RRemoveDir s) = snd (RemoveDir s r)"
| "reg_do hp stale r (RSetProperty k v) = landed r (Reg_SetProperty hp stale k v r)"
| "reg_do hp stale r (RRemoveProperty k) = landed r (Reg_RemoveProperty k r)"

text \<open>A property call on an entry without property map is undefined (only the root, see below).\<close>

definition reg_legal :: "registry \<Rightarrow> reg_op \<Rightarrow> bool" where
  "reg_legal r e = (case e of
      RSetProperty _ _ \<Rightarrow> mapProps (deref (pCurDir r) r) \<noteq> None
    | RRemoveProperty _ \<Rightarrow> mapProps (deref (pCurDir r) r) \<noteq> None
    | _ \<Rightarrow> True)"

lemma landed_ok [step_preserves]:
  "reg_ok r \<Longrightarrow> reg_ok (landed r (Reg_SetProperty hp stale k v r))"
  "reg_ok r \<Longrightarrow> reg_ok (landed r (Reg_RemoveProperty k r))"
  using write_entry(2) [of r]
  by (auto simp: landed_def Reg_SetProperty_def Entry_SetProperty_def Reg_RemoveProperty_def Entry_RemoveProp_def
      bindOutcome_def split: outcome.splits option.splits prod.splits)

interpretation rm: event_machine "reg_do hp stale" reg_legal reg_ok for hp stale
proof
  fix r e assume "reg_ok r"
  then show "reg_ok (reg_do hp stale r e)" by (cases e) (auto intro: step_preserves)
qed

lemma reg_ok_new [simp]: "reg_ok new_registry"
  by (simp add: reg_ok_def new_registry_def)

subsection \<open>Claims\<close>

text \<open>
  C8: Whatever the calls made on a new registry, the current directory is an entry of the
  tree (the pointer never dangles, not even after \<open>RemoveDir\<close>), and \<open>ListDir\<close> returns names in
  strict order, none longer than \<open>REG_MAX_NAME\<close>.
\<close>

theorem registry_invariant:
  assumes "reach (reg_do hp stale) reg_legal new_registry r"
  shows "entry_at (pCurDir r) (oRootDir r) \<noteq> None \<and> fst (ListDir r) = 0 \<and>
     sorted_wrt (<) (snd (ListDir r)) \<and> list_all (\<lambda>n. length n \<le> REG_MAX_NAME) (snd (ListDir r))"
proof -
  have rk: "reg_ok r" using rm.inv_reach [OF assms reg_ok_new] .
  then obtain e where e: "entry_at (pCurDir r) (oRootDir r) = Some e" "tree_ok e"
    using tree_ok_entry by (auto simp: reg_ok_def)
  then show ?thesis by (auto simp: ListDir_def deref_def tree_ok_iff [of e] list_all_iff)
qed

lemma registry_invariant_witness:
  "\<exists>r. r = snd (RemoveDir ''..'' (snd (MakeDir ''/a/b'' new_registry))) \<and> entry_at (pCurDir r) (oRootDir r) \<noteq> None \<and>
     fst (ListDir r) = 0 \<and> sorted_wrt (<) (snd (ListDir r)) \<and> list_all (\<lambda>n. length n \<le> REG_MAX_NAME) (snd (ListDir r))"
proof -
  have "reach (reg_do wit_heap []) reg_legal new_registry
     (reg_do wit_heap [] (reg_do wit_heap [] new_registry (RMakeDir ''/a/b'')) (RRemoveDir ''..''))"
    by (intro reach.intros) (simp_all add: reg_legal_def)
  from registry_invariant [OF this] show ?thesis by simp
qed

text \<open>
  C10: for a path without \<open>.\<close> and \<open>..\<close> components (with them \<open>MakeDir\<close> does not follow the
  path it makes) \<open>MakeDir\<close> makes the directory it names: after success the same path, followed from
  where \<open>MakeDir\<close> started, leads \<open>ChangeDir\<close> to the directory \<open>MakeDir\<close> left current,
  \<open>ExistingDir\<close> confirms it, and every earlier entry is still there with its properties.
\<close>

theorem make_dir_then_change_dir:
  assumes "reg_ok r" "MakeDir strPath r = (0, r')" "''.'' \<notin> set (snd (Namei strPath))" "''..'' \<notin> set (snd (Namei strPath))"
  shows "ChangeDir strPath (r'\<lparr>pCurDir := pCurDir r\<rparr>) = (0, r') \<and>
     ExistingDir strPath (r'\<lparr>pCurDir := pCurDir r\<rparr>) = 0 \<and> grows (oRootDir r) (oRootDir r')"
proof -
  let ?r = "r'\<lparr>pCurDir := pCurDir r\<rparr>"
  have sp: "reg_ok r'" "grows (oRootDir r) (oRootDir r')" "fst (Namei strPath) = 0"
    using MakeDir_spec [OF assms(1,2)] by auto
  obtain cs where n: "Namei strPath = (0, cs)" using sp(3) by (metis prod.collapse)
  have cur: "pCurDir r' = (if hd cs = ''/'' then tl cs else pCurDir r @ cs)"
    and len: "\<forall>c \<in> set (if hd cs = ''/'' then tl cs else cs). length c \<le> REG_MAX_NAME"
    using MakeDir_spec [OF assms(1,2)] n by (auto split: if_splits)
  have str: "strPath \<noteq> []" "length strPath \<le> REG_MAX_PATH" using n by (auto simp: Namei_def split: if_splits)
  obtain zs where zs: "cs = zs \<and> zs \<noteq> [] \<or> cs = ''/'' # zs" "\<forall>c \<in> set zs. good_comp c"
    by (rule Namei_shape [OF n]) blast
  define rooted where "rooted \<longleftrightarrow> hd cs = ''/''"
  have shape: "cs = (if rooted then ''/'' # zs else zs)" "zs \<noteq> [] \<or> rooted"
  proof -
    have "\<not> good_comp ''/''" by (simp add: good_comp_def)
    then have "zs \<noteq> [] \<Longrightarrow> hd zs \<noteq> ''/''" using zs(2) by (metis hd_in_set)
    then show "cs = (if rooted then ''/'' # zs else zs)" "zs \<noteq> [] \<or> rooted" using zs(1) by (auto simp: rooted_def)
  qed
  let ?p = "if rooted then [] else pCurDir r"
  have target: "pCurDir r' = ?p @ zs" using cur shape(1) unfolding rooted_def [symmetric]
    by (cases rooted) simp_all
  have sub: "set zs \<subseteq> set cs" using shape(1) by (cases rooted) (simp_all add: subset_insertI)
  have tz: "(if rooted then tl cs else cs) = zs" using shape(1) by (cases rooted) simp_all
  have nd: "''.'' \<notin> set zs" "''..'' \<notin> set zs" using sub assms(3,4) n by (simp_all only: snd_conv) blast+
  have ln: "\<forall>c \<in> set zs. length c \<le> REG_MAX_NAME" using len tz by (simp only: rooted_def)
  have all: "\<forall>c \<in> set zs. good_comp c \<and> c \<noteq> ''.'' \<and> c \<noteq> ''..'' \<and> length c \<le> REG_MAX_NAME"
    using zs(2) ln nd by metis
  have "entry_at (?p @ zs) (oRootDir ?r) \<noteq> None" using sp(1) target by (simp add: reg_ok_def)
  from ChangeDir_loop_follows [OF all this]
  have fl: "ChangeDir_loop ?r zs ?p = Some (?p @ zs)" "ExistingDir_loop ?r zs ?p" by simp_all
  have "ChangeDir_loop ?r cs (pCurDir r) = Some (pCurDir r')"
    using fl(1) shape target by (cases rooted) simp_all
  then have "ChangeDir strPath ?r = (0, r')" using str n by (simp add: ChangeDir_def)
  moreover have "ExistingDir strPath ?r =
      (if ExistingDir_loop ?r (if rooted then tl cs else cs) ?p then 0 else - ENOENT)"
    using str n unfolding rooted_def by (simp add: ExistingDir_def)
  then have "ExistingDir strPath ?r = 0" unfolding tz using fl(2) by simp
  ultimately show ?thesis using sp(2) by simp
qed

lemma Namei_abs: "Namei ''/a/b'' = (0, [''/'', ''a'', ''b''])"
  using Namei_loop_join_root [of "[''a'', ''b'']" "[]"] by (simp add: Namei_def good_comp_def)

lemma make_dir_then_change_dir_witness:
  "\<exists>r'. MakeDir ''/a/b'' new_registry = (0, r') \<and> ChangeDir ''/a/b'' (r'\<lparr>pCurDir := pCurDir new_registry\<rparr>) = (0, r') \<and>
     ExistingDir ''/a/b'' (r'\<lparr>pCurDir := pCurDir new_registry\<rparr>) = 0 \<and> grows (oRootDir new_registry) (oRootDir r')"
proof -
  have m: "MakeDir ''/a/b'' new_registry = (0, snd (MakeDir ''/a/b'' new_registry))"
    by (simp add: MakeDir_def Namei_abs write_through_def new_registry_def new_entry_def deref_def GetChild_def AddChild_def Let_def)
  show ?thesis using make_dir_then_change_dir [OF reg_ok_new m] m by (auto simp: Namei_abs)
qed

text \<open>
  C9: A failing \<open>MakeDir\<close> leaves no trace: when some component cannot be created, every
  entry made before it is removed again, and the tree and the current directory are exactly
  what they were. The error is always \<open>-EINVAL\<close>.
\<close>

theorem make_dir_failure_rolls_back:
  assumes "reg_ok r" "fst (MakeDir strPath r) \<noteq> 0"
  shows "MakeDir strPath r = (- EINVAL, r)"
  using MakeDir_spec [OF assms(1), of strPath "fst (MakeDir strPath r)" "snd (MakeDir strPath r)"] assms(2)
  by (auto simp: prod_eq_iff split: if_splits)

lemma wit_long_path: "Namei (join_path [''a'', ''b'', replicate 129 CHR ''x'']) = (0, [''a'', ''b'', replicate 129 CHR ''x''])"
  using Namei_loop_join [of "[''a'', ''b'', replicate 129 CHR ''x'']" "[]"]
  by (simp add: Namei_def good_comp_def)

lemma make_dir_failure_rolls_back_witness:
  "MakeDir (join_path [''a'', ''b'', replicate 129 CHR ''x'']) new_registry = (- EINVAL, new_registry)"
proof (rule make_dir_failure_rolls_back [OF reg_ok_new])
  let ?s = "join_path [''a'', ''b'', replicate 129 CHR ''x'']"
  show "fst (MakeDir ?s new_registry) \<noteq> 0"
  proof
    assume "fst (MakeDir ?s new_registry) = 0"
    then have "MakeDir ?s new_registry = (0, snd (MakeDir ?s new_registry))" by (metis prod.collapse)
    from MakeDir_spec [OF reg_ok_new this] show False by (simp only: wit_long_path) simp
  qed
qed

lemma entry_at_drop_child:
  "entry_at P d = Some e \<Longrightarrow> entry_at p (update_at P (drop_child n) d) =
     (if prefix (P @ [n]) p then None else if prefix p P then map_option (update_at (drop (length p) P) (drop_child n)) (entry_at p d)
      else entry_at p d)"
proof (induction P arbitrary: d p)
  case Nil
  then show ?case
    by (cases p) (auto simp: drop_child_def delete_conv' split: option.split)
next
  case (Cons m P)
  then obtain c where c: "map_of (mapChilds d) m = Some c" "entry_at P c = Some e" by (auto split: option.splits)
  show ?case
  proof (cases p)
    case Nil
    then show ?thesis by simp
  next
    case p: (Cons k ks)
    show ?thesis
    proof (cases "k = m")
      case True
      then show ?thesis using p c Cons.IH [OF c(2), of ks] by (simp add: map_of_update_child)
    next
      case False
      then show ?thesis using p by (simp add: map_of_update_child split: option.split)
    qed
  qed
qed

text \<open>
  \<open>RemoveDir\<close> of a directory other than the root removes exactly the directory and what is
  below it, and leaves the parent current: the entries that remain are those whose path does
  not pass through the removed one.
\<close>

theorem remove_dir_removes_subtree:
  assumes "reg_ok r" "ChangeDir strPath r = (0, r\<lparr>pCurDir := q\<rparr>)" "q \<noteq> []"
  shows "fst (RemoveDir strPath r) = 0 \<and> pCurDir (snd (RemoveDir strPath r)) = butlast q \<and>
     (entry_at p (oRootDir (snd (RemoveDir strPath r))) \<noteq> None \<longleftrightarrow>
      entry_at p (oRootDir r) \<noteq> None \<and> \<not> prefix q p)"
proof -
  have "reg_ok (r\<lparr>pCurDir := q\<rparr>)" using ChangeDir_ok [OF assms(1), of strPath] assms(2) by simp
  then have "entry_at q (oRootDir r) \<noteq> None" by (simp add: reg_ok_def)
  then obtain e where e: "entry_at (butlast q) (oRootDir r) = Some e" using entry_at_butlast by blast
  have q: "butlast q @ [last q] = q" using assms(3) by simp
  show ?thesis
    using RemoveDir_spec(2) [OF assms] entry_at_drop_child [OF e, of p "last q"] unfolding q by auto
qed

lemma remove_dir_removes_subtree_witness:
  "\<exists>r. MakeDir ''/a/b'' new_registry = (0, r) \<and>
    fst (RemoveDir ''.'' r) = 0 \<and> pCurDir (snd (RemoveDir ''.'' r)) = butlast [''a'', ''b''] \<and>
    (entry_at [''a''] (oRootDir (snd (RemoveDir ''.'' r))) \<noteq> None \<longleftrightarrow>
     entry_at [''a''] (oRootDir r) \<noteq> None \<and> \<not> prefix [''a'', ''b''] [''a''])"
proof -
  define r where "r = snd (MakeDir ''/a/b'' new_registry)"
  have m: "MakeDir ''/a/b'' new_registry = (0, r)"
    by (simp add: r_def MakeDir_def Namei_abs write_through_def new_registry_def new_entry_def deref_def GetChild_def AddChild_def Let_def)
  have cur: "pCurDir r = [''a'', ''b'']"
    using MakeDir_spec [OF reg_ok_new m] by (simp add: Namei_abs)
  have rk: "reg_ok r" using MakeDir_ok [OF reg_ok_new, of "''/a/b''"] by (simp add: r_def)
  have "Namei ''.'' = (0, [''.''])" using Namei_loop_no_slash [of "''.''" "[]"] by (simp add: Namei_def)
  then have "ChangeDir ''.'' r = (0, r\<lparr>pCurDir := [''a'', ''b'']\<rparr>)" using cur by (simp add: ChangeDir_def)
  from remove_dir_removes_subtree [OF rk this] m show ?thesis by blast
qed

text \<open>
  \<open>RemoveDir\<close> of the root succeeds and takes away the property map of the root for good:
  from then on setting or reading a property there dereferences a null pointer.
\<close>

theorem remove_root_loses_properties:
  assumes "reg_ok r" "ChangeDir strPath r = (0, r\<lparr>pCurDir := []\<rparr>)" "roomy hp stale" "cfg_value_ok v"
  shows "fst (RemoveDir strPath r) = 0 \<and> Reg_SetProperty hp stale k v (snd (RemoveDir strPath r)) = Undefined \<and>
     Reg_GetProperty hp ob k v (snd (RemoveDir strPath r)) = Undefined"
proof -
  obtain b where b: "SetProperty hp stale 0 v [] = Return (0, AList.update 0 b [])"
    by (rule SetProperty_spec [OF assms(3,4), of 0 "[]"]) blast
  have "assignBuf hp v (newBuffer stale) = Return b"
    using b by (cases "assignBuf hp v (newBuffer stale)") (simp_all add: SetProperty_def bindOutcome_def)
  then show ?thesis using RemoveDir_spec(1) [OF assms(1,2)]
    by (simp add: Reg_SetProperty_def Entry_SetProperty_def Reg_GetProperty_def Entry_GetProperty_def deref_def bindOutcome_def)
qed

lemma remove_root_loses_properties_witness:
  "fst (RemoveDir ''/'' new_registry) = 0 \<and>
   Reg_SetProperty wit_heap (replicate 48 0) 7 (wit_buffer 60) (snd (RemoveDir ''/'' new_registry)) = Undefined \<and>
   Reg_GetProperty wit_heap \<lparr>qwObjId = 1, refCount = 1, dwClsid = 2095\<rparr> 7 (wit_buffer 60) (snd (RemoveDir ''/'' new_registry)) = Undefined"
proof (rule remove_root_loses_properties)
  have "Namei ''/'' = (0, [''/''])" using Namei_loop_root [of "[]"] by (simp add: Namei_def)
  then show "ChangeDir ''/'' new_registry = (0, new_registry\<lparr>pCurDir := []\<rparr>)"
    by (simp add: ChangeDir_def new_registry_def)
qed (simp_all add: roomy_def wit_heap_def wit_value_ok)

text \<open>
  \<open>MakeEntry\<close> checks the components of the name but stores the name: an entry made with
  a trailing slash shows up in \<open>ListDir\<close> with the slash and cannot be entered, since
  \<open>ChangeDir\<close> looks for the name without it.
\<close>

theorem make_entry_trailing_slash:
  assumes "reg_ok r" "good_comp n" "n \<noteq> ''.''" "n \<noteq> ''..''" "length n < REG_MAX_NAME"
    "n \<notin> set (snd (ListDir r))" "n @ ''/'' \<notin> set (snd (ListDir r))"
  shows "fst (MakeEntry (n @ ''/'') r) = 0 \<and> n @ ''/'' \<in> set (snd (ListDir (snd (MakeEntry (n @ ''/'') r)))) \<and>
     fst (ChangeDir (n @ ''/'') (snd (MakeEntry (n @ ''/'') r))) = - ENOENT"
proof -
  let ?m = "n @ ''/''"
  have nz: "n \<noteq> []" "CHR ''/'' \<notin> set n" using assms(2) by (simp_all add: good_comp_def)
  have nm: "Namei ?m = (0, [n])"
    using Namei_loop_trailing [OF nz(1), of "[]"] Namei_loop_no_slash [OF nz(2,1), of "[]"] assms(5) by (simp add: Namei_def)
  have ns: "n \<noteq> ''/''" using nz(2) by auto
  obtain e where e: "entry_at (pCurDir r) (oRootDir r) = Some e" using assms(1) by (auto simp: reg_ok_def)
  have dr: "deref (pCurDir r) r = e" using e by (simp add: deref_def)
  have fr: "?m \<notin> fst ` set (mapChilds e)" "n \<notin> fst ` set (mapChilds e)"
    using assms(6,7) dr by (simp_all add: ListDir_def)
  have ac: "AddChild ?m e = (0, add_sub ?m new_entry e)"
    by (rule AddChild_cases [of ?m e]) (use fr assms(5) in simp_all)
  define r' where "r' = snd (MakeEntry ?m r)"
  have mk: "MakeEntry ?m r = (0, r')" "r' = r\<lparr>oRootDir := update_at (pCurDir r) (\<lambda>d. snd (AddChild ?m d)) (oRootDir r)\<rparr>"
    using nm ns ac dr assms(5) by (simp_all add: MakeEntry_def write_through_def r'_def)
  have "entry_at (pCurDir r) (oRootDir r') = Some (add_sub ?m new_entry e)"
    using mk(2) entry_at_update_at [of "pCurDir r" "[]"] e ac by simp
  then have dr': "deref (pCurDir r') r' = add_sub ?m new_entry e" using mk(2) by (simp add: deref_def)
  then have "?m \<in> set (snd (ListDir r'))" by (simp add: ListDir_def add_sub_def set_map_insert)
  moreover have "GetChild n (deref (pCurDir r') r') = None"
    unfolding dr' using fr by (simp add: GetChild_def add_sub_def map_of_map_insert map_of_eq_None_iff)
  then have "fst (ChangeDir ?m r') = - ENOENT"
    using nm ns assms(3,4,5) by (simp add: ChangeDir_def)
  ultimately show ?thesis using mk(1) by simp
qed

lemma make_entry_trailing_slash_witness:
  "fst (MakeEntry (''dev'' @ ''/'') new_registry) = 0 \<and>
   ''dev'' @ ''/'' \<in> set (snd (ListDir (snd (MakeEntry (''dev'' @ ''/'') new_registry)))) \<and>
   fst (ChangeDir (''dev'' @ ''/'') (snd (MakeEntry (''dev'' @ ''/'') new_registry))) = - ENOENT"
  by (rule make_entry_trailing_slash)
    (simp_all add: good_comp_def, simp_all add: ListDir_def new_registry_def deref_def new_entry_def)

text \<open>
  A property set on the current directory and removed again leaves every other property
  of the directory as it was, and the property itself absent, whatever it was before.
\<close>

theorem registry_set_remove:
  assumes "reg_props_ok r" "roomy hp stale" "cfg_value_ok v"
  shows "\<exists>r1 r2. Reg_SetProperty hp stale k v r = Return (0, r1) \<and> Reg_RemoveProperty k r1 = Return (0, r2) \<and>
     reg_look k r2 = None \<and> (\<forall>k'. k' = k \<or> reg_look k' r2 = reg_look k' r)"
proof -
  obtain r1 where r1: "reg_put hp stale k v r = Some r1" using rs.put_ok [OF assms(1)] assms(2,3) by blast
  obtain r2 where r2: "reg_del k r1 = Some r2" "\<forall>k'. reg_look k' r2 = (if k' = k then None else reg_look k' r)"
    using rs.put_del [OF assms(1) _ r1] assms(2,3) by blast
  have "Reg_SetProperty hp stale k v r = Return (0, r1)" "Reg_RemoveProperty k r1 = Return (0, r2)"
    using r1 r2(1) by (auto simp: reg_put_def reg_del_def split: outcome.splits if_splits)
  then show ?thesis using r2(2) by simp
qed

lemma registry_set_remove_witness:
  "\<exists>r1 r2. Reg_SetProperty wit_heap (replicate 48 0) 3 (wit_buffer 60) new_registry = Return (0, r1) \<and>
     Reg_RemoveProperty 3 r1 = Return (0, r2) \<and>
     reg_look 3 r2 = None \<and> (\<forall>k'. k' = 3 \<or> reg_look k' r2 = reg_look k' new_registry)"
  by (rule registry_set_remove)
    (simp_all add: reg_props_ok_def roomy_def wit_heap_def wit_value_ok,
     simp add: new_registry_def deref_def new_entry_def cfg_ok_def)

end
