(* ===== verification/CfgSeri.thy ===== *)
theory CfgSeri
  imports ConfigDb
begin

text \<open>
  The wire format of a property map: \<open>CConfigDb::Serialize\<close>, \<open>Deserialize\<close> and \<open>Clone\<close> of
  \<open>combase/config.cpp\<close>. A header of 16 bytes, then for each property its key, the size of its
  serialised buffer rounded up to four, and that buffer; the bytes between the buffer and the
  rounded size are whatever the memory held.

  A location is an offset from \<open>ptr()\<close> of the buffer, \<open>pg\<close> is the result of \<open>getpagesize\<close>.
\<close>

subsection \<open>The operations\<close>

abbreviation (input) SIZEOF_CFG_HEADER :: nat where "SIZEOF_CFG_HEADER \<equiv> 16"
abbreviation (input) CFGDB_MAX_SIZE :: nat where "CFGDB_MAX_SIZE \<equiv> 16777216"
abbreviation (input) CFGDB_MAX_ITEM :: nat where "CFGDB_MAX_ITEM \<equiv> 1024"

definition AlignDword :: "nat \<Rightarrow> nat" where
  "AlignDword n = (n + 3) div 4 * 4"

record cfg_header =
  chClsid :: nat
  chSize :: nat
  chVersion :: u8
  chCount :: nat

definition cfg_header_bytes :: "cfg_header \<Rightarrow> u8 list" where
  "cfg_header_bytes h = to_be 4 (chClsid h) @ to_be 4 (chSize h) @ [chVersion h, 0, 0, 0] @ to_be 4 (chCount h)"

definition read_cfg_header :: "u8 list \<Rightarrow> cfg_header option" where
  "read_cfg_header src =
    (if length src < SIZEOF_CFG_HEADER then None
     else Some \<lparr>chClsid = of_be (take 4 src), chSize = of_be (take 4 (drop 4 src)), chVersion = src ! 8,
                chCount = of_be (take 4 (drop 12 src))\<rparr>)"

text \<open>\<open>RESIZE_BUF\<close>: the result of \<open>Resize\<close> is not looked at, only the pointer.\<close>

definition RESIZE_BUF :: "heap \<Rightarrow> nat \<Rightarrow> int \<Rightarrow> cbuffer \<Rightarrow> (int \<times> cbuffer) outcome" where
  "RESIZE_BUF hp n ret oBuf = bindOutcome (Resize hp (n mod 2 ^ 32) oBuf) (\<lambda>(_, b).
     Return (if base b = NullBase then - ENOMEM else ret, b))"

definition put_at :: "nat \<Rightarrow> u8 list \<Rightarrow> cbuffer \<Rightarrow> cbuffer outcome" where
  "put_at pLoc bs b = optOutcome (storeBytes b (dwOffset b + pLoc) bs)"

text \<open>The two places that make room, for a key with its size and for a value of \<open>n\<close> bytes.\<close>

definition cfg_room_key :: "heap \<Rightarrow> nat \<Rightarrow> cbuffer \<Rightarrow> nat \<Rightarrow> (int \<times> cbuffer) outcome" where
  "cfg_room_key hp pg b pLoc = (if int (bufSize b) - int pLoc > 8 then Return (0, b) else RESIZE_BUF hp (bufSize b + pg) 0 b)"

definition cfg_room_value :: "heap \<Rightarrow> nat \<Rightarrow> nat \<Rightarrow> int \<Rightarrow> cbuffer \<Rightarrow> nat \<Rightarrow> (int \<times> cbuffer) outcome" where
  "cfg_room_value hp pg n ret b pLoc =
    (if int (bufSize b) - int pLoc \<ge> int n then Return (ret, b)
     else RESIZE_BUF hp (bufSize b + (AlignDword n + pg)) ret b)"

text \<open>One round of the loop for the property \<open>(k, b)\<close>: the result, the buffer and the new location.\<close>

definition cfg_write_one :: "heap \<Rightarrow> objects \<Rightarrow> u8 list \<Rightarrow> nat \<Rightarrow> int \<Rightarrow> cbuffer \<Rightarrow> cbuffer \<Rightarrow> nat \<Rightarrow> (int \<times> cbuffer \<times> nat) outcome" where
  "cfg_write_one hp ob stale pg k b oBuf pLoc =
     bindOutcome (cfg_room_key hp pg oBuf pLoc) (\<lambda>(ret1, b1).
     if ERROR ret1 then Return (ret1, b1, pLoc)
     else bindOutcome (put_at pLoc (to_be 4 (nat (k mod 2 ^ 32))) b1) (\<lambda>b2.
     let pLoc1 = pLoc + 8 in
     bindOutcome (Serialize hp ob b (newBuffer stale)) (\<lambda>(ret2, v).
     if ERROR ret2 then Return (ret2, b2, pLoc1)
     else bindOutcome (cfg_room_value hp pg (bufSize v) ret2 b2 pLoc1) (\<lambda>(ret3, b3).
     if ERROR ret3 then Return (ret3, b3, pLoc1)
     else bindOutcome (put_at pLoc1 (window v) b3) (\<lambda>b4.
     bindOutcome (put_at (pLoc1 - 4) (to_be 4 (AlignDword (bufSize v))) b4) (\<lambda>b5.
     let pLoc2 = pLoc1 + AlignDword (bufSize v) in
     Return (if pLoc2 > CFGDB_MAX_SIZE then - ENOMEM else ret3, b5, pLoc2)))))))"

primrec cfg_write_loop :: "heap \<Rightarrow> objects \<Rightarrow> u8 list \<Rightarrow> nat \<Rightarrow> configdb \<Rightarrow> int \<Rightarrow> cbuffer \<Rightarrow> nat \<Rightarrow> (int \<times> cbuffer \<times> nat) outcome" where
  "cfg_write_loop hp ob stale pg [] ret oBuf pLoc = Return (ret, oBuf, pLoc)"
| "cfg_write_loop hp ob stale pg (kb # rest) ret oBuf pLoc =
     bindOutcome (cfg_write_one hp ob stale pg (fst kb) (snd kb) oBuf pLoc) (\<lambda>(ret1, b1, pLoc1).
       if ERROR ret1 then Return (ret1, b1, pLoc1)
       else cfg_write_loop hp ob stale pg rest ret1 b1 pLoc1)"

text \<open>The size announced first is only an estimate.\<close>

definition cfg_estimate :: "configdb \<Rightarrow> nat" where
  "cfg_estimate db = sum_list (List.map (\<lambda>kb. 8 + bufSize (snd kb)) db) mod 2 ^ 32"

definition CfgSerialize :: "heap \<Rightarrow> objects \<Rightarrow> u8 list \<Rightarrow> nat \<Rightarrow> configdb \<Rightarrow> cbuffer \<Rightarrow> (int \<times> cbuffer) outcome" where
  "CfgSerialize hp ob stale pg db oBuf =
     bindOutcome (Resize hp ((cfg_estimate db + SIZEOF_CFG_HEADER + pg) mod 2 ^ 32) oBuf) (\<lambda>(_, b1).
     bindOutcome (put_at 0 (cfg_header_bytes \<lparr>chClsid = Clsid_CConfigDb, chSize = cfg_estimate db, chVersion = 1,
                    chCount = length db mod 2 ^ 32\<rparr>) b1) (\<lambda>b2.
     bindOutcome (cfg_write_loop hp ob stale pg db 0 b2 SIZEOF_CFG_HEADER) (\<lambda>(ret, b3, pLoc).
     if SUCCEEDED ret then
       bindOutcome (put_at 4 (to_be 4 (pLoc - 12)) b3) (\<lambda>b4. RESIZE_BUF hp pLoc ret b4)
     else Return (ret, b3))))"

text \<open>
  The loop of \<open>Deserialize\<close>: \<open>src\<close> is the memory from \<open>pBuf\<close> on, of which \<open>dwSize\<close> bytes are
  the input.
\<close>

primrec cfg_read_loop :: "heap \<Rightarrow> objects \<Rightarrow> u8 list \<Rightarrow> u8 list \<Rightarrow> nat \<Rightarrow> nat \<Rightarrow> int \<Rightarrow> configdb \<Rightarrow> nat \<Rightarrow> (int \<times> configdb) outcome" where
  "cfg_read_loop hp ob stale src dwSize 0 ret db pLoc = Return (ret, db)"
| "cfg_read_loop hp ob stale src dwSize (Suc n) ret db pLoc =
    (if length src < pLoc + 8 then Undefined
     else let iKey = s32 (of_be (take 4 (drop pLoc src))); dwValSize = of_be (take 4 (drop (pLoc + 4) src)) in
       bindOutcome (Deserialize hp ob stale (drop (pLoc + 8) src) dwValSize (newBuffer stale)) (\<lambda>(ret1, v).
       if ERROR ret1 then Return (ret1, db)
       else bindOutcome (SetProperty hp stale iKey v db) (\<lambda>(_, db1).
       if (pLoc + 8 + dwValSize) mod 2 ^ 32 > dwSize then Return (- E2BIG, db1)
       else cfg_read_loop hp ob stale src dwSize n ret1 db1 (pLoc + 8 + dwValSize))))"

definition CfgDeserialize :: "heap \<Rightarrow> objects \<Rightarrow> u8 list \<Rightarrow> u8 list option \<Rightarrow> nat \<Rightarrow> configdb \<Rightarrow> (int \<times> configdb) outcome" where
  "CfgDeserialize hp ob stale pBuf dwSize db = (case pBuf of
      None \<Rightarrow> Return (- EINVAL, db)
    | Some src \<Rightarrow>
        if dwSize = 0 then Return (- EINVAL, db)
        else bindOutcome (optOutcome (read_cfg_header src)) (\<lambda>h.
          if chClsid h \<noteq> Clsid_CConfigDb \<or> chCount h > CFGDB_MAX_ITEM \<or> chSize h + 12 > dwSize \<or>
             chSize h > CFGDB_MAX_SIZE
          then Return (- EINVAL, db)
          else cfg_read_loop hp ob stale src dwSize (chCount h) 0 db SIZEOF_CFG_HEADER))"

definition CfgDeserializeFrom :: "heap \<Rightarrow> objects \<Rightarrow> u8 list \<Rightarrow> cbuffer \<Rightarrow> configdb \<Rightarrow> (int \<times> configdb) outcome" where
  "CfgDeserializeFrom hp ob stale oBuf db =
    (if bufEmpty oBuf then Return (- EINVAL, db)
     else CfgDeserialize hp ob stale (Some (drop (dwOffset oBuf) (memBytes oBuf))) (bufSize oBuf) db)"

definition CfgClone :: "heap \<Rightarrow> objects \<Rightarrow> u8 list \<Rightarrow> nat \<Rightarrow> configdb \<Rightarrow> configdb \<Rightarrow> (int \<times> configdb) outcome" where
  "CfgClone hp ob stale pg rhs db =
     bindOutcome (CfgSerialize hp ob stale pg rhs (newBuffer stale)) (\<lambda>(ret, b).
       if ret < 0 then Return (ret, db) else CfgDeserializeFrom hp ob stale b db)"

subsection \<open>The bytes of a map\<close>

text \<open>One property without the bytes that align it, and how many of these follow.\<close>

definition cfg_entry :: "int \<Rightarrow> cbuffer \<Rightarrow> u8 list \<Rightarrow> bool" where
  "cfg_entry k b e \<longleftrightarrow> (\<exists>res bs. length res = 3 \<and> SerializePrimeType b = Some (0, bs) \<and> length bs = bufSize b \<and>
     e = to_be 4 (nat (k mod 2 ^ 32)) @ to_be 4 (AlignDword (SIZEOF_HEADER + bufSize b)) @ header_bytes (plain_header b) res @ bs)"

definition cfg_pad :: "cbuffer \<Rightarrow> nat" where
  "cfg_pad b = AlignDword (SIZEOF_HEADER + bufSize b) - (SIZEOF_HEADER + bufSize b)"

definition cfg_span :: "cbuffer \<Rightarrow> nat" where
  "cfg_span b = 8 + AlignDword (SIZEOF_HEADER + bufSize b)"

lemma AlignDword_bounds: "n \<le> AlignDword n" "AlignDword n \<le> n + 3"
  by (auto simp: AlignDword_def)

lemma cfg_pad_le: "cfg_pad b \<le> 3" "SIZEOF_HEADER + bufSize b + cfg_pad b = AlignDword (SIZEOF_HEADER + bufSize b)"
  using AlignDword_bounds [of "SIZEOF_HEADER + bufSize b"] by (auto simp: cfg_pad_def)

lemma cfg_entry_length: "cfg_entry k b e \<Longrightarrow> length e + cfg_pad b = cfg_span b"
  using cfg_pad_le(2) [of b] by (auto simp: cfg_entry_def cfg_span_def)

subsection \<open>Writing\<close>

definition mem_buf :: "cbuffer \<Rightarrow> bool" where
  "mem_buf b \<longleftrightarrow> buf_wf b \<and> GetDataType b = DataTypeMem"

lemma RESIZE_BUF_spec:
  assumes "mem_buf b" "0 < n" "n \<le> MAX_BYTES_PER_BUFFER" "\<And>k. allocOk hp k"
  obtains b' where "RESIZE_BUF hp n ret b = Return (ret, b')" "mem_buf b'" "bufSize b' = n"
    "take (bufSize b) (window b') = take n (window b)"
proof -
  have t: "buf_wf b" "GetDataType b \<in> {DataTypeMem, DataTypeObjPtr, DataTypeMsgPtr}" using assms(1) by (simp_all add: mem_buf_def)
  show thesis
  proof (cases rule: Resize_cases [OF t, of n hp])
    case (2 b')
    moreover have "base b' \<noteq> NullBase" using 2 assms(2) by (auto elim: buf_wf_cases)
    ultimately show thesis using assms(3)
      by (intro that [of b']) (simp_all add: RESIZE_BUF_def bindOutcome_def mem_buf_def)
  qed (use assms in auto)
qed

lemma put_at_spec:
  assumes "mem_buf b" "i + length bs \<le> bufSize b"
  obtains b' where "put_at i bs b = Return b'" "mem_buf b'" "window b' = overwrite i bs (window b)" "bufSize b' = bufSize b"
proof -
  have wf: "buf_wf b" using assms(1) by (simp add: mem_buf_def)
  obtain b' where "storeBytes b (dwOffset b + i) bs = Some b'" "buf_wf b'" "window b' = overwrite i bs (window b)"
    "bufSize b' = bufSize b" "dwType b' = dwType b"
    by (rule store_window [OF wf assms(2)]) blast
  then show thesis using assms(1)
    by (intro that [of b']) (simp_all add: put_at_def optOutcome_def mem_buf_def GetDataType_def)
qed

lemma take_overwrite_at: "n = i + length ys \<Longrightarrow> i \<le> length xs \<Longrightarrow> take n (overwrite i ys xs) = take i xs @ ys"
  using take_overwrite_through by simp

text \<open>The location may be up to three bytes behind the buffer: the padding of the last value.\<close>

definition written :: "u8 list \<Rightarrow> nat \<Rightarrow> cbuffer \<Rightarrow> nat \<Rightarrow> bool" where
  "written out pad oBuf pLoc \<longleftrightarrow> mem_buf oBuf \<and> length out \<le> bufSize oBuf \<and> take (length out) (window oBuf) = out \<and>
     pLoc = length out + pad \<and> pad \<le> 3"

lemma room_for_key:
  assumes "written out pad oBuf pLoc" "16 \<le> pg" "pLoc + 8 + pg \<le> MAX_BYTES_PER_BUFFER" "\<And>k. allocOk hp k"
  obtains b1 where "cfg_room_key hp pg oBuf pLoc = Return (0, b1)"
    "mem_buf b1" "pLoc + 8 \<le> bufSize b1" "bufSize b1 \<le> max (bufSize oBuf) (pLoc + 8 + pg)"
    "take (length out) (window b1) = out"
proof (cases "int (bufSize oBuf) - int pLoc > 8")
  case True
  then show thesis using assms(1) by (intro that [of oBuf]) (auto simp: written_def cfg_room_key_def)
next
  case False
  have w: "mem_buf oBuf" "length out \<le> bufSize oBuf" "take (length out) (window oBuf) = out" "pLoc \<le> bufSize oBuf + 3"
    using assms(1) by (auto simp: written_def)
  have sz: "0 < bufSize oBuf + pg" "bufSize oBuf + pg \<le> MAX_BYTES_PER_BUFFER" using False assms(2,3) by linarith+
  obtain b1 where b1: "RESIZE_BUF hp (bufSize oBuf + pg) 0 oBuf = Return (0, b1)" "mem_buf b1" "bufSize b1 = bufSize oBuf + pg"
    "take (bufSize oBuf) (window b1) = take (bufSize oBuf + pg) (window oBuf)"
    by (rule RESIZE_BUF_spec [OF w(1) sz assms(4)]) blast
  have "take (length out) (window b1) = take (length out) (take (bufSize oBuf) (window b1))" using w(2) by (simp add: min_def)
  also have "\<dots> = out" unfolding b1(4) using w(2,3) by (simp add: min_def)
  finally have "take (length out) (window b1) = out" .
  then show thesis using b1 w(4) False assms(2) by (intro that [of b1]) (auto simp: cfg_room_key_def)
qed

lemma room_for_value:
  assumes "mem_buf b" "p1 \<le> bufSize b" "2 * (p1 + AlignDword n) + pg \<le> MAX_BYTES_PER_BUFFER" "\<And>k. allocOk hp k" "0 < n"
  obtains b1 where "cfg_room_value hp pg n 0 b p1 = Return (0, b1)"
    "mem_buf b1" "p1 + n \<le> bufSize b1" "bufSize b1 \<le> max (bufSize b) (2 * (p1 + AlignDword n) + pg)"
    "take p1 (window b1) = take p1 (window b)"
proof (cases "int (bufSize b) - int p1 \<ge> int n")
  case True
  then show thesis using assms(1) by (intro that [of b]) (auto simp: cfg_room_value_def)
next
  case False
  have al: "n \<le> AlignDword n" by (rule AlignDword_bounds)
  have "bufSize b < p1 + n" using False by linarith
  then have sz: "0 < bufSize b + (AlignDword n + pg)" "bufSize b + (AlignDword n + pg) \<le> MAX_BYTES_PER_BUFFER"
    using assms(3,5) al by simp_all
  obtain b1 where b1: "RESIZE_BUF hp (bufSize b + (AlignDword n + pg)) 0 b = Return (0, b1)" "mem_buf b1"
    "bufSize b1 = bufSize b + (AlignDword n + pg)" "take (bufSize b) (window b1) = take (bufSize b + (AlignDword n + pg)) (window b)"
    by (rule RESIZE_BUF_spec [OF assms(1) sz assms(4)]) blast
  have "take p1 (window b1) = take p1 (take (bufSize b) (window b1))" using assms(2) by (simp add: min_def)
  also have "\<dots> = take p1 (window b)" unfolding b1(4) using assms(2) by (simp add: min_def)
  finally show thesis using b1 False al assms(2) by (intro that [of b1]) (auto simp: cfg_room_value_def)
qed

lemma cfg_write_one_spec:
  assumes w: "written out pad oBuf pLoc" and b: "buf_wf b" "plain_value b" and pg: "16 \<le> pg" and hp: "roomy hp stale"
    and sz: "2 * (pLoc + cfg_span b) + pg \<le> MAX_BYTES_PER_BUFFER"
  obtains p e oBuf' where "cfg_write_one hp ob stale pg k b oBuf pLoc = Return (0, oBuf', pLoc + cfg_span b)"
    "length p = pad" "cfg_entry k b e" "written (out @ p @ e) (cfg_pad b) oBuf' (pLoc + cfg_span b)"
    "bufSize oBuf' \<le> max (bufSize oBuf) (2 * (pLoc + cfg_span b) + pg)"
proof -
  have al: "\<And>k. allocOk hp k" using hp by (simp add: roomy_def)
  define n where "n = SIZEOF_HEADER + bufSize b"
  have span: "cfg_span b = 8 + AlignDword n" "n \<le> AlignDword n" using AlignDword_bounds by (simp_all add: cfg_span_def n_def)
  have s1: "pLoc + 8 + pg \<le> MAX_BYTES_PER_BUFFER" using sz span by simp
  obtain b1 where b1: "cfg_room_key hp pg oBuf pLoc = Return (0, b1)"
    "mem_buf b1" "pLoc + 8 \<le> bufSize b1" "bufSize b1 \<le> max (bufSize oBuf) (pLoc + 8 + pg)" "take (length out) (window b1) = out"
    by (rule room_for_key [OF w pg s1 al]) blast
  have l1: "length (window b1) = bufSize b1" using b1(2) buf_wf_lengths(4) by (simp add: mem_buf_def)
  define key where "key = to_be 4 (nat (k mod 2 ^ 32))"
  have "pLoc + length key \<le> bufSize b1" using b1(3) by (simp add: key_def)
  then obtain b2 where b2: "put_at pLoc key b1 = Return b2" "mem_buf b2" "window b2 = overwrite pLoc key (window b1)" "bufSize b2 = bufSize b1"
    by (rule put_at_spec [OF b1(2)]) blast
  obtain bs where bs: "SerializePrimeType b = Some (0, bs)" "length bs = bufSize b"
    by (rule prime_roundtrip [OF b]) blast
  have n16: "SIZEOF_HEADER + bufSize b \<le> MAX_BYTES_PER_BUFFER" using sz span by (simp add: n_def)
  have nb: "buf_wf (newBuffer stale)" "GetDataType (newBuffer stale) \<in> {DataTypeMem, DataTypeObjPtr, DataTypeMsgPtr}"
    using hp by (simp_all add: roomy_def)
  obtain v res where v: "Serialize hp ob b (newBuffer stale) = Return (0, v)" "buf_wf v" "length res = 3" "bufSize v = n"
    "window v = header_bytes (plain_header b) res @ bs"
    unfolding plain_header_def n_def by (rule Serialize_plain [OF b n16 al nb bs]) blast
  have s2: "2 * (pLoc + 8 + AlignDword n) + pg \<le> MAX_BYTES_PER_BUFFER" "pLoc + 8 \<le> bufSize b2" "0 < n"
    using sz span b1(3) b2(4) by (simp_all add: n_def)
  obtain b3 where b3: "cfg_room_value hp pg n 0 b2 (pLoc + 8) = Return (0, b3)"
    "mem_buf b3" "pLoc + 8 + n \<le> bufSize b3" "bufSize b3 \<le> max (bufSize b2) (2 * (pLoc + 8 + AlignDword n) + pg)"
    "take (pLoc + 8) (window b3) = take (pLoc + 8) (window b2)"
    by (rule room_for_value [OF b2(2) s2(2,1) al s2(3)]) blast
  have lv: "length (window v) = n" using v(2,4) buf_wf_lengths(4) by simp
  have "pLoc + 8 + length (window v) \<le> bufSize b3" using b3(3) lv by simp
  then obtain b4 where b4: "put_at (pLoc + 8) (window v) b3 = Return b4" "mem_buf b4" "window b4 = overwrite (pLoc + 8) (window v) (window b3)"
    "bufSize b4 = bufSize b3"
    by (rule put_at_spec [OF b3(2)]) blast
  define asz where "asz = to_be 4 (AlignDword n)"
  have "pLoc + 4 + length asz \<le> bufSize b4" using b3(3) b4(4) by (simp add: asz_def)
  then obtain b5 where b5: "put_at (pLoc + 4) asz b4 = Return b5" "mem_buf b5" "window b5 = overwrite (pLoc + 4) asz (window b4)"
    "bufSize b5 = bufSize b4"
    by (rule put_at_spec [OF b4(2)]) blast
  have run: "cfg_write_one hp ob stale pg k b oBuf pLoc = Return (0, b5, pLoc + cfg_span b)"
  proof -
    have "pLoc + 8 + AlignDword n \<le> CFGDB_MAX_SIZE" using sz span by simp
    then show ?thesis using b1(1) b2(1) [unfolded key_def] v(1,4) b3(1) b4(1) b5(1) [unfolded asz_def add.commute [of pLoc 4]] span
      by (simp add: cfg_write_one_def bindOutcome_def Let_def ERROR_def add.assoc)
  qed
  define p where "p = take pad (drop (length out) (window b1))"
  have pl: "pLoc = length out + pad" "length p = pad" using w b1(3) l1 by (auto simp: written_def p_def)
  have a1: "take pLoc (window b1) = out @ p" using b1(5) pl(1) by (simp add: p_def take_add)
  have ws: "length (window b3) = bufSize b3" "length (window b4) = bufSize b4" "length (window b2) = bufSize b2"
    using b3(2) b4(2) b2(2) buf_wf_lengths(4) by (simp_all add: mem_buf_def)
  have a2: "take (pLoc + 4) (window b2) = out @ p @ key"
    unfolding b2(3) using take_overwrite_at [of "pLoc + 4" pLoc key "window b1"] a1 l1 b1(3) by (simp add: key_def)
  define x where "x = drop (pLoc + 4) (take (pLoc + 8) (window b2))"
  have x: "take (pLoc + 8) (window b2) = out @ p @ key @ x" "length x = 4"
    using append_take_drop_id [of "pLoc + 4" "take (pLoc + 8) (window b2)"] a2 ws(3) s2(2) by (simp_all add: x_def min_def)
  have a4: "take (pLoc + 8 + n) (window b4) = out @ p @ key @ x @ window v"
    unfolding b4(3) using take_overwrite_at [of "pLoc + 8 + n" "pLoc + 8" "window v" "window b3"] lv ws(1) b3(3,5) x(1) by simp
  have "take (pLoc + 8 + n) (window b5) = overwrite (pLoc + 4) asz (take (pLoc + 8 + n) (window b4))"
    unfolding b5(3) by (rule take_overwrite_within) (use ws(2) b3(3) b4(4) in \<open>simp_all add: asz_def\<close>)
  also have "\<dots> = out @ p @ key @ asz @ window v"
    unfolding a4 using x(2) pl by (simp add: overwrite_def key_def asz_def)
  finally have a5: "take (pLoc + 8 + n) (window b5) = out @ p @ key @ asz @ window v" .
  let ?e = "key @ asz @ window v"
  have ent: "cfg_entry k b ?e" unfolding cfg_entry_def using v(3,5) bs by (auto simp: key_def asz_def n_def)
  have le: "length (out @ p @ ?e) = pLoc + 8 + n" using pl lv by (simp add: key_def asz_def)
  have "written (out @ p @ ?e) (cfg_pad b) b5 (pLoc + cfg_span b)"
    unfolding written_def le using a5 b5(2,4) b4(4) b3(3) cfg_pad_le [of b] span by (simp add: n_def)
  moreover have "bufSize b5 \<le> max (bufSize oBuf) (2 * (pLoc + cfg_span b) + pg)"
    using b5(4) b4(4) b3(4) b2(4) b1(4) span by auto
  ultimately show thesis using that [OF run pl(2) ent] by blast
qed

subsection \<open>The stream of all properties\<close>

text \<open>The entries in order, each after the alignment bytes of the one before it.\<close>

primrec cfg_stream :: "nat \<Rightarrow> configdb \<Rightarrow> u8 list \<Rightarrow> bool" where
  "cfg_stream pad [] S \<longleftrightarrow> S = []"
| "cfg_stream pad (kb # rest) S \<longleftrightarrow> (\<exists>p e S'. S = p @ e @ S' \<and> length p = pad \<and> cfg_entry (fst kb) (snd kb) e \<and>
     cfg_stream (cfg_pad (snd kb)) rest S')"

definition cfg_total :: "configdb \<Rightarrow> nat" where
  "cfg_total db = sum_list (List.map (\<lambda>kb. cfg_span (snd kb)) db)"

lemma cfg_total_simps [simp]: "cfg_total [] = 0" "cfg_total (kb # db) = cfg_span (snd kb) + cfg_total db"
  by (simp_all add: cfg_total_def)

definition cfg_plain :: "configdb \<Rightarrow> bool" where
  "cfg_plain db \<longleftrightarrow> (\<forall>(k, b) \<in> set db. - (2 ^ 31) \<le> k \<and> k < 2 ^ 31 \<and> buf_wf b \<and> plain_value b)"

lemma cfg_plain_Cons [simp]: "cfg_plain (kb # db) \<longleftrightarrow>
   (- (2 ^ 31) \<le> fst kb \<and> fst kb < 2 ^ 31 \<and> buf_wf (snd kb) \<and> plain_value (snd kb)) \<and> cfg_plain db"
  by (auto simp: cfg_plain_def)

lemma cfg_write_loop_spec:
  assumes "written out pad oBuf pLoc" "cfg_plain db" "16 \<le> pg" "roomy hp stale"
    "2 * (pLoc + cfg_total db) + pg \<le> MAX_BYTES_PER_BUFFER"
  shows "\<exists>S pad' oBuf'. cfg_write_loop hp ob stale pg db 0 oBuf pLoc = Return (0, oBuf', pLoc + cfg_total db) \<and>
     cfg_stream pad db S \<and> written (out @ S) pad' oBuf' (pLoc + cfg_total db)"
  using assms
proof (induction db arbitrary: out pad oBuf pLoc)
  case Nil
  then show ?case by auto
next
  case (Cons kb db)
  obtain k b where kb: "kb = (k, b)" by force
  have bk: "buf_wf b" "plain_value b" and db: "cfg_plain db" using Cons.prems(2) kb by simp_all
  have sz: "2 * (pLoc + cfg_span b) + pg \<le> MAX_BYTES_PER_BUFFER" using Cons.prems(5) kb by simp
  obtain p e b1 where s: "cfg_write_one hp ob stale pg k b oBuf pLoc = Return (0, b1, pLoc + cfg_span b)"
    "length p = pad" "cfg_entry k b e" "written (out @ p @ e) (cfg_pad b) b1 (pLoc + cfg_span b)"
    by (rule cfg_write_one_spec [OF Cons.prems(1) bk Cons.prems(3,4) sz]) blast
  have "2 * (pLoc + cfg_span b + cfg_total db) + pg \<le> MAX_BYTES_PER_BUFFER" using Cons.prems(5) kb by simp
  from Cons.IH [OF s(4) db Cons.prems(3,4) this]
  obtain S pad' b2 where i: "cfg_write_loop hp ob stale pg db 0 b1 (pLoc + cfg_span b) = Return (0, b2, pLoc + cfg_span b + cfg_total db)"
    "cfg_stream (cfg_pad b) db S" "written ((out @ p @ e) @ S) pad' b2 (pLoc + cfg_span b + cfg_total db)" by blast
  have "cfg_write_loop hp ob stale pg (kb # db) 0 oBuf pLoc = Return (0, b2, pLoc + cfg_total (kb # db))"
    using s(1) i(1) kb by (simp add: bindOutcome_def ERROR_def add.assoc)
  moreover have "cfg_stream pad (kb # db) (p @ e @ S)" using s(2,3) i(2) kb by auto
  moreover have "written (out @ p @ e @ S) pad' b2 (pLoc + cfg_total (kb # db))" using i(3) kb by (simp add: add.assoc)
  ultimately show ?case by blast
qed

subsection \<open>Reading\<close>

lemma key_roundtrip: "- (2 ^ 31) \<le> k \<Longrightarrow> k < 2 ^ 31 \<Longrightarrow> s32 (of_be (to_be 4 (nat (k mod 2 ^ 32)))) = k"
proof -
  assume k: "- (2 ^ 31) \<le> k" "k < 2 ^ 31"
  have "nat (k mod 2 ^ 32) < 2 ^ 32" by (simp add: nat_less_iff)
  then have e: "of_be (to_be 4 (nat (k mod 2 ^ 32))) = nat (k mod 2 ^ 32)" by (simp add: of_be_to_be)
  show ?thesis
  proof (cases "0 \<le> k")
    case True
    then show ?thesis using e k by (simp add: s32_def nat_less_iff)
  next
    case False
    then have "(k + 2 ^ 32) mod 2 ^ 32 = k + 2 ^ 32" using k by (intro mod_pos_pos_trivial) auto
    then have "k mod 2 ^ 32 = k + 2 ^ 32" by simp
    then show ?thesis using e k False by (simp add: s32_def nat_less_iff)
  qed
qed

lemma read_entry:
  assumes e: "cfg_entry k b e" and b: "buf_wf b" "plain_value b" and hp: "roomy hp stale" and db: "cfg_ok db"
    and k: "- (2 ^ 31) \<le> k" "k < 2 ^ 31" and src: "drop pLoc src = e @ rest"
    and sz: "pLoc + cfg_span b \<le> dwSize" "dwSize \<le> MAX_BYTES_PER_BUFFER"
  obtains db' where "cfg_ok db'" "\<And>j. cfg_look j db' = (if j = k then Some (cfg_val b) else cfg_look j db)"
    "cfg_read_loop hp ob stale src dwSize (Suc n) ret db pLoc =
       cfg_read_loop hp ob stale src dwSize n 0 db' (pLoc + cfg_span b)"
proof -
  have al: "\<And>k. allocOk hp k" using hp by (simp add: roomy_def)
  obtain res bs where r: "length res = 3" "SerializePrimeType b = Some (0, bs)" "length bs = bufSize b"
    "e = to_be 4 (nat (k mod 2 ^ 32)) @ to_be 4 (AlignDword (SIZEOF_HEADER + bufSize b)) @ header_bytes (plain_header b) res @ bs"
    using e unfolding cfg_entry_def by blast
  let ?n = "AlignDword (SIZEOF_HEADER + bufSize b)"
  have n: "SIZEOF_HEADER + bufSize b \<le> ?n" "?n < 2 ^ 32" "cfg_span b = 8 + ?n"
    using AlignDword_bounds [of "SIZEOF_HEADER + bufSize b"] sz by (simp_all add: cfg_span_def)
  have n16: "SIZEOF_HEADER + bufSize b \<le> MAX_BYTES_PER_BUFFER" using sz n by simp
  have nb: "buf_wf (newBuffer stale)" "GetDataType (newBuffer stale) \<in> {DataTypeMem, DataTypeObjPtr, DataTypeMsgPtr}"
    using hp by (simp_all add: roomy_def)
  obtain d where d: "Deserialize hp ob stale (header_bytes (plain_header b) res @ bs @ rest) ?n (newBuffer stale) = Return (0, d)"
    "buf_wf d" "window d = window b" "dwType d = dwType b" "bufSize d = bufSize b"
    by (rule Deserialize_plain [OF b n16 al nb r(2,1)]) blast
  have dv: "cfg_value_ok d" "cfg_val d = cfg_val b"
    using d b by (auto simp: cfg_value_ok_def cfg_val_def plain_value_def GetDataType_def GetExDataType_def)
  obtain d' where d': "SetProperty hp stale k d db = Return (0, AList.update k d' db)" "cfg_value_ok d'" "cfg_val d' = cfg_val d"
    by (rule SetProperty_spec [OF hp dv(1)]) blast
  have parts: "take 4 (drop pLoc src) = to_be 4 (nat (k mod 2 ^ 32))" "take 4 (drop (pLoc + 4) src) = to_be 4 ?n"
    "drop (pLoc + 8) src = header_bytes (plain_header b) res @ bs @ rest"
    using src r(4) by (simp_all add: drop_drop [symmetric] add.commute [of pLoc])
  have "length (drop pLoc src) \<ge> 8" using src r(4) by simp
  then have len: "\<not> length src < pLoc + 8" by simp
  have fit: "\<not> (pLoc + 8 + ?n) mod 2 ^ 32 > dwSize" using sz n by simp
  have vs: "of_be (to_be 4 ?n) = ?n" using n(2) by (simp add: of_be_to_be)
  have "cfg_read_loop hp ob stale src dwSize (Suc n) ret db pLoc =
       cfg_read_loop hp ob stale src dwSize n 0 (AList.update k d' db) (pLoc + cfg_span b)"
    using len fit parts key_roundtrip [OF k] vs d(1) d'(1) n(3)
    by (simp add: bindOutcome_def ERROR_def Let_def add.assoc)
  moreover have "cfg_look j (AList.update k d' db) = (if j = k then Some (cfg_val b) else cfg_look j db)" for j
    using d'(3) dv(2) by (auto simp: cfg_look_map update_conv')
  ultimately show thesis using cfg_ok_update [OF db d'(2)] that by blast
qed

lemma cfg_read_loop_spec:
  assumes "cfg_stream pad db S" "cfg_plain db" "roomy hp stale" "cfg_ok db0" "src = pre @ S @ t" "length pre + pad = pLoc"
    "pLoc + cfg_total db \<le> dwSize" "dwSize \<le> MAX_BYTES_PER_BUFFER"
  shows "\<exists>db1. cfg_read_loop hp ob stale src dwSize (length db) 0 db0 pLoc = Return (0, db1) \<and> cfg_ok db1 \<and>
     (\<forall>k. cfg_look k db1 = (case map_of (rev db) k of Some b \<Rightarrow> Some (cfg_val b) | None \<Rightarrow> cfg_look k db0))"
  using assms
proof (induction db arbitrary: pad S pre db0 pLoc)
  case Nil
  then show ?case by simp
next
  case (Cons kb db)
  obtain k b where kb: "kb = (k, b)" by force
  obtain p e S' where S: "S = p @ e @ S'" "length p = pad" "cfg_entry k b e" "cfg_stream (cfg_pad b) db S'"
    using Cons.prems(1) kb by auto
  have bk: "- (2 ^ 31) \<le> k" "k < 2 ^ 31" "buf_wf b" "plain_value b" and db: "cfg_plain db" using Cons.prems(2) kb by simp_all
  have src: "drop pLoc src = e @ S' @ t" using S(1,2) Cons.prems(5,6) by (auto simp: drop_append)
  have sz: "pLoc + cfg_span b \<le> dwSize" using Cons.prems(7) kb by simp
  obtain db' where r: "cfg_ok db'" "\<And>j. cfg_look j db' = (if j = k then Some (cfg_val b) else cfg_look j db0)"
    "cfg_read_loop hp ob stale src dwSize (Suc (length db)) 0 db0 pLoc =
       cfg_read_loop hp ob stale src dwSize (length db) 0 db' (pLoc + cfg_span b)"
    by (rule read_entry [OF S(3) bk(3,4) Cons.prems(3,4) bk(1,2) src sz Cons.prems(8), where n = "length db" and ret = 0 and ob = ob]) blast
  have "length (pre @ p @ e) + cfg_pad b = pLoc + cfg_span b"
    using Cons.prems(6) S(2) cfg_entry_length [OF S(3)] by simp
  moreover have "src = (pre @ p @ e) @ S' @ t" using S(1) Cons.prems(5) by simp
  moreover have "pLoc + cfg_span b + cfg_total db \<le> dwSize" using Cons.prems(7) kb by simp
  ultimately obtain db1 where i: "cfg_read_loop hp ob stale src dwSize (length db) 0 db' (pLoc + cfg_span b) = Return (0, db1)" "cfg_ok db1"
    "\<forall>k. cfg_look k db1 = (case map_of (rev db) k of Some b \<Rightarrow> Some (cfg_val b) | None \<Rightarrow> cfg_look k db')"
    using Cons.IH [OF S(4) db Cons.prems(3) r(1) _ _ _ Cons.prems(8)] by blast
  then show ?case using r kb by (auto simp: map_add_def split: option.splits)
qed

subsection \<open>Properties\<close>

lemma cfg_header_length [simp]: "length (cfg_header_bytes h) = 16"
  by (simp add: cfg_header_bytes_def)

lemma read_cfg_header_bytes:
  assumes "chClsid h < 2 ^ 32" "chSize h < 2 ^ 32" "chCount h < 2 ^ 32"
  shows "read_cfg_header (cfg_header_bytes h @ rest) = Some h"
proof -
  have "take 4 (drop 12 (cfg_header_bytes h @ rest)) = to_be 4 (chCount h)"
    "take 4 (drop 4 (cfg_header_bytes h @ rest)) = to_be 4 (chSize h)"
    "take 4 (cfg_header_bytes h @ rest) = to_be 4 (chClsid h)" "(cfg_header_bytes h @ rest) ! 8 = chVersion h"
    by (simp_all add: cfg_header_bytes_def nth_append)
  then show ?thesis using assms by (simp add: read_cfg_header_def of_be_to_be)
qed

lemma cfg_estimate_le: "sum_list (List.map (\<lambda>kb. 8 + bufSize (snd kb)) db) \<le> cfg_total db"
proof (induction db)
  case (Cons kb db)
  have "8 + bufSize (snd kb) \<le> cfg_span (snd kb)"
    using AlignDword_bounds(1) [of "SIZEOF_HEADER + bufSize (snd kb)"] unfolding cfg_span_def by simp
  then show ?case using Cons by simp
qed simp

text \<open>What \<open>Serialize\<close> leaves in the buffer: the corrected header, the entries, the last alignment bytes.\<close>

lemma CfgSerialize_spec:
  assumes "cfg_plain db" "length db < 2 ^ 32" "16 \<le> pg" "roomy hp stale"
    "2 * (SIZEOF_CFG_HEADER + cfg_total db) + pg \<le> MAX_BYTES_PER_BUFFER"
  obtains b S t where "CfgSerialize hp ob stale pg db (newBuffer stale) = Return (0, b)" "mem_buf b"
    "bufSize b = SIZEOF_CFG_HEADER + cfg_total db" "cfg_stream 0 db S"
    "window b = cfg_header_bytes \<lparr>chClsid = Clsid_CConfigDb, chSize = 4 + cfg_total db, chVersion = 1, chCount = length db\<rparr> @ S @ t"
proof -
  let ?T = "cfg_total db"
  let ?h = "\<lambda>n. cfg_header_bytes \<lparr>chClsid = Clsid_CConfigDb, chSize = n, chVersion = 1, chCount = length db\<rparr>"
  define est where "est = cfg_estimate db"
  have est: "est \<le> ?T" "est + SIZEOF_CFG_HEADER + pg \<le> MAX_BYTES_PER_BUFFER"
    using cfg_estimate_le [of db] mod_less_eq_dividend order_trans assms(5) unfolding est_def cfg_estimate_def by fastforce+
  have al: "\<And>k. allocOk hp k" and st: "length stale = ARR_SIZE" using assms(4) by (simp_all add: roomy_def)
  have nb: "buf_wf (newBuffer stale)" "GetDataType (newBuffer stale) \<in> {DataTypeMem, DataTypeObjPtr, DataTypeMsgPtr}"
    using st by simp_all
  obtain b1 where b1: "Resize hp (est + SIZEOF_CFG_HEADER + pg) (newBuffer stale) = Return (0, b1)" "mem_buf b1"
    "bufSize b1 = est + SIZEOF_CFG_HEADER + pg"
    by (rule Resize_cases [OF nb, of "est + SIZEOF_CFG_HEADER + pg" hp]) (use est al in \<open>auto simp: mem_buf_def\<close>)
  have "0 + length (?h est) \<le> bufSize b1" using b1(3) by simp
  then obtain b2 where b2: "put_at 0 (?h est) b1 = Return b2" "mem_buf b2" "window b2 = overwrite 0 (?h est) (window b1)" "bufSize b2 = bufSize b1"
    by (rule put_at_spec [OF b1(2)]) blast
  have l1: "length (window b1) = bufSize b1" using b1(2) buf_wf_lengths(4) by (simp add: mem_buf_def)
  have w2: "written (?h est) 0 b2 SIZEOF_CFG_HEADER"
    unfolding written_def using b2 b1(3) l1 take_overwrite_at [of 16 0 "?h est" "window b1"] by simp
  obtain S pad b3 where l: "cfg_write_loop hp ob stale pg db 0 b2 SIZEOF_CFG_HEADER = Return (0, b3, SIZEOF_CFG_HEADER + ?T)"
    "cfg_stream 0 db S" "written (?h est @ S) pad b3 (SIZEOF_CFG_HEADER + ?T)"
    using cfg_write_loop_spec [OF w2 assms(1,3,4,5), of ob] by blast
  have m3: "mem_buf b3" "length (?h est @ S) \<le> bufSize b3" "take (length (?h est @ S)) (window b3) = ?h est @ S"
    "SIZEOF_CFG_HEADER + ?T = length (?h est @ S) + pad"
    using l(3) unfolding written_def by blast+
  have "4 + length (to_be 4 (4 + ?T)) \<le> bufSize b3" using m3(2) by simp
  then obtain b4 where b4: "put_at 4 (to_be 4 (4 + ?T)) b3 = Return b4" "mem_buf b4"
    "window b4 = overwrite 4 (to_be 4 (4 + ?T)) (window b3)" "bufSize b4 = bufSize b3"
    by (rule put_at_spec [OF m3(1)]) blast
  have sz: "0 < SIZEOF_CFG_HEADER + ?T" "SIZEOF_CFG_HEADER + ?T \<le> MAX_BYTES_PER_BUFFER" using assms(5) by simp_all
  obtain b5 where b5: "RESIZE_BUF hp (SIZEOF_CFG_HEADER + ?T) 0 b4 = Return (0, b5)" "mem_buf b5" "bufSize b5 = SIZEOF_CFG_HEADER + ?T"
    "take (bufSize b4) (window b5) = take (SIZEOF_CFG_HEADER + ?T) (window b4)"
    by (rule RESIZE_BUF_spec [OF b4(2) sz al]) blast
  have run: "CfgSerialize hp ob stale pg db (newBuffer stale) = Return (0, b5)"
    using b1(1) b2(1) l(1) b4(1) b5(1) est(2) assms(2) unfolding est_def
    by (simp add: CfgSerialize_def bindOutcome_def)
  let ?n = "length (?h est @ S)"
  have l3: "length (window b3) = bufSize b3" using m3(1) buf_wf_lengths(4) by (simp add: mem_buf_def)
  have "take ?n (window b5) = take ?n (take (bufSize b4) (window b5))" using m3(2) b4(4) by (simp add: min_def)
  also have "\<dots> = take ?n (window b4)" unfolding b5(4) using m3(4) by (simp add: min_def)
  also have "\<dots> = overwrite 4 (to_be 4 (4 + ?T)) (take ?n (window b3))"
    unfolding b4(3) by (rule take_overwrite_within) (use m3(2) l3 in simp_all)
  also have "\<dots> = overwrite 4 (to_be 4 (4 + ?T)) (?h est @ S)" by (simp only: m3(3))
  also have "\<dots> = ?h (4 + ?T) @ S" by (simp add: overwrite_def cfg_header_bytes_def)
  finally have "window b5 = ?h (4 + ?T) @ S @ drop ?n (window b5)"
    by (metis append_assoc append_take_drop_id)
  then show thesis by (rule that [OF run b5(2,3) l(2)])
qed

lemma map_of_rev_distinct: "distinct (List.map fst kvs) \<Longrightarrow> map_of (rev kvs) = map_of kvs"
proof (induction kvs)
  case (Cons kv kvs)
  then have "map_of kvs (fst kv) = None" by (simp add: map_of_eq_None_iff image_iff)
  then show ?case using Cons by (auto simp: map_add_def fun_eq_iff split: option.split)
qed simp

lemma mem_after_window: "\<exists>t. drop (dwOffset b) (memBytes b) = window b @ t"
  unfolding window_def by (metis append_take_drop_id)

text \<open>The bytes of a map read back, whatever follows them in memory and up to the size counted as input.\<close>

definition cfg_image :: "configdb \<Rightarrow> u8 list \<Rightarrow> bool" where
  "cfg_image db bs \<longleftrightarrow> (\<exists>S t. cfg_stream 0 db S \<and> length bs = SIZEOF_CFG_HEADER + cfg_total db \<and>
     bs = cfg_header_bytes \<lparr>chClsid = Clsid_CConfigDb, chSize = 4 + cfg_total db, chVersion = 1, chCount = length db\<rparr> @ S @ t)"

lemma CfgSerialize_image:
  assumes "cfg_plain db" "length db < 2 ^ 32" "16 \<le> pg" "roomy hp stale"
    "2 * (SIZEOF_CFG_HEADER + cfg_total db) + pg \<le> MAX_BYTES_PER_BUFFER"
  obtains b where "CfgSerialize hp ob stale pg db (newBuffer stale) = Return (0, b)" "mem_buf b" "cfg_image db (window b)"
  using CfgSerialize_spec [OF assms, of ob] buf_wf_lengths(4) unfolding cfg_image_def mem_buf_def by metis

lemma cfg_image_read:
  assumes im: "cfg_image db bs" and db: "cfg_ok db" "cfg_plain db" "length db \<le> CFGDB_MAX_ITEM" "roomy hp stale"
    and n: "length bs \<le> n" "n \<le> MAX_BYTES_PER_BUFFER"
  shows "\<exists>db'. CfgDeserialize hp ob stale (Some (bs @ u)) n [] = Return (0, db') \<and> cfg_ok db' \<and> (\<forall>k. cfg_look k db' = cfg_look k db)"
proof -
  let ?c = "\<lparr>chClsid = Clsid_CConfigDb, chSize = 4 + cfg_total db, chVersion = 1, chCount = length db\<rparr>"
  obtain S t where S: "cfg_stream 0 db S" "length bs = SIZEOF_CFG_HEADER + cfg_total db" "bs @ u = cfg_header_bytes ?c @ S @ t @ u"
    using im by (auto simp: cfg_image_def)
  have "read_cfg_header (bs @ u) = Some ?c" unfolding S(3) by (rule read_cfg_header_bytes) (use db(3) n S(2) in simp_all)
  then have d: "CfgDeserialize hp ob stale (Some (bs @ u)) n [] = cfg_read_loop hp ob stale (bs @ u) n (length db) 0 [] SIZEOF_CFG_HEADER"
    using S(2) n db(3) by (simp add: CfgDeserialize_def bindOutcome_def optOutcome_def)
  have "length (cfg_header_bytes ?c) + 0 = SIZEOF_CFG_HEADER" "SIZEOF_CFG_HEADER + cfg_total db \<le> n" "cfg_ok []"
    using S(2) n by (simp_all add: cfg_ok_def)
  then obtain db1 where "CfgDeserialize hp ob stale (Some (bs @ u)) n [] = Return (0, db1)" "cfg_ok db1"
    "\<forall>k. cfg_look k db1 = (case map_of (rev db) k of Some b \<Rightarrow> Some (cfg_val b) | None \<Rightarrow> cfg_look k [])"
    using cfg_read_loop_spec [OF S(1) db(2,4) _ S(3) _ _ n(2)] unfolding d by blast
  moreover have "map_of (rev db) = map_of db" by (rule map_of_rev_distinct) (use db(1) in \<open>simp add: cfg_ok_def\<close>)
  ultimately show ?thesis by (auto simp: cfg_look_map split: option.split)
qed

text \<open>
  C7: Serialising a property map and reading the bytes into a new map gives the same map back:
  every key has the bytes and the type it had, and no key is added. It holds for values that
  are plain bytes, numbers or strings, up to 1024 of them, while twice the serialised size and
  a page fit a buffer; the alignment bytes and the estimate of the size do not matter.
\<close>

theorem config_serialize_roundtrip:
  assumes "cfg_ok db" "cfg_plain db" "length db \<le> CFGDB_MAX_ITEM" "16 \<le> pg" "roomy hp stale"
    "2 * (SIZEOF_CFG_HEADER + cfg_total db) + pg \<le> MAX_BYTES_PER_BUFFER"
  shows "\<exists>b db'. CfgSerialize hp ob stale pg db (newBuffer stale) = Return (0, b) \<and>
     CfgDeserializeFrom hp ob stale b [] = Return (0, db') \<and> cfg_ok db' \<and> (\<forall>k. cfg_look k db' = cfg_look k db)"
proof -
  have n32: "length db < 2 ^ 32" using assms(3) by simp
  obtain b where b: "CfgSerialize hp ob stale pg db (newBuffer stale) = Return (0, b)" "mem_buf b" "cfg_image db (window b)"
    by (rule CfgSerialize_image [OF assms(2) n32 assms(4,5,6), of ob]) blast
  obtain u where u: "drop (dwOffset b) (memBytes b) = window b @ u" using mem_after_window by blast
  have w: "length (window b) = bufSize b" "length (window b) = SIZEOF_CFG_HEADER + cfg_total db"
    using b(2,3) buf_wf_lengths(4) by (auto simp: mem_buf_def cfg_image_def)
  then have "\<not> bufEmpty b" using b(2) by (auto simp: mem_buf_def bufEmpty_def elim: buf_wf_cases)
  moreover have "length (window b) \<le> bufSize b" "bufSize b \<le> MAX_BYTES_PER_BUFFER" using w assms(6) by simp_all
  ultimately show ?thesis using b(1) cfg_image_read [OF b(3) assms(1,2,3,5), of "bufSize b" ob u] u
    by (simp add: CfgDeserializeFrom_def)
qed

text \<open>
  The two limits do not match: a map of more than 1024 properties serialises without an
  error, and no map can read the result, \<open>Deserialize\<close> answers \<open>-EINVAL\<close>.
\<close>

theorem config_too_many_items_unreadable:
  assumes "cfg_plain db" "CFGDB_MAX_ITEM < length db" "length db < 2 ^ 32" "16 \<le> pg" "roomy hp stale"
    "2 * (SIZEOF_CFG_HEADER + cfg_total db) + pg \<le> MAX_BYTES_PER_BUFFER"
  shows "\<exists>b. CfgSerialize hp ob stale pg db (newBuffer stale) = Return (0, b) \<and>
     CfgDeserializeFrom hp ob stale b db0 = Return (- EINVAL, db0)"
proof -
  obtain b S t where b: "CfgSerialize hp ob stale pg db (newBuffer stale) = Return (0, b)" "mem_buf b"
    "bufSize b = SIZEOF_CFG_HEADER + cfg_total db" "cfg_stream 0 db S"
    "window b = cfg_header_bytes \<lparr>chClsid = Clsid_CConfigDb, chSize = 4 + cfg_total db, chVersion = 1, chCount = length db\<rparr> @ S @ t"
    by (rule CfgSerialize_spec [OF assms(1,3,4,5,6), of ob]) blast
  obtain u where "drop (dwOffset b) (memBytes b) = window b @ u" using mem_after_window by blast
  then have src: "drop (dwOffset b) (memBytes b) = cfg_header_bytes \<lparr>chClsid = Clsid_CConfigDb, chSize = 4 + cfg_total db,
      chVersion = 1, chCount = length db\<rparr> @ S @ t @ u" (is "?src = ?h @ _") using b(5) by simp
  have "read_cfg_header ?src = Some \<lparr>chClsid = Clsid_CConfigDb, chSize = 4 + cfg_total db, chVersion = 1, chCount = length db\<rparr>"
    unfolding src by (rule read_cfg_header_bytes) (use assms(3,6) in simp_all)
  moreover have "\<not> bufEmpty b" using b(2,3) by (auto simp: mem_buf_def bufEmpty_def elim: buf_wf_cases)
  ultimately have "CfgDeserializeFrom hp ob stale b db0 = Return (- EINVAL, db0)"
    using b(3) assms(2) by (simp add: CfgDeserializeFrom_def CfgDeserialize_def bindOutcome_def optOutcome_def)
  then show ?thesis using b(1) by blast
qed

text \<open>
  The length of the input is not checked before an entry is read: a header alone that
  announces any number of properties is accepted, and the key and the size of the first are
  read from the bytes behind the input.
\<close>

theorem config_deserialize_overreads:
  assumes "chClsid h = Clsid_CConfigDb" "1 \<le> chCount h" "chCount h \<le> CFGDB_MAX_ITEM" "chSize h \<le> 4"
  shows "CfgDeserialize hp ob stale (Some (cfg_header_bytes h)) SIZEOF_CFG_HEADER db = Undefined"
proof -
  have "read_cfg_header (cfg_header_bytes h @ []) = Some h" by (rule read_cfg_header_bytes) (use assms in simp_all)
  moreover obtain n where "chCount h = Suc n" using assms(2) by (cases "chCount h") auto
  ultimately show ?thesis using assms by (simp add: CfgDeserialize_def bindOutcome_def optOutcome_def)
qed

subsection \<open>Concrete instances\<close>

lemma wit_plain: "plain_value (wit_buffer 50)" "cfg_span (wit_buffer 50) = 80" "bufSize (wit_buffer 50) = 50"
  by (simp_all add: plain_value_def wit_buffer_def cfg_span_def bufSize_def GetTailOff_def u32_sub_def GetDataType_def
      GetExDataType_def AlignDword_def)

lemma config_serialize_roundtrip_witness:
  "\<exists>b db'. CfgSerialize wit_heap wit_objects (replicate 48 0) 4096 [(- 1, wit_buffer 50), (7, wit_buffer 50)] (newBuffer (replicate 48 0)) = Return (0, b) \<and>
     CfgDeserializeFrom wit_heap wit_objects (replicate 48 0) b [] = Return (0, db') \<and> cfg_ok db' \<and>
     (\<forall>k. cfg_look k db' = cfg_look k [(- 1, wit_buffer 50), (7, wit_buffer 50)])"
  by (rule config_serialize_roundtrip)
    (simp_all add: wit_roomy cfg_plain_def cfg_ok_def wit_buffer_facts wit_plain)

lemma config_too_many_items_unreadable_witness:
  "\<exists>b. CfgSerialize wit_heap wit_objects (replicate 48 0) 4096 (List.map (\<lambda>i. (int i, wit_buffer 50)) [0..<1025]) (newBuffer (replicate 48 0)) = Return (0, b) \<and>
     CfgDeserializeFrom wit_heap wit_objects (replicate 48 0) b [] = Return (- EINVAL, [])"
proof -
  have "cfg_total (List.map (\<lambda>i. (int i, wit_buffer 50)) [0..<1025]) = 82000"
    by (simp add: cfg_total_def o_def wit_plain sum_list_triv del: upt_conv_Cons upt_rec_numeral)
  moreover have "cfg_plain (List.map (\<lambda>i. (int i, wit_buffer 50)) [0..<1025])"
    by (auto simp: cfg_plain_def wit_buffer_facts wit_plain simp del: upt_conv_Cons upt_rec_numeral)
  ultimately show ?thesis
    by (intro config_too_many_items_unreadable) (simp_all add: wit_roomy del: upt_conv_Cons upt_rec_numeral)
qed

lemma config_deserialize_overreads_witness:
  "CfgDeserialize wit_heap wit_objects (replicate 48 0)
     (Some (cfg_header_bytes \<lparr>chClsid = Clsid_CConfigDb, chSize = 4, chVersion = 1, chCount = 1\<rparr>)) SIZEOF_CFG_HEADER [] = Undefined"
  by (rule config_deserialize_overreads) simp_all

end
