(* ===== verification/StlCont.thy ===== *)
theory StlCont
  imports CfgSeri
begin

text \<open>
  The serialisable containers of \<open>combase/serial.cpp\<close> and \<open>include/stlcont.h\<close>: vectors of numbers,
  the map of numbers and the vector of objects. Each starts with a header of 16 bytes that has the
  fields of the header of a property map (\<open>cfg_header\<close>); a vector of objects goes on with the
  offsets of the objects, which are aligned to four bytes.

  The host is little-endian: a number in host order is its bytes in network order reversed. The
  objects of a vector are values of a type \<open>'o\<close>, reached through the virtual methods the
  code calls (\<open>obj_ops\<close>); those of a property map are in \<open>CfgSeri\<close>.
\<close>

subsection \<open>Vectors of numbers\<close>

abbreviation (input) Clsid_CStlIntMap :: nat where "Clsid_CStlIntMap \<equiv> 2117"
abbreviation (input) Clsid_CStlIntVector :: nat where "Clsid_CStlIntVector \<equiv> 2118"
abbreviation (input) Clsid_CStlObjVector :: nat where "Clsid_CStlObjVector \<equiv> 2219"
abbreviation (input) Clsid_CStlLongWordVector :: nat where "Clsid_CStlLongWordVector \<equiv> 2281"
abbreviation (input) Clsid_CStlQwordVector :: nat where "Clsid_CStlQwordVector \<equiv> 2304"

text \<open>
  What every \<open>Serialize\<close> of a container of numbers does with \<open>n\<close> elements, whose bytes are
  \<open>payload\<close>. The result of \<open>Resize\<close> is not looked at.
\<close>

definition stl_emit :: "heap \<Rightarrow> nat \<Rightarrow> nat \<Rightarrow> u8 list \<Rightarrow> cbuffer \<Rightarrow> (int \<times> cbuffer) outcome" where
  "stl_emit hp cid n payload oBuf =
    (let dwSize = length payload mod 2 ^ 32 in
     bindOutcome (Resize hp ((16 + dwSize) mod 2 ^ 32) oBuf) (\<lambda>(_, b1).
     bindOutcome (put_at 0 (cfg_header_bytes \<lparr>chClsid = cid, chSize = u32_add dwSize 4, chVersion = 1, chCount = n mod 2 ^ 32\<rparr>) b1) (\<lambda>b2.
     bindOutcome (put_at 16 payload b2) (\<lambda>b3. Return (0, b3)))))"

text \<open>
  What every \<open>Deserialize\<close> of them does before it reads the elements, \<open>w\<close> bytes each. An input
  that is \<open>Refused\<close> leaves the container as it is, the other errors come after it was cleared.
  A wrong version only sets the result.
\<close>

datatype stl_verdict = Refused int | Cleared int | Accepted int nat

definition stl_check :: "nat \<Rightarrow> nat \<Rightarrow> cbuffer \<Rightarrow> stl_verdict outcome" where
  "stl_check cid w oBuf =
    (if base oBuf = NullBase then Return (Refused (- EINVAL))
     else if bufSize oBuf < 16 then Return (Refused (- EINVAL))
     else bindOutcome (optOutcome (read_cfg_header (drop (dwOffset oBuf) (memBytes oBuf)))) (\<lambda>h.
       if chClsid h \<noteq> cid then Return (Cleared (- ENOTSUP))
       else let ret = (if chVersion h \<noteq> 1 then - ENOTSUP else 0) in
         if chSize h > BUF_MAX_SIZE then Return (Cleared (- EINVAL))
         else if u32_sub (chSize h) 4 div w \<noteq> chCount h then Return (Cleared (- EINVAL))
         else Return (Accepted ret (chCount h))))"

text \<open>The elements behind the header; the loop does not compare its count with the buffer.\<close>

definition stl_read_vec :: "nat \<Rightarrow> nat \<Rightarrow> cbuffer \<Rightarrow> nat list \<Rightarrow> (int \<times> nat list) outcome" where
  "stl_read_vec cid w oBuf vecElems =
     bindOutcome (stl_check cid w oBuf) (\<lambda>v. case v of
       Refused ret \<Rightarrow> Return (ret, vecElems)
     | Cleared ret \<Rightarrow> Return (ret, [])
     | Accepted ret n \<Rightarrow>
         let src = drop (dwOffset oBuf) (memBytes oBuf) in
         if length src < 16 + w * n then Undefined
         else Return (ret, List.map (\<lambda>i. of_be (take w (drop (16 + w * i) src))) [0..<n]))"

definition IntVecSerialize :: "heap \<Rightarrow> nat list \<Rightarrow> cbuffer \<Rightarrow> (int \<times> cbuffer) outcome" where
  "IntVecSerialize hp vecElems = stl_emit hp Clsid_CStlIntVector (length vecElems) (concat (List.map (to_be 4) vecElems))"

definition IntVecDeserialize :: "cbuffer \<Rightarrow> nat list \<Rightarrow> (int \<times> nat list) outcome" where
  "IntVecDeserialize = stl_read_vec Clsid_CStlIntVector 4"

text \<open>\<open>LONGWORD\<close> has 8 bytes in the 64-bit build.\<close>

definition LongWordVecSerialize :: "heap \<Rightarrow> nat list \<Rightarrow> cbuffer \<Rightarrow> (int \<times> cbuffer) outcome" where
  "LongWordVecSerialize hp vecElems = stl_emit hp Clsid_CStlLongWordVector (length vecElems) (concat (List.map (to_be 8) vecElems))"

definition LongWordVecDeserialize :: "cbuffer \<Rightarrow> nat list \<Rightarrow> (int \<times> nat list) outcome" where
  "LongWordVecDeserialize = stl_read_vec Clsid_CStlLongWordVector 8"

definition QwordVecSerialize :: "heap \<Rightarrow> nat list \<Rightarrow> cbuffer \<Rightarrow> (int \<times> cbuffer) outcome" where
  "QwordVecSerialize hp vecElems = stl_emit hp Clsid_CStlQwordVector (length vecElems) (concat (List.map (to_be 8) vecElems))"

definition QwordVecDeserialize :: "cbuffer \<Rightarrow> nat list \<Rightarrow> (int \<times> nat list) outcome" where
  "QwordVecDeserialize = stl_read_vec Clsid_CStlQwordVector 8"

subsection \<open>The map of numbers\<close>

text \<open>
  \<open>m_mapElems\<close> lists the pairs in the order of the keys. \<open>Deserialize\<close> checks for the class of
  the vector, and takes the elements from \<open>oHeader\<close>, the copy of the header on the stack, behind
  which there are none.
\<close>

definition IntMapSerialize :: "heap \<Rightarrow> (nat \<times> nat) list \<Rightarrow> cbuffer \<Rightarrow> (int \<times> cbuffer) outcome" where
  "IntMapSerialize hp mapElems = stl_emit hp Clsid_CStlIntMap (length mapElems)
     (concat (List.map (\<lambda>kv. to_be 4 (fst kv) @ to_be 4 (snd kv)) mapElems))"

definition IntMapDeserialize :: "cbuffer \<Rightarrow> (nat \<times> nat) list \<Rightarrow> (int \<times> (nat \<times> nat) list) outcome" where
  "IntMapDeserialize oBuf mapElems =
     bindOutcome (stl_check Clsid_CStlIntVector 8 oBuf) (\<lambda>v. case v of
       Refused ret \<Rightarrow> Return (ret, mapElems)
     | Cleared ret \<Rightarrow> Return (ret, [])
     | Accepted ret n \<Rightarrow> if n = 0 then Return (ret, []) else Undefined)"

subsection \<open>The vector of objects\<close>

abbreviation (input) MAX_ELEM_CONTAINER :: nat where "MAX_ELEM_CONTAINER \<equiv> 10000"

text \<open>
  \<open>oSerialize\<close> writes an object into a new buffer, \<open>oCreate\<close> is \<open>NewObj\<close>, \<open>oDeserialize\<close> reads
  from the memory behind a pointer an input of so many bytes.
\<close>

record 'obj obj_ops =
  oSerialize :: "'obj \<Rightarrow> (int \<times> cbuffer) outcome"
  oCreate :: "nat \<Rightarrow> int \<times> 'obj option"
  oDeserialize :: "'obj \<Rightarrow> u8 list \<Rightarrow> nat \<Rightarrow> (int \<times> 'obj) outcome"

definition to_le :: "nat \<Rightarrow> nat \<Rightarrow> u8 list" where
  "to_le n x = rev (to_be n x)"

definition of_le :: "u8 list \<Rightarrow> nat" where
  "of_le bs = of_be (rev bs)"

text \<open>\<open>htonl\<close> or \<open>ntohl\<close> of \<open>n\<close> numbers that follow each other.\<close>

primrec swap_words :: "nat \<Rightarrow> u8 list \<Rightarrow> u8 list" where
  "swap_words 0 bs = bs"
| "swap_words (Suc n) bs = rev (take 4 bs) @ swap_words n (drop 4 bs)"

definition swap_at :: "nat \<Rightarrow> nat \<Rightarrow> u8 list \<Rightarrow> u8 list outcome" where
  "swap_at i n bs = (if length bs < i + 4 * n then Undefined
     else Return (take i bs @ swap_words n (take (4 * n) (drop i bs)) @ drop (i + 4 * n) bs))"

text \<open>\<open>SERI_HEADER::hton\<close> of the header in the buffer; too many elements turn it off.\<close>

definition ov_hton :: "nat \<Rightarrow> cbuffer \<Rightarrow> cbuffer outcome" where
  "ov_hton dwCount b =
    (if dwCount > MAX_ELEM_CONTAINER then Return b
     else let src = drop (dwOffset b) (memBytes b) in
       bindOutcome (swap_at 16 dwCount src) (\<lambda>m1.
       bindOutcome (swap_at 12 1 m1) (\<lambda>m2.
       bindOutcome (swap_at 0 2 m2) (\<lambda>m3. put_at 0 m3 b))))"

text \<open>
  The loop over the objects; \<open>None\<close> is a null pointer. \<open>pBufPadding\<close> is a buffer of zeros that
  stays in the array of its object, the result of appending it is not looked at.
\<close>

definition ov_write_one :: "heap \<Rightarrow> 'o obj_ops \<Rightarrow> 'o option \<Rightarrow> nat \<Rightarrow> nat \<Rightarrow> cbuffer \<Rightarrow> (int \<times> nat \<times> cbuffer) outcome" where
  "ov_write_one hp ops pObj i dwPos oBuf =
     bindOutcome (put_at (16 + 4 * i) (to_le 4 dwPos) oBuf) (\<lambda>b1. case pObj of
       None \<Rightarrow> Return (- EFAULT, dwPos, b1)
     | Some x \<Rightarrow>
         bindOutcome (oSerialize ops x) (\<lambda>(ret, v).
         if ERROR ret then Return (ret, dwPos, b1)
         else bindOutcome (Append hp (if base v = NullBase then None else Some (drop (dwOffset v) (memBytes v))) (bufSize v) b1) (\<lambda>(ret, b2).
         if ERROR ret then Return (ret, dwPos, b2)
         else let dwPos1 = u32_add dwPos (bufSize v) in
           if dwPos1 mod 4 = 0 then Return (ret, dwPos1, b2)
           else let dwPaddingSize = 4 - dwPos1 mod 4 in
             bindOutcome (Append hp (Some (replicate dwPaddingSize 0)) dwPaddingSize b2) (\<lambda>(_, b3).
             Return (ret, u32_add dwPos1 dwPaddingSize, b3)))))"

primrec ov_write_loop :: "heap \<Rightarrow> 'o obj_ops \<Rightarrow> 'o option list \<Rightarrow> nat \<Rightarrow> int \<Rightarrow> nat \<Rightarrow> cbuffer \<Rightarrow> (int \<times> nat \<times> cbuffer) outcome" where
  "ov_write_loop hp ops [] i ret dwPos oBuf = Return (ret, dwPos, oBuf)"
| "ov_write_loop hp ops (pObj # rest) i ret dwPos oBuf =
     bindOutcome (ov_write_one hp ops pObj i dwPos oBuf) (\<lambda>(ret1, dwPos1, b1).
       if ERROR ret1 then Return (ret1, dwPos1, b1)
       else ov_write_loop hp ops rest (Suc i) ret1 dwPos1 b1)"

text \<open>The header is filled in after the loop, also when the loop was left with an error.\<close>

definition ObjVecSerialize :: "heap \<Rightarrow> 'o obj_ops \<Rightarrow> 'o option list \<Rightarrow> cbuffer \<Rightarrow> (int \<times> cbuffer) outcome" where
  "ObjVecSerialize hp ops vecElems oBuf =
    (let dwOffsetCount = (length vecElems + 1) mod 2 ^ 32 in
     bindOutcome (Resize hp ((16 + dwOffsetCount * 4) mod 2 ^ 32) oBuf) (\<lambda>(_, b1).
     bindOutcome (put_at 0 (to_le 4 Clsid_CStlObjVector @ to_le 4 0 @ [1, 0, 0, 0] @ to_le 4 0) b1) (\<lambda>b2.
     bindOutcome (ov_write_loop hp ops vecElems 0 0 0 b2) (\<lambda>(ret, dwPos, b3).
     bindOutcome (put_at (16 + 4 * u32_sub dwOffsetCount 1) (to_le 4 dwPos) b3) (\<lambda>b4.
     bindOutcome (put_at 4 (to_le 4 (u32_sub (bufSize b4) 12)) b4) (\<lambda>b5.
     bindOutcome (put_at 12 (to_le 4 dwOffsetCount) b5) (\<lambda>b6.
     bindOutcome (ov_hton dwOffsetCount b6) (\<lambda>b7. Return (ret, b7)))))))))"

text \<open>
  \<open>Deserialize\<close> turns the header to host order in the memory it reads from. \<open>mem\<close> is that
  memory, from \<open>pBuf\<close> to the end of its block; it is part of the result.
\<close>

definition ov_ntoh :: "u8 list \<Rightarrow> u8 list outcome" where
  "ov_ntoh mem =
     bindOutcome (swap_at 0 2 mem) (\<lambda>m1.
     bindOutcome (swap_at 12 1 m1) (\<lambda>m2.
     let dwCount = of_le (take 4 (drop 12 m2)) in
     if dwCount > MAX_ELEM_CONTAINER then Return m2 else swap_at 16 dwCount m2))"

text \<open>The round for the object \<open>i\<close> of the loop, \<open>n\<close> rounds to go.\<close>

primrec ov_read_loop :: "'o obj_ops \<Rightarrow> u8 list \<Rightarrow> nat \<Rightarrow> nat \<Rightarrow> nat \<Rightarrow> nat \<Rightarrow> int \<Rightarrow> 'o option list \<Rightarrow> (int \<times> 'o option list) outcome" where
  "ov_read_loop ops mem pStart dwBufSize 0 i ret vecElems = Return (ret, vecElems)"
| "ov_read_loop ops mem pStart dwBufSize (Suc n) i ret vecElems =
    (if length mem < 16 + 4 * i + 8 then Undefined
     else let dwPos = of_le (take 4 (drop (16 + 4 * i) mem));
              dwObjSize = u32_sub (of_le (take 4 (drop (16 + 4 * i + 4) mem))) dwPos;
              pObjBase = pStart + dwPos in
       if int pObjBase \<ge> s32 dwBufSize then Return (- ENOMEM, vecElems)
       else if length mem < pObjBase + 4 then Undefined
       else case oCreate ops (of_be (take 4 (drop pObjBase mem))) of (ret1, pObj) \<Rightarrow>
         if ERROR ret1 then Return (ret1, vecElems)
         else (case pObj of
             None \<Rightarrow> Undefined
           | Some x \<Rightarrow> bindOutcome (oDeserialize ops x (drop pObjBase mem) dwObjSize) (\<lambda>(ret2, y).
               if ERROR ret2 then Return (ret2, vecElems)
               else ov_read_loop ops mem pStart dwBufSize n (Suc i) ret2 (vecElems @ [Some y]))))"

definition ObjVecDeserialize :: "'o obj_ops \<Rightarrow> u8 list \<Rightarrow> nat \<Rightarrow> 'o option list \<Rightarrow> (int \<times> u8 list \<times> 'o option list) outcome" where
  "ObjVecDeserialize ops mem dwBufSize vecElems =
    (if dwBufSize < 16 then Return (- EINVAL, mem, vecElems)
     else bindOutcome (ov_ntoh mem) (\<lambda>m.
       let dwSize = of_le (take 4 (drop 4 m)); dwCount = of_le (take 4 (drop 12 m)); pStart = 16 + 4 * dwCount in
       if of_le (take 4 m) \<noteq> Clsid_CStlObjVector then Return (- EINVAL, m, vecElems)
       else if dwBufSize < dwSize + 4 then Return (- ERANGE, m, vecElems)
       else if dwCount > MAX_ELEM_CONTAINER then Return (- ERANGE, m, vecElems)
       else if int pStart > s32 dwBufSize then Return (- EINVAL, m, vecElems)
       else bindOutcome (ov_read_loop ops m pStart dwBufSize (u32_sub dwCount 1) 0 0 []) (\<lambda>(ret, ys). Return (ret, m, ys))))"

text \<open>The overload for a buffer, which is left with its header in host order although it is \<open>const\<close>.\<close>

definition ObjVecDeserializeFrom :: "'o obj_ops \<Rightarrow> cbuffer \<Rightarrow> 'o option list \<Rightarrow> (int \<times> cbuffer \<times> 'o option list) outcome" where
  "ObjVecDeserializeFrom ops oBuf vecElems =
    (if bufEmpty oBuf then Return (- EINVAL, oBuf, vecElems)
     else bindOutcome (ObjVecDeserialize ops (drop (dwOffset oBuf) (memBytes oBuf)) (bufSize oBuf) vecElems) (\<lambda>(ret, m, ys).
       bindOutcome (put_at 0 m oBuf) (\<lambda>b. Return (ret, b, ys))))"

subsection \<open>Numbers written and read\<close>

lemma stl_emit_spec:
  assumes "mem_buf oBuf" "roomy hp stale" "16 + length payload \<le> MAX_BYTES_PER_BUFFER" "n < 2 ^ 32"
  obtains b where "stl_emit hp cid n payload oBuf = Return (0, b)" "mem_buf b" "bufSize b = 16 + length payload"
    "window b = cfg_header_bytes \<lparr>chClsid = cid, chSize = length payload + 4, chVersion = 1, chCount = n\<rparr> @ payload"
proof -
  let ?h = "cfg_header_bytes \<lparr>chClsid = cid, chSize = length payload + 4, chVersion = 1, chCount = n\<rparr>"
  have al: "\<And>k. allocOk hp k" using assms(2) by (simp add: roomy_def)
  have t: "buf_wf oBuf" "GetDataType oBuf \<in> {DataTypeMem, DataTypeObjPtr, DataTypeMsgPtr}" using assms(1) by (simp_all add: mem_buf_def)
  obtain b1 where b1: "Resize hp (16 + length payload) oBuf = Return (0, b1)" "mem_buf b1" "bufSize b1 = 16 + length payload"
    by (rule Resize_cases [OF t, of "16 + length payload" hp]) (use assms(3) al in \<open>auto simp: mem_buf_def\<close>)
  have "0 + length ?h \<le> bufSize b1" using b1(3) by simp
  then obtain b2 where b2: "put_at 0 ?h b1 = Return b2" "mem_buf b2" "window b2 = overwrite 0 ?h (window b1)" "bufSize b2 = bufSize b1"
    by (rule put_at_spec [OF b1(2)]) blast
  have "16 + length payload \<le> bufSize b2" using b1(3) b2(4) by simp
  then obtain b3 where b3: "put_at 16 payload b2 = Return b3" "mem_buf b3" "window b3 = overwrite 16 payload (window b2)" "bufSize b3 = bufSize b2"
    by (rule put_at_spec [OF b2(2)]) blast
  have "length (window b1) = 16 + length payload" using b1(2,3) buf_wf_lengths(4) by (simp add: mem_buf_def)
  then have "window b3 = ?h @ payload" using b2(3) b3(3) by (simp add: overwrite_def)
  moreover have "stl_emit hp cid n payload oBuf = Return (0, b3)"
    using b1(1) b2(1) b3(1) assms(3,4) by (simp add: stl_emit_def bindOutcome_def u32_simps)
  ultimately show thesis using that b1(3) b2(4) b3(2,4) by simp
qed

lemma stl_check_spec:
  assumes "mem_buf b" "drop (dwOffset b) (memBytes b) = cfg_header_bytes h @ t" "16 \<le> bufSize b" "chClsid h = cid" "chVersion h = 1"
    "chSize h = w * n + 4" "chCount h = n" "0 < w" "w * n + 16 \<le> MAX_BYTES_PER_BUFFER" "chClsid h < 2 ^ 32"
  shows "stl_check cid w b = Return (Accepted 0 n)"
proof -
  have nn: "base b \<noteq> NullBase" using assms(1,3) by (auto simp: mem_buf_def elim: buf_wf_cases)
  have "n \<le> w * n" using assms(8) by simp
  then have n: "n \<le> MAX_BYTES_PER_BUFFER" using assms(9) by linarith
  have "read_cfg_header (cfg_header_bytes h @ t) = Some h" using assms(6,7,9,10) n by (intro read_cfg_header_bytes) simp_all
  then show ?thesis using nn assms
    by (simp add: stl_check_def bindOutcome_def optOutcome_def u32_simps)
qed

lemma words_nth:
  "(\<forall>x \<in> set xs. x < 256 ^ w) \<Longrightarrow> i < length xs \<Longrightarrow> of_be (take w (drop (w * i) (concat (List.map (to_be w) xs) @ t))) = xs ! i"
proof (induction xs arbitrary: i)
  case (Cons x xs)
  then show ?case by (cases i) (simp_all add: of_be_to_be add.commute [of w] flip: drop_drop)
qed simp

lemma length_words [simp]: "length (concat (List.map (to_be w) xs)) = w * length xs"
  by (induction xs) simp_all

lemma vec_roundtrip:
  assumes "mem_buf oBuf" "roomy hp stale" "0 < w" "16 + w * length xs \<le> MAX_BYTES_PER_BUFFER" "\<forall>x \<in> set xs. x < 256 ^ w" "cid < 2 ^ 32"
  shows "\<exists>b. stl_emit hp cid (length xs) (concat (List.map (to_be w) xs)) oBuf = Return (0, b) \<and> stl_read_vec cid w b ys = Return (0, xs)"
proof -
  let ?p = "concat (List.map (to_be w) xs)"
  let ?h = "\<lparr>chClsid = cid, chSize = length ?p + 4, chVersion = 1, chCount = length xs\<rparr>"
  have sz: "16 + length ?p \<le> MAX_BYTES_PER_BUFFER" "length xs \<le> w * length xs" using assms(3,4) by simp_all
  have n: "length xs < 2 ^ 32" by (rule le_less_trans [OF sz(2)]) (use assms(4) in simp)
  obtain b where b: "stl_emit hp cid (length xs) ?p oBuf = Return (0, b)" "mem_buf b" "bufSize b = 16 + length ?p"
    "window b = cfg_header_bytes ?h @ ?p"
    by (rule stl_emit_spec [OF assms(1,2) sz(1) n]) blast
  obtain t where "drop (dwOffset b) (memBytes b) = window b @ t" using mem_after_window by blast
  then have src: "drop (dwOffset b) (memBytes b) = cfg_header_bytes ?h @ (?p @ t)" using b(4) by simp
  have "stl_check cid w b = Return (Accepted 0 (length xs))"
    by (rule stl_check_spec [OF b(2) src]) (use b(3) assms in simp_all)
  moreover have "List.map (\<lambda>i. of_be (take w (drop (16 + w * i) (cfg_header_bytes ?h @ ?p @ t)))) [0..<length xs] = xs"
    using words_nth [OF assms(5)] by (intro nth_equalityI) simp_all
  ultimately have "stl_read_vec cid w b ys = Return (0, xs)"
    using src by (simp add: stl_read_vec_def bindOutcome_def)
  then show ?thesis using b(1) by blast
qed

text \<open>
  the three vectors of numbers read back what they wrote: whatever was in the buffer and in
  the vector before, \<open>Serialize\<close> succeeds and \<open>Deserialize\<close> of its output gives the same
  elements in the same order, as long as they fit a buffer.
\<close>

theorem number_vectors_roundtrip:
  assumes "mem_buf oBuf" "roomy hp stale" "16 + 4 * length ds \<le> MAX_BYTES_PER_BUFFER" "\<forall>d \<in> set ds. d < 2 ^ 32"
    "16 + 8 * length qs \<le> MAX_BYTES_PER_BUFFER" "\<forall>q \<in> set qs. q < 2 ^ 64"
  shows "(\<exists>b. IntVecSerialize hp ds oBuf = Return (0, b) \<and> IntVecDeserialize b old = Return (0, ds)) \<and>
    (\<exists>b. LongWordVecSerialize hp qs oBuf = Return (0, b) \<and> LongWordVecDeserialize b old = Return (0, qs)) \<and>
    (\<exists>b. QwordVecSerialize hp qs oBuf = Return (0, b) \<and> QwordVecDeserialize b old = Return (0, qs))"
  using vec_roundtrip [OF assms(1,2), of 4 ds] vec_roundtrip [OF assms(1,2), of 8 qs] assms(3-6)
  by (simp add: IntVecSerialize_def IntVecDeserialize_def LongWordVecSerialize_def LongWordVecDeserialize_def
      QwordVecSerialize_def QwordVecDeserialize_def)

lemma length_pairs [simp]: "length (concat (List.map (\<lambda>kv. to_be 4 (fst kv) @ to_be 4 (snd kv)) m)) = 8 * length m"
  by (induction m) simp_all

text \<open>
  no map of numbers comes back from its serialised form. \<open>Serialize\<close> succeeds, but
  \<open>Deserialize\<close> looks for the class of the vector: it answers \<open>-ENOTSUP\<close> and empties the map it
  was called on.
\<close>

theorem int_map_never_reads_back:
  assumes "mem_buf oBuf" "roomy hp stale" "16 + 8 * length m \<le> MAX_BYTES_PER_BUFFER"
  shows "\<exists>b. IntMapSerialize hp m oBuf = Return (0, b) \<and> IntMapDeserialize b old = Return (- ENOTSUP, [])"
proof -
  let ?p = "concat (List.map (\<lambda>kv. to_be 4 (fst kv) @ to_be 4 (snd kv)) m)"
  let ?h = "\<lparr>chClsid = Clsid_CStlIntMap, chSize = length ?p + 4, chVersion = 1, chCount = length m\<rparr>"
  have sz: "16 + length ?p \<le> MAX_BYTES_PER_BUFFER" "length m < 2 ^ 32" using assms(3) by simp_all
  obtain b where b: "stl_emit hp Clsid_CStlIntMap (length m) ?p oBuf = Return (0, b)" "mem_buf b" "bufSize b = 16 + length ?p"
    "window b = cfg_header_bytes ?h @ ?p"
    by (rule stl_emit_spec [OF assms(1,2) sz]) blast
  obtain t where "drop (dwOffset b) (memBytes b) = window b @ t" using mem_after_window by blast
  then have src: "drop (dwOffset b) (memBytes b) = cfg_header_bytes ?h @ (?p @ t)" using b(4) by simp
  have "read_cfg_header (cfg_header_bytes ?h @ ?p @ t) = Some ?h" using assms(3) by (intro read_cfg_header_bytes) simp_all
  moreover have "base b \<noteq> NullBase" using b(2,3) by (auto simp: mem_buf_def elim: buf_wf_cases)
  ultimately have "IntMapDeserialize b old = Return (- ENOTSUP, [])"
    using src b(3) by (simp add: IntMapDeserialize_def stl_check_def bindOutcome_def optOutcome_def)
  then show ?thesis using b(1) by (auto simp: IntMapSerialize_def)
qed

subsection \<open>The layout of a vector of objects\<close>

text \<open>An object and the zeros that align the next one; where the objects begin, and where the last ends.\<close>

definition aligned :: "u8 list \<Rightarrow> u8 list" where
  "aligned bs = bs @ replicate ((4 - length bs mod 4) mod 4) 0"

definition ov_offsets :: "u8 list list \<Rightarrow> nat list" where
  "ov_offsets imgs = List.map (\<lambda>i. length (concat (List.map aligned (take i imgs)))) [0..<length imgs]"

definition ov_total :: "u8 list list \<Rightarrow> nat" where
  "ov_total imgs = length (concat (List.map aligned imgs))"

lemma pad4:
  "((n :: nat) mod 4 \<noteq> 0 \<Longrightarrow> (4 - n mod 4) mod 4 = 4 - n mod 4)" "(4 - n mod 4) mod 4 \<le> 3" "(n + (4 - n mod 4) mod 4) mod 4 = 0"
proof -
  have lt: "(n mod 4 \<noteq> 0 \<Longrightarrow> (4 - n mod 4) mod 4 = 4 - n mod 4)" by (rule mod_less) linarith
  then show "n mod 4 \<noteq> 0 \<Longrightarrow> (4 - n mod 4) mod 4 = 4 - n mod 4" .
  have "(4 - n mod 4) mod 4 < 4" by (rule mod_less_divisor) simp
  then show "(4 - n mod 4) mod 4 \<le> 3" by linarith
  show "(n + (4 - n mod 4) mod 4) mod 4 = 0"
  proof (cases "n mod 4 = 0")
    case False
    have "n + (4 - r) = 4 * (q + 1)" if "r < 4" "4 * q + r = n" for q r
      using that by presburger
    then have "n + (4 - n mod 4) = 4 * (n div 4 + 1)" by simp
    then show ?thesis unfolding lt [OF False] by simp
  qed simp
qed

lemma length_aligned: "length (aligned bs) mod 4 = 0" "length bs \<le> length (aligned bs)" "length (aligned bs) \<le> length bs + 3"
  "length (aligned bs) = length bs + (4 - length bs mod 4) mod 4"
  using pad4 [of "length bs"] by (simp_all add: aligned_def)

lemma ov_total_mod: "ov_total imgs mod 4 = 0"
proof (induction imgs)
  case (Cons bs imgs)
  then show ?case using length_aligned(1) [of bs] by (simp add: ov_total_def) presburger
qed (simp add: ov_total_def)

lemma ov_total_snoc: "ov_total (imgs @ [bs]) = ov_total imgs + length (aligned bs)"
  by (simp add: ov_total_def)

lemma ov_offsets_snoc: "ov_offsets (imgs @ [bs]) = ov_offsets imgs @ [ov_total imgs]"
  by (simp add: ov_offsets_def ov_total_def)

lemma length_to_le [simp]: "length (to_le n x) = n"
  by (simp add: to_le_def)

lemma of_le_to_le: "of_le (to_le n x) = x mod 256 ^ n"
  by (simp add: of_le_def to_le_def of_be_to_be)

lemma length_le_words [simp]: "length (concat (List.map (to_le w) xs)) = w * length xs"
  by (induction xs) simp_all

lemma le_words_nth:
  "(\<forall>x \<in> set xs. x < 256 ^ w) \<Longrightarrow> i < length xs \<Longrightarrow> of_le (take w (drop (w * i) (concat (List.map (to_le w) xs) @ t))) = xs ! i"
proof (induction xs arbitrary: i)
  case (Cons x xs)
  then show ?case by (cases i) (simp_all add: of_le_to_le add.commute [of w] flip: drop_drop)
qed simp

lemma swap_words_le: "swap_words (length xs) (concat (List.map (to_le 4) xs)) = concat (List.map (to_be 4) xs)"
  by (induction xs) (simp_all add: to_le_def)

lemma swap_words_be: "swap_words (length xs) (concat (List.map (to_be 4) xs)) = concat (List.map (to_le 4) xs)"
  by (induction xs) (simp_all add: to_le_def)

lemma swap_at_spec: "length pre = i \<Longrightarrow> length mid = 4 * n \<Longrightarrow>
    swap_at i n (pre @ mid @ rest) = Return (pre @ swap_words n mid @ rest)"
  by (simp add: swap_at_def)

lemma overwrite_mid: "length pre = i \<Longrightarrow> length ys = length xs \<Longrightarrow> overwrite i ys (pre @ xs @ rest) = pre @ ys @ rest"
  by (simp add: overwrite_def)

subsection \<open>Writing a vector of objects\<close>

text \<open>\<open>k\<close> offsets are still to be filled in; the objects so far are \<open>imgs\<close>.\<close>

definition ov_state :: "u8 list \<Rightarrow> u8 list list \<Rightarrow> nat \<Rightarrow> cbuffer \<Rightarrow> bool" where
  "ov_state H imgs k b \<longleftrightarrow> mem_buf b \<and> length H = 16 \<and> (\<exists>G. length G = 4 * k \<and>
     window b = H @ concat (List.map (to_le 4) (ov_offsets imgs)) @ G @ concat (List.map aligned imgs))"

lemma ov_offsets_length [simp]: "length (ov_offsets imgs) = length imgs"
  by (simp add: ov_offsets_def)

lemma ov_state_size: "ov_state H imgs k b \<Longrightarrow> bufSize b = 16 + 4 * (length imgs + k) + ov_total imgs"
  using buf_wf_lengths(4) [of b] by (auto simp: ov_state_def mem_buf_def ov_total_def)

lemma Append_ok:
  assumes "mem_buf b" "0 < n" "bufSize b + n \<le> MAX_BYTES_PER_BUFFER" "n \<le> length blk" "roomy hp stale"
  obtains b' where "Append hp (Some blk) n b = Return (0, b')" "mem_buf b'" "window b' = window b @ take n blk"
proof -
  have "buf_wf b" "GetDataType b = DataTypeMem" using assms(1) by (simp_all add: mem_buf_def)
  then show thesis
    by (cases rule: Append_cases [OF _ _ assms(2,3,4), of hp]) (use assms(5) that in \<open>auto simp: roomy_def mem_buf_def\<close>)
qed

lemma ov_write_step:
  assumes "put_at (16 + 4 * i) (to_le 4 p) b = Return b1" "oSerialize ops x = Return (0, v)" "base v \<noteq> NullBase"
    "Append hp (Some (drop (dwOffset v) (memBytes v))) (bufSize v) b1 = Return (0, b2)" "u32_add p (bufSize v) = d"
  shows "d mod 4 = 0 \<Longrightarrow> ov_write_one hp ops (Some x) i p b = Return (0, d, b2)"
    "d mod 4 \<noteq> 0 \<Longrightarrow> 4 - d mod 4 = q \<Longrightarrow> Append hp (Some (replicate q 0)) q b2 = Return (0, b3) \<Longrightarrow> u32_add d q = d' \<Longrightarrow>
       ov_write_one hp ops (Some x) i p b = Return (0, d', b3)"
  using assms by (simp_all add: ov_write_one_def bindOutcome_def Let_def)

lemma ov_write_one_spec:
  assumes st: "ov_state H imgs (Suc k) b" and x: "oSerialize ops x = Return (0, v)" "mem_buf v" "0 < bufSize v"
    and hp: "roomy hp stale" and sz: "bufSize b + length (aligned (window v)) \<le> MAX_BYTES_PER_BUFFER"
  obtains b' where "ov_write_one hp ops (Some x) (length imgs) (ov_total imgs) b = Return (0, ov_total (imgs @ [window v]), b')"
    "ov_state H (imgs @ [window v]) k b'"
proof -
  let ?w = "window v"
  have v: "base v \<noteq> NullBase" "length ?w = bufSize v" "bufSize v \<le> length (drop (dwOffset v) (memBytes v))"
    "take (bufSize v) (drop (dwOffset v) (memBytes v)) = ?w"
    using x(2,3) buf_wf_lengths [of v] by (auto simp: mem_buf_def window_def elim: buf_wf_cases)
  obtain G where G: "length G = 4 * Suc k" "length H = 16"
    "window b = H @ concat (List.map (to_le 4) (ov_offsets imgs)) @ G @ concat (List.map aligned imgs)"
    using st by (auto simp: ov_state_def)
  have mb: "mem_buf b" using st by (simp add: ov_state_def)
  have "16 + 4 * length imgs + length (to_le 4 (ov_total imgs)) \<le> bufSize b" using ov_state_size [OF st] by simp
  then obtain b1 where b1: "put_at (16 + 4 * length imgs) (to_le 4 (ov_total imgs)) b = Return b1" "mem_buf b1"
    "window b1 = overwrite (16 + 4 * length imgs) (to_le 4 (ov_total imgs)) (window b)" "bufSize b1 = bufSize b"
    by (rule put_at_spec [OF mb]) blast
  have w1: "window b1 = H @ concat (List.map (to_le 4) (ov_offsets (imgs @ [?w]))) @ drop 4 G @ concat (List.map aligned imgs)"
    using G by (simp add: b1(3) overwrite_def ov_offsets_snoc)
  have "bufSize b1 + bufSize v \<le> MAX_BYTES_PER_BUFFER" using sz b1(4) v(2) length_aligned(2) [of ?w] by linarith
  then obtain b2 where b2: "Append hp (Some (drop (dwOffset v) (memBytes v))) (bufSize v) b1 = Return (0, b2)" "mem_buf b2"
    "window b2 = window b1 @ ?w"
    using Append_ok [OF b1(2) x(3) _ v(3) hp] v(4) by metis
  let ?p = "(4 - bufSize v mod 4) mod 4"
  have md: "u32_add (ov_total imgs) (bufSize v) = ov_total imgs + bufSize v" "(ov_total imgs + bufSize v) mod 4 = bufSize v mod 4"
    "u32_add (ov_total imgs + bufSize v) ?p = ov_total imgs + (bufSize v + ?p)" "ov_total imgs + bufSize v + ?p \<le> MAX_BYTES_PER_BUFFER"
  proof -
    show a: "ov_total imgs + bufSize v + ?p \<le> MAX_BYTES_PER_BUFFER"
      using sz ov_state_size [OF st] length_aligned(4) [of ?w] v(2) by simp
    show "(ov_total imgs + bufSize v) mod 4 = bufSize v mod 4" using ov_total_mod [of imgs] by presburger
    have l: "ov_total imgs + bufSize v < 2 ^ 32" "ov_total imgs + bufSize v + ?p < 2 ^ 32" using a by simp_all
    show "u32_add (ov_total imgs) (bufSize v) = ov_total imgs + bufSize v" by (rule u32_add_exact [OF l(1)])
    show "u32_add (ov_total imgs + bufSize v) ?p = ov_total imgs + (bufSize v + ?p)" unfolding u32_add_exact [OF l(2)] by (rule add.assoc)
  qed
  have tot: "ov_total (imgs @ [?w]) = ov_total imgs + (bufSize v + ?p)" using length_aligned(4) [of ?w] v(2) by (simp add: ov_total_snoc)
  show thesis
  proof (cases "bufSize v mod 4 = 0")
    case True
    then have "ov_state H (imgs @ [?w]) k b2" using b2(2,3) w1 G(1,2) v(2)
      unfolding ov_state_def by (intro conjI exI [of _ "drop 4 G"]) (simp_all add: aligned_def)
    moreover have "ov_write_one hp ops (Some x) (length imgs) (ov_total imgs) b = Return (0, ov_total (imgs @ [?w]), b2)"
      unfolding tot using ov_write_step(1) [OF b1(1) x(1) v(1) b2(1) md(1)] True md(2) by simp
    ultimately show thesis by (intro that)
  next
    case False
    then have p: "?p = 4 - bufSize v mod 4" "0 < ?p" using pad4(1) [of "bufSize v"] by simp_all
    have "bufSize b2 + ?p \<le> MAX_BYTES_PER_BUFFER"
    proof -
      have "bufSize b2 = length (window b2)" "bufSize b1 = length (window b1)"
        using b1(2) b2(2) buf_wf_lengths(4) by (simp_all add: mem_buf_def)
      then show ?thesis using sz length_aligned(4) [of ?w] v(2) b1(4) by (simp add: b2(3))
    qed
    then obtain b3 where b3: "Append hp (Some (replicate ?p 0)) ?p b2 = Return (0, b3)" "mem_buf b3" "window b3 = window b2 @ replicate ?p 0"
      using Append_ok [OF b2(2) p(2) _ _ hp, of "replicate ?p 0"] by auto
    have "ov_state H (imgs @ [?w]) k b3" using b3(2,3) b2(3) w1 G(1,2) v(2)
      unfolding ov_state_def by (intro conjI exI [of _ "drop 4 G"]) (simp_all add: aligned_def)
    moreover have "ov_write_one hp ops (Some x) (length imgs) (ov_total imgs) b = Return (0, ov_total (imgs @ [?w]), b3)"
      unfolding tot by (rule ov_write_step(2) [OF b1(1) x(1) v(1) b2(1) md(1) _ _ b3(1) md(3)]) (use False p(1) md(2) in simp_all)
    ultimately show thesis by (intro that)
  qed
qed

text \<open>What is asked of an object so that it can be written: it serialises to a buffer of \<open>bs\<close>.\<close>

definition ov_image :: "'o obj_ops \<Rightarrow> 'o \<Rightarrow> u8 list \<Rightarrow> bool" where
  "ov_image ops x bs \<longleftrightarrow> (\<exists>v. oSerialize ops x = Return (0, v) \<and> mem_buf v \<and> window v = bs \<and> bs \<noteq> [])"

lemma ov_write_loop_spec:
  assumes "ov_state H imgs (length xs + k) b" "list_all2 (ov_image ops) xs bss" "roomy hp stale"
    "bufSize b + ov_total bss \<le> MAX_BYTES_PER_BUFFER"
  shows "\<exists>b'. ov_write_loop hp ops (List.map Some xs) (length imgs) 0 (ov_total imgs) b = Return (0, ov_total (imgs @ bss), b') \<and>
    ov_state H (imgs @ bss) k b'"
  using assms(2,1,4)
proof (induction arbitrary: imgs b rule: list_all2_induct)
  case (Cons x xs bs bss)
  obtain v where v: "oSerialize ops x = Return (0, v)" "mem_buf v" "window v = bs" "bs \<noteq> []"
    using Cons.hyps(1) by (auto simp: ov_image_def)
  then have pos: "0 < bufSize v" using buf_wf_lengths(4) [of v] by (metis length_greater_0_conv mem_buf_def)
  have tot: "ov_total (bs # bss) = length (aligned bs) + ov_total bss" by (simp add: ov_total_def)
  have st: "ov_state H imgs (Suc (length xs + k)) b" "bufSize b + length (aligned (window v)) \<le> MAX_BYTES_PER_BUFFER"
    using Cons.prems tot v(3) by simp_all
  obtain b1 where b1: "ov_write_one hp ops (Some x) (length imgs) (ov_total imgs) b = Return (0, ov_total (imgs @ [bs]), b1)"
    "ov_state H (imgs @ [bs]) (length xs + k) b1"
    using ov_write_one_spec [OF st(1) v(1,2) pos assms(3) st(2)] v(3) by metis
  have "bufSize b1 + ov_total bss \<le> MAX_BYTES_PER_BUFFER"
    using Cons.prems(2) tot ov_state_size [OF st(1)] ov_state_size [OF b1(2)] by (simp add: ov_total_snoc)
  from Cons.IH [OF b1(2) this] show ?case using b1(1) by (auto simp: bindOutcome_def)
qed simp

text \<open>The memory behind the pointer of a buffer, exchanged as a whole.\<close>

lemma put_back:
  assumes "mem_buf b" "length m = length (drop (dwOffset b) (memBytes b))"
  obtains b' where "put_at 0 m b = Return b'" "mem_buf b'" "bufSize b' = bufSize b" "drop (dwOffset b') (memBytes b') = m" "window b' = take (bufSize b) m"
proof -
  have wf: "buf_wf b" using assms(1) by (simp add: mem_buf_def)
  have o: "dwOffset b \<le> length (memBytes b)" using buf_wf_lengths [OF wf] by simp
  then obtain b' where st: "storeBytes b (dwOffset b) m = Some b'" using assms(2) by (simp add: storeBytes_def)
  note s = storeBytes_wf [OF st wf]
  have "drop (dwOffset b') (memBytes b') = m" using s(2,4) o assms(2) by (simp add: overwrite_def)
  then show thesis using st s assms(1) by (intro that [of b']) (simp_all add: put_at_def optOutcome_def mem_buf_def window_def)
qed

text \<open>The bytes of a vector of objects.\<close>

definition ov_bytes :: "u8 list list \<Rightarrow> u8 list" where
  "ov_bytes imgs = to_be 4 Clsid_CStlObjVector @ to_be 4 (4 + 4 * (length imgs + 1) + ov_total imgs) @ [1, 0, 0, 0] @ to_be 4 (length imgs + 1) @
     concat (List.map (to_be 4) (ov_offsets imgs @ [ov_total imgs])) @ concat (List.map aligned imgs)"

lemma ObjVecSerialize_spec:
  assumes "mem_buf oBuf" "roomy hp stale" "list_all2 (ov_image ops) xs bss" "length xs < MAX_ELEM_CONTAINER"
    "16 + 4 * (length xs + 1) + ov_total bss \<le> MAX_BYTES_PER_BUFFER"
  obtains b where "ObjVecSerialize hp ops (List.map Some xs) oBuf = Return (0, b)" "mem_buf b" "window b = ov_bytes bss"
proof -
  let ?n = "length xs" and ?T = "ov_total bss"
  have len: "length bss = ?n" using assms(3) by (simp add: list_all2_lengthD)
  have n: "?n < 2 ^ 31" "?n + 1 < 2 ^ 32" using assms(4) by simp_all
  have t: "buf_wf oBuf" "GetDataType oBuf \<in> {DataTypeMem, DataTypeObjPtr, DataTypeMsgPtr}" using assms(1) by (simp_all add: mem_buf_def)
  obtain b1 where b1: "Resize hp (16 + (?n + 1) * 4) oBuf = Return (0, b1)" "mem_buf b1" "bufSize b1 = 16 + (?n + 1) * 4"
    by (rule Resize_cases [OF t, of "16 + (?n + 1) * 4" hp]) (use assms(2,4) in \<open>auto simp: mem_buf_def roomy_def\<close>)
  let ?H = "to_le 4 Clsid_CStlObjVector @ to_le 4 0 @ [1, 0, 0, 0] @ to_le 4 0"
  have "0 + length ?H \<le> bufSize b1" using b1(3) by simp
  then obtain b2 where b2: "put_at 0 ?H b1 = Return b2" "mem_buf b2" "window b2 = overwrite 0 ?H (window b1)" "bufSize b2 = bufSize b1"
    by (rule put_at_spec [OF b1(2)]) blast
  have l1: "length (window b1) = bufSize b1" using b1(2) buf_wf_lengths(4) by (simp add: mem_buf_def)
  have "ov_state ?H [] (?n + 1) b2"
    unfolding ov_state_def using b2(2) b1(3) l1
    by (intro conjI exI [of _ "drop 16 (window b1)"]) (simp_all add: b2(3) overwrite_def ov_offsets_def)
  moreover have "bufSize b2 + ?T \<le> MAX_BYTES_PER_BUFFER" using b2(4) b1(3) assms(5) by simp
  ultimately obtain b3 where b3: "ov_write_loop hp ops (List.map Some xs) 0 0 0 b2 = Return (0, ?T, b3)" "ov_state ?H bss 1 b3"
    using ov_write_loop_spec [of ?H "[]" xs 1 b2 ops bss hp stale] assms(2,3) by (auto simp: ov_total_def)
  obtain G where G: "length G = 4" "mem_buf b3" "window b3 = ?H @ concat (List.map (to_le 4) (ov_offsets bss)) @ G @ concat (List.map aligned bss)"
    using b3(2) by (auto simp: ov_state_def)
  have s3: "bufSize b3 = 16 + 4 * (?n + 1) + ?T" using ov_state_size [OF b3(2)] len by simp
  have "16 + 4 * ?n + length (to_le 4 ?T) \<le> bufSize b3" using s3 by simp
  then obtain b4 where b4: "put_at (16 + 4 * ?n) (to_le 4 ?T) b3 = Return b4" "mem_buf b4"
    "window b4 = overwrite (16 + 4 * ?n) (to_le 4 ?T) (window b3)" "bufSize b4 = bufSize b3"
    by (rule put_at_spec [OF G(2)]) blast
  let ?S = "to_le 4 (4 + 4 * (?n + 1) + ?T)"
  have "4 + length ?S \<le> bufSize b4" using b4(4) s3 by simp
  then obtain b5 where b5: "put_at 4 ?S b4 = Return b5" "mem_buf b5" "window b5 = overwrite 4 ?S (window b4)" "bufSize b5 = bufSize b4"
    by (rule put_at_spec [OF b4(2)]) blast
  have "12 + length (to_le 4 (?n + 1)) \<le> bufSize b5" using b5(4) b4(4) s3 by simp
  then obtain b6 where b6: "put_at 12 (to_le 4 (?n + 1)) b5 = Return b6" "mem_buf b6" "window b6 = overwrite 12 (to_le 4 (?n + 1)) (window b5)"
    "bufSize b6 = bufSize b5"
    by (rule put_at_spec [OF b5(2)]) blast
  let ?O = "concat (List.map (to_le 4) (ov_offsets bss @ [?T]))" and ?P = "concat (List.map aligned bss)"
  have w4: "window b4 = ?H @ ?O @ ?P"
    using overwrite_mid [of "?H @ concat (List.map (to_le 4) (ov_offsets bss))" "16 + 4 * ?n" "to_le 4 ?T" G ?P] G(1) len
    by (simp add: b4(3) G(3))
  have w5: "window b5 = (to_le 4 Clsid_CStlObjVector @ ?S) @ [1, 0, 0, 0] @ to_le 4 0 @ ?O @ ?P"
    using overwrite_mid [of "to_le 4 Clsid_CStlObjVector" 4 ?S "to_le 4 0" "[1, 0, 0, 0] @ to_le 4 0 @ ?O @ ?P"] by (simp add: b5(3) w4)
  have w6: "window b6 = (to_le 4 Clsid_CStlObjVector @ ?S) @ [1, 0, 0, 0] @ to_le 4 (?n + 1) @ ?O @ ?P"
    using overwrite_mid [of "to_le 4 Clsid_CStlObjVector @ ?S @ [1, 0, 0, 0]" 12 "to_le 4 (?n + 1)" "to_le 4 0" "?O @ ?P"]
    by (simp add: b6(3) w5)
  obtain u where u: "drop (dwOffset b6) (memBytes b6) = window b6 @ u" using mem_after_window by blast
  let ?B = "concat (List.map (to_be 4) (ov_offsets bss @ [?T])) @ ?P @ u" and ?I = "to_le 4 Clsid_CStlObjVector @ ?S @ [1, 0, 0, 0]"
  have h: "swap_at 16 (?n + 1) (window b6 @ u) = Return (?I @ to_le 4 (?n + 1) @ ?B)"
    "swap_at 12 1 (?I @ to_le 4 (?n + 1) @ ?B) = Return (?I @ to_be 4 (?n + 1) @ ?B)"
    "swap_at 0 2 (?I @ to_be 4 (?n + 1) @ ?B) = Return (ov_bytes bss @ u)"
    using swap_at_spec [of "?I @ to_le 4 (?n + 1)" 16 ?O "?n + 1" "?P @ u"] swap_words_le [of "ov_offsets bss @ [?T]"]
      swap_at_spec [of ?I 12 "to_le 4 (?n + 1)" 1 ?B] swap_words_le [of "[?n + 1]"]
      swap_at_spec [of "[]" 0 "to_le 4 Clsid_CStlObjVector @ ?S" 2 "[1, 0, 0, 0] @ to_be 4 (?n + 1) @ ?B"]
      swap_words_le [of "[Clsid_CStlObjVector, 4 + 4 * (?n + 1) + ?T]"] len
    by (simp_all add: w6 ov_bytes_def numeral_2_eq_2)
  have lb: "length (ov_bytes bss @ u) = length (drop (dwOffset b6) (memBytes b6))" using len by (simp add: u w6 ov_bytes_def)
  obtain b7 where b7: "put_at 0 (ov_bytes bss @ u) b6 = Return b7" "mem_buf b7" "window b7 = take (bufSize b6) (ov_bytes bss @ u)"
    using put_back [OF b6(2) lb] by metis
  have "bufSize b6 = length (ov_bytes bss)" using b4(4) b5(4) b6(4) s3 len by (simp add: ov_bytes_def ov_total_def)
  then have w7: "window b7 = ov_bytes bss" using b7(3) by simp
  have hton: "ov_hton (?n + 1) b6 = Return b7" using assms(4) h b7(1) by (simp add: ov_hton_def Let_def u bindOutcome_def)
  have "ObjVecSerialize hp ops (List.map Some xs) oBuf = Return (0, b7)"
    using b1(1) b2(1) b3(1) b4(1,4) b5(1) b6(1) hton n s3 assms(4,5)
    by (simp add: ObjVecSerialize_def Let_def bindOutcome_def u32_simps add.assoc)
  then show thesis by (rule that [OF _ b7(2) w7])
qed

subsection \<open>Reading a vector of objects\<close>

text \<open>The same bytes with the header in host order.\<close>

definition ov_host :: "u8 list list \<Rightarrow> u8 list" where
  "ov_host imgs = to_le 4 Clsid_CStlObjVector @ to_le 4 (4 + 4 * (length imgs + 1) + ov_total imgs) @ [1, 0, 0, 0] @ to_le 4 (length imgs + 1) @
     concat (List.map (to_le 4) (ov_offsets imgs @ [ov_total imgs])) @ concat (List.map aligned imgs)"

lemma ov_ntoh_bytes:
  assumes "length imgs < MAX_ELEM_CONTAINER"
  shows "ov_ntoh (ov_bytes imgs @ u) = Return (ov_host imgs @ u)"
proof -
  let ?n = "length imgs" and ?T = "ov_total imgs"
  let ?S = "to_be 4 (4 + 4 * (?n + 1) + ?T)" and ?S' = "to_le 4 (4 + 4 * (?n + 1) + ?T)"
  let ?O = "concat (List.map (to_be 4) (ov_offsets imgs @ [?T]))" and ?P = "concat (List.map aligned imgs) @ u"
  let ?I = "to_le 4 Clsid_CStlObjVector @ ?S' @ [1, 0, 0, 0]"
  have "swap_at 0 2 (ov_bytes imgs @ u) = Return (?I @ to_be 4 (?n + 1) @ ?O @ ?P)"
    using swap_at_spec [of "[]" 0 "to_be 4 Clsid_CStlObjVector @ ?S" 2 "[1, 0, 0, 0] @ to_be 4 (?n + 1) @ ?O @ ?P"]
      swap_words_be [of "[Clsid_CStlObjVector, 4 + 4 * (?n + 1) + ?T]"]
    by (simp add: ov_bytes_def numeral_2_eq_2)
  moreover have "swap_at 12 1 (?I @ to_be 4 (?n + 1) @ ?O @ ?P) = Return (?I @ to_le 4 (?n + 1) @ ?O @ ?P)"
    using swap_at_spec [of ?I 12 "to_be 4 (?n + 1)" 1 "?O @ ?P"] swap_words_be [of "[?n + 1]"] by simp
  moreover have "swap_at 16 (?n + 1) (?I @ to_le 4 (?n + 1) @ ?O @ ?P) = Return (ov_host imgs @ u)"
    using swap_at_spec [of "?I @ to_le 4 (?n + 1)" 16 ?O "?n + 1" ?P] swap_words_be [of "ov_offsets imgs @ [?T]"] by (simp add: ov_host_def)
  moreover have "of_le (take 4 (drop 12 (?I @ to_le 4 (?n + 1) @ ?O @ ?P))) = ?n + 1" using assms by (simp add: of_le_to_le)
  ultimately show ?thesis using assms by (simp add: ov_ntoh_def bindOutcome_def Let_def)
qed

lemma drop_behind: "length pre = n \<Longrightarrow> drop (n + k) (pre @ xs) = drop k xs"
  by simp

lemma ov_offset_at:
  assumes "i \<le> length imgs" "ov_total imgs < 2 ^ 32"
  shows "of_le (take 4 (drop (16 + 4 * i) (ov_host imgs @ u))) = ov_total (take i imgs)"
proof -
  have le: "ov_total (take j imgs) \<le> ov_total imgs" for j
  proof -
    have "ov_total imgs = ov_total (take j imgs @ drop j imgs)" by simp
    also have "\<dots> = ov_total (take j imgs) + ov_total (drop j imgs)" by (simp only: ov_total_def map_append concat_append length_append)
    finally show ?thesis by simp
  qed
  let ?os = "ov_offsets imgs @ [ov_total imgs]"
  have "\<forall>x \<in> set ?os. x < 256 ^ 4" using le assms(2) le_less_trans by (fastforce simp: ov_offsets_def ov_total_def [symmetric])
  then have "of_le (take 4 (drop (4 * i) (concat (List.map (to_le 4) ?os) @ concat (List.map aligned imgs) @ u))) = ?os ! i"
    by (rule le_words_nth) (use assms(1) in simp)
  moreover have "?os ! i = ov_total (take i imgs)" using assms(1) by (auto simp: nth_append ov_offsets_def ov_total_def)
  moreover have "ov_host imgs @ u = (to_le 4 Clsid_CStlObjVector @ to_le 4 (4 + 4 * (length imgs + 1) + ov_total imgs) @ [1, 0, 0, 0] @
      to_le 4 (length imgs + 1)) @ (concat (List.map (to_le 4) ?os) @ concat (List.map aligned imgs) @ u)" (is "_ = ?h @ ?r")
    by (simp add: ov_host_def)
  moreover have "drop (16 + 4 * i) (?h @ ?r) = drop (4 * i) ?r" by (rule drop_behind) simp
  ultimately show ?thesis by simp
qed

lemma ov_object_at:
  assumes "i < length imgs"
  shows "drop (16 + 4 * (length imgs + 1) + ov_total (take i imgs)) (ov_host imgs @ u) =
    aligned (imgs ! i) @ concat (List.map aligned (drop (Suc i) imgs)) @ u"
proof -
  have "imgs = take i imgs @ imgs ! i # drop (Suc i) imgs" using assms by (simp add: id_take_nth_drop)
  then have P: "concat (List.map aligned imgs) =
      concat (List.map aligned (take i imgs)) @ aligned (imgs ! i) @ concat (List.map aligned (drop (Suc i) imgs))"
    by (metis concat.simps(2) concat_append list.map(2) map_append)
  let ?h = "to_le 4 Clsid_CStlObjVector @ to_le 4 (4 + 4 * (length imgs + 1) + ov_total imgs) @ [1, 0, 0, 0] @ to_le 4 (length imgs + 1) @
     concat (List.map (to_le 4) (ov_offsets imgs @ [ov_total imgs]))"
  have "length ?h = 16 + 4 * (length imgs + 1)" by simp
  moreover have "ov_host imgs @ u = ?h @ concat (List.map aligned (take i imgs)) @ aligned (imgs ! i) @ concat (List.map aligned (drop (Suc i) imgs)) @ u"
    by (simp add: ov_host_def P)
  ultimately show ?thesis using drop_behind [of ?h "16 + 4 * (length imgs + 1)" "ov_total (take i imgs)"] by (simp add: ov_total_def)
qed

lemma ov_read_step:
  assumes "16 + 4 * i + 8 \<le> length m" "of_le (take 4 (drop (16 + 4 * i) m)) = p" "of_le (take 4 (drop (16 + 4 * i + 4) m)) = q"
    "u32_sub q p = d" "int (s + p) < s32 n" "s + p + 4 \<le> length m" "oCreate ops (of_be (take 4 (drop (s + p) m))) = (0, Some x0)"
    "oDeserialize ops x0 (drop (s + p) m) d = Return (0, z)"
  shows "ov_read_loop ops m s n (Suc k) i ret vs = ov_read_loop ops m s n k (Suc i) 0 (vs @ [Some z])"
  using assms by (simp add: bindOutcome_def Let_def)

lemma ov_deserialize_step:
  assumes "16 \<le> n" "ov_ntoh mem = Return m" "of_le (take 4 m) = Clsid_CStlObjVector" "of_le (take 4 (drop 4 m)) = s" "of_le (take 4 (drop 12 m)) = c"
    "s + 4 \<le> n" "0 < c" "c \<le> MAX_ELEM_CONTAINER" "int (16 + 4 * c) \<le> s32 n" "ov_read_loop ops m (16 + 4 * c) n (c - 1) 0 0 [] = Return (ret, ys)"
  shows "ObjVecDeserialize ops mem n old = Return (ret, m, ys)"
proof -
  have "u32_sub c 1 = c - 1" using assms(7,8) by (simp add: u32_simps)
  then show ?thesis using assms by (simp add: ObjVecDeserialize_def bindOutcome_def Let_def)
qed

text \<open>The header is converted in the input: a second reader meets it in host order.\<close>

lemma to_be_digits: "to_be 4 x = [of_nat (x div 256 div 256 div 256 mod 256), of_nat (x div 256 div 256 mod 256), of_nat (x div 256 mod 256), of_nat (x mod 256)]"
proof -
  have "(4 :: nat) = Suc (Suc (Suc (Suc 0)))" by simp
  then show ?thesis by (simp only: to_be.simps append.simps)
qed

lemma of_le_to_be_big:
  assumes "0 < x" "x < 65536"
  shows "65536 \<le> of_le (to_be 4 x)"
proof -
  have "x div (256 * 256) = 0" using assms(2) by simp
  then have z: "x div 256 div 256 = 0" by (simp only: div_mult2_eq)
  have "of_le (to_be 4 x) = (x mod 256 * 256 + x div 256 mod 256) * 65536" unfolding to_be_digits z by (simp add: of_le_def of_be_def)
  moreover have "x mod 256 \<noteq> 0 \<or> x div 256 mod 256 \<noteq> 0" using assms z by (metis div_eq_0_iff mod_div_trivial mult_div_mod_eq mult_zero_right add_0 less_not_refl mod_less)
  ultimately show ?thesis by auto
qed

lemma ov_host_refused:
  assumes "length imgs < MAX_ELEM_CONTAINER" "16 \<le> n"
  obtains m where "ObjVecDeserialize ops (ov_host imgs @ u) n old = Return (- EINVAL, m, old)" "length m = length (ov_host imgs @ u)"
proof -
  let ?n = "length imgs" and ?T = "ov_total imgs"
  let ?S = "to_be 4 (4 + 4 * (?n + 1) + ?T)" and ?S' = "to_le 4 (4 + 4 * (?n + 1) + ?T)"
  let ?R = "concat (List.map (to_le 4) (ov_offsets imgs @ [?T])) @ concat (List.map aligned imgs) @ u"
  let ?I = "to_be 4 Clsid_CStlObjVector @ ?S @ [1, 0, 0, 0]"
  have a: "swap_at 0 2 (ov_host imgs @ u) = Return (?I @ to_le 4 (?n + 1) @ ?R)"
    using swap_at_spec [of "[]" 0 "to_le 4 Clsid_CStlObjVector @ ?S'" 2 "[1, 0, 0, 0] @ to_le 4 (?n + 1) @ ?R"]
      swap_words_le [of "[Clsid_CStlObjVector, 4 + 4 * (?n + 1) + ?T]"]
    by (simp add: ov_host_def numeral_2_eq_2)
  have b: "swap_at 12 1 (?I @ to_le 4 (?n + 1) @ ?R) = Return (?I @ to_be 4 (?n + 1) @ ?R)"
    using swap_at_spec [of ?I 12 "to_le 4 (?n + 1)" 1 ?R] swap_words_le [of "[?n + 1]"] by simp
  have "of_le (take 4 (drop 12 (?I @ to_be 4 (?n + 1) @ ?R))) = of_le (to_be 4 (?n + 1))" by simp
  moreover have "MAX_ELEM_CONTAINER < of_le (to_be 4 (?n + 1))" using of_le_to_be_big [of "?n + 1"] assms(1) by simp
  ultimately have "ov_ntoh (ov_host imgs @ u) = Return (?I @ to_be 4 (?n + 1) @ ?R)"
    using a b by (simp add: ov_ntoh_def bindOutcome_def Let_def)
  moreover have "of_le (take 4 (?I @ to_be 4 (?n + 1) @ ?R)) \<noteq> Clsid_CStlObjVector"
    by (simp add: of_le_def of_be_def to_be_digits)
  ultimately have "ObjVecDeserialize ops (ov_host imgs @ u) n old = Return (- EINVAL, ?I @ to_be 4 (?n + 1) @ ?R, old)"
    using assms(2) by (simp add: ObjVecDeserialize_def bindOutcome_def Let_def)
  then show thesis by (rule that) (simp add: ov_host_def)
qed

text \<open>
  The interface of an object in a vector: \<open>okay\<close> objects serialise to an image, \<open>bytes\<close> long, and
  whatever follows an image in memory, up to three bytes of it counted as input, a new object of
  the class read from it becomes the same as the object written.
\<close>

locale vector_element =
  fixes ops :: "'o obj_ops"
    and okay :: "'o \<Rightarrow> bool"
    and bytes :: "'o \<Rightarrow> nat"
    and image :: "'o \<Rightarrow> u8 list \<Rightarrow> bool"
    and same :: "'o \<Rightarrow> 'o \<Rightarrow> bool"
  assumes writes_image: "okay x \<Longrightarrow> \<exists>bs. ov_image ops x bs \<and> image x bs"
    and image_size: "image x bs \<Longrightarrow> length bs = bytes x \<and> 4 \<le> length bs"
    and reads_image: "image x bs \<Longrightarrow> k \<le> 3 \<Longrightarrow> length bs + k \<le> MAX_BYTES_PER_BUFFER \<Longrightarrow>
      \<exists>x0 y. oCreate ops (of_be (take 4 bs)) = (0, Some x0) \<and> oDeserialize ops x0 (bs @ u) (length bs + k) = Return (0, y) \<and> same x y"
begin

lemma images_exist: "\<forall>x \<in> set xs. okay x \<Longrightarrow> \<exists>bss. list_all2 (ov_image ops) xs bss \<and> list_all2 image xs bss"
proof (induction xs)
  case (Cons x xs)
  then obtain bs bss where "ov_image ops x bs" "image x bs" "list_all2 (ov_image ops) xs bss" "list_all2 image xs bss"
    using writes_image [of x] by auto
  then show ?case by (intro exI [of _ "bs # bss"]) simp
qed simp

lemma reads_loop:
  assumes im: "list_all2 image (xs @ ys) bss" and sz: "16 + 4 * (length bss + 1) + ov_total bss \<le> n" "n \<le> MAX_BYTES_PER_BUFFER"
  shows "\<exists>zs. ov_read_loop ops (ov_host bss @ u) (16 + 4 * (length bss + 1)) n (length ys) (length xs) 0 vs = Return (0, vs @ List.map Some zs) \<and>
    list_all2 same ys zs"
  using im
proof (induction ys arbitrary: xs vs)
  case (Cons y ys)
  let ?m = "ov_host bss @ u" and ?i = "length xs" and ?s = "16 + 4 * (length bss + 1)"
  have len: "length bss = ?i + Suc (length ys)" using Cons.prems by (auto dest: list_all2_lengthD)
  then have i: "?i < length bss" by simp
  let ?bs = "bss ! ?i"
  have img: "image y ?bs" using list_all2_nthD [OF Cons.prems, of ?i] by simp
  note bz = image_size [OF img]
  have tk: "ov_total (take (Suc ?i) bss) = ov_total (take ?i bss) + length (aligned ?bs)" using i by (simp add: take_Suc_conv_app_nth ov_total_snoc)
  have le: "ov_total (take (Suc ?i) bss) \<le> ov_total bss"
    by (metis append_take_drop_id concat_append le_add1 length_append map_append ov_total_def)
  have t32: "ov_total bss < 2 ^ 32" using sz by simp
  have lm: "length ?m = ?s + ov_total bss + length u" by (simp add: ov_host_def ov_total_def)
  note at = ov_object_at [OF i, of u]
  let ?k = "(4 - length ?bs mod 4) mod 4"
  obtain rest where rest: "drop (?s + ov_total (take ?i bss)) ?m = ?bs @ rest" unfolding at by (simp add: aligned_def)
  have k: "?k \<le> 3" "length ?bs + ?k = length (aligned ?bs)" "length ?bs + ?k \<le> MAX_BYTES_PER_BUFFER"
    using pad4(2) [of "length ?bs"] length_aligned(4) [of ?bs] tk le sz by simp_all
  obtain x0 z where z: "oCreate ops (of_be (take 4 ?bs)) = (0, Some x0)" "oDeserialize ops x0 (?bs @ rest) (length ?bs + ?k) = Return (0, z)" "same y z"
    using reads_image [OF img k(1,3), of rest] by blast
  have o: "of_le (take 4 (drop (16 + 4 * ?i) ?m)) = ov_total (take ?i bss)"
    "of_le (take 4 (drop (16 + 4 * ?i + 4) ?m)) = ov_total (take (Suc ?i) bss)"
    using ov_offset_at [OF _ t32, of ?i u] ov_offset_at [OF _ t32, of "Suc ?i" u] i by (simp_all add: add.commute add.left_commute)
  have d: "u32_sub (ov_total (take (Suc ?i) bss)) (ov_total (take ?i bss)) = length ?bs + ?k"
    using tk k(2) le t32 by (simp add: u32_simps)
  have pos: "?s + ov_total (take ?i bss) + 4 \<le> length ?m" "?s + ov_total (take ?i bss) < n"
    using tk le bz length_aligned(2) [of ?bs] sz(1) lm by linarith+
  have sn: "s32 n = int n" using sz(2) by (simp add: s32_def)
  have step: "ov_read_loop ops ?m ?s n (Suc (length ys)) ?i 0 vs = ov_read_loop ops ?m ?s n (length ys) (Suc ?i) 0 (vs @ [Some z])"
  proof (rule ov_read_step [OF _ o d])
    have "take 4 (drop (?s + ov_total (take ?i bss)) ?m) = take 4 ?bs" using rest bz by simp
    then show "oCreate ops (of_be (take 4 (drop (?s + ov_total (take ?i bss)) ?m))) = (0, Some x0)" using z(1) by simp
  qed (use len lm pos z(2) rest sn in simp_all)
  have "list_all2 image ((xs @ [y]) @ ys) bss" using Cons.prems by simp
  from Cons.IH [OF this, of "vs @ [Some z]"] obtain zs where
    "ov_read_loop ops ?m ?s n (length ys) (Suc ?i) 0 (vs @ [Some z]) = Return (0, (vs @ [Some z]) @ List.map Some zs)" "list_all2 same ys zs"
    by auto
  then show ?case using step z(3) by (intro exI [of _ "z # zs"]) simp
qed simp

lemma vector_roundtrip:
  assumes xs: "\<forall>x \<in> set xs. okay x" "length xs < MAX_ELEM_CONTAINER" and hp: "mem_buf oBuf" "roomy hp stale"
    and sz: "24 + (\<Sum>x \<leftarrow> xs. bytes x + 7) \<le> MAX_BYTES_PER_BUFFER"
  shows "\<exists>b b' zs. ObjVecSerialize hp ops (List.map Some xs) oBuf = Return (0, b) \<and>
    ObjVecDeserializeFrom ops b old = Return (0, b', List.map Some zs) \<and> list_all2 same xs zs \<and>
    (\<exists>b''. ObjVecDeserializeFrom ops b' again = Return (- EINVAL, b'', again))"
proof -
  obtain bss where bss: "list_all2 (ov_image ops) xs bss" "list_all2 image xs bss" using images_exist [OF xs(1)] by blast
  let ?n = "length xs" and ?T = "ov_total bss"
  have len: "length bss = ?n" using bss(1) by (simp add: list_all2_lengthD)
  have "4 * length xs + ov_total bss \<le> (\<Sum>x \<leftarrow> xs. bytes x + 7)"
    using bss(2)
  proof (induction rule: list_all2_induct)
    case (Cons x xs bs bss)
    then show ?case using image_size [OF Cons.hyps(1)] length_aligned(3) [of bs] by (simp add: ov_total_def)
  qed (simp add: ov_total_def)
  then have T: "16 + 4 * (?n + 1) + ?T \<le> MAX_BYTES_PER_BUFFER" using sz by simp
  obtain b where b: "ObjVecSerialize hp ops (List.map Some xs) oBuf = Return (0, b)" "mem_buf b" "window b = ov_bytes bss"
    using ObjVecSerialize_spec [OF hp bss(1) xs(2) T] by blast
  obtain u where u: "drop (dwOffset b) (memBytes b) = window b @ u" using mem_after_window by blast
  have bz: "bufSize b = 16 + 4 * (?n + 1) + ?T"
    using buf_wf_lengths(4) [of b] b(2,3) len by (simp add: mem_buf_def ov_bytes_def ov_total_def)
  then have ne: "\<not> bufEmpty b" using b(2) by (auto simp: mem_buf_def bufEmpty_def elim: buf_wf_cases)
  obtain zs where zs: "ov_read_loop ops (ov_host bss @ u) (16 + 4 * (length bss + 1)) (bufSize b) ?n 0 0 [] = Return (0, List.map Some zs)"
    "list_all2 same xs zs"
    using reads_loop [of "[]" xs bss "bufSize b" u "[]"] bss(2) bz T len by auto
  have fields: "of_le (take 4 (ov_host bss @ u)) = Clsid_CStlObjVector" "of_le (take 4 (drop 4 (ov_host bss @ u))) = 4 + 4 * (?n + 1) + ?T"
    "of_le (take 4 (drop 12 (ov_host bss @ u))) = ?n + 1"
    using len T by (simp_all add: ov_host_def of_le_to_le)
  have s32: "s32 (bufSize b) = int (bufSize b)" using bz T by (simp add: s32_def)
  have nt: "ov_ntoh (window b @ u) = Return (ov_host bss @ u)" unfolding b(3) by (rule ov_ntoh_bytes) (use len xs(2) in simp)
  have d: "ObjVecDeserialize ops (window b @ u) (bufSize b) old = Return (0, ov_host bss @ u, List.map Some zs)"
    by (rule ov_deserialize_step [OF _ nt fields]) (use bz zs(1) xs(2) len T s32 in simp_all)
  have "length (ov_host bss @ u) = length (drop (dwOffset b) (memBytes b))" unfolding u b(3) by (simp add: ov_host_def ov_bytes_def)
  then obtain b' where b': "put_at 0 (ov_host bss @ u) b = Return b'" "mem_buf b'" "bufSize b' = bufSize b"
    "drop (dwOffset b') (memBytes b') = ov_host bss @ u"
    by (rule put_back [OF b(2)]) blast
  have first: "ObjVecDeserializeFrom ops b old = Return (0, b', List.map Some zs)"
    using ne d u b'(1) by (simp add: ObjVecDeserializeFrom_def bindOutcome_def)
  have bs: "length bss < MAX_ELEM_CONTAINER" "16 \<le> bufSize b'" using len xs(2) b'(3) bz by simp_all
  obtain m where m: "ObjVecDeserialize ops (ov_host bss @ u) (bufSize b') again = Return (- EINVAL, m, again)"
    "length m = length (drop (dwOffset b') (memBytes b'))"
    using ov_host_refused [OF bs, of ops u again] b'(4) by auto
  obtain b'' where "put_at 0 m b' = Return b''" by (rule put_back [OF b'(2) m(2)]) blast
  moreover have "\<not> bufEmpty b'" using b'(2,3) bz by (auto simp: mem_buf_def bufEmpty_def elim: buf_wf_cases)
  ultimately have "ObjVecDeserializeFrom ops b' again = Return (- EINVAL, b'', again)"
    using m(1) b'(4) by (simp add: ObjVecDeserializeFrom_def bindOutcome_def)
  then show ?thesis using b(1) zs(2) first by blast
qed

end

subsection \<open>Vectors of property maps\<close>

text \<open>A property map as an object of a vector; no other class is known to this factory.\<close>

definition cfg_ops :: "heap \<Rightarrow> objects \<Rightarrow> u8 list \<Rightarrow> nat \<Rightarrow> configdb obj_ops" where
  "cfg_ops hp ob stale pg = \<lparr>oSerialize = (\<lambda>db. CfgSerialize hp ob stale pg db (newBuffer stale)),
     oCreate = (\<lambda>c. if c = Clsid_CConfigDb then (0, Some []) else (- ENOTSUP, None)),
     oDeserialize = (\<lambda>db src n. CfgDeserialize hp ob stale (Some src) n db)\<rparr>"

definition cfg_okay :: "heap \<Rightarrow> u8 list \<Rightarrow> nat \<Rightarrow> configdb \<Rightarrow> bool" where
  "cfg_okay hp stale pg db \<longleftrightarrow> roomy hp stale \<and> 16 \<le> pg \<and> cfg_ok db \<and> cfg_plain db \<and> length db \<le> CFGDB_MAX_ITEM \<and>
     2 * (SIZEOF_CFG_HEADER + cfg_total db) + pg \<le> MAX_BYTES_PER_BUFFER"

definition cfg_same :: "configdb \<Rightarrow> configdb \<Rightarrow> bool" where
  "cfg_same db db' \<longleftrightarrow> cfg_ok db' \<and> (\<forall>k. cfg_look k db' = cfg_look k db)"

interpretation vc: vector_element "cfg_ops hp ob stale pg" "cfg_okay hp stale pg" "\<lambda>db. SIZEOF_CFG_HEADER + cfg_total db"
  "\<lambda>db bs. cfg_okay hp stale pg db \<and> cfg_image db bs" cfg_same for hp ob stale pg
proof
  fix db assume a: "cfg_okay hp stale pg db"
  then have c: "cfg_plain db" "length db < 2 ^ 32" "16 \<le> pg" "roomy hp stale"
    "2 * (SIZEOF_CFG_HEADER + cfg_total db) + pg \<le> MAX_BYTES_PER_BUFFER" by (simp_all add: cfg_okay_def)
  obtain b where b: "CfgSerialize hp ob stale pg db (newBuffer stale) = Return (0, b)" "mem_buf b" "cfg_image db (window b)"
    by (rule CfgSerialize_image [OF c, of ob]) blast
  moreover have "length (window b) = SIZEOF_CFG_HEADER + cfg_total db" using b(3) by (auto simp: cfg_image_def)
  ultimately show "\<exists>bs. ov_image (cfg_ops hp ob stale pg) db bs \<and> cfg_okay hp stale pg db \<and> cfg_image db bs"
    using a by (auto simp: ov_image_def cfg_ops_def simp flip: length_greater_0_conv)
next
  fix db bs assume "cfg_okay hp stale pg db \<and> cfg_image db bs"
  then show "length bs = SIZEOF_CFG_HEADER + cfg_total db \<and> 4 \<le> length bs" by (auto simp: cfg_image_def)
next
  fix db bs u and k :: nat
  assume a: "cfg_okay hp stale pg db \<and> cfg_image db bs" and k: "k \<le> 3" "length bs + k \<le> MAX_BYTES_PER_BUFFER"
  then have c: "cfg_ok db" "cfg_plain db" "length db \<le> CFGDB_MAX_ITEM" "roomy hp stale" by (simp_all add: cfg_okay_def)
  have "of_be (take 4 bs) = Clsid_CConfigDb" using a by (auto simp: cfg_image_def cfg_header_bytes_def of_be_to_be)
  then show "\<exists>x0 y. oCreate (cfg_ops hp ob stale pg) (of_be (take 4 bs)) = (0, Some x0) \<and>
      oDeserialize (cfg_ops hp ob stale pg) x0 (bs @ u) (length bs + k) = Return (0, y) \<and> cfg_same db y"
    using cfg_image_read [OF conjunct2 [OF a] c le_add1 k(2), of ob u] by (auto simp: cfg_ops_def cfg_same_def)
qed

text \<open>
  C26: a vector of property maps comes back from its serialised form: up to 9999 maps, each within
  the limits of the map and all within a buffer, are read in their order and each answers
  every property as the one that was written, whatever the buffer and the vector held before.
\<close>

theorem object_vector_roundtrip:
  assumes "\<forall>db \<in> set dbs. cfg_okay hp stale pg db" "length dbs < MAX_ELEM_CONTAINER" "mem_buf oBuf" "roomy hp stale"
    "24 + (\<Sum>db \<leftarrow> dbs. SIZEOF_CFG_HEADER + cfg_total db + 7) \<le> MAX_BYTES_PER_BUFFER"
  shows "\<exists>b b' dbs'. ObjVecSerialize hp (cfg_ops hp ob stale pg) (List.map Some dbs) oBuf = Return (0, b) \<and>
    ObjVecDeserializeFrom (cfg_ops hp ob stale pg) b old = Return (0, b', List.map Some dbs') \<and> list_all2 cfg_same dbs dbs'"
  using vc.vector_roundtrip [OF assms(1-4)] assms(5) by fastforce

text \<open>
  reading a vector of objects destroys its input. \<open>Deserialize\<close> takes a \<open>const\<close> buffer and turns
  its header to host order in place: after a successful call, the next one on the same buffer
  answers \<open>-EINVAL\<close>, for any vector it is called on.
\<close>

theorem object_vector_read_once:
  assumes "\<forall>db \<in> set dbs. cfg_okay hp stale pg db" "length dbs < MAX_ELEM_CONTAINER" "mem_buf oBuf" "roomy hp stale"
    "24 + (\<Sum>db \<leftarrow> dbs. SIZEOF_CFG_HEADER + cfg_total db + 7) \<le> MAX_BYTES_PER_BUFFER"
  shows "\<exists>b b' b'' dbs'. ObjVecSerialize hp (cfg_ops hp ob stale pg) (List.map Some dbs) oBuf = Return (0, b) \<and>
    ObjVecDeserializeFrom (cfg_ops hp ob stale pg) b old = Return (0, b', dbs') \<and>
    ObjVecDeserializeFrom (cfg_ops hp ob stale pg) b' again = Return (- EINVAL, b'', again)"
  using vc.vector_roundtrip [OF assms(1-4)] assms(5) by fastforce

subsection \<open>Concrete instances\<close>

lemma number_vectors_roundtrip_witness:
  "(\<exists>b. IntVecSerialize wit_heap [1, 4294967295] (newBuffer (replicate 48 0)) = Return (0, b) \<and> IntVecDeserialize b [5] = Return (0, [1, 4294967295])) \<and>
    (\<exists>b. LongWordVecSerialize wit_heap [2 ^ 40] (newBuffer (replicate 48 0)) = Return (0, b) \<and> LongWordVecDeserialize b [5] = Return (0, [2 ^ 40])) \<and>
    (\<exists>b. QwordVecSerialize wit_heap [2 ^ 40] (newBuffer (replicate 48 0)) = Return (0, b) \<and> QwordVecDeserialize b [5] = Return (0, [2 ^ 40]))"
  by (rule number_vectors_roundtrip [OF _ wit_roomy]) (simp_all add: mem_buf_def)

lemma int_map_never_reads_back_witness:
  "\<exists>b. IntMapSerialize wit_heap [(1, 2), (3, 4)] (newBuffer (replicate 48 0)) = Return (0, b) \<and> IntMapDeserialize b [(5, 6)] = Return (- ENOTSUP, [])"
  by (rule int_map_never_reads_back [OF _ wit_roomy]) (simp_all add: mem_buf_def)

lemma object_vector_roundtrip_witness:
  "\<exists>b b' dbs'. ObjVecSerialize wit_heap (cfg_ops wit_heap wit_objects (replicate 48 0) 4096)
      (List.map Some [[(7, wit_buffer 50)], [], [(- 1, wit_buffer 50), (7, wit_buffer 50)]]) (newBuffer (replicate 48 0)) = Return (0, b) \<and>
    ObjVecDeserializeFrom (cfg_ops wit_heap wit_objects (replicate 48 0) 4096) b [None] = Return (0, b', List.map Some dbs') \<and>
    list_all2 cfg_same [[(7, wit_buffer 50)], [], [(- 1, wit_buffer 50), (7, wit_buffer 50)]] dbs'"
  by (rule object_vector_roundtrip)
    (simp_all add: wit_roomy cfg_okay_def cfg_plain_def cfg_ok_def wit_buffer_facts wit_plain mem_buf_def)

lemma object_vector_read_once_witness:
  "\<exists>b b' b'' dbs'. ObjVecSerialize wit_heap (cfg_ops wit_heap wit_objects (replicate 48 0) 4096) (List.map Some [[(7, wit_buffer 50)]])
      (newBuffer (replicate 48 0)) = Return (0, b) \<and>
    ObjVecDeserializeFrom (cfg_ops wit_heap wit_objects (replicate 48 0) 4096) b [] = Return (0, b', dbs') \<and>
    ObjVecDeserializeFrom (cfg_ops wit_heap wit_objects (replicate 48 0) 4096) b' [None] = Return (- EINVAL, b'', [None])"
  by (rule object_vector_read_once)
    (simp_all add: wit_roomy cfg_okay_def cfg_plain_def cfg_ok_def wit_buffer_facts wit_plain mem_buf_def)


end
