(* ===== verification/Seri.thy ===== *)
theory Seri
  imports BufSeri
begin

text \<open>
  The serialisation of the values a ridl interface passes: \<open>CSerialBase\<close> of
  \<open>combase/seribase.cpp\<close> and \<open>include/seribase.h\<close>. Numbers, strings, byte arrays and objects
  are appended to a \<open>CBuffer\<close> whose offset is moved to its end; arrays and maps follow a
  signature, \<open>(e)\<close> and \<open>[kv]\<close>, and are preceded by their size in bytes and their count.

  The C++ types are the datatype \<open>sty\<close>, the overloads of \<open>SerialElem\<close> and \<open>DeserialElem\<close> are its
  equations. A \<open>BufPtr\<close> is \<open>None\<close> when it is null. The buffer written to or read from is never
  null: every function checks this first, once it is enough. Structures are not here, their
  \<open>Serialize\<close> is generated code.
\<close>

subsection \<open>Types and values\<close>

text \<open>
  \<open>TNum w\<close> is every number of \<open>w\<close> bytes, \<open>bool\<close>, \<open>float\<close> and \<open>double\<close> included; its values are
  the bit patterns. \<open>gint8\<close> is apart: \<open>SerialElem\<close> admits it, no specialisation serves it.
\<close>

datatype sty = TNum nat | TInt8 | TStr | TBuf | TObj | TArr sty | TMap sty sty

text \<open>The buffers in a value are of type \<open>'b\<close>: \<open>cbuffer\<close> in the code, their bytes in the specification.\<close>

datatype 'b sval =
    VNum nat
  | VStr "u8 list"
  | VBuf "'b option"
  | VObj nat
  | VArr "'b sval list"
  | VMap "('b sval \<times> 'b sval) list"

primrec default_val :: "sty \<Rightarrow> 'b sval" where
  "default_val (TNum w) = VNum 0"
| "default_val TInt8 = VNum 0"
| "default_val TStr = VStr []"
| "default_val TBuf = VBuf None"
| "default_val TObj = VObj 0"
| "default_val (TArr t) = VArr []"
| "default_val (TMap k t) = VMap []"

abbreviation (input) MAX_ELEM_COUNT :: nat where "MAX_ELEM_COUNT \<equiv> 1000000"

subsection \<open>Writing\<close>

text \<open>The macro \<open>APPEND\<close>; the results of its calls are not looked at.\<close>

definition APPEND :: "heap \<Rightarrow> u8 list \<Rightarrow> nat \<Rightarrow> cbuffer \<Rightarrow> cbuffer outcome" where
  "APPEND hp ptr n b =
     bindOutcome (Append hp (Some ptr) n (snd (SetOffset 0 b))) (\<lambda>(_, b1).
       Return (snd (SetOffset (u32_add (dwOffset b) n) b1)))"

definition SerNum :: "heap \<Rightarrow> nat \<Rightarrow> nat \<Rightarrow> cbuffer \<Rightarrow> (int \<times> cbuffer) outcome" where
  "SerNum hp w val b = bindOutcome (APPEND hp (to_be w val) w b) (\<lambda>b1. Return (STATUS_SUCCESS, b1))"

definition SerStr :: "heap \<Rightarrow> u8 list \<Rightarrow> cbuffer \<Rightarrow> (int \<times> cbuffer) outcome" where
  "SerStr hp val b =
    (let i = length val mod 2 ^ 32 in
     if i \<ge> MAX_BYTES_PER_BUFFER then Return (- ERANGE, b)
     else bindOutcome (SerNum hp 4 i b) (\<lambda>(_, b1).
       if i > 0 then bindOutcome (APPEND hp val i b1) (\<lambda>b2. Return (STATUS_SUCCESS, b2))
       else Return (STATUS_SUCCESS, b1)))"

definition SerBuf :: "heap \<Rightarrow> cbuffer option \<Rightarrow> cbuffer \<Rightarrow> (int \<times> cbuffer) outcome" where
  "SerBuf hp val b =
    (let i = (case val of None \<Rightarrow> 0 | Some v \<Rightarrow> bufSize v) in
     if i \<ge> MAX_BYTES_PER_BUFFER then Return (- ERANGE, b)
     else bindOutcome (SerNum hp 4 i b) (\<lambda>(_, b1).
       case val of
         None \<Rightarrow> Return (STATUS_SUCCESS, b1)
       | Some v \<Rightarrow>
           if i = 0 then Return (STATUS_SUCCESS, b1)
           else bindOutcome (APPEND hp (drop (dwOffset v) (memBytes v)) i b1) (\<lambda>b2. Return (STATUS_SUCCESS, b2))))"

text \<open>
  The header of a null object ends with \<open>dwInfo\<close>, whose first byte in memory is the version:
  written as a number in network order it comes last.
\<close>

definition SerObj :: "heap \<Rightarrow> objects \<Rightarrow> nat \<Rightarrow> cbuffer \<Rightarrow> (int \<times> cbuffer) outcome" where
  "SerObj hp ob val b =
    (if val = 0 then
       bindOutcome (SerNum hp 4 Clsid_Invalid b) (\<lambda>(_, b1).
       bindOutcome (SerNum hp 4 0 b1) (\<lambda>(_, b2).
       bindOutcome (SerNum hp 4 1 b2) (\<lambda>(_, b3). Return (STATUS_SUCCESS, b3))))
     else let (ret, bs) = ObjSerialize ob val in
       if ERROR ret then Return (ret, b)
       else if length bs \<ge> MAX_BYTES_PER_BUFFER then Return (- ERANGE, b)
       else bindOutcome (APPEND hp bs (length bs) b) (\<lambda>b1. Return (STATUS_SUCCESS, b1)))"

text \<open>The loop over the elements, which stops at the first error.\<close>

primrec ser_loop :: "('v \<Rightarrow> cbuffer \<Rightarrow> (int \<times> cbuffer) outcome) \<Rightarrow> 'v list \<Rightarrow> cbuffer \<Rightarrow> (int \<times> cbuffer) outcome" where
  "ser_loop f [] b = Return (0, b)"
| "ser_loop f (v # vs) b = bindOutcome (f v b) (\<lambda>(ret, b1). if ERROR ret then Return (ret, b1) else ser_loop f vs b1)"

text \<open>
  What arrays and maps share: the size, written as zero and patched at the end, the count, the
  elements. The result \<open>ret\<close> the loop sets is a variable of the inner block in both: outside it
  stays zero, an error of an element only skips the patch.
\<close>

definition ser_counted :: "heap \<Rightarrow> ('v \<Rightarrow> cbuffer \<Rightarrow> (int \<times> cbuffer) outcome) \<Rightarrow> 'v list \<Rightarrow> cbuffer \<Rightarrow> (int \<times> cbuffer) outcome" where
  "ser_counted hp f vs b =
    (let dwBytesOff = dwOffset b in
     bindOutcome (SerNum hp 4 0 b) (\<lambda>(_, b1).
     if vs = [] then bindOutcome (SerNum hp 4 0 b1) (\<lambda>(_, b2). Return (0, b2))
     else if length vs \<ge> MAX_ELEM_COUNT then Return (- ERANGE, b1)
     else bindOutcome (SerNum hp 4 (length vs) b1) (\<lambda>(_, b2).
     let dwHdrSize = u32_sub (dwOffset b2) dwBytesOff in
     bindOutcome (ser_loop f vs b2) (\<lambda>(ret, b3).
     if ERROR ret then Return (0, b3)
     else let dwBytes = u32_sub (u32_sub (dwOffset b3) dwBytesOff) dwHdrSize in
       bindOutcome (optOutcome (storeBytes b3 dwBytesOff (to_be 4 dwBytes))) (\<lambda>b4. Return (0, b4))))))"

text \<open>A \<open>szSignature\<close> is a string; what is left of it inside the brackets, if it has them.\<close>

definition elem_sig :: "char \<Rightarrow> char \<Rightarrow> string \<Rightarrow> string option" where
  "elem_sig lb rb szSignature =
    (if szSignature = [] \<or> hd szSignature \<noteq> lb then None
     else let strElemSig = tl szSignature in
       if strElemSig = [] \<or> last strElemSig \<noteq> rb then None else Some (butlast strElemSig))"

text \<open>\<open>SerialElem\<close>. The signature of a map must have a key: erasing from an empty string is undefined.\<close>

primrec SerialElem :: "sty \<Rightarrow> heap \<Rightarrow> objects \<Rightarrow> string \<Rightarrow> cbuffer sval \<Rightarrow> cbuffer \<Rightarrow> (int \<times> cbuffer) outcome" where
  "SerialElem (TNum w) = (\<lambda>hp ob sg v b. case v of VNum n \<Rightarrow> SerNum hp w n b | _ \<Rightarrow> Undefined)"
| "SerialElem TInt8 = (\<lambda>hp ob sg v b. Return (- ENOTSUP, b))"
| "SerialElem TStr = (\<lambda>hp ob sg v b. case v of VStr s \<Rightarrow> SerStr hp s b | _ \<Rightarrow> Undefined)"
| "SerialElem TBuf = (\<lambda>hp ob sg v b. case v of VBuf p \<Rightarrow> SerBuf hp p b | _ \<Rightarrow> Undefined)"
| "SerialElem TObj = (\<lambda>hp ob sg v b. case v of VObj p \<Rightarrow> SerObj hp ob p b | _ \<Rightarrow> Undefined)"
| "SerialElem (TArr t) = (\<lambda>hp ob sg v b. case v of
      VArr vs \<Rightarrow> (case elem_sig (CHR ''('') (CHR '')'') sg of
          None \<Rightarrow> Return (- EINVAL, b)
        | Some es \<Rightarrow> ser_counted hp (SerialElem t hp ob es) vs b)
    | _ \<Rightarrow> Undefined)"
| "SerialElem (TMap k t) = (\<lambda>hp ob sg v b. case v of
      VMap kvs \<Rightarrow> (case elem_sig (CHR ''['') (CHR '']'') sg of
          None \<Rightarrow> Return (- EINVAL, b)
        | Some [] \<Rightarrow> Undefined
        | Some (c # es) \<Rightarrow> ser_counted hp (\<lambda>kv b. bindOutcome (SerialElem k hp ob [c] (fst kv) b) (\<lambda>(ret, b1).
              if ERROR ret then Return (ret, b1) else SerialElem t hp ob es (snd kv) b1)) kvs b)
    | _ \<Rightarrow> Undefined)"

subsection \<open>Reading\<close>

text \<open>A reader returns its result, the buffer moved on, and what it left in the variable.\<close>

definition DeserNum :: "nat \<Rightarrow> cbuffer \<Rightarrow> nat \<Rightarrow> (int \<times> cbuffer \<times> nat) outcome" where
  "DeserNum w b val =
    (if bufEmpty b then Return (- EINVAL, b, val)
     else if bufSize b < w then Return (- ERANGE, b, val)
     else bindOutcome (optOutcome (loadBytes b (dwOffset b) w)) (\<lambda>bs.
       Return (STATUS_SUCCESS, snd (IncOffset w b), of_be bs)))"

text \<open>The count of a string is cut to what the buffer has.\<close>

definition DeserStr :: "cbuffer \<Rightarrow> u8 list \<Rightarrow> (int \<times> cbuffer \<times> u8 list) outcome" where
  "DeserStr b val =
    (if bufEmpty b then Return (- EINVAL, b, val)
     else bindOutcome (DeserNum 4 b 0) (\<lambda>(ret, b1, dwCount).
       if ERROR ret then Return (ret, b1, val)
       else if dwCount = 0 then Return (ret, b1, [])
       else let dwBytes = min dwCount (bufSize b1) in
         bindOutcome (optOutcome (loadBytes b1 (dwOffset b1) dwBytes)) (\<lambda>bs.
           Return (STATUS_SUCCESS, snd (IncOffset dwBytes b1), bs))))"

text \<open>The count of a byte array is not compared with anything. \<open>stale\<close> is the array of a new buffer.\<close>

definition DeserBuf :: "heap \<Rightarrow> u8 list \<Rightarrow> cbuffer \<Rightarrow> cbuffer option \<Rightarrow> (int \<times> cbuffer \<times> cbuffer option) outcome" where
  "DeserBuf hp stale b val =
    (let v = (case val of None \<Rightarrow> newBuffer stale | Some v \<Rightarrow> v) in
     bindOutcome (DeserNum 4 b 0) (\<lambda>(ret, b1, i).
       if ERROR ret then Return (ret, b1, Some v)
       else if i = 0 then Return (STATUS_SUCCESS, b1, None)
       else bindOutcome (Append hp (Some (drop (dwOffset b1) (memBytes b1))) i v) (\<lambda>(ret2, v2).
         if ERROR ret2 then Return (ret2, b1, Some v2)
         else Return (STATUS_SUCCESS, snd (IncOffset i b1), Some v2))))"

text \<open>
  The header of an object is only looked at; the object reads it again from the buffer, and
  the offset moves behind object and header. For a null object it does not move.
\<close>

definition DeserObj :: "objects \<Rightarrow> cbuffer \<Rightarrow> nat \<Rightarrow> (int \<times> cbuffer \<times> nat) outcome" where
  "DeserObj ob b val =
    (if bufSize b < 12 then Return (- ERANGE, b, val)
     else bindOutcome (optOutcome (loadBytes b (dwOffset b) 8)) (\<lambda>hd.
       let dwClsid = of_be (take 4 hd); dwSize = of_be (drop 4 hd) in
       if dwSize > u32_sub (bufSize b) 12 then Return (- ERANGE, b, val)
       else if dwSize = 0 then Return (0, b, 0)
       else (case NewObj ob dwClsid of (ret, p) \<Rightarrow>
         if ERROR ret then Return (ret, b, val)
         else if p = 0 then Undefined
         else let ret2 = ObjDeserialize ob p (window b) in
           if ERROR ret2 then Return (ret2, b, p)
           else Return (STATUS_SUCCESS, snd (IncOffset (u32_add dwSize 12) b), p))))"

text \<open>The elements of a resized vector are filled one after the other, until an error.\<close>

primrec deser_loop :: "('v \<Rightarrow> cbuffer \<Rightarrow> (int \<times> cbuffer \<times> 'v) outcome) \<Rightarrow> 'v list \<Rightarrow> cbuffer \<Rightarrow> (int \<times> cbuffer \<times> 'v list) outcome" where
  "deser_loop f [] b = Return (0, b, [])"
| "deser_loop f (v # vs) b = bindOutcome (f v b) (\<lambda>(ret, b1, v1).
     if ERROR ret then Return (ret, b1, v1 # vs)
     else bindOutcome (deser_loop f vs b1) (\<lambda>(ret2, b2, vs2). Return (ret2, b2, v1 # vs2)))"

text \<open>
  \<open>DeserialArray\<close> declares \<open>ret\<close> a second time after the counts: everything that goes wrong
  from there on is lost, the function returns the zero of the outer variable.
\<close>

definition DeserArray :: "'v \<Rightarrow> ('v \<Rightarrow> cbuffer \<Rightarrow> (int \<times> cbuffer \<times> 'v) outcome) \<Rightarrow> 'v list \<Rightarrow> cbuffer \<Rightarrow>
    (int \<times> cbuffer \<times> 'v list) outcome" where
  "DeserArray dflt f vs b =
     bindOutcome (DeserNum 4 b 0) (\<lambda>(ret, b1, dwBytes).
     if ERROR ret then Return (ret, b1, vs)
     else if dwBytes > MAX_BYTES_PER_BUFFER then Return (- ERANGE, b1, vs)
     else bindOutcome (DeserNum 4 b1 0) (\<lambda>(ret, b2, dwCount).
     if ERROR ret then Return (ret, b2, vs)
     else if dwBytes = 0 \<or> dwCount = 0 then Return (ret, b2, vs)
     else if dwCount \<ge> MAX_ELEM_COUNT then Return (ret, b2, vs)
     else bindOutcome (deser_loop f (take dwCount (vs @ replicate dwCount dflt)) b2) (\<lambda>(_, b3, vs1).
       Return (ret, b3, vs1))))"

text \<open>\<open>insert\<close> of \<open>std::map\<close>: ordered by \<open>kl\<close>, the key's \<open>operator<\<close>; an equal key keeps its value.\<close>

primrec map_insert :: "('k \<Rightarrow> 'k \<Rightarrow> bool) \<Rightarrow> 'k \<times> 'v \<Rightarrow> ('k \<times> 'v) list \<Rightarrow> ('k \<times> 'v) list" where
  "map_insert kl kv [] = [kv]"
| "map_insert kl kv (x # xs) =
     (if kl (fst x) (fst kv) then x # map_insert kl kv xs
      else if kl (fst kv) (fst x) then kv # x # xs else x # xs)"

primrec map_loop :: "('k \<Rightarrow> 'k \<Rightarrow> bool) \<Rightarrow> (cbuffer \<Rightarrow> (int \<times> cbuffer \<times> 'k) outcome) \<Rightarrow> (cbuffer \<Rightarrow> (int \<times> cbuffer \<times> 'v) outcome) \<Rightarrow>
    nat \<Rightarrow> ('k \<times> 'v) list \<Rightarrow> cbuffer \<Rightarrow> (int \<times> cbuffer \<times> ('k \<times> 'v) list) outcome" where
  "map_loop kl fk fv 0 m b = Return (0, b, m)"
| "map_loop kl fk fv (Suc n) m b =
     bindOutcome (fk b) (\<lambda>(ret, b1, k).
     if ERROR ret then Return (ret, b1, m)
     else bindOutcome (fv b1) (\<lambda>(ret2, b2, v).
     if ERROR ret2 then Return (ret2, b2, m)
     else map_loop kl fk fv n (map_insert kl (k, v) m) b2))"

text \<open>\<open>DeserialMap\<close> has one \<open>ret\<close>, and compares the bytes read with the size announced.\<close>

definition DeserMap :: "('k \<Rightarrow> 'k \<Rightarrow> bool) \<Rightarrow> (cbuffer \<Rightarrow> (int \<times> cbuffer \<times> 'k) outcome) \<Rightarrow> (cbuffer \<Rightarrow> (int \<times> cbuffer \<times> 'v) outcome) \<Rightarrow>
    ('k \<times> 'v) list \<Rightarrow> cbuffer \<Rightarrow> (int \<times> cbuffer \<times> ('k \<times> 'v) list) outcome" where
  "DeserMap kl fk fv m b =
     bindOutcome (DeserNum 4 b 0) (\<lambda>(ret, b1, dwBytes).
     if ERROR ret then Return (ret, b1, m)
     else if dwBytes > MAX_BYTES_PER_BUFFER then Return (- ERANGE, b1, m)
     else bindOutcome (DeserNum 4 b1 0) (\<lambda>(ret, b2, dwCount).
     if ERROR ret then Return (ret, b2, m)
     else if dwCount = 0 then Return (ret, b2, m)
     else if dwCount \<ge> MAX_ELEM_COUNT then Return (- ERANGE, b2, m)
     else let dwHdrSize = u32_sub (dwOffset b2) (dwOffset b) in
       bindOutcome (map_loop kl fk fv dwCount m b2) (\<lambda>(ret, b3, m1).
       if ERROR ret then Return (ret, b3, m1)
       else if u32_sub (u32_sub (dwOffset b3) (dwOffset b)) dwHdrSize \<noteq> dwBytes then Return (- EBADMSG, b3, m1)
       else Return (ret, b3, m1))))"

text \<open>The guards in front of an array and of a map.\<close>

definition deser_guard :: "char \<Rightarrow> char \<Rightarrow> string \<Rightarrow> cbuffer \<Rightarrow> string option" where
  "deser_guard lb rb sg b =
    (if bufEmpty b \<or> sg = [] \<or> hd sg \<noteq> lb \<or> bufSize b < 8 then None else elem_sig lb rb sg)"

definition out_map :: "('a \<Rightarrow> 'b) \<Rightarrow> (int \<times> cbuffer \<times> 'a) outcome \<Rightarrow> (int \<times> cbuffer \<times> 'b) outcome" where
  "out_map g r = bindOutcome r (\<lambda>(ret, b, x). Return (ret, b, g x))"

primrec DeserialElem :: "sty \<Rightarrow> heap \<Rightarrow> objects \<Rightarrow> u8 list \<Rightarrow> (cbuffer sval \<Rightarrow> cbuffer sval \<Rightarrow> bool) \<Rightarrow> string \<Rightarrow>
    cbuffer sval \<Rightarrow> cbuffer \<Rightarrow> (int \<times> cbuffer \<times> cbuffer sval) outcome" where
  "DeserialElem (TNum w) = (\<lambda>hp ob stale kl sg v b. case v of VNum n \<Rightarrow> out_map VNum (DeserNum w b n) | _ \<Rightarrow> Undefined)"
| "DeserialElem TInt8 = (\<lambda>hp ob stale kl sg v b. Return (- ENOTSUP, b, v))"
| "DeserialElem TStr = (\<lambda>hp ob stale kl sg v b. case v of VStr s \<Rightarrow> out_map VStr (DeserStr b s) | _ \<Rightarrow> Undefined)"
| "DeserialElem TBuf = (\<lambda>hp ob stale kl sg v b. case v of VBuf p \<Rightarrow> out_map VBuf (DeserBuf hp stale b p) | _ \<Rightarrow> Undefined)"
| "DeserialElem TObj = (\<lambda>hp ob stale kl sg v b. case v of VObj p \<Rightarrow> out_map VObj (DeserObj ob b p) | _ \<Rightarrow> Undefined)"
| "DeserialElem (TArr t) = (\<lambda>hp ob stale kl sg v b. case v of
      VArr vs \<Rightarrow> (case deser_guard (CHR ''('') (CHR '')'') sg b of
          None \<Rightarrow> Return (- EINVAL, b, v)
        | Some es \<Rightarrow> out_map VArr (DeserArray (default_val t) (DeserialElem t hp ob stale kl es) vs b))
    | _ \<Rightarrow> Undefined)"
| "DeserialElem (TMap k t) = (\<lambda>hp ob stale kl sg v b. case v of
      VMap m \<Rightarrow> (case deser_guard (CHR ''['') (CHR '']'') sg b of
          None \<Rightarrow> Return (- EINVAL, b, v)
        | Some [] \<Rightarrow> Undefined
        | Some (c # es) \<Rightarrow> out_map VMap (DeserMap kl (DeserialElem k hp ob stale kl [c] (default_val k))
              (DeserialElem t hp ob stale kl es (default_val t)) m b))
    | _ \<Rightarrow> Undefined)"

subsection \<open>The format\<close>

text \<open>The signature of a type, as ridl writes it, and the bytes of a value.\<close>

primrec sig_of :: "sty \<Rightarrow> string" where
  "sig_of (TNum w) = (if w = 1 then ''b'' else if w = 2 then ''w'' else if w = 4 then ''d'' else ''q'')"
| "sig_of TInt8 = ''b''"
| "sig_of TStr = ''s''"
| "sig_of TBuf = ''a''"
| "sig_of TObj = ''o''"
| "sig_of (TArr t) = CHR ''('' # sig_of t @ [CHR '')'']"
| "sig_of (TMap k t) = CHR ''['' # sig_of k @ sig_of t @ [CHR '']'']"





lemma sig_of_nonempty: "sig_of t \<noteq> []"
  by (induction t) auto

lemma elem_sig_brackets [simp]: "elem_sig lb rb (lb # s @ [rb]) = Some s"
  by (simp add: elem_sig_def)

lemma deser_guard_brackets [simp]:
  "\<not> bufEmpty b \<Longrightarrow> 8 \<le> bufSize b \<Longrightarrow> deser_guard lb rb (lb # s @ [rb]) b = Some s"
  by (simp add: deser_guard_def)


subsection \<open>The buffer while it is written\<close>

text \<open>The offset is at the end: everything in front of it is the output.\<close>

definition wr :: "cbuffer \<Rightarrow> u8 list \<Rightarrow> bool" where
  "wr b out \<longleftrightarrow> buf_wf b \<and> GetDataType b = DataTypeMem \<and> dwOffset b = dwTailOff b \<and> take (dwTailOff b) (memBytes b) = out"

lemma wr_offset: "wr b out \<Longrightarrow> dwOffset b = length out"
  using buf_wf_lengths(1) [of b] by (auto simp: wr_def buf_wf_def [of b])

lemma Resize_offset0: "dwOffset b = 0 \<Longrightarrow> Resize hp n b = Return (ret, b') \<Longrightarrow> dwOffset b' = 0"
  by (auto simp: Resize_def ResizeMem_def ResizeWithOffset_def throwOnError_def Let_def SetExDataType_def SetDataType_def
      SetBuffer_def loadBytes_def storeBytes_def ERROR_def split: if_splits option.splits membase.splits)

lemma Append_offset0: "dwOffset b = 0 \<Longrightarrow> Append hp p n b = Return (ret, b') \<Longrightarrow> dwOffset b' = 0"
  using Resize_offset0 [of b hp "u32_add (bufSize b) n"]
  by (cases "Resize hp (u32_add (bufSize b) n) b")
    (auto simp: Append_def SetExDataType_def storeBytes_def split: if_splits option.splits membase.splits)

lemma APPEND_spec:
  assumes w: "wr b out" and n: "0 < n" "n \<le> length ptr" "length out + n \<le> MAX_BYTES_PER_BUFFER" and hp: "roomy hp stale"
  obtains b' where "APPEND hp ptr n b = Return b'" "wr b' (out @ take n ptr)"
proof -
  have wf: "buf_wf b" "GetDataType b = DataTypeMem" "dwOffset b = length out" "dwTailOff b = length out"
    "take (length out) (memBytes b) = out"
    using w wr_offset [OF w] by (simp_all add: wr_def)
  define b0 where "b0 = snd (SetOffset 0 b)"
  have wf0: "buf_wf b0" "GetDataType b0 = DataTypeMem" using wf by (simp_all add: b0_def step_preserves)
  have o0: "dwOffset b0 = 0" "dwTailOff b0 = length out" "memBytes b0 = memBytes b"
    using wf by (auto simp: b0_def SetOffset_def GetTailOff_def memBytes_def buf_wf_def split: membase.splits)
  have s0: "bufSize b0 = length out" using buf_wf_lengths(2) [OF wf0(1)] o0 by simp
  then have w0: "window b0 = out" using o0 wf(5) by (simp add: window_def)
  have sz: "bufSize b0 + n \<le> MAX_BYTES_PER_BUFFER" using s0 n(3) by simp
  obtain b1 where b1: "Append hp (Some ptr) n b0 = Return (0, b1)" "buf_wf b1" "GetDataType b1 = DataTypeMem"
    "window b1 = out @ take n ptr"
    using hp w0 by (cases rule: Append_cases [OF wf0 n(1) sz n(2), of hp]) (auto simp: roomy_def)
  have o1: "dwOffset b1 = 0" using Append_offset0 [OF o0(1) b1(1)] .
  have t1: "dwTailOff b1 = length out + n"
    using buf_wf_lengths(2,4) [OF b1(2)] o1 b1(4) n(2) by simp
  then have nn: "base b1 \<noteq> NullBase" using b1(2) n(1) by (auto simp: buf_wf_def)
  have ua: "u32_add (dwOffset b) n = length out + n" using wf(3) n(3) by (simp add: u32_simps)
  define b2 where "b2 = b1\<lparr>dwOffset := length out + n\<rparr>"
  have so: "SetOffset (length out + n) b1 = (STATUS_SUCCESS, b2)"
    using b1(3) nn t1 by (simp add: SetOffset_def GetTailOff_def b2_def)
  have "memBytes b2 = memBytes b1" by (simp add: b2_def memBytes_def split: membase.split)
  moreover have "take (length out + n) (memBytes b1) = out @ take n ptr"
    using b1(4) o1 t1 buf_wf_lengths(2) [OF b1(2)] by (simp add: window_def)
  moreover have "buf_wf b2" using b1(2) t1 by (auto simp: buf_wf_def b2_def split: membase.splits)
  ultimately have "wr b2 (out @ take n ptr)" using t1 b1(3) by (simp add: wr_def b2_def GetDataType_def)
  then show thesis using b1(1) so ua by (intro that [of b2]) (simp_all add: APPEND_def bindOutcome_def b0_def)
qed

lemma SerNum_spec:
  assumes "wr b out" "0 < w" "length out + w \<le> MAX_BYTES_PER_BUFFER" "roomy hp stale"
  obtains b' where "SerNum hp w val b = Return (0, b')" "wr b' (out @ to_be w val)"
  by (rule APPEND_spec [OF assms(1,2) _ assms(3,4), of "to_be w val"]) (auto simp: SerNum_def bindOutcome_def intro: that)

subsection \<open>What is written\<close>











subsection \<open>What is read back\<close>

definition reads :: "(cbuffer \<Rightarrow> (int \<times> cbuffer \<times> 'v) outcome) \<Rightarrow> u8 list \<Rightarrow> ('v \<Rightarrow> bool) \<Rightarrow> bool" where
  "reads f x P \<longleftrightarrow> (\<forall>b rest. rd b (x @ rest) \<longrightarrow>
     (\<exists>b' v. f b = Return (0, b', v) \<and> rd b' rest \<and> dwOffset b' = dwOffset b + length x \<and> P v))"

lemma readsD: "reads f x P \<Longrightarrow> rd b (x @ rest) \<Longrightarrow>
   \<exists>b' v. f b = Return (0, b', v) \<and> rd b' rest \<and> dwOffset b' = dwOffset b + length x \<and> P v"
  by (simp add: reads_def)


lemma DeserNum_reads: "0 < w \<Longrightarrow> n < 256 ^ w \<Longrightarrow> reads (\<lambda>b. DeserNum w b m) (to_be w n) (\<lambda>v. v = n)"
  unfolding reads_def
proof (intro allI impI)
  fix b rest assume a: "0 < w" "n < 256 ^ w" and r: "rd b (to_be w n @ rest)"
  note f = rd_facts [OF r]
  have w: "w \<le> length (to_be w n @ rest)" by simp
  obtain b' where "IncOffset w b = (STATUS_SUCCESS, b')" "rd b' (drop w (to_be w n @ rest))" "dwOffset b' = dwOffset b + w"
    by (rule IncOffset_spec [OF r w])
  then show "\<exists>b' v. DeserNum w b m = Return (0, b', v) \<and> rd b' rest \<and> dwOffset b' = dwOffset b + length (to_be w n) \<and> v = n"
    using f(1,2) f(5) [OF w] a by (simp add: DeserNum_def bindOutcome_def optOutcome_def of_be_to_be)
qed

lemma DeserNum_4:
  assumes "rd b (to_be 4 n @ rest)" "n < 2 ^ 32"
  obtains b' where "DeserNum 4 b m = Return (0, b', n)" "rd b' rest" "dwOffset b' = dwOffset b + 4"
  using readsD [OF DeserNum_reads assms(1), of m] assms(2) by auto
















subsection \<open>Properties\<close>

lemma wr_new: "roomy hp stale \<Longrightarrow> wr (newBuffer stale) []"
  by (simp add: wr_def roomy_def) (simp add: newBuffer_def SetExDataType_def SetDataType_def)

lemma rewind:
  assumes "wr b out" "out \<noteq> []"
  shows "rd (snd (SetOffset 0 b)) out" "dwOffset (snd (SetOffset 0 b)) = 0"
    "memBytes (snd (SetOffset 0 b)) = memBytes b"
proof -
  have b: "buf_wf b" "GetDataType b = DataTypeMem" "take (dwTailOff b) (memBytes b) = out" "dwTailOff b = length out"
    using assms(1) wr_offset [OF assms(1)] by (simp_all add: wr_def)
  have nn: "base b \<noteq> NullBase" using b assms(2) by (auto simp: memBytes_def)
  define b0 where "b0 = b\<lparr>dwOffset := 0\<rparr>"
  have so: "snd (SetOffset 0 b) = b0" using b(2) nn by (simp add: SetOffset_def b0_def)
  have wf: "buf_wf b0" using b(1) by (auto simp: buf_wf_def b0_def split: membase.splits)
  have mem: "memBytes b0 = memBytes b" by (simp add: b0_def memBytes_def split: membase.split)
  have "window b0 = out" using buf_wf_lengths(2) [OF wf] mem b(3) by (simp add: window_def b0_def)
  then have "rd b0 out" using wf b(2) nn by (simp add: rd_def b0_def GetDataType_def)
  then show "rd (snd (SetOffset 0 b)) out" "dwOffset (snd (SetOffset 0 b)) = 0" "memBytes (snd (SetOffset 0 b)) = memBytes b"
    using so mem by (simp_all add: b0_def)
qed


text \<open>
  An array that is cut off is accepted: when the input ends behind the two counts,
  \<open>DeserialArray\<close> returns 0 and as many zero elements as were announced, because the error of
  the elements is kept in a second variable of the same name.
\<close>

theorem truncated_array_accepted:
  assumes "buf_wf b" "GetDataType b = DataTypeMem" "base b \<noteq> NullBase" "window b = to_be 4 nb @ to_be 4 n"
    "0 < nb" "nb \<le> MAX_BYTES_PER_BUFFER" "0 < n" "n < MAX_ELEM_COUNT"
  shows "\<exists>b'. DeserialElem (TArr (TNum w)) hp ob stale kl (sig_of (TArr (TNum w))) (VArr []) b =
     Return (0, b', VArr (replicate n (VNum 0))) \<and> window b' = []"
proof -
  have r: "rd b (to_be 4 nb @ to_be 4 n)" using assms(1-4) by (simp add: rd_def)
  have lt: "nb < 2 ^ 32" "n < 2 ^ 32" using assms(6,8) by simp_all
  obtain b1 where b1: "DeserNum 4 b 0 = Return (0, b1, nb)" "rd b1 (to_be 4 n)" "dwOffset b1 = dwOffset b + 4"
    by (rule DeserNum_4 [OF r lt(1)])
  obtain b2 where b2: "DeserNum 4 b1 0 = Return (0, b2, n)" "rd b2 []" "dwOffset b2 = dwOffset b1 + 4"
    using DeserNum_4 [of b1 n "[]" 0] b1(2) lt(2) by (auto intro: that)
  have f: "DeserialElem (TNum w) hp ob stale kl s (VNum 0) b2 = Return (- EINVAL, b2, VNum 0)" for s
    using rd_facts(2) [OF b2(2)] by (simp add: DeserNum_def out_map_def bindOutcome_def)
  obtain m where m: "n = Suc m" using assms(7) by (cases n) auto
  have "deser_loop (DeserialElem (TNum w) hp ob stale kl s) (replicate n (VNum 0)) b2 = Return (- EINVAL, b2, replicate n (VNum 0))" for s
    unfolding m using f by (simp add: bindOutcome_def del: DeserialElem.simps)
  then have "DeserArray (VNum 0) (DeserialElem (TNum w) hp ob stale kl s) [] b = Return (0, b2, replicate n (VNum 0))" for s
    using b1(1) b2(1) assms(5-8) by (simp add: DeserArray_def bindOutcome_def del: DeserialElem.simps)
  moreover have "deser_guard (CHR ''('') (CHR '')'') (CHR ''('' # sig_of (TNum w) @ [CHR '')'']) b = Some (sig_of (TNum w))"
    using rd_facts(1,2) [OF r] by (intro deser_guard_brackets) simp_all
  ultimately show ?thesis using b2(2)
    by (simp add: out_map_def bindOutcome_def rd_def del: DeserialElem.simps(1) sig_of.simps(1))
qed

text \<open>
  A null object does not survive its neighbours: \<open>Serialize\<close> writes a header of 12 bytes for
  it, \<open>Deserialize\<close> recognises the null object and returns 0 without moving the offset, so
  whatever is read next reads the 12 bytes of the header.
\<close>

theorem null_object_not_consumed:
  assumes "roomy hp stale"
  shows "\<exists>b. SerialElem TObj hp ob sg (VObj 0) (newBuffer stale) = Return (0, b) \<and> bufSize (snd (SetOffset 0 b)) = 12 \<and>
     DeserialElem TObj hp ob stale kl sg (VObj p) (snd (SetOffset 0 b)) = Return (0, snd (SetOffset 0 b), VObj 0)"
proof -
  have s: "(0::nat) < 4" "length ([] :: u8 list) + 4 \<le> MAX_BYTES_PER_BUFFER" by simp_all
  obtain b1 where b1: "SerNum hp 4 Clsid_Invalid (newBuffer stale) = Return (0, b1)" "wr b1 ([] @ to_be 4 Clsid_Invalid)"
    by (rule SerNum_spec [OF wr_new [OF assms] s assms])
  have s1: "length ([] @ to_be 4 Clsid_Invalid) + 4 \<le> MAX_BYTES_PER_BUFFER" by simp
  obtain b2 where b2: "SerNum hp 4 0 b1 = Return (0, b2)" "wr b2 (([] @ to_be 4 Clsid_Invalid) @ to_be 4 0)"
    by (rule SerNum_spec [OF b1(2) s(1) s1 assms])
  have s2: "length (([] @ to_be 4 Clsid_Invalid) @ to_be 4 0) + 4 \<le> MAX_BYTES_PER_BUFFER" by simp
  obtain b3 where b3: "SerNum hp 4 1 b2 = Return (0, b3)" "wr b3 ((([] @ to_be 4 Clsid_Invalid) @ to_be 4 0) @ to_be 4 1)"
    by (rule SerNum_spec [OF b2(2) s(1) s2 assms])
  let ?b = "snd (SetOffset 0 b3)"
  have r: "rd ?b (to_be 4 Clsid_Invalid @ to_be 4 0 @ to_be 4 1)" using rewind(1) [OF b3(2)] by simp
  note f = rd_facts [OF r]
  have "loadBytes ?b (dwOffset ?b) 8 = Some (to_be 4 Clsid_Invalid @ to_be 4 0)" using f(5) [of 8] by simp
  then have "DeserObj ob ?b p = Return (0, ?b, 0)"
    using f(1) by (simp add: DeserObj_def bindOutcome_def optOutcome_def Let_def of_be_to_be)
  then show ?thesis using b1(1) b2(1) b3(1) f(1) by (auto simp: SerObj_def bindOutcome_def out_map_def)
qed

text \<open>
  The length of a byte array is trusted: when it exceeds the bytes left, \<open>Deserialize\<close>
  copies what lies behind the end of the block.
\<close>

theorem bytearray_length_trusted:
  assumes "roomy hp stale" "buf_wf b" "GetDataType b = DataTypeMem" "base b \<noteq> NullBase" "window b = to_be 4 n @ rest"
    "length (memBytes b) = dwOffset b + bufSize b" "length rest < n" "n \<le> MAX_BYTES_PER_BUFFER"
  shows "DeserialElem TBuf hp ob stale kl sg (VBuf None) b = Undefined"
proof -
  have r: "rd b (to_be 4 n @ rest)" using assms(2-5) by (simp add: rd_def)
  have lt: "n < 2 ^ 32" using assms(8) by simp
  obtain b1 where b1: "DeserNum 4 b 0 = Return (0, b1, n)" "rd b1 rest" "dwOffset b1 = dwOffset b + 4"
    by (rule DeserNum_4 [OF r lt])
  have "memBytes b1 = memBytes b"
    using b1(1) by (auto simp: DeserNum_def IncOffset_def SetOffset_def memBytes_def bindOutcome_def optOutcome_def
        split: if_splits option.splits membase.splits)
  then have src: "length (drop (dwOffset b1) (memBytes b1)) < n" using assms(6,7) b1(3) rd_facts(1) [OF r] by simp
  have nb: "buf_wf (newBuffer stale)" "GetDataType (newBuffer stale) \<in> {DataTypeMem, DataTypeObjPtr, DataTypeMsgPtr}"
    using assms(1) by (simp_all add: roomy_def)
  have al: "allocOk hp n" using assms(1) by (simp add: roomy_def)
  obtain v where "Resize hp n (newBuffer stale) = Return (0, v)"
    by (rule Resize_cases [OF nb, of n hp]) (use assms(8) al in auto)
  then have "Append hp (Some (drop (dwOffset b1) (memBytes b1))) n (newBuffer stale) = Undefined"
    using src assms(8) lt by (auto simp: Append_def u32_add_def)
  then show ?thesis using b1(1) src by (auto simp: DeserBuf_def bindOutcome_def Let_def out_map_def)
qed

text \<open>
  An array of \<open>gint8\<close> loses its elements without an error: no specialisation serialises
  them, the error stays inside the loop, and reading the result gives the empty array.
\<close>

theorem int8_array_lost:
  assumes "roomy hp stale" "vs \<noteq> []" "length vs < MAX_ELEM_COUNT"
  shows "\<exists>b d. SerialElem (TArr TInt8) hp ob (sig_of (TArr TInt8)) (VArr vs) (newBuffer stale) = Return (0, b) \<and>
     DeserialElem (TArr TInt8) hp ob stale kl (sig_of (TArr TInt8)) (VArr []) (snd (SetOffset 0 b)) = Return (0, d, VArr [])"
proof -
  have s: "(0::nat) < 4" "length ([] :: u8 list) + 4 \<le> MAX_BYTES_PER_BUFFER" by simp_all
  obtain b1 where b1: "SerNum hp 4 0 (newBuffer stale) = Return (0, b1)" "wr b1 ([] @ to_be 4 0)"
    by (rule SerNum_spec [OF wr_new [OF assms(1)] s assms(1)])
  have s1: "length ([] @ to_be 4 0) + 4 \<le> MAX_BYTES_PER_BUFFER" by simp
  obtain b2 where b2: "SerNum hp 4 (length vs) b1 = Return (0, b2)" "wr b2 (([] @ to_be 4 0) @ to_be 4 (length vs))"
    by (rule SerNum_spec [OF b1(2) s(1) s1 assms(1)])
  have "ser_loop (SerialElem TInt8 hp ob es) vs b2 = Return (- ENOTSUP, b2)" for es
    using assms(2) by (cases vs) (simp_all add: bindOutcome_def)
  then have ser: "ser_counted hp (SerialElem TInt8 hp ob es) vs (newBuffer stale) = Return (0, b2)" for es
    using b1(1) b2(1) assms(2,3) by (simp add: ser_counted_def bindOutcome_def Let_def del: SerialElem.simps)
  let ?b = "snd (SetOffset 0 b2)"
  have r: "rd ?b (to_be 4 0 @ to_be 4 (length vs))" using rewind(1) [OF b2(2)] by simp
  have lt: "(0::nat) < 2 ^ 32" "length vs < 2 ^ 32" using assms(3) by simp_all
  obtain d1 where d1: "DeserNum 4 ?b 0 = Return (0, d1, 0)" "rd d1 (to_be 4 (length vs))" "dwOffset d1 = dwOffset ?b + 4"
    by (rule DeserNum_4 [OF r lt(1)])
  obtain d2 where d2: "DeserNum 4 d1 0 = Return (0, d2, length vs)"
    using DeserNum_4 [of d1 "length vs" "[]" 0] d1(2) lt(2) by (auto intro: that)
  have "deser_guard (CHR ''('') (CHR '')'') (CHR ''('' # sig_of TInt8 @ [CHR '')'']) ?b = Some (sig_of TInt8)"
    using rd_facts(1,2) [OF r] by (intro deser_guard_brackets) simp_all
  moreover have "DeserArray (VNum 0) f [] ?b = Return (0, d2, [])" for f :: "cbuffer sval \<Rightarrow> cbuffer \<Rightarrow> (int \<times> cbuffer \<times> cbuffer sval) outcome"
    using d1(1) d2 by (simp add: DeserArray_def bindOutcome_def)
  moreover have "elem_sig (CHR ''('') (CHR '')'') (CHR ''('' # sig_of TInt8 @ [CHR '')'']) = Some (sig_of TInt8)"
    by (rule elem_sig_brackets)
  ultimately show ?thesis using ser by (simp add: out_map_def bindOutcome_def del: SerialElem.simps(2) DeserialElem.simps(2) sig_of.simps(2))
qed

subsection \<open>Concrete instances\<close>

definition wit_less :: "cbuffer sval \<Rightarrow> cbuffer sval \<Rightarrow> bool" where
  "wit_less a b = (case (a, b) of (VNum x, VNum y) \<Rightarrow> x < y | _ \<Rightarrow> False)"


definition wit_counts :: cbuffer where
  "wit_counts = \<lparr>arrBuf = to_be 4 12 @ to_be 4 3 @ replicate 40 0, base = ArrBase, actSize = 8, dwType = 0,
     dwOffset = 0, dwTailOff = 8, held = 0\<rparr>"

definition wit_short :: cbuffer where
  "wit_short = \<lparr>arrBuf = replicate 48 0, base = HeapBase (to_be 4 100 @ replicate 50 0), actSize = 54, dwType = 0,
     dwOffset = 0, dwTailOff = 54, held = 0\<rparr>"


lemma wit_counts_facts:
  "buf_wf wit_counts" "GetDataType wit_counts = DataTypeMem" "base wit_counts \<noteq> NullBase" "window wit_counts = to_be 4 12 @ to_be 4 3"
  by (simp_all add: wit_counts_def buf_wf_def GetDataType_def window_def bufSize_def GetTailOff_def u32_sub_def memBytes_def)

lemma truncated_array_accepted_witness:
  "\<exists>b'. DeserialElem (TArr (TNum 4)) wit_heap wit_objects [] wit_less (sig_of (TArr (TNum 4))) (VArr []) wit_counts =
     Return (0, b', VArr (replicate 3 (VNum 0))) \<and> window b' = []"
  by (rule truncated_array_accepted [OF wit_counts_facts]) simp_all

lemma null_object_not_consumed_witness:
  "\<exists>b. SerialElem TObj wit_heap wit_objects ''o'' (VObj 0) (newBuffer (replicate 48 0)) = Return (0, b) \<and> bufSize (snd (SetOffset 0 b)) = 12 \<and>
     DeserialElem TObj wit_heap wit_objects (replicate 48 0) wit_less ''o'' (VObj 7) (snd (SetOffset 0 b)) = Return (0, snd (SetOffset 0 b), VObj 0)"
  by (rule null_object_not_consumed [OF wit_roomy])

lemma bytearray_length_trusted_witness:
  "DeserialElem TBuf wit_heap wit_objects (replicate 48 0) wit_less ''a'' (VBuf None) wit_short = Undefined"
proof (rule bytearray_length_trusted [OF wit_roomy])
  show "window wit_short = to_be 4 100 @ replicate 50 0"
    by (simp add: wit_short_def window_def bufSize_def GetTailOff_def u32_sub_def memBytes_def)
qed (simp_all add: wit_short_def buf_wf_def GetDataType_def bufSize_def GetTailOff_def u32_sub_def memBytes_def)

lemma int8_array_lost_witness:
  "\<exists>b d. SerialElem (TArr TInt8) wit_heap wit_objects (sig_of (TArr TInt8)) (VArr [VNum 1, VNum 2]) (newBuffer (replicate 48 0)) = Return (0, b) \<and>
     DeserialElem (TArr TInt8) wit_heap wit_objects (replicate 48 0) wit_less (sig_of (TArr TInt8)) (VArr []) (snd (SetOffset 0 b)) = Return (0, d, VArr [])"
  by (rule int8_array_lost [OF wit_roomy]) simp_all

subsection \<open>What is read has the type asked for\<close>

text \<open>
  The values of a C++ type, whatever the bytes they were read from: numbers of their width,
  buffers that are well formed, fewer than 1000000 elements, maps strictly ordered by their keys.
\<close>

primrec has_type :: "(cbuffer sval \<Rightarrow> cbuffer sval \<Rightarrow> bool) \<Rightarrow> sty \<Rightarrow> cbuffer sval \<Rightarrow> bool" where
  "has_type kl (TNum w) = (\<lambda>v. case v of VNum n \<Rightarrow> n < 256 ^ w | _ \<Rightarrow> False)"
| "has_type kl TInt8 = (\<lambda>v. case v of VNum n \<Rightarrow> n < 256 | _ \<Rightarrow> False)"
| "has_type kl TStr = (\<lambda>v. case v of VStr s \<Rightarrow> length s < 2 ^ 32 | _ \<Rightarrow> False)"
| "has_type kl TBuf = (\<lambda>v. case v of VBuf None \<Rightarrow> True | VBuf (Some b) \<Rightarrow> buf_wf b \<and> GetDataType b = DataTypeMem | _ \<Rightarrow> False)"
| "has_type kl TObj = (\<lambda>v. case v of VObj p \<Rightarrow> True | _ \<Rightarrow> False)"
| "has_type kl (TArr t) = (\<lambda>v. case v of VArr vs \<Rightarrow> length vs < MAX_ELEM_COUNT \<and> (\<forall>x \<in> set vs. has_type kl t x) | _ \<Rightarrow> False)"
| "has_type kl (TMap k t) = (\<lambda>v. case v of
      VMap kvs \<Rightarrow> length kvs < MAX_ELEM_COUNT \<and> sorted_wrt (\<lambda>a b. kl (fst a) (fst b)) kvs \<and>
        (\<forall>kv \<in> set kvs. has_type kl k (fst kv) \<and> has_type kl t (snd kv))
    | _ \<Rightarrow> False)"

lemma has_type_default: "has_type kl t (default_val t)"
  by (cases t) auto

lemma bindOutcome_Return:
  "bindOutcome r f = Return y \<longleftrightarrow> (\<exists>x. r = Return x \<and> f x = Return y)"
  by (cases r) (auto simp: bindOutcome_def)

lemma out_map_Return: "out_map g r = Return (ret, b, v) \<longleftrightarrow> (\<exists>x. r = Return (ret, b, x) \<and> v = g x)"
  by (auto simp: out_map_def bindOutcome_Return)

lemma optOutcome_Return: "optOutcome r = Return y \<longleftrightarrow> r = Some y"
  by (cases r) (simp_all add: optOutcome_def)

lemma loadBytes_length: "loadBytes b i n = Some bs \<Longrightarrow> length bs = n"
  by (auto simp: loadBytes_def split: if_splits)

lemmas returns = bindOutcome_Return optOutcome_Return out_map_Return

lemma DeserNum_bound: "DeserNum w b m = Return (ret, b', n) \<Longrightarrow> m < 256 ^ w \<Longrightarrow> n < 256 ^ w"
  by (auto simp: DeserNum_def returns split: if_splits dest!: loadBytes_length intro: order_less_le_trans [OF of_be_bound])

lemma DeserStr_bound: "DeserStr b s = Return (ret, b', s') \<Longrightarrow> length s < 2 ^ 32 \<Longrightarrow> length s' < 2 ^ 32"
  by (auto simp: DeserStr_def returns Let_def split: if_splits dest!: loadBytes_length dest: DeserNum_bound [of 4])

lemma DeserBuf_wf:
  assumes "DeserBuf hp stale b None = Return (ret, b', p)" "length stale = ARR_SIZE"
  shows "case p of None \<Rightarrow> True | Some v \<Rightarrow> buf_wf v \<and> GetDataType v = DataTypeMem"
proof -
  have nb: "buf_wf (newBuffer stale)" "GetDataType (newBuffer stale) = DataTypeMem" using assms(2) by simp_all
  have "buf_wf v \<and> GetDataType v = DataTypeMem" if "Append hp (Some blk) n (newBuffer stale) = Return (r, v)" for blk n r v
  proof (cases "n = 0 \<or> n > BUF_MAX_SIZE")
    case True
    then show ?thesis using that nb by (auto simp: Append_def)
  next
    case False
    note f = this
    have ty: "GetDataType (newBuffer stale) \<in> {DataTypeMem, DataTypeObjPtr, DataTypeMsgPtr}" by simp
    consider (fits) "n \<le> length blk" "n \<le> MAX_BYTES_PER_BUFFER" | (shorter) "length blk < n" | (big) "MAX_BYTES_PER_BUFFER < n" by linarith
    then show ?thesis
    proof cases
      case fits
      then show ?thesis using that f by (cases rule: Append_cases [OF nb, of n blk hp]) auto
    next
      case shorter
      then show ?thesis using that f nb by (auto simp: Append_def split: outcome.splits)
    next
      case big
      moreover have "u32_add 0 n = n" using f by (simp add: u32_add_def)
      moreover have "storeBytes (newBuffer stale) (dwOffset (newBuffer stale)) (take n blk) = None" if "n \<le> length blk"
        using that f by (simp add: storeBytes_def newBuffer_def memBytes_def)
      ultimately show ?thesis using that f
        by (cases rule: Resize_cases [OF nb(1) ty, of n hp]) (auto simp: Append_def split: if_splits)
    qed
  qed
  then show ?thesis using assms nb
    by (auto simp: DeserBuf_def returns Let_def split: option.splits if_splits)
qed

text \<open>The loops: what holds for every element read, holds for all that are in the result.\<close>

lemma deser_loop_all:
  assumes "deser_loop f vs b = Return (ret, b', vs')" "\<And>v b ret b' v'. v \<in> set vs \<Longrightarrow> f v b = Return (ret, b', v') \<Longrightarrow> P v'"
    "\<forall>v \<in> set vs. P v"
  shows "length vs' = length vs \<and> (\<forall>v \<in> set vs'. P v)"
  using assms
proof (induction vs arbitrary: b vs' ret b')
  case (Cons v vs)
  obtain r1 b1 v1 where f: "f v b = Return (r1, b1, v1)"
    "vs' = v1 # vs \<or> (\<exists>vs2. deser_loop f vs b1 = Return (ret, b', vs2) \<and> vs' = v1 # vs2)"
    using Cons.prems(1) by (cases "f v b") (auto simp: returns split: if_splits)
  have v1: "P v1" by (rule Cons.prems(2) [OF _ f(1)]) simp
  show ?case
  proof (cases "vs' = v1 # vs")
    case True
    then show ?thesis using v1 Cons.prems(3) by simp
  next
    case False
    then obtain vs2 where "deser_loop f vs b1 = Return (ret, b', vs2)" "vs' = v1 # vs2" using f(2) by auto
    moreover have "P v'" if "w \<in> set vs" "f w c = Return (r, c', v')" for w c r c' v'
      by (rule Cons.prems(2) [OF _ that(2)]) (simp add: that(1))
    ultimately show ?thesis using Cons.IH [of b1 ret b' vs2] Cons.prems(3) v1 by simp
  qed
qed simp

lemma map_insert_set: "set (map_insert kl kv m) \<subseteq> insert kv (set m)" "length (map_insert kl kv m) \<le> Suc (length m)"
  by (induction m) auto

lemma map_insert_sorted:
  assumes "transp kl" "sorted_wrt (\<lambda>a b. kl (fst a) (fst b)) m"
  shows "sorted_wrt (\<lambda>a b. kl (fst a) (fst b)) (map_insert kl kv m)"
  using assms(2)
proof (induction m)
  case (Cons x m)
  then show ?case using map_insert_set(1) [of kl kv m] transpD [OF assms(1), of "fst kv" "fst x"] by auto
qed simp

lemma map_loop_all:
  assumes "map_loop kl fk fv n m b = Return (ret, b', m')" "transp kl"
    "\<And>b ret b' k. fk b = Return (ret, b', k) \<Longrightarrow> P k" "\<And>b ret b' v. fv b = Return (ret, b', v) \<Longrightarrow> Q v"
    "sorted_wrt (\<lambda>a b. kl (fst a) (fst b)) m" "\<forall>kv \<in> set m. P (fst kv) \<and> Q (snd kv)"
  shows "sorted_wrt (\<lambda>a b. kl (fst a) (fst b)) m' \<and> (\<forall>kv \<in> set m'. P (fst kv) \<and> Q (snd kv)) \<and> length m' \<le> length m + n"
  using assms(1,5,6)
proof (induction n arbitrary: m b)
  case (Suc n)
  obtain r1 b1 k where k: "fk b = Return (r1, b1, k)"
    and rest: "(if ERROR r1 then Return (r1, b1, m) else bindOutcome (fv b1) (\<lambda>(ret2, b2, v).
       if ERROR ret2 then Return (ret2, b2, m) else map_loop kl fk fv n (map_insert kl (k, v) m) b2)) = Return (ret, b', m')"
    using Suc.prems(1) by (auto simp: returns)
  have one: ?case if v: "fv b1 = Return (r2, b2, v)" and loop: "map_loop kl fk fv n (map_insert kl (k, v) m) b2 = Return (ret, b', m')"
    for r2 b2 v
  proof -
    have "\<forall>kv \<in> set (map_insert kl (k, v) m). P (fst kv) \<and> Q (snd kv)"
      using map_insert_set(1) [of kl "(k, v)" m] Suc.prems(3) assms(3) [OF k] assms(4) [OF v] by auto
    from Suc.IH [OF loop map_insert_sorted [OF assms(2) Suc.prems(2)] this] show ?thesis
      using map_insert_set(2) [of kl "(k, v)" m] by auto
  qed
  have "ret = r1 \<and> m' = m \<or> (\<exists>r2 b2 v. fv b1 = Return (r2, b2, v) \<and>
      (m' = m \<or> map_loop kl fk fv n (map_insert kl (k, v) m) b2 = Return (ret, b', m')))"
    using rest by (auto simp: returns split: if_splits)
  then show ?case
  proof (elim disjE exE conjE)
    fix r2 b2 v assume "fv b1 = Return (r2, b2, v)" "map_loop kl fk fv n (map_insert kl (k, v) m) b2 = Return (ret, b', m')"
    then show ?case by (rule one)
  qed (use Suc.prems(2,3) in auto)
qed simp

lemma DeserArray_type:
  assumes "DeserArray d f [] b = Return (ret, b', vs)" "\<And>b ret b' v. f d b = Return (ret, b', v) \<Longrightarrow> P v" "P d"
  shows "length vs < MAX_ELEM_COUNT \<and> (\<forall>v \<in> set vs. P v)"
proof -
  have loop: "length vs = n \<and> (\<forall>v \<in> set vs. P v)" if "deser_loop f (replicate n d) c = Return (r, c', vs)" for n c r c'
    using deser_loop_all [OF that, of P] assms(2,3) by auto
  have "vs = [] \<or> (\<exists>n c r c'. n < MAX_ELEM_COUNT \<and> deser_loop f (replicate n d) c = Return (r, c', vs))"
    using assms(1) by (auto simp: DeserArray_def returns split: if_splits)
  then show ?thesis using loop by auto
qed

lemma DeserMap_type:
  assumes "DeserMap kl fk fv [] b = Return (ret, b', m)" "transp kl"
    "\<And>b ret b' k. fk b = Return (ret, b', k) \<Longrightarrow> P k" "\<And>b ret b' v. fv b = Return (ret, b', v) \<Longrightarrow> Q v"
  shows "length m < MAX_ELEM_COUNT \<and> sorted_wrt (\<lambda>a b. kl (fst a) (fst b)) m \<and> (\<forall>kv \<in> set m. P (fst kv) \<and> Q (snd kv))"
proof -
  have loop: "sorted_wrt (\<lambda>a b. kl (fst a) (fst b)) m \<and> (\<forall>kv \<in> set m. P (fst kv) \<and> Q (snd kv)) \<and> length m \<le> n"
    if "map_loop kl fk fv n [] c = Return (r, c', m)" for n c r c'
    using map_loop_all [OF that assms(2), of P Q] assms(3,4) by simp
  have "m = [] \<or> (\<exists>n c r c'. n < MAX_ELEM_COUNT \<and> map_loop kl fk fv n [] c = Return (r, c', m))"
    using assms(1) unfolding DeserMap_def returns Let_def by (auto simp: returns split: if_splits)
  then show ?thesis using loop by fastforce
qed

text \<open>
  C25: type safety of deserialisation. Whatever the bytes in the buffer and whatever the
  signature, a call that returns, with an error or without, leaves a value of the C++ type
  asked for in the variable: numbers fit their width, buffers are well formed, arrays and maps
  stay below 1000000 elements and maps are strictly ordered by their keys.
\<close>

theorem deserialized_value_has_type:
  assumes "DeserialElem t hp ob stale kl sg (default_val t) b = Return (ret, b', v)" "transp kl" "length stale = ARR_SIZE"
  shows "has_type kl t v"
  using assms(1)
proof (induction t arbitrary: sg b ret b' v)
  case (TNum w)
  then show ?case by (auto simp: returns dest: DeserNum_bound)
next
  case TInt8
  then show ?case by auto
next
  case TStr
  then show ?case by (auto simp: returns dest: DeserStr_bound)
next
  case TBuf
  then obtain p where p: "DeserBuf hp stale b None = Return (ret, b', p)" "v = VBuf p" by (auto simp: returns)
  then show ?case using DeserBuf_wf [OF p(1) assms(3)] by (simp split: option.splits)
next
  case TObj
  then show ?case by (auto simp: returns)
next
  case (TArr t)
  have arr: "has_type kl (TArr t) (VArr vs)"
    if "DeserArray (default_val t) (DeserialElem t hp ob stale kl es) [] b = Return (ret, b', vs)" for es vs
    using DeserArray_type [OF that, of "has_type kl t"] TArr.IH has_type_default by simp
  show ?case using TArr.prems arr by (auto simp: returns split: option.splits)
next
  case (TMap k t)
  have mp: "has_type kl (TMap k t) (VMap m)"
    if "DeserMap kl (DeserialElem k hp ob stale kl [c] (default_val k)) (DeserialElem t hp ob stale kl es (default_val t)) [] b =
      Return (ret, b', m)" for c es m
    using DeserMap_type [OF that assms(2), of "has_type kl k" "has_type kl t"] TMap.IH by simp
  show ?case using TMap.prems mp by (auto simp: returns split: option.splits list.splits)
qed

definition wit_pairs :: cbuffer where
  "wit_pairs = \<lparr>arrBuf = [0, 0, 0, 6, 0, 0, 0, 2, 7, 1, 1, 3, 2, 2] @ replicate 34 0, base = ArrBase, actSize = 14, dwType = 0,
     dwOffset = 0, dwTailOff = 14, held = 0\<rparr>"

lemma wit_pairs_read:
  "DeserialElem (TMap (TNum 1) (TNum 2)) wit_heap wit_objects (replicate 48 0) wit_less ''[bw]'' (default_val (TMap (TNum 1) (TNum 2))) wit_pairs =
     Return (0, wit_pairs\<lparr>dwOffset := 14\<rparr>, VMap [(VNum 3, VNum 514), (VNum 7, VNum 257)])"
  by (simp add: wit_pairs_def deser_guard_def elem_sig_def bufEmpty_def bufSize_def GetTailOff_def GetDataType_def u32_sub_def u32_add_def
      out_map_def DeserMap_def DeserNum_def loadBytes_def memBytes_def bindOutcome_def optOutcome_def of_be_def IncOffset_def SetOffset_def
      map_loop.simps(2) [where n = "Suc 0", folded numeral_2_eq_2] wit_less_def)

lemma deserialized_value_has_type_witness:
  "has_type wit_less (TMap (TNum 1) (TNum 2)) (VMap [(VNum 3, VNum 514), (VNum 7, VNum 257)])"
  by (rule deserialized_value_has_type [OF wit_pairs_read])
    (auto simp: transp_def wit_less_def split: sval.splits)

end
