(* ===== verification/UxSock.thy ===== *)
theory UxSock
  imports BufSeri
begin

text \<open>
  The receiving side of the byte-stream protocol of the local sockets, \<open>CRecvFilter\<close> of
  \<open>ipc/uxport.cpp\<close> and \<open>ipc/uxport.h\<close>; \<open>UxSend\<close> models the sending side. A packet on the wire is one byte of token, and for the
  data tokens four bytes of size (network order) and the payload. Both classes are resumed
  by \<open>OnIoReady\<close> whenever the descriptor is ready; the receiver keeps where it stopped in
  \<open>m_dwBytesToRead\<close> and \<open>m_dwOffsetRead\<close>.

  The socket is explicit: a list of chunks, each the most a single \<open>read\<close> returns, and what
  happens when they are used up. Buffers are those of \<open>Buffer\<close>, so every access to a payload
  is checked against the memory of its buffer.
\<close>

subsection \<open>Tokens and sockets\<close>

abbreviation (input) STM_MAX_BYTES_PER_BUF :: nat where "STM_MAX_BYTES_PER_BUF \<equiv> 64512"
abbreviation (input) UXBUF_OVERHEAD :: nat where "UXBUF_OVERHEAD \<equiv> 8"
abbreviation (input) NO_OFFSET :: nat where "NO_OFFSET \<equiv> 4294967295"

abbreviation (input) tokInvalid :: u8 where "tokInvalid \<equiv> 255"
abbreviation (input) tokData :: u8 where "tokData \<equiv> 1"
abbreviation (input) tokPing :: u8 where "tokPing \<equiv> 2"
abbreviation (input) tokPong :: u8 where "tokPong \<equiv> 3"
abbreviation (input) tokClose :: u8 where "tokClose \<equiv> 4"
abbreviation (input) tokProgress :: u8 where "tokProgress \<equiv> 5"
abbreviation (input) tokFlowCtrl :: u8 where "tokFlowCtrl \<equiv> 6"
abbreviation (input) tokLift :: u8 where "tokLift \<equiv> 7"

definition command_token :: "u8 \<Rightarrow> bool" where
  "command_token t \<longleftrightarrow> t = tokPing \<or> t = tokPong \<or> t = tokClose \<or> t = tokFlowCtrl \<or> t = tokLift"

definition payload_token :: "u8 \<Rightarrow> bool" where
  "payload_token t \<longleftrightarrow> t = tokData \<or> t = tokProgress"

text \<open>What a descriptor says when no chunk is left: try again, end of file, an error number.\<close>

datatype sock_end = Waiting | Closed | Broken int

record rsock =
  chunks :: "u8 list list"
  rend :: sock_end

datatype read_result = Got "u8 list" | Eof | Fail int

text \<open>\<open>read( fd, pos, n )\<close>: the start of the first chunk; an empty chunk is no chunk.\<close>

definition sock_read :: "nat \<Rightarrow> rsock \<Rightarrow> read_result \<times> rsock" where
  "sock_read n s = (case dropWhile (\<lambda>c. c = []) (chunks s) of
      [] \<Rightarrow> (case rend s of Waiting \<Rightarrow> Fail EAGAIN | Closed \<Rightarrow> Eof | Broken e \<Rightarrow> Fail e, s\<lparr>chunks := []\<rparr>)
    | c # cs \<Rightarrow> (Got (take n c), s\<lparr>chunks := (if length c > n then drop n c # cs else cs)\<rparr>))"

subsection \<open>Receiving\<close>

datatype RecvState = recvTok | recvSize | recvData

record recv_filter =
  dwBytesToRead :: nat
  dwOffsetRead :: nat
  dwBytesPending :: nat
  byToken :: u8
  queBufRead :: "cbuffer list"

text \<open>The constructor leaves \<open>m_byToken\<close> uninitialised.\<close>

definition new_recv :: "u8 \<Rightarrow> recv_filter" where
  "new_recv garbage = \<lparr>dwBytesToRead = 0, dwOffsetRead = NO_OFFSET, dwBytesPending = 0,
     byToken = garbage, queBufRead = []\<rparr>"

definition GetRecvState :: "recv_filter \<Rightarrow> RecvState" where
  "GetRecvState f = (if dwBytesToRead f = 0
     then if dwOffsetRead f = NO_OFFSET then recvTok else recvSize
     else recvData)"

text \<open>The buffer at the back of the queue is the one being filled.\<close>

definition set_back :: "cbuffer \<Rightarrow> recv_filter \<Rightarrow> recv_filter" where
  "set_back b f = f\<lparr>queBufRead := butlast (queBufRead f) @ [b]\<rparr>"

text \<open>
  The loop that reads the size. \<open>bFirst\<close> says that nothing was read in this call yet; the
  end of file counts as one only then, and the loop spins otherwise: such a run that does
  not end is \<open>None\<close>.
\<close>

partial_function (option) recv_size_loop ::
    "heap \<Rightarrow> bool \<Rightarrow> recv_filter \<Rightarrow> rsock \<Rightarrow> int \<Rightarrow> ((int \<times> recv_filter \<times> rsock) outcome) option" where
  "recv_size_loop hp bFirst f s ret =
    (if GetRecvState f \<noteq> recvSize then Some (Return (ret, f, s))
     else if queBufRead f = [] then Some Undefined
     else let pBuf = last (queBufRead f); iLeft = u32_sub 4 (dwOffsetRead f) in
       case sock_read iLeft s of
         (Got bs, s1) \<Rightarrow>
          (case storeBytes pBuf (dwOffset pBuf + dwOffsetRead f) bs of
             None \<Rightarrow> Some Undefined
           | Some b1 \<Rightarrow>
              (if length bs = iLeft then
                 (case loadBytes b1 (dwOffset b1) 4 of
                    None \<Rightarrow> Some Undefined
                  | Some w \<Rightarrow>
                     let f1 = (set_back b1 f)\<lparr>dwBytesToRead := of_be w\<rparr> in
                     if of_be w > STM_MAX_BYTES_PER_BUF \<or> of_be w = 0 then Some (Return (- EBADMSG, f1, s1))
                     else (case Resize hp (u32_add (of_be w) UXBUF_OVERHEAD) b1 of
                         Undefined \<Rightarrow> Some Undefined
                       | Throw b2 \<Rightarrow> Some (Throw b2)
                       | Return (_, b2) \<Rightarrow>
                           recv_size_loop hp bFirst
                             ((set_back (snd (SetOffset UXBUF_OVERHEAD b2)) f1)\<lparr>dwOffsetRead := 0\<rparr>) s1 (int (length bs))))
               else recv_size_loop hp bFirst
                      ((set_back b1 f)\<lparr>dwOffsetRead := u32_add (dwOffsetRead f) (length bs)\<rparr>) s1 (int (length bs))))
       | (Fail e, s1) \<Rightarrow> Some (Return (- e, f, s1))
       | (Eof, s1) \<Rightarrow> if bFirst then Some (Return (- ENOTCONN, f, s1)) else recv_size_loop hp bFirst f s1 0)"

text \<open>The loop that reads the payload.\<close>

partial_function (option) recv_data_loop ::
    "bool \<Rightarrow> recv_filter \<Rightarrow> rsock \<Rightarrow> int \<Rightarrow> ((int \<times> recv_filter \<times> rsock) outcome) option" where
  "recv_data_loop bFirst f s ret =
    (if dwBytesToRead f = 0 then Some (Return (ret, f, s))
     else if queBufRead f = [] then Some (Return (- EFAULT, f, s))
     else let pBuf = last (queBufRead f); iLeft = u32_sub (bufSize pBuf) (dwOffsetRead f) in
       if dwBytesToRead f > iLeft then Some (Return (- ERANGE, f, s))
       else case sock_read iLeft s of
         (Got bs, s1) \<Rightarrow>
          (case storeBytes pBuf (dwOffset pBuf + dwOffsetRead f) bs of
             None \<Rightarrow> Some Undefined
           | Some b1 \<Rightarrow>
              (if length bs = iLeft then
                 Some (Return (int (unat (byToken f)),
                   (set_back b1 f)\<lparr>dwOffsetRead := NO_OFFSET, dwBytesToRead := 0,
                      dwBytesPending := u32_add (dwBytesPending f) (bufSize b1), byToken := 0\<rparr>, s1))
               else recv_data_loop bFirst
                 ((set_back b1 f)\<lparr>dwBytesToRead := u32_sub (dwBytesToRead f) (length bs),
                    dwOffsetRead := u32_add (dwOffsetRead f) (length bs)\<rparr>) s1 (int (length bs))))
       | (Fail e, s1) \<Rightarrow> Some (Return (- e, f, s1))
       | (Eof, s1) \<Rightarrow> if bFirst then Some (Return (- ENOTCONN, f, s1)) else recv_data_loop bFirst f s1 0)"

text \<open>The part of \<open>OnIoReady\<close> after the token.\<close>

definition recv_rest :: "heap \<Rightarrow> bool \<Rightarrow> recv_filter \<Rightarrow> rsock \<Rightarrow> int \<Rightarrow> ((int \<times> recv_filter \<times> rsock) outcome) option" where
  "recv_rest hp bFirst f s ret =
    (case recv_size_loop hp bFirst f s ret of
       None \<Rightarrow> None
     | Some (Return (ret1, f1, s1)) \<Rightarrow>
         if ERROR ret1 then Some (Return (ret1, f1, s1))
         else if GetRecvState f1 \<noteq> recvData then Some (Return (ERROR_STATE, f1, s1))
         else recv_data_loop bFirst f1 s1 0
     | Some out \<Rightarrow> Some out)"

text \<open>An error other than \<open>-EAGAIN\<close> resets the state, but not the queue.\<close>

definition recv_reset :: "int \<times> recv_filter \<times> rsock \<Rightarrow> int \<times> recv_filter \<times> rsock" where
  "recv_reset r = (case r of (ret, f, s) \<Rightarrow>
     if ERROR ret \<and> ret \<noteq> - EAGAIN
     then (ret, f\<lparr>dwBytesToRead := 0, dwOffsetRead := NO_OFFSET\<rparr>, s) else r)"

definition map_outcome :: "('a \<Rightarrow> 'b) \<Rightarrow> 'a outcome \<Rightarrow> 'b outcome" where
  "map_outcome g r = (case r of Return x \<Rightarrow> Return (g x) | Throw b \<Rightarrow> Throw b | Undefined \<Rightarrow> Undefined)"

text \<open>
  \<open>CRecvFilter::OnIoReady\<close>. A failing \<open>read\<close> of the token with another error than
  \<open>EAGAIN\<close> falls through and is judged by the token \<open>tokInvalid\<close>.
\<close>

definition RecvOnIoReady :: "heap \<Rightarrow> u8 list \<Rightarrow> recv_filter \<Rightarrow> rsock \<Rightarrow> ((int \<times> recv_filter \<times> rsock) outcome) option" where
  "RecvOnIoReady hp stale f s = map_option (map_outcome recv_reset)
    (if GetRecvState f = recvTok then
       (case sock_read 1 s of
          (Eof, s1) \<Rightarrow> Some (Return (- ENOTCONN, f, s1))
        | (Fail e, s1) \<Rightarrow>
            if e = EAGAIN then Some (Return (- EAGAIN, f, s1))
            else Some (Return (- EBADMSG, f\<lparr>byToken := tokInvalid\<rparr>, s1))
        | (Got bs, s1) \<Rightarrow>
            let t = hd bs; f1 = f\<lparr>byToken := t\<rparr> in
            if command_token t then Some (Return (int (unat t), f1, s1))
            else if \<not> payload_token t then Some (Return (- EBADMSG, f1, s1))
            else (case Resize hp 4 (newBuffer stale) of
                Undefined \<Rightarrow> Some Undefined
              | Throw b \<Rightarrow> Some (Throw b)
              | Return (_, b) \<Rightarrow>
                  recv_rest hp False (f1\<lparr>dwOffsetRead := 0, queBufRead := queBufRead f @ [b]\<rparr>) s1 0))
     else recv_rest hp True f s 0)"

definition ReadStream :: "recv_filter \<Rightarrow> int \<times> cbuffer option \<times> recv_filter" where
  "ReadStream f = (case queBufRead f of
      [] \<Rightarrow> (- ENOENT, None, f)
    | b # q \<Rightarrow> if q = [] \<and> GetRecvState f \<noteq> recvTok then (- ENOENT, None, f)
        else (0, Some b, f\<lparr>queBufRead := q, dwBytesPending := u32_sub (dwBytesPending f) (bufSize b)\<rparr>))"

subsection \<open>What the receiver has so far\<close>

definition avail :: "rsock \<Rightarrow> u8 list" where
  "avail s = concat (chunks s)"

lemma concat_dropWhile_Nil: "concat (dropWhile (\<lambda>c. c = []) cs) = concat cs"
  by (induction cs) auto

lemma sock_read_got:
  assumes "avail s \<noteq> []" "0 < n"
  obtains bs s1 where "sock_read n s = (Got bs, s1)" "bs \<noteq> []" "length bs \<le> n" "avail s = bs @ avail s1"
    "rend s1 = rend s"
proof (cases "dropWhile (\<lambda>c. c = []) (chunks s)")
  case Nil
  then have "avail s = []" using concat_dropWhile_Nil [of "chunks s"] by (simp add: avail_def)
  then show thesis using assms by simp
next
  case (Cons c cs)
  have c: "c \<noteq> []" using hd_dropWhile [of "\<lambda>c. c = []" "chunks s"] Cons by auto
  have "avail s = c @ concat cs" using concat_dropWhile_Nil [of "chunks s"] Cons by (simp add: avail_def)
  then show thesis using Cons c assms(2)
    by (intro that [of "take n c" "s\<lparr>chunks := (if length c > n then drop n c # cs else cs)\<rparr>"])
      (auto simp: sock_read_def avail_def)
qed

lemma sock_read_end:
  "avail s = [] \<Longrightarrow> sock_read n s =
     (case rend s of Waiting \<Rightarrow> Fail EAGAIN | Closed \<Rightarrow> Eof | Broken e \<Rightarrow> Fail e, s\<lparr>chunks := []\<rparr>)"
proof -
  assume "avail s = []"
  then have "\<forall>c \<in> set (chunks s). c = []" by (simp add: avail_def)
  then have "dropWhile (\<lambda>c. c = []) (chunks s) = []" by simp
  then show ?thesis unfolding sock_read_def by (simp only: list.case)
qed

lemma avail_update [simp]: "avail (s\<lparr>chunks := cs\<rparr>) = concat cs"
  by (simp add: avail_def)

definition packet :: "u8 \<Rightarrow> u8 list \<Rightarrow> u8 list" where
  "packet tok p = tok # to_be 4 (length p) @ p"

text \<open>A filter that holds the first \<open>k\<close> bytes of a packet behind a queue \<open>q\<close> of complete ones.\<close>

definition idle :: "cbuffer list \<Rightarrow> nat \<Rightarrow> recv_filter \<Rightarrow> bool" where
  "idle q pend f \<longleftrightarrow> dwBytesToRead f = 0 \<and> dwOffsetRead f = NO_OFFSET \<and> queBufRead f = q \<and> dwBytesPending f = pend"

text \<open>The buffer at the back holds the first \<open>off\<close> bytes of \<open>w\<close> and has room for exactly \<open>w\<close>.\<close>

definition filling :: "u8 \<Rightarrow> u8 list \<Rightarrow> cbuffer list \<Rightarrow> nat \<Rightarrow> nat \<Rightarrow> recv_filter \<Rightarrow> bool" where
  "filling tok w q pend off f \<longleftrightarrow> (\<exists>b. queBufRead f = q @ [b] \<and> buf_wf b \<and> GetDataType b = DataTypeMem \<and>
     bufSize b = length w \<and> take off (window b) = take off w) \<and> off < length w \<and> length w < 2 ^ 31 \<and>
     dwOffsetRead f = off \<and> byToken f = tok \<and> dwBytesPending f = pend"

definition progress :: "u8 \<Rightarrow> u8 list \<Rightarrow> cbuffer list \<Rightarrow> nat \<Rightarrow> nat \<Rightarrow> recv_filter \<Rightarrow> bool" where
  "progress tok p q pend k f \<longleftrightarrow>
    (if k = 0 then idle q pend f
     else if k < 5 then filling tok (to_be 4 (length p)) q pend (k - 1) f \<and> dwBytesToRead f = 0
     else filling tok p q pend (k - 5) f \<and> dwBytesToRead f = length p - (k - 5))"

definition delivered :: "u8 list \<Rightarrow> cbuffer list \<Rightarrow> nat \<Rightarrow> recv_filter \<Rightarrow> bool" where
  "delivered p q pend f \<longleftrightarrow> (\<exists>b. queBufRead f = q @ [b] \<and> buf_wf b \<and> window b = p) \<and>
     dwBytesToRead f = 0 \<and> dwOffsetRead f = NO_OFFSET \<and> dwBytesPending f = u32_add pend (length p)"

lemma take_overwrite_extends:
  assumes "take off xs = take off w" "off + length bs \<le> length xs" "length xs = length w" "drop off w = bs @ t"
  shows "take (off + length bs) (overwrite off bs xs) = take (off + length bs) w"
proof -
  have "take (off + length bs) (overwrite off bs xs) = take off w @ bs"
    using assms(1,2) take_overwrite_through [of off xs bs] by simp
  also have "\<dots> = take off w @ take (length bs) (drop off w)" using assms(4) by simp
  also have "\<dots> = take (off + length bs) w" by (simp add: take_add)
  finally show ?thesis .
qed

lemma filling_step:
  assumes "filling tok w q pend off f" "drop off w = bs @ t"
  obtains b b1 where "queBufRead f = q @ [b]" "bufSize b = length w"
    "storeBytes b (dwOffset b + dwOffsetRead f) bs = Some b1" "buf_wf b1" "GetDataType b1 = DataTypeMem"
    "bufSize b1 = length w" "take (off + length bs) (window b1) = take (off + length bs) w" "off + length bs \<le> length w"
    "dwOffset b1 = dwOffset b"
proof -
  obtain b where b: "queBufRead f = q @ [b]" "buf_wf b" "GetDataType b = DataTypeMem" "bufSize b = length w"
    "take off (window b) = take off w" "off < length w" "dwOffsetRead f = off"
    using assms(1) by (auto simp: filling_def)
  have "length bs + length t = length w - off" using assms(2) by (metis length_append length_drop)
  then have le: "off + length bs \<le> length w" using b(6) by simp
  then have le': "off + length bs \<le> bufSize b" using b(4) by simp
  obtain b1 where b1: "storeBytes b (dwOffset b + off) bs = Some b1" "buf_wf b1" "window b1 = overwrite off bs (window b)"
    "bufSize b1 = bufSize b" "dwType b1 = dwType b" "dwOffset b1 = dwOffset b"
    by (rule store_window [OF b(2) le']) blast
  have "take (off + length bs) (window b1) = take (off + length bs) w"
    unfolding b1(3) by (rule take_overwrite_extends) (use b le buf_wf_lengths(4) [OF b(2)] assms(2) in auto)
  then show thesis using b b1 le by (intro that [of b b1]) (auto simp: GetDataType_def)
qed

lemma filling_next:
  assumes "filling tok w q pend off f" "off + length bs < length w" "buf_wf b1" "GetDataType b1 = DataTypeMem"
    "bufSize b1 = length w" "take (off + length bs) (window b1) = take (off + length bs) w" "queBufRead f = q @ [b]"
  shows "filling tok w q pend (off + length bs) ((set_back b1 f)\<lparr>dwOffsetRead := u32_add (dwOffsetRead f) (length bs)\<rparr>)"
proof -
  have "u32_add off (length bs) = off + length bs" using assms(1,2) by (intro u32_add_exact) (simp add: filling_def)
  then show ?thesis using assms by (simp add: filling_def set_back_def)
qed

text \<open>What is available next continues \<open>w\<close> at \<open>off\<close>, as far as it goes.\<close>

definition agrees :: "u8 list \<Rightarrow> nat \<Rightarrow> rsock \<Rightarrow> bool" where
  "agrees w off s \<longleftrightarrow> (\<exists>t. take (length w - off) (avail s) @ t = drop off w)"

lemma agrees_step:
  assumes "agrees w off s" "avail s = bs @ avail s1" "length bs \<le> length w - off"
  obtains t where "drop off w = bs @ t" "agrees w (off + length bs) s1"
proof -
  obtain t where t: "take (length w - off) (avail s) @ t = drop off w" using assms(1) by (auto simp: agrees_def)
  have e: "drop off w = bs @ take (length w - off - length bs) (avail s1) @ t"
    using t assms(2,3) by simp
  then have "drop (length bs) (drop off w) = take (length w - off - length bs) (avail s1) @ t" by simp
  then have "take (length w - (off + length bs)) (avail s1) @ t = drop (off + length bs) w" by (simp add: add.commute)
  then show thesis using that e by (auto simp: agrees_def)
qed

lemma recv_data_step:
  assumes fl: "filling tok p q pend off f" and tr: "dwBytesToRead f = length p - off"
    and av: "avail s \<noteq> []" "agrees p off s"
  obtains bs f1 s1 where "0 < length bs" "avail s = bs @ avail s1" "rend s1 = rend s" "off + length bs \<le> length p"
    "agrees p (off + length bs) s1"
    "if off + length bs = length p
     then recv_data_loop bF f s ret = Some (Return (int (unat tok), f1, s1)) \<and> delivered p q pend f1
     else recv_data_loop bF f s ret = recv_data_loop bF f1 s1 (int (length bs)) \<and>
       filling tok p q pend (off + length bs) f1 \<and> dwBytesToRead f1 = length p - (off + length bs)"
proof -
  have off: "off < length p" "dwOffsetRead f = off" "byToken f = tok" "dwBytesPending f = pend" "length p < 2 ^ 31"
    using fl by (auto simp: filling_def)
  have il: "u32_sub (length p) off = length p - off" using off by (simp add: u32_simps)
  obtain bs s1 where rd: "sock_read (length p - off) s = (Got bs, s1)" "bs \<noteq> []" "length bs \<le> length p - off"
    "avail s = bs @ avail s1" "rend s1 = rend s"
    by (rule sock_read_got [of s "length p - off"]) (use av off in auto)
  obtain t where t: "drop off p = bs @ t" "agrees p (off + length bs) s1"
    by (rule agrees_step [OF av(2) rd(4,3)])
  obtain b b1 where st: "queBufRead f = q @ [b]" "bufSize b = length p"
    "storeBytes b (dwOffset b + dwOffsetRead f) bs = Some b1" "buf_wf b1" "GetDataType b1 = DataTypeMem"
    "bufSize b1 = length p" "take (off + length bs) (window b1) = take (off + length bs) p" "off + length bs \<le> length p"
    by (rule filling_step [OF fl t(1)]) blast
  let ?f1 = "if length bs = length p - off
    then (set_back b1 f)\<lparr>dwOffsetRead := NO_OFFSET, dwBytesToRead := 0,
                      dwBytesPending := u32_add (dwBytesPending f) (bufSize b1), byToken := 0\<rparr>
    else (set_back b1 f)\<lparr>dwBytesToRead := u32_sub (dwBytesToRead f) (length bs),
                    dwOffsetRead := u32_add (dwOffsetRead f) (length bs)\<rparr>"
  have unf: "recv_data_loop bF f s ret = (if length bs = length p - off then
      Some (Return (int (unat tok), ?f1, s1)) else recv_data_loop bF ?f1 s1 (int (length bs)))"
    by (subst recv_data_loop.simps) (use tr off st rd(1) il in \<open>simp add: Let_def\<close>)
  show thesis
  proof (rule that [of bs s1 ?f1])
    show "if off + length bs = length p
      then recv_data_loop bF f s ret = Some (Return (int (unat tok), ?f1, s1)) \<and> delivered p q pend ?f1
      else recv_data_loop bF f s ret = recv_data_loop bF ?f1 s1 (int (length bs)) \<and>
       filling tok p q pend (off + length bs) ?f1 \<and> dwBytesToRead ?f1 = length p - (off + length bs)"
    proof (cases "off + length bs = length p")
      case True
      have "window b1 = p" using st(4,6,7) True buf_wf_lengths(4) [OF st(4)] by simp
      then show ?thesis using True unf st off by (auto simp: delivered_def set_back_def)
    next
      case False
      have lt: "off + length bs < length p" using False st(8) by simp
      have "u32_sub (dwBytesToRead f) (length bs) = length p - (off + length bs)"
        using tr rd(3) off by (simp add: u32_simps)
      moreover have "filling tok p q pend (off + length bs) ((set_back b1 f)\<lparr>dwOffsetRead := u32_add (dwOffsetRead f) (length bs)\<rparr>)"
        by (rule filling_next [OF fl lt st(4-7) st(1)])
      then have "filling tok p q pend (off + length bs) ?f1" using lt by (simp add: filling_def)
      moreover have "length bs \<noteq> length p - off" using lt by simp
      ultimately show ?thesis using unf False by simp
    qed
  qed (use rd st t in auto)
qed

lemma recv_data_loop_done:
  "filling tok p q pend off f \<Longrightarrow> dwBytesToRead f = length p - off \<Longrightarrow> avail s = drop off p @ rest \<Longrightarrow>
   \<exists>f' s'. recv_data_loop bF f s ret = Some (Return (int (unat tok), f', s')) \<and> delivered p q pend f' \<and> avail s' = rest"
proof (induction "length p - off" arbitrary: off f s ret rule: less_induct)
  case less
  have off: "off < length p" using less.prems(1) by (auto simp: filling_def)
  have ne: "avail s \<noteq> []" using less.prems(3) off by simp
  have ag: "agrees p off s" using less.prems(3) by (simp add: agrees_def)
  obtain bs f1 s1 where st: "0 < length bs" "avail s = bs @ avail s1" "off + length bs \<le> length p"
    "if off + length bs = length p
     then recv_data_loop bF f s ret = Some (Return (int (unat tok), f1, s1)) \<and> delivered p q pend f1
     else recv_data_loop bF f s ret = recv_data_loop bF f1 s1 (int (length bs)) \<and>
       filling tok p q pend (off + length bs) f1 \<and> dwBytesToRead f1 = length p - (off + length bs)"
    by (rule recv_data_step [OF less.prems(1,2) ne ag, of bF ret]) blast
  have "drop (length bs) (drop off p @ rest) = avail s1" using less.prems(3) st(2) by (metis append_eq_conv_conj)
  then have av: "avail s1 = drop (off + length bs) p @ rest" using st(3) by (simp add: add.commute)
  show ?case
  proof (cases "off + length bs = length p")
    case True
    then show ?thesis using st(4) av by auto
  next
    case False
    then have "length p - (off + length bs) < length p - off" using st(1,3) by linarith
    then show ?thesis using less.hyps [of "off + length bs" f1 s1 "int (length bs)"] False st(4) av by simp
  qed
qed

lemma recv_data_loop_waits:
  "filling tok p q pend off f \<Longrightarrow> dwBytesToRead f = length p - off \<Longrightarrow> drop off p = avail s @ t \<Longrightarrow> t \<noteq> [] \<Longrightarrow>
   rend s = Waiting \<Longrightarrow>
   \<exists>f' s'. recv_data_loop bF f s ret = Some (Return (- EAGAIN, f', s')) \<and> avail s' = [] \<and> rend s' = Waiting \<and>
     filling tok p q pend (off + length (avail s)) f' \<and> dwBytesToRead f' = length p - (off + length (avail s))"
proof (induction "length p - off" arbitrary: off f s ret rule: less_induct)
  case less
  have off: "off < length p" "length p < 2 ^ 31" "dwOffsetRead f = off" using less.prems(1) by (auto simp: filling_def)
  show ?case
  proof (cases "avail s = []")
    case True
    obtain b where b: "queBufRead f = q @ [b]" "bufSize b = length p" using less.prems(1) by (auto simp: filling_def)
    have "recv_data_loop bF f s ret = Some (Return (- EAGAIN, f, s\<lparr>chunks := []\<rparr>))"
      by (subst recv_data_loop.simps)
        (use less.prems(2,5) off b sock_read_end [OF True] in \<open>simp add: Let_def u32_simps\<close>)
    then show ?thesis using True less.prems by auto
  next
    case ne: False
    have lt: "length (avail s) < length p - off"
      using arg_cong [OF less.prems(3), of length] less.prems(4) by (cases t) auto
    have ag: "agrees p off s" using less.prems(3) lt by (auto simp: agrees_def)
    obtain bs f1 s1 where st: "0 < length bs" "avail s = bs @ avail s1" "rend s1 = rend s" "off + length bs \<le> length p"
      "if off + length bs = length p
       then recv_data_loop bF f s ret = Some (Return (int (unat tok), f1, s1)) \<and> delivered p q pend f1
       else recv_data_loop bF f s ret = recv_data_loop bF f1 s1 (int (length bs)) \<and>
         filling tok p q pend (off + length bs) f1 \<and> dwBytesToRead f1 = length p - (off + length bs)"
      by (rule recv_data_step [OF less.prems(1,2) ne ag, of bF ret]) blast
    have "off + length bs < length p" using lt st(2) by simp
    moreover have "drop (length bs) (drop off p) = avail s1 @ t" using less.prems(3) st(2) by simp
    moreover have "length p - (off + length bs) < length p - off" using calculation(1) st(1) by linarith
    ultimately show ?thesis
      using less.hyps [of "off + length bs" f1 s1 "int (length bs)"] st less.prems(4,5)
      by (auto simp: add.commute add.left_commute)
  qed
qed

lemma size_bytes: "n < 2 ^ 32 \<Longrightarrow> of_be (to_be 4 n) = n"
  by (simp add: of_be_to_be)

text \<open>A buffer whose size changed starts at the beginning of its block.\<close>

lemma ResizeWithOffset_offset:
  "ResizeWithOffset hp n b = Some (0, b') \<Longrightarrow> n \<noteq> bufSize b \<or> dwOffset b = 0 \<Longrightarrow> dwOffset b' = 0"
  by (auto simp: ResizeWithOffset_def Let_def bind_eq_Some_conv split: if_splits)

lemma ResizeMem_offset:
  "ResizeMem hp n b = Some (0, b') \<Longrightarrow> n \<noteq> bufSize b \<or> dwOffset b = 0 \<Longrightarrow> dwOffset b' = 0"
  by (auto simp: ResizeMem_def Let_def bind_eq_Some_conv split: if_splits dest: ResizeWithOffset_offset)

lemma Resize_offset:
  assumes "Resize hp n b = Return (0, b')" "GetDataType b = DataTypeMem" "n \<noteq> bufSize b \<or> dwOffset b = 0"
  shows "dwOffset b' = 0"
  using assms by (auto simp: Resize_def throwOnError_def dest: ResizeMem_offset split: option.splits if_splits)

text \<open>The buffer of the payload: the size, \<open>UXBUF_OVERHEAD\<close> bytes in front.\<close>

lemma payload_buffer:
  assumes "buf_wf b" "GetDataType b = DataTypeMem" "1 \<le> n" "n \<le> STM_MAX_BYTES_PER_BUF" "\<And>k. allocOk hp k"
    "bufSize b = 4"
  obtains b2 b3 where "Resize hp (u32_add n UXBUF_OVERHEAD) b = Return (0, b2)" "SetOffset UXBUF_OVERHEAD b2 = (0, b3)"
    "buf_wf b3" "GetDataType b3 = DataTypeMem" "bufSize b3 = n"
proof -
  have u: "u32_add n UXBUF_OVERHEAD = n + UXBUF_OVERHEAD" using assms(4) by (simp add: u32_simps)
  have ty: "GetDataType b \<in> {DataTypeMem, DataTypeObjPtr, DataTypeMsgPtr}" using assms(2) by simp
  show thesis
  proof (cases rule: Resize_cases [OF assms(1) ty, of "n + UXBUF_OVERHEAD" hp])
    case (2 b2)
    have nn: "base b2 \<noteq> NullBase" using 2 by (auto elim: buf_wf_cases)
    have tail: "UXBUF_OVERHEAD \<le> dwTailOff b2" "dwTailOff b2 = dwOffset b2 + n + UXBUF_OVERHEAD"
      using 2 buf_wf_lengths(2) [OF 2(3)] assms(3) by auto
    have off0: "dwOffset b2 = 0"
      using Resize_offset [OF 2(2) assms(2)] assms(3,6) by simp
    let ?b3 = "b2\<lparr>dwOffset := UXBUF_OVERHEAD\<rparr>"
    have so: "SetOffset UXBUF_OVERHEAD b2 = (0, ?b3)" using nn tail 2(5) by (simp add: SetOffset_def GetTailOff_def)
    have wf3: "buf_wf ?b3" using SetOffset_wf [OF 2(3), of UXBUF_OVERHEAD] so by simp
    have "bufSize ?b3 = n" using buf_wf_lengths(2) [OF wf3] tail off0 by simp
    moreover have "GetDataType ?b3 = DataTypeMem" using 2(5) by (simp add: GetDataType_def)
    ultimately show thesis using 2(2) so wf3 u by (intro that [of b2 ?b3]) simp_all
  qed (use assms in auto)
qed

lemma recv_size_step:
  assumes fl: "filling tok (to_be 4 n) q pend off f" and tr: "dwBytesToRead f = 0"
    and av: "avail s \<noteq> []" "agrees (to_be 4 n) off s"
    and n: "1 \<le> n" "n \<le> STM_MAX_BYTES_PER_BUF" "n = length p" "\<And>k. allocOk hp k"
  obtains bs f1 s1 where "0 < length bs" "avail s = bs @ avail s1" "rend s1 = rend s" "off + length bs \<le> 4"
    "agrees (to_be 4 n) (off + length bs) s1"
    "recv_size_loop hp bF f s ret = recv_size_loop hp bF f1 s1 (int (length bs))"
    "if off + length bs = 4 then filling tok p q pend 0 f1 \<and> dwBytesToRead f1 = n
     else filling tok (to_be 4 n) q pend (off + length bs) f1 \<and> dwBytesToRead f1 = 0"
proof -
  have off: "off < 4" "dwOffsetRead f = off" "byToken f = tok" "dwBytesPending f = pend"
    using fl by (auto simp: filling_def)
  have il: "u32_sub 4 off = 4 - off" using off by (simp add: u32_simps)
  have gs: "GetRecvState f = recvSize" using tr off by (simp add: GetRecvState_def)
  obtain bs s1 where rd: "sock_read (4 - off) s = (Got bs, s1)" "bs \<noteq> []" "length bs \<le> 4 - off"
    "avail s = bs @ avail s1" "rend s1 = rend s"
    by (rule sock_read_got [of s "4 - off"]) (use av off in auto)
  have l4: "length (to_be 4 n) = 4" by simp
  obtain t where t: "drop off (to_be 4 n) = bs @ t" "agrees (to_be 4 n) (off + length bs) s1"
    by (rule agrees_step [OF av(2) rd(4)]) (use rd(3) in auto)
  obtain b b1 where st: "queBufRead f = q @ [b]" "bufSize b = length (to_be 4 n)"
    "storeBytes b (dwOffset b + dwOffsetRead f) bs = Some b1" "buf_wf b1" "GetDataType b1 = DataTypeMem"
    "bufSize b1 = length (to_be 4 n)" "take (off + length bs) (window b1) = take (off + length bs) (to_be 4 n)"
    "off + length bs \<le> length (to_be 4 n)"
    by (rule filling_step [OF fl t(1)]) blast
  have b14: "bufSize b1 = 4" using st(6) by simp
  obtain b2 b3 where pb: "Resize hp (u32_add n UXBUF_OVERHEAD) b1 = Return (0, b2)" "SetOffset UXBUF_OVERHEAD b2 = (0, b3)"
    "buf_wf b3" "GetDataType b3 = DataTypeMem" "bufSize b3 = n"
    by (rule payload_buffer [OF st(4,5) n(1,2,4) b14])
  let ?f1 = "if off + length bs = 4 then (set_back b3 ((set_back b1 f)\<lparr>dwBytesToRead := n\<rparr>))\<lparr>dwOffsetRead := 0\<rparr>
    else (set_back b1 f)\<lparr>dwOffsetRead := u32_add (dwOffsetRead f) (length bs)\<rparr>"
  show thesis
  proof (rule that [of bs s1 ?f1])
    show "recv_size_loop hp bF f s ret = recv_size_loop hp bF ?f1 s1 (int (length bs))"
    proof (cases "off + length bs = 4")
      case True
      have w: "loadBytes b1 (dwOffset b1) 4 = Some (to_be 4 n)"
        using loadBytes_window [OF st(4), of 4] b14 st(7) buf_wf_lengths(4) [OF st(4)] True by simp
      have "p \<noteq> []" using n by auto
      moreover have "length bs = 4 - off" using True by simp
      ultimately show ?thesis using True w pb size_bytes [of n] n gs off st rd(1) il
        by (subst recv_size_loop.simps) (simp add: Let_def)
    next
      case False
      then have "length bs \<noteq> 4 - off" using off by simp
      then show ?thesis using False gs off st rd(1) il
        by (subst recv_size_loop.simps) (simp add: Let_def)
    qed
    show "if off + length bs = 4 then filling tok p q pend 0 ?f1 \<and> dwBytesToRead ?f1 = n
     else filling tok (to_be 4 n) q pend (off + length bs) ?f1 \<and> dwBytesToRead ?f1 = 0"
    proof (cases "off + length bs = 4")
      case True
      then show ?thesis using pb n off st(1) by (auto simp: filling_def set_back_def)
    next
      case False
      have lt: "off + length bs < length (to_be 4 n)" using False st(8) by simp
      have "filling tok (to_be 4 n) q pend (off + length bs) ((set_back b1 f)\<lparr>dwOffsetRead := u32_add (dwOffsetRead f) (length bs)\<rparr>)"
        by (rule filling_next [OF fl lt st(4-7) st(1)])
      then show ?thesis using False tr by (simp add: set_back_def)
    qed
  qed (use rd st t in auto)
qed

lemma recv_size_loop_done:
  assumes n: "1 \<le> n" "n \<le> STM_MAX_BYTES_PER_BUF" "n = length (p :: u8 list)" "\<And>k. allocOk hp k"
  shows "filling tok (to_be 4 n) q pend off f \<Longrightarrow> dwBytesToRead f = 0 \<Longrightarrow> avail s = drop off (to_be 4 n) @ rest \<Longrightarrow>
   \<exists>r f' s'. recv_size_loop hp bF f s ret = Some (Return (int r, f', s')) \<and> filling tok p q pend 0 f' \<and>
     dwBytesToRead f' = n \<and> avail s' = rest \<and> rend s' = rend s"
proof (induction "4 - off" arbitrary: off f s ret rule: less_induct)
  case less
  have off: "off < 4" using less.prems(1) by (auto simp: filling_def)
  have ne: "avail s \<noteq> []" using less.prems(3) off arg_cong [OF less.prems(3), of length] by auto
  have ag: "agrees (to_be 4 n) off s" using less.prems(3) by (simp add: agrees_def)
  obtain bs f1 s1 where st: "0 < length bs" "avail s = bs @ avail s1" "rend s1 = rend s" "off + length bs \<le> 4"
    "recv_size_loop hp bF f s ret = recv_size_loop hp bF f1 s1 (int (length bs))"
    "if off + length bs = 4 then filling tok p q pend 0 f1 \<and> dwBytesToRead f1 = n
     else filling tok (to_be 4 n) q pend (off + length bs) f1 \<and> dwBytesToRead f1 = 0"
    by (rule recv_size_step [OF less.prems(1,2) ne ag n, of bF ret]) blast
  have "drop (length bs) (drop off (to_be 4 n) @ rest) = avail s1"
    using less.prems(3) st(2) by (metis append_eq_conv_conj)
  then have av: "avail s1 = drop (off + length bs) (to_be 4 n) @ rest" using st(4) by (simp add: add.commute)
  show ?case
  proof (cases "off + length bs = 4")
    case True
    have "GetRecvState f1 \<noteq> recvSize" using True st(6) n(1) by (simp add: GetRecvState_def)
    then have "recv_size_loop hp bF f1 s1 (int (length bs)) = Some (Return (int (length bs), f1, s1))"
      by (subst recv_size_loop.simps) simp
    then show ?thesis using True st av by auto
  next
    case False
    have "4 - (off + length bs) < 4 - off" using st(1) off by linarith
    from less.hyps [OF this _ _ av, of f1 "int (length bs)"] show ?thesis using False st by simp
  qed
qed

lemma recv_size_loop_waits:
  assumes n: "1 \<le> n" "n \<le> STM_MAX_BYTES_PER_BUF" "n = length (p :: u8 list)" "\<And>k. allocOk hp k"
  shows "filling tok (to_be 4 n) q pend off f \<Longrightarrow> dwBytesToRead f = 0 \<Longrightarrow> drop off (to_be 4 n) = avail s @ t \<Longrightarrow>
   t \<noteq> [] \<Longrightarrow> rend s = Waiting \<Longrightarrow>
   \<exists>f' s'. recv_size_loop hp bF f s ret = Some (Return (- EAGAIN, f', s')) \<and> avail s' = [] \<and> rend s' = Waiting \<and>
     filling tok (to_be 4 n) q pend (off + length (avail s)) f' \<and> dwBytesToRead f' = 0"
proof (induction "4 - off" arbitrary: off f s ret rule: less_induct)
  case less
  have off: "off < 4" "dwOffsetRead f = off" using less.prems(1) by (auto simp: filling_def)
  show ?case
  proof (cases "avail s = []")
    case True
    obtain b where b: "queBufRead f = q @ [b]" using less.prems(1) by (auto simp: filling_def)
    have "GetRecvState f = recvSize" using less.prems(2) off by (simp add: GetRecvState_def)
    then have "recv_size_loop hp bF f s ret = Some (Return (- EAGAIN, f, s\<lparr>chunks := []\<rparr>))"
      by (subst recv_size_loop.simps)
        (use less.prems(5) b sock_read_end [OF True] in \<open>simp add: Let_def\<close>)
    then show ?thesis using True less.prems by auto
  next
    case ne: False
    have lt: "length (avail s) < 4 - off"
      using arg_cong [OF less.prems(3), of length] less.prems(4) by (cases t) auto
    have ag: "agrees (to_be 4 n) off s" using less.prems(3) lt by (auto simp: agrees_def)
    obtain bs f1 s1 where st: "0 < length bs" "avail s = bs @ avail s1" "rend s1 = rend s" "off + length bs \<le> 4"
      "recv_size_loop hp bF f s ret = recv_size_loop hp bF f1 s1 (int (length bs))"
      "if off + length bs = 4 then filling tok p q pend 0 f1 \<and> dwBytesToRead f1 = n
       else filling tok (to_be 4 n) q pend (off + length bs) f1 \<and> dwBytesToRead f1 = 0"
      by (rule recv_size_step [OF less.prems(1,2) ne ag n, of bF ret]) blast
    have l: "off + length bs < 4" using lt st(2) by simp
    have d: "drop (off + length bs) (to_be 4 n) = avail s1 @ t"
      using arg_cong [OF less.prems(3), of "drop (length bs)"] st(2) by (simp add: add.commute)
    have "4 - (off + length bs) < 4 - off" using st(1) off by linarith
    from less.hyps [OF this _ _ d less.prems(4), of f1 "int (length bs)"] show ?thesis
      using st l less.prems(5) by (auto simp: add.assoc)
  qed
qed

lemma recv_rest_size_done:
  assumes n: "1 \<le> length p" "length p \<le> STM_MAX_BYTES_PER_BUF" "\<And>k. allocOk hp k"
    and f: "filling tok (to_be 4 (length p)) q pend off f" "dwBytesToRead f = 0"
    and av: "avail s = drop off (to_be 4 (length p)) @ p @ rest"
  shows "\<exists>f' s'. recv_rest hp bF f s ret = Some (Return (int (unat tok), f', s')) \<and> delivered p q pend f' \<and> avail s' = rest"
proof -
  obtain r f1 s1 where sz: "recv_size_loop hp bF f s ret = Some (Return (int r, f1, s1))" "filling tok p q pend 0 f1"
    "dwBytesToRead f1 = length p" "avail s1 = p @ rest"
    using recv_size_loop_done [OF n(1,2) refl n(3) f av, of bF ret] by blast
  have gs: "GetRecvState f1 = recvData" using sz(3) n(1) by (auto simp: GetRecvState_def)
  obtain f' s' where "recv_data_loop bF f1 s1 0 = Some (Return (int (unat tok), f', s'))" "delivered p q pend f'" "avail s' = rest"
    using recv_data_loop_done [OF sz(2), of s1 rest bF 0] sz(3,4) by auto
  then show ?thesis using sz(1) gs by (auto simp: recv_rest_def ERROR_def)
qed

lemma recv_rest_size_waits:
  assumes n: "1 \<le> length p" "length p \<le> STM_MAX_BYTES_PER_BUF" "\<And>k. allocOk hp k"
    and f: "filling tok (to_be 4 (length p)) q pend off f" "dwBytesToRead f = 0"
    and av: "drop off (to_be 4 (length p)) @ p = avail s @ t" "t \<noteq> []" "rend s = Waiting"
  shows "\<exists>f' s'. recv_rest hp bF f s ret = Some (Return (- EAGAIN, f', s')) \<and> avail s' = [] \<and> rend s' = Waiting \<and>
     progress tok p q pend (Suc off + length (avail s)) f'"
proof -
  have off: "off < 4" using f by (simp add: filling_def)
  show ?thesis
  proof (cases "length (avail s) < 4 - off")
    case True
    define h where "h = drop off (to_be 4 (length p))"
    have "length h = 4 - off" by (simp add: h_def)
    then have sp: "h = avail s @ take (4 - off - length (avail s)) t" "take (4 - off - length (avail s)) t \<noteq> []"
      using arg_cong [OF av(1), of "take (4 - off)"] True av(2) by (auto simp: h_def)
    obtain f' s' where "recv_size_loop hp bF f s ret = Some (Return (- EAGAIN, f', s'))" "avail s' = []" "rend s' = Waiting"
      "filling tok (to_be 4 (length p)) q pend (off + length (avail s)) f'" "dwBytesToRead f' = 0"
      using recv_size_loop_waits [OF n(1,2) refl n(3) f sp(1) [unfolded h_def] sp(2) av(3), of bF ret] by blast
    then show ?thesis using True off by (auto simp: recv_rest_def progress_def)
  next
    case False
    let ?h = "drop off (to_be 4 (length p))"
    let ?r = "drop (4 - off) (avail s)"
    have l4: "length ?h = 4 - off" by simp
    have a: "avail s = ?h @ ?r"
      using arg_cong [OF av(1), of "take (4 - off)"] False l4 by (metis append_take_drop_id diff_is_0_eq le_cases linorder_not_less self_append_conv take0 take_all_iff take_append)
    have pr: "drop 0 p = ?r @ t" using av(1) a by (metis append.assoc drop0 same_append_eq)
    obtain r f1 s1 where sz: "recv_size_loop hp bF f s ret = Some (Return (int r, f1, s1))" "filling tok p q pend 0 f1"
      "dwBytesToRead f1 = length p" "avail s1 = ?r" "rend s1 = rend s"
      using recv_size_loop_done [OF n(1,2) refl n(3) f a, of bF ret] by blast
    have gs: "GetRecvState f1 = recvData" using sz(3) n(1) by (auto simp: GetRecvState_def)
    have "drop 0 p = avail s1 @ t" "dwBytesToRead f1 = length p - 0" using pr sz by simp_all
    from recv_data_loop_waits [OF sz(2) this(2,1) av(2), of bF 0] obtain f' s' where
      "recv_data_loop bF f1 s1 0 = Some (Return (- EAGAIN, f', s'))" "avail s' = []" "rend s' = Waiting"
      "filling tok p q pend (length ?r) f'" "dwBytesToRead f' = length p - length ?r"
      using sz(4,5) av(3) by auto
    moreover have "Suc off + length (avail s) - 5 = length ?r" "\<not> Suc off + length (avail s) < 5"
      using False off by simp_all
    ultimately show ?thesis using sz(1) gs by (auto simp: recv_rest_def ERROR_def progress_def)
  qed
qed

lemma recv_rest_data:
  assumes "filling tok p q pend off f" "dwBytesToRead f = length p - off"
  shows "recv_rest hp bF f s ret = (if ERROR ret then Some (Return (ret, f, s)) else recv_data_loop bF f s 0)"
proof -
  have "GetRecvState f = recvData" using assms by (auto simp: filling_def GetRecvState_def)
  then have "recv_size_loop hp bF f s ret = Some (Return (ret, f, s))" by (subst recv_size_loop.simps) simp
  then show ?thesis using \<open>GetRecvState f = recvData\<close> by (simp add: recv_rest_def)
qed

lemma first_buffer:
  assumes "roomy hp stale"
  obtains b where "Resize hp 4 (newBuffer stale) = Return (0, b)" "buf_wf b" "GetDataType b = DataTypeMem" "bufSize b = 4"
proof -
  have wf: "buf_wf (newBuffer stale)" "GetDataType (newBuffer stale) \<in> {DataTypeMem, DataTypeObjPtr, DataTypeMsgPtr}"
    using assms by (simp_all add: roomy_def)
  show thesis by (cases rule: Resize_cases [OF wf, of 4 hp]) (use assms that in \<open>auto simp: roomy_def\<close>)
qed

lemma payload_token_facts:
  "payload_token t \<Longrightarrow> \<not> command_token t"
  by (auto simp: payload_token_def command_token_def)

lemma sock_read_one:
  assumes "avail s = t # r"
  obtains s1 where "sock_read 1 s = (Got [t], s1)" "avail s1 = r" "rend s1 = rend s"
proof -
  obtain bs s1 where g: "sock_read 1 s = (Got bs, s1)" "bs \<noteq> []" "length bs \<le> 1" "avail s = bs @ avail s1" "rend s1 = rend s"
    by (rule sock_read_got [of s 1]) (use assms in auto)
  then have "bs = [t]" "avail s1 = r" using assms by (cases bs; auto)+
  then show thesis using g that by blast
qed

lemma recv_from_idle:
  assumes "roomy hp stale" "payload_token tok" "idle q pend f" "avail s = tok # r"
  obtains f1 s1 where "RecvOnIoReady hp stale f s = map_option (map_outcome recv_reset) (recv_rest hp False f1 s1 0)"
    "filling tok (to_be 4 n) q pend 0 f1" "dwBytesToRead f1 = 0" "avail s1 = r" "rend s1 = rend s"
proof -
  obtain s1 where s1: "sock_read 1 s = (Got [tok], s1)" "avail s1 = r" "rend s1 = rend s" by (rule sock_read_one [OF assms(4)])
  obtain b where b: "Resize hp 4 (newBuffer stale) = Return (0, b)" "buf_wf b" "GetDataType b = DataTypeMem" "bufSize b = 4"
    by (rule first_buffer [OF assms(1)])
  let ?f = "f\<lparr>byToken := tok, dwOffsetRead := 0, queBufRead := queBufRead f @ [b]\<rparr>"
  have "GetRecvState f = recvTok" using assms(3) by (simp add: idle_def GetRecvState_def)
  then have "RecvOnIoReady hp stale f s = map_option (map_outcome recv_reset) (recv_rest hp False ?f s1 0)"
    using s1 b assms(2) payload_token_facts [OF assms(2)] by (simp add: RecvOnIoReady_def Let_def)
  moreover have "filling tok (to_be 4 n) q pend 0 ?f" "dwBytesToRead ?f = 0"
    using assms(3) b by (auto simp: filling_def idle_def)
  ultimately show thesis using s1 that by blast
qed

lemma recv_from_filling:
  "filling tok w q pend off f \<Longrightarrow> RecvOnIoReady hp stale f s = map_option (map_outcome recv_reset) (recv_rest hp True f s 0)"
  by (auto simp: RecvOnIoReady_def GetRecvState_def filling_def)

lemma recv_reset_ok [simp]: "recv_reset (int r, f, s) = (int r, f, s)" "recv_reset (- EAGAIN, f, s) = (- EAGAIN, f, s)"
  "recv_reset (uint (t :: u8), f, s) = (uint t, f, s)"
  by (simp_all add: recv_reset_def ERROR_def)

lemma RecvOnIoReady_done:
  assumes "roomy hp stale" "payload_token tok" "1 \<le> length p" "length p \<le> STM_MAX_BYTES_PER_BUF"
    "progress tok p q pend k f" "k < 5 + length p" "avail s = drop k (packet tok p) @ rest"
  shows "\<exists>f' s'. RecvOnIoReady hp stale f s = Some (Return (int (unat tok), f', s')) \<and> delivered p q pend f' \<and> avail s' = rest"
proof -
  have al: "\<And>k. allocOk hp k" using assms(1) by (simp add: roomy_def)
  note n = assms(3,4) al
  consider (tok) "k = 0" | (size) "0 < k" "k < 5" | (data) "5 \<le> k" by linarith
  then show ?thesis
  proof cases
    case tok
    have id: "idle q pend f" using assms(5) tok by (simp add: progress_def)
    have av: "avail s = tok # to_be 4 (length p) @ p @ rest" using assms(7) tok by (simp add: packet_def)
    obtain f1 s1 where r: "RecvOnIoReady hp stale f s = map_option (map_outcome recv_reset) (recv_rest hp False f1 s1 0)"
      "filling tok (to_be 4 (length p)) q pend 0 f1" "dwBytesToRead f1 = 0" "avail s1 = to_be 4 (length p) @ p @ rest"
      by (rule recv_from_idle [OF assms(1,2) id av])
    then show ?thesis using recv_rest_size_done [OF n r(2,3), of s1 rest False 0] by (auto simp: map_outcome_def)
  next
    case size
    then have fl: "filling tok (to_be 4 (length p)) q pend (k - 1) f" "dwBytesToRead f = 0"
      using assms(5) by (auto simp: progress_def)
    have "drop k (packet tok p) = drop (k - 1) (to_be 4 (length p)) @ p"
      using size by (cases k) (simp_all add: packet_def)
    then have av: "avail s = drop (k - 1) (to_be 4 (length p)) @ p @ rest" using assms(7) by simp
    from recv_rest_size_done [OF n fl av, of True 0] recv_from_filling [OF fl(1), of hp stale s]
    show ?thesis by (auto simp: map_outcome_def)
  next
    case data
    then have fl: "filling tok p q pend (k - 5) f" "dwBytesToRead f = length p - (k - 5)"
      using assms(5) by (auto simp: progress_def)
    have "drop k (packet tok p) = drop (k - 5) p"
      using data by (cases k) (simp_all add: packet_def)
    then have av: "avail s = drop (k - 5) p @ rest" using assms(7) by simp
    from recv_data_loop_done [OF fl av, of True 0] recv_from_filling [OF fl(1), of hp stale s] recv_rest_data [OF fl]
    show ?thesis by (auto simp: map_outcome_def)
  qed
qed

lemma RecvOnIoReady_waits:
  assumes "roomy hp stale" "payload_token tok" "1 \<le> length p" "length p \<le> STM_MAX_BYTES_PER_BUF"
    "progress tok p q pend k f" "drop k (packet tok p) = avail s @ t" "t \<noteq> []" "rend s = Waiting"
  shows "\<exists>f' s'. RecvOnIoReady hp stale f s = Some (Return (- EAGAIN, f', s')) \<and> avail s' = [] \<and> rend s' = Waiting \<and>
     progress tok p q pend (k + length (avail s)) f'"
proof -
  have al: "\<And>k. allocOk hp k" using assms(1) by (simp add: roomy_def)
  note n = assms(3,4) al
  consider (none) "k = 0" "avail s = []" | (tok) "k = 0" "avail s \<noteq> []" | (size) "0 < k" "k < 5" | (data) "5 \<le> k" by linarith
  then show ?thesis
  proof cases
    case none
    have id: "idle q pend f" using assms(5) none by (simp add: progress_def)
    then have "GetRecvState f = recvTok" by (simp add: idle_def GetRecvState_def)
    then have "RecvOnIoReady hp stale f s = Some (Return (- EAGAIN, f, s\<lparr>chunks := []\<rparr>))"
      using sock_read_end [OF none(2), of 1] assms(8) by (simp add: RecvOnIoReady_def map_outcome_def)
    then show ?thesis using assms(5,8) none by simp
  next
    case tok
    have id: "idle q pend f" using assms(5) tok by (simp add: progress_def)
    obtain r where r: "avail s = tok # r" "to_be 4 (length p) @ p = r @ t"
      using assms(6) tok by (cases "avail s") (auto simp: packet_def)
    obtain f1 s1 where s1: "RecvOnIoReady hp stale f s = map_option (map_outcome recv_reset) (recv_rest hp False f1 s1 0)"
      "filling tok (to_be 4 (length p)) q pend 0 f1" "dwBytesToRead f1 = 0" "avail s1 = r" "rend s1 = rend s"
      by (rule recv_from_idle [OF assms(1,2) id r(1)])
    have "drop 0 (to_be 4 (length p)) @ p = avail s1 @ t" "rend s1 = Waiting" using r s1 assms(8) by simp_all
    from recv_rest_size_waits [OF n s1(2,3) this(1) assms(7) this(2), of False 0] show ?thesis
      using s1 r(1) tok by (auto simp: map_outcome_def)
  next
    case size
    then have fl: "filling tok (to_be 4 (length p)) q pend (k - 1) f" "dwBytesToRead f = 0"
      using assms(5) by (auto simp: progress_def)
    have "drop k (packet tok p) = drop (k - 1) (to_be 4 (length p)) @ p"
      using size by (cases k) (simp_all add: packet_def)
    then have av: "drop (k - 1) (to_be 4 (length p)) @ p = avail s @ t" using assms(6) by simp
    from recv_rest_size_waits [OF n fl av assms(7,8), of True 0] recv_from_filling [OF fl(1), of hp stale s] size
    show ?thesis by (auto simp: map_outcome_def)
  next
    case data
    then have fl: "filling tok p q pend (k - 5) f" "dwBytesToRead f = length p - (k - 5)"
      using assms(5) by (auto simp: progress_def)
    have "drop k (packet tok p) = drop (k - 5) p"
      using data by (cases k) (simp_all add: packet_def)
    then have av: "drop (k - 5) p = avail s @ t" using assms(6) by simp
    have pr: "progress tok p q pend (k + length (avail s)) f'"
      if "filling tok p q pend (k - 5 + length (avail s)) f'" "dwBytesToRead f' = length p - (k - 5 + length (avail s))" for f'
      using that data by (simp add: progress_def)
    from recv_data_loop_waits [OF fl av assms(7,8), of True 0] recv_from_filling [OF fl(1), of hp stale s] recv_rest_data [OF fl]
    show ?thesis using pr by (auto simp: map_outcome_def)
  qed
qed

subsection \<open>Claims about the receiver\<close>

text \<open>One call of \<open>OnIoReady\<close> for each arrival of data; the results, and the final state.\<close>

primrec pump :: "heap \<Rightarrow> u8 list \<Rightarrow> u8 list list list \<Rightarrow> recv_filter \<Rightarrow> rsock \<Rightarrow> (int list \<times> recv_filter \<times> rsock) option" where
  "pump hp stale [] f s = Some ([], f, s)"
| "pump hp stale (a # as) f s =
    (case RecvOnIoReady hp stale f (s\<lparr>chunks := chunks s @ a\<rparr>) of
       Some (Return (r, f', s')) \<Rightarrow> map_option (\<lambda>(rs, x). (r # rs, x)) (pump hp stale as f' s')
     | _ \<Rightarrow> None)"

lemma pump_progress:
  assumes "roomy hp stale" "payload_token tok" "1 \<le> length p" "length p \<le> STM_MAX_BYTES_PER_BUF"
  shows "progress tok p q pend k f \<Longrightarrow> avail s = [] \<Longrightarrow> rend s = Waiting \<Longrightarrow>
     drop k (packet tok p) = concat (concat as) @ concat a \<Longrightarrow> concat a \<noteq> [] \<Longrightarrow>
     \<exists>f' s'. pump hp stale (as @ [a]) f s = Some (replicate (length as) (- EAGAIN) @ [int (unat tok)], f', s') \<and>
       delivered p q pend f' \<and> avail s' = []"
proof (induction as arbitrary: k f s)
  case Nil
  have av: "avail (s\<lparr>chunks := chunks s @ a\<rparr>) = drop k (packet tok p) @ []" using Nil by (simp add: avail_def)
  have "k < length (packet tok p)" using Nil(4,5) by (metis append_Nil concat.simps(1) drop_all linorder_not_less)
  then have "k < 5 + length p" by (simp add: packet_def)
  from RecvOnIoReady_done [OF assms Nil(1) this av] show ?case by auto
next
  case (Cons b as)
  let ?s = "s\<lparr>chunks := chunks s @ b\<rparr>"
  have av: "avail ?s = concat b" using Cons.prems(2) by (simp add: avail_def)
  have d: "drop k (packet tok p) = avail ?s @ (concat (concat as) @ concat a)" using Cons.prems(4) av by simp
  obtain f1 s1 where r: "RecvOnIoReady hp stale f ?s = Some (Return (- EAGAIN, f1, s1))" "avail s1 = []" "rend s1 = Waiting"
    "progress tok p q pend (k + length (concat b)) f1"
  proof -
    have "concat (concat as) @ concat a \<noteq> []" "rend ?s = Waiting" using Cons.prems(3,5) by simp_all
    from RecvOnIoReady_waits [OF assms Cons.prems(1) d this] that show thesis unfolding av by blast
  qed
  have "drop (k + length (concat b)) (packet tok p) = concat (concat as) @ concat a"
    using arg_cong [OF d [unfolded av], of "drop (length (concat b))"] by (simp add: add.commute)
  from Cons.IH [OF r(4,2,3) this Cons.prems(5)] r(1) show ?case by auto
qed

text \<open>
  C11: The receiver reassembles a packet however its bytes arrive: cut into any chunks, over
  any number of calls of \<open>OnIoReady\<close>, every call before the last byte answers \<open>-EAGAIN\<close>, the
  last one the token, and \<open>ReadStream\<close> then hands out exactly the payload and restores the
  count of pending bytes. This holds for both data tokens and every payload of 1 to 63K bytes.
\<close>

theorem recv_reassembles:
  assumes "roomy hp stale" "payload_token tok" "1 \<le> length p" "length p \<le> STM_MAX_BYTES_PER_BUF"
    "concat (concat (as @ [a])) = packet tok p" "concat a \<noteq> []"
  shows "\<exists>f s b f2. pump hp stale (as @ [a]) (new_recv g) \<lparr>chunks = [], rend = Waiting\<rparr> =
       Some (replicate (length as) (- EAGAIN) @ [int (unat tok)], f, s) \<and>
     ReadStream f = (0, Some b, f2) \<and> window b = p \<and> dwBytesPending f2 = 0 \<and> queBufRead f2 = []"
proof -
  have pr: "progress tok p [] 0 0 (new_recv g)" by (simp add: progress_def idle_def new_recv_def)
  obtain f s where f: "pump hp stale (as @ [a]) (new_recv g) \<lparr>chunks = [], rend = Waiting\<rparr> =
       Some (replicate (length as) (- EAGAIN) @ [int (unat tok)], f, s)" "delivered p [] 0 f"
    using pump_progress [OF assms(1-4) pr, of "\<lparr>chunks = [], rend = Waiting\<rparr>" as a] assms(5,6) by (auto simp: avail_def)
  obtain b where b: "queBufRead f = [b]" "buf_wf b" "window b = p" "dwBytesPending f = u32_add 0 (length p)"
    "GetRecvState f = recvTok"
    using f(2) by (auto simp: delivered_def GetRecvState_def)
  have "bufSize b = length p" using b buf_wf_lengths(4) [OF b(2)] by simp
  moreover have "u32_sub (u32_add 0 (length p)) (length p) = 0" using assms(4) by (simp add: u32_simps)
  ultimately show ?thesis using f(1) b by (auto simp: ReadStream_def)
qed

lemma to_be_4: "to_be 4 x = [of_nat (x div 16777216), of_nat (x div 65536), of_nat (x div 256), of_nat x]"
proof -
  have m: "(of_nat (y mod 256) :: u8) = of_nat y" for y
  proof -
    have "unat (of_nat (y mod 256) :: u8) = unat (of_nat y :: u8)" by simp
    then show ?thesis by (rule unsigned_word_eqI)
  qed
  have "to_be (Suc (Suc (Suc (Suc 0)))) x = [of_nat (x div 16777216), of_nat (x div 65536), of_nat (x div 256), of_nat x]"
    by (simp add: m flip: div_mult2_eq)
  moreover have "(4 :: nat) = Suc (Suc (Suc (Suc 0)))" by simp
  ultimately show ?thesis by (simp only:)
qed

lemma recv_reassembles_witness:
  "\<exists>f s b f2. pump wit_heap (replicate 48 0) ([[[1], [0, 0]], [], [[0], [3, 7]]] @ [[[8, 9]]]) (new_recv 0) \<lparr>chunks = [], rend = Waiting\<rparr> =
       Some (replicate (length [[[1 :: u8], [0, 0]], [], [[0], [3, 7]]]) (- EAGAIN) @ [int (unat tokData)], f, s) \<and>
     ReadStream f = (0, Some b, f2) \<and> window b = [7, 8, 9] \<and> dwBytesPending f2 = 0 \<and> queBufRead f2 = []"
  by (rule recv_reassembles)
    (simp_all add: roomy_def wit_heap_def payload_token_def packet_def to_be_4)

text \<open>
  A size the receiver refuses (zero, or more than 63K) answers \<open>-EBADMSG\<close> and resets the
  state, but the buffer that held the size stays in the queue: \<open>ReadStream\<close> hands its four
  bytes out as if they were a payload, and the count of pending bytes wraps below zero.
\<close>

theorem recv_bad_size_leaves_buffer:
  assumes "roomy hp stale" "payload_token tok" "n < 2 ^ 32" "n = 0 \<or> n > STM_MAX_BYTES_PER_BUF"
  shows "\<exists>f s b f2. RecvOnIoReady hp stale (new_recv g) \<lparr>chunks = [tok # to_be 4 n], rend = Waiting\<rparr> =
       Some (Return (- EBADMSG, f, s)) \<and> ReadStream f = (0, Some b, f2) \<and> window b = to_be 4 n \<and>
     dwBytesPending f2 = 2 ^ 32 - 4"
proof -
  let ?s = "\<lparr>chunks = [tok # to_be 4 n], rend = Waiting\<rparr>"
  have id: "idle [] 0 (new_recv g)" by (simp add: idle_def new_recv_def)
  have av: "avail ?s = tok # to_be 4 n" by (simp add: avail_def)
  let ?s1 = "\<lparr>chunks = [to_be 4 n], rend = Waiting\<rparr>"
  let ?w = "to_be 4 n"
  have wne: "?w \<noteq> []" using length_to_be [of 4 n] by force
  have s1: "sock_read 1 ?s = (Got [tok], ?s1)" using wne by (simp add: sock_read_def)
  have s2: "sock_read 4 ?s1 = (Got ?w, \<lparr>chunks = [], rend = Waiting\<rparr>)" using wne by (simp add: sock_read_def)
  obtain b where b: "Resize hp 4 (newBuffer stale) = Return (0, b)" "buf_wf b" "GetDataType b = DataTypeMem" "bufSize b = 4"
    by (rule first_buffer [OF assms(1)])
  let ?f = "(new_recv g)\<lparr>byToken := tok, dwOffsetRead := 0, queBufRead := [b]\<rparr>"
  have fl: "filling tok ?w [] 0 0 ?f" using b by (auto simp: filling_def new_recv_def)
  have d0: "drop 0 ?w = ?w @ []" by simp
  obtain b1 where st: "storeBytes b (dwOffset b + dwOffsetRead ?f) ?w = Some b1" "buf_wf b1" "bufSize b1 = length ?w"
    "take (0 + length ?w) (window b1) = take (0 + length ?w) ?w"
    by (rule filling_step [OF fl d0]) (auto simp: new_recv_def)
  have w: "window b1 = ?w" using st(2,3,4) buf_wf_lengths(4) [OF st(2)] by simp
  have ld: "loadBytes b1 (dwOffset b1) 4 = Some ?w" using loadBytes_window [OF st(2), of 4] st(3) w by simp
  let ?f1 = "(set_back b1 ?f)\<lparr>dwBytesToRead := n\<rparr>"
  have gs: "GetRecvState ?f = recvSize" "GetRecvState (new_recv g) = recvTok" by (simp_all add: GetRecvState_def new_recv_def)
  have "recv_size_loop hp False ?f ?s1 0 = Some (Return (- EBADMSG, ?f1, \<lparr>chunks = [], rend = Waiting\<rparr>))"
    by (subst recv_size_loop.simps)
      (use gs s2 st(1) ld size_bytes [OF assms(3)] assms(4) in \<open>auto simp: Let_def u32_sub_def new_recv_def\<close>)
  then have "RecvOnIoReady hp stale (new_recv g) ?s =
      Some (Return (- EBADMSG, ?f1\<lparr>dwBytesToRead := 0, dwOffsetRead := NO_OFFSET\<rparr>, \<lparr>chunks = [], rend = Waiting\<rparr>))"
    using gs s1 b payload_token_facts [OF assms(2)] assms(2)
    by (simp add: RecvOnIoReady_def recv_rest_def map_outcome_def recv_reset_def ERROR_def Let_def new_recv_def)
  then show ?thesis using st(3) w
    by (auto simp: ReadStream_def GetRecvState_def set_back_def new_recv_def u32_sub_def)
qed

lemma recv_bad_size_leaves_buffer_witness:
  "\<exists>f s b f2. RecvOnIoReady wit_heap (replicate 48 0) (new_recv 0) \<lparr>chunks = [tokData # to_be 4 70000], rend = Waiting\<rparr> =
       Some (Return (- EBADMSG, f, s)) \<and> ReadStream f = (0, Some b, f2) \<and> window b = to_be 4 70000 \<and>
     dwBytesPending f2 = 2 ^ 32 - 4"
  by (rule recv_bad_size_leaves_buffer) (simp_all add: roomy_def wit_heap_def payload_token_def)

lemma recv_size_loop_spins:
  "recv_size_loop hp bF f s ret = Some r \<Longrightarrow>
   \<not> bF \<longrightarrow> GetRecvState f = recvSize \<longrightarrow> queBufRead f \<noteq> [] \<longrightarrow> avail s = [] \<longrightarrow> rend s = Closed \<longrightarrow> False"
proof (erule recv_size_loop.raw_induct
    [where P = "\<lambda>hp bF f s ret r. \<not> bF \<longrightarrow> GetRecvState f = recvSize \<longrightarrow> queBufRead f \<noteq> [] \<longrightarrow> avail s = [] \<longrightarrow> rend s = Closed \<longrightarrow> False", rotated])
  fix loop :: "heap \<Rightarrow> bool \<Rightarrow> recv_filter \<Rightarrow> rsock \<Rightarrow> int \<Rightarrow> ((int \<times> recv_filter \<times> rsock) outcome) option"
    and hp bF f s ret r
  assume ih: "\<And>hp bF f s ret r. loop hp bF f s ret = Some r \<Longrightarrow>
    \<not> bF \<longrightarrow> GetRecvState f = recvSize \<longrightarrow> queBufRead f \<noteq> [] \<longrightarrow> avail s = [] \<longrightarrow> rend s = Closed \<longrightarrow> False"
  assume body: "(if GetRecvState f \<noteq> recvSize then Some (Return (ret, f, s))
     else if queBufRead f = [] then Some Undefined
     else let pBuf = last (queBufRead f); iLeft = u32_sub 4 (dwOffsetRead f) in
       case sock_read iLeft s of
         (Got bs, s1) \<Rightarrow>
          (case storeBytes pBuf (dwOffset pBuf + dwOffsetRead f) bs of
             None \<Rightarrow> Some Undefined
           | Some b1 \<Rightarrow>
              (if length bs = iLeft then
                 (case loadBytes b1 (dwOffset b1) 4 of
                    None \<Rightarrow> Some Undefined
                  | Some w \<Rightarrow>
                     let f1 = (set_back b1 f)\<lparr>dwBytesToRead := of_be w\<rparr> in
                     if of_be w > STM_MAX_BYTES_PER_BUF \<or> of_be w = 0 then Some (Return (- EBADMSG, f1, s1))
                     else (case Resize hp (u32_add (of_be w) UXBUF_OVERHEAD) b1 of
                         Undefined \<Rightarrow> Some Undefined
                       | Throw b2 \<Rightarrow> Some (Throw b2)
                       | Return (_, b2) \<Rightarrow>
                           loop hp bF
                             ((set_back (snd (SetOffset UXBUF_OVERHEAD b2)) f1)\<lparr>dwOffsetRead := 0\<rparr>) s1 (int (length bs))))
               else loop hp bF
                      ((set_back b1 f)\<lparr>dwOffsetRead := u32_add (dwOffsetRead f) (length bs)\<rparr>) s1 (int (length bs))))
       | (Fail e, s1) \<Rightarrow> Some (Return (- e, f, s1))
       | (Eof, s1) \<Rightarrow> if bF then Some (Return (- ENOTCONN, f, s1)) else loop hp bF f s1 0) = Some r"
  show "\<not> bF \<longrightarrow> GetRecvState f = recvSize \<longrightarrow> queBufRead f \<noteq> [] \<longrightarrow> avail s = [] \<longrightarrow> rend s = Closed \<longrightarrow> False"
  proof (intro impI)
    assume a: "\<not> bF" "GetRecvState f = recvSize" "queBufRead f \<noteq> []" "avail s = []" "rend s = Closed"
    then have "loop hp bF f (s\<lparr>chunks := []\<rparr>) 0 = Some r" using body sock_read_end [OF a(4)] by (simp add: Let_def)
    from ih [OF this] a show False by (simp add: avail_def)
  qed
qed

lemma recv_data_loop_spins:
  "recv_data_loop bF f s ret = Some r \<Longrightarrow>
   \<not> bF \<longrightarrow> (\<exists>tok p q pend off. filling tok p q pend off f \<and> dwBytesToRead f = length p - off) \<longrightarrow> avail s = [] \<longrightarrow> rend s = Closed \<longrightarrow> False"
proof (erule recv_data_loop.raw_induct
    [where P = "\<lambda>bF f s ret r. \<not> bF \<longrightarrow> (\<exists>tok p q pend off. filling tok p q pend off f \<and> dwBytesToRead f = length p - off) \<longrightarrow> avail s = [] \<longrightarrow> rend s = Closed \<longrightarrow> False", rotated])
  fix loop :: "bool \<Rightarrow> recv_filter \<Rightarrow> rsock \<Rightarrow> int \<Rightarrow> ((int \<times> recv_filter \<times> rsock) outcome) option"
    and bF f s ret r
  assume ih: "\<And>bF f s ret r. loop bF f s ret = Some r \<Longrightarrow>
    \<not> bF \<longrightarrow> (\<exists>tok p q pend off. filling tok p q pend off f \<and> dwBytesToRead f = length p - off) \<longrightarrow> avail s = [] \<longrightarrow> rend s = Closed \<longrightarrow> False"
  assume body: "(if dwBytesToRead f = 0 then Some (Return (ret, f, s))
     else if queBufRead f = [] then Some (Return (- EFAULT, f, s))
     else let pBuf = last (queBufRead f); iLeft = u32_sub (bufSize pBuf) (dwOffsetRead f) in
       if dwBytesToRead f > iLeft then Some (Return (- ERANGE, f, s))
       else case sock_read iLeft s of
         (Got bs, s1) \<Rightarrow>
          (case storeBytes pBuf (dwOffset pBuf + dwOffsetRead f) bs of
             None \<Rightarrow> Some Undefined
           | Some b1 \<Rightarrow>
              (if length bs = iLeft then
                 Some (Return (int (unat (byToken f)),
                   (set_back b1 f)\<lparr>dwOffsetRead := NO_OFFSET, dwBytesToRead := 0,
                      dwBytesPending := u32_add (dwBytesPending f) (bufSize b1), byToken := 0\<rparr>, s1))
               else loop bF
                 ((set_back b1 f)\<lparr>dwBytesToRead := u32_sub (dwBytesToRead f) (length bs),
                    dwOffsetRead := u32_add (dwOffsetRead f) (length bs)\<rparr>) s1 (int (length bs))))
       | (Fail e, s1) \<Rightarrow> Some (Return (- e, f, s1))
       | (Eof, s1) \<Rightarrow> if bF then Some (Return (- ENOTCONN, f, s1)) else loop bF f s1 0) = Some r"
  show "\<not> bF \<longrightarrow> (\<exists>tok p q pend off. filling tok p q pend off f \<and> dwBytesToRead f = length p - off) \<longrightarrow> avail s = [] \<longrightarrow> rend s = Closed \<longrightarrow> False"
  proof (intro impI)
    assume a: "\<not> bF" "\<exists>tok p q pend off. filling tok p q pend off f \<and> dwBytesToRead f = length p - off" "avail s = []" "rend s = Closed"
    then obtain tok p q pend off where f: "filling tok p q pend off f" "dwBytesToRead f = length p - off" by blast
    then have "u32_sub (bufSize (last (queBufRead f))) (dwOffsetRead f) = length p - off" "queBufRead f \<noteq> []" "off < length p"
      by (auto simp: filling_def u32_simps)
    then have "loop bF f (s\<lparr>chunks := []\<rparr>) 0 = Some r" using body sock_read_end [OF a(3)] a(1,4) f(2) by (simp add: Let_def)
    from ih [OF this] a show False by (simp add: avail_def)
  qed
qed

lemma recv_data_loop_closed:
  "filling tok p q pend off f \<Longrightarrow> dwBytesToRead f = length p - off \<Longrightarrow> drop off p = avail s @ t \<Longrightarrow> t \<noteq> [] \<Longrightarrow>
   rend s = Closed \<Longrightarrow> recv_data_loop False f s ret = None"
proof (induction "length p - off" arbitrary: off f s ret rule: less_induct)
  case less
  show ?case
  proof (cases "avail s = []")
    case True
    then show ?thesis using recv_data_loop_spins [of False f s ret] less.prems
      by (cases "recv_data_loop False f s ret") blast+
  next
    case ne: False
    have lt: "length (avail s) < length p - off"
      using arg_cong [OF less.prems(3), of length] less.prems(4) by (cases t) auto
    have ag: "agrees p off s" using less.prems(3) lt by (auto simp: agrees_def)
    obtain bs f1 s1 where st: "0 < length bs" "avail s = bs @ avail s1" "rend s1 = rend s" "off + length bs \<le> length p"
      "if off + length bs = length p
       then recv_data_loop False f s ret = Some (Return (int (unat tok), f1, s1)) \<and> delivered p q pend f1
       else recv_data_loop False f s ret = recv_data_loop False f1 s1 (int (length bs)) \<and>
         filling tok p q pend (off + length bs) f1 \<and> dwBytesToRead f1 = length p - (off + length bs)"
      by (rule recv_data_step [OF less.prems(1,2) ne ag, of False ret]) blast
    have l: "off + length bs < length p" using lt st(2) by simp
    have d: "drop (off + length bs) p = avail s1 @ t"
      using arg_cong [OF less.prems(3), of "drop (length bs)"] st(2) by (simp add: add.commute)
    have "length p - (off + length bs) < length p - off" using l st(1) by linarith
    from less.hyps [OF this _ _ d less.prems(4), of f1 "int (length bs)"] show ?thesis using st l less.prems(5) by simp
  qed
qed

lemma recv_size_loop_closed:
  assumes n: "1 \<le> n" "n \<le> STM_MAX_BYTES_PER_BUF" "n = length (p :: u8 list)" "\<And>k. allocOk hp k"
  shows "filling tok (to_be 4 n) q pend off f \<Longrightarrow> dwBytesToRead f = 0 \<Longrightarrow> drop off (to_be 4 n) = avail s @ t \<Longrightarrow>
   t \<noteq> [] \<Longrightarrow> rend s = Closed \<Longrightarrow> recv_size_loop hp False f s ret = None"
proof (induction "4 - off" arbitrary: off f s ret rule: less_induct)
  case less
  have off: "off < 4" "dwOffsetRead f = off" using less.prems(1) by (auto simp: filling_def)
  show ?case
  proof (cases "avail s = []")
    case True
    have "GetRecvState f = recvSize" "queBufRead f \<noteq> []" using less.prems(1,2) off by (auto simp: GetRecvState_def filling_def)
    then show ?thesis using recv_size_loop_spins [of hp False f s ret] less.prems True
      by (cases "recv_size_loop hp False f s ret") blast+
  next
    case ne: False
    have lt: "length (avail s) < 4 - off"
      using arg_cong [OF less.prems(3), of length] less.prems(4) by (cases t) auto
    have ag: "agrees (to_be 4 n) off s" using less.prems(3) lt by (auto simp: agrees_def)
    obtain bs f1 s1 where st: "0 < length bs" "avail s = bs @ avail s1" "rend s1 = rend s" "off + length bs \<le> 4"
      "recv_size_loop hp False f s ret = recv_size_loop hp False f1 s1 (int (length bs))"
      "if off + length bs = 4 then filling tok p q pend 0 f1 \<and> dwBytesToRead f1 = n
       else filling tok (to_be 4 n) q pend (off + length bs) f1 \<and> dwBytesToRead f1 = 0"
      by (rule recv_size_step [OF less.prems(1,2) ne ag n, of False ret]) blast
    have l: "off + length bs < 4" using lt st(2) by simp
    have d: "drop (off + length bs) (to_be 4 n) = avail s1 @ t"
      using arg_cong [OF less.prems(3), of "drop (length bs)"] st(2) by (simp add: add.commute)
    have "4 - (off + length bs) < 4 - off" using st(1) off by linarith
    from less.hyps [OF this _ _ d less.prems(4), of f1 "int (length bs)"] show ?thesis using st l less.prems(5) by simp
  qed
qed

text \<open>
  When the peer closes the connection inside a packet and the token is read in the same
  call, \<open>OnIoReady\<close> never returns: \<open>bFirst\<close> is already false, so neither loop recognises the end
  of file and the thread spins on \<open>read\<close>.
\<close>

theorem recv_close_inside_packet_spins:
  assumes "roomy hp stale" "payload_token tok" "1 \<le> length p" "length p \<le> STM_MAX_BYTES_PER_BUF"
    "idle q pend f" "packet tok p = tok # avail s @ t" "t \<noteq> []" "rend s = Closed"
  shows "RecvOnIoReady hp stale f (s\<lparr>chunks := [tok] # chunks s\<rparr>) = None"
proof -
  have al: "\<And>k. allocOk hp k" using assms(1) by (simp add: roomy_def)
  let ?s = "s\<lparr>chunks := [tok] # chunks s\<rparr>"
  have av: "avail ?s = tok # avail s" by (simp add: avail_def)
  obtain f1 s1 where r: "RecvOnIoReady hp stale f ?s = map_option (map_outcome recv_reset) (recv_rest hp False f1 s1 0)"
      "filling tok (to_be 4 (length p)) q pend 0 f1" "dwBytesToRead f1 = 0" "avail s1 = avail s" "rend s1 = rend ?s"
    by (rule recv_from_idle [OF assms(1,2,5) av])
  have cl: "rend s1 = Closed" using r(5) assms(8) by simp
  have e: "to_be 4 (length p) @ p = avail s1 @ t" using assms(6) r(4) by (simp add: packet_def)
  show ?thesis
  proof (cases "length (avail s1) < 4")
    case True
    have "drop 0 (to_be 4 (length p)) = avail s1 @ take (4 - length (avail s1)) t"
      using arg_cong [OF e, of "take 4"] True by simp
    moreover have "take (4 - length (avail s1)) t \<noteq> []" using True assms(7) by simp
    ultimately have "recv_size_loop hp False f1 s1 0 = None"
      by (rule recv_size_loop_closed [OF assms(3,4) refl al r(2,3) _ _ cl])
    then show ?thesis using r(1) by (simp add: recv_rest_def)
  next
    case False
    have a: "avail s1 = drop 0 (to_be 4 (length p)) @ drop 4 (avail s1)"
      using arg_cong [OF e, of "take 4"] False append_take_drop_id [of 4 "avail s1"] by simp
    then have pr: "p = drop 4 (avail s1) @ t" using e by (metis append.assoc drop0 same_append_eq)
    obtain k f2 s2 where sz: "recv_size_loop hp False f1 s1 0 = Some (Return (int k, f2, s2))" "filling tok p q pend 0 f2"
      "dwBytesToRead f2 = length p" "avail s2 = drop 4 (avail s1)" "rend s2 = rend s1"
      using recv_size_loop_done [OF assms(3,4) refl al r(2,3) a, of False 0] by blast
    have "GetRecvState f2 = recvData" using sz(3) assms(3) by (auto simp: GetRecvState_def)
    moreover have "recv_data_loop False f2 s2 0 = None"
      by (rule recv_data_loop_closed [OF sz(2) _ _ assms(7)]) (use sz pr cl in simp_all)
    ultimately show ?thesis using r(1) sz(1) by (simp add: recv_rest_def ERROR_def)
  qed
qed

lemma recv_close_inside_packet_witness:
  "RecvOnIoReady wit_heap (replicate 48 0) (new_recv 0) (\<lparr>chunks = [[0, 0], [0, 2, 5]], rend = Closed\<rparr>\<lparr>chunks := [1] # [[0, 0], [0, 2, 5]]\<rparr>) = None"
proof -
  have "RecvOnIoReady wit_heap (replicate 48 0) (new_recv 0)
     (\<lparr>chunks = [[0, 0], [0, 2, 5]], rend = Closed\<rparr>\<lparr>chunks := [1] # chunks \<lparr>chunks = [[0, 0], [0, 2, 5]], rend = Closed\<rparr>\<rparr>) = None"
    by (rule recv_close_inside_packet_spins [where p = "[5, 6]" and t = "[6]" and q = "[]" and pend = 0])
      (simp_all add: roomy_def wit_heap_def payload_token_def packet_def to_be_4 idle_def new_recv_def avail_def)
  then show ?thesis by simp
qed

end
