(* ===== verification/UxSend.thy ===== *)
theory UxSend
  imports UxSock
begin

text \<open>
  The sending side of the byte-stream protocol, \<open>CSendQue\<close> of \<open>ipc/uxport.cpp\<close> and
  \<open>ipc/uxport.h\<close>: a queue of packets, of which the front one is being written, and where it
  stopped. A data packet larger than \<open>STM_MAX_BYTES_PER_BUF\<close> is meant to go out in several
  blocks, counted by \<open>m_dwBlockSent\<close>.

  The socket is the list of how many bytes each of the next calls of \<open>SendBytesNoSig\<close>
  accepts, and what the calls after these report.
\<close>

subsection \<open>State\<close>

record stm_packet =
  pktToken :: u8
  pktSize :: nat
  pktData :: "cbuffer option"

record send_que =
  dwBytesToWrite :: nat
  dwOffsetWrite :: nat
  dwBytesPendingW :: nat
  dwRestBytes :: nat
  dwBlockSent :: nat
  queBufWrite :: "stm_packet list"

text \<open>\<open>sent\<close> is the stream so far, \<open>accepts\<close> what the next calls take (at least one byte each).\<close>

record wsock =
  sent :: "u8 list"
  accepts :: "nat list"
  werr :: int

datatype SendState = sendTok | sendSize | sendPayload

definition new_send :: send_que where
  "new_send = \<lparr>dwBytesToWrite = 0, dwOffsetWrite = NO_OFFSET, dwBytesPendingW = 0, dwRestBytes = 0,
     dwBlockSent = 0, queBufWrite = []\<rparr>"

definition GetSendState :: "send_que \<Rightarrow> SendState" where
  "GetSendState q = (if dwBytesToWrite q = 0
     then if dwOffsetWrite q = NO_OFFSET then sendTok else sendSize
     else sendPayload)"

text \<open>
  \<open>SendBytesNoSig( fd, pos, n )\<close> with \<open>n\<close> positive: how many bytes go out, or \<open>None\<close> for -1 with
  \<open>errno\<close> in \<open>werr\<close>. \<open>mem\<close> is the memory from \<open>pos\<close> on; \<open>Undefined\<close> when the bytes sent are
  not all inside it.
\<close>

definition sock_send :: "u8 list \<Rightarrow> nat \<Rightarrow> wsock \<Rightarrow> (nat option \<times> wsock) outcome" where
  "sock_send mem n k = (case accepts k of
      [] \<Rightarrow> Return (None, k)
    | a # as \<Rightarrow>
        let m = min n (max 1 a) in
        if m > length mem then Undefined
        else Return (Some m, k\<lparr>sent := sent k @ take m mem, accepts := as\<rparr>))"

definition send_error :: "wsock \<Rightarrow> int" where
  "send_error k = (if werr k = EAGAIN then - EAGAIN else - werr k)"

subsection \<open>The loops of \<open>OnIoReady\<close>\<close>

text \<open>The size: the rest of its four bytes until they are out.\<close>

function send_size_loop :: "nat \<Rightarrow> send_que \<Rightarrow> wsock \<Rightarrow> int \<Rightarrow> (int \<times> send_que \<times> wsock) outcome" where
  "send_size_loop dwPktSize q k ret =
    (if GetSendState q \<noteq> sendSize then Return (ret, q, k)
     else let iLeft = u32_sub 4 (dwOffsetWrite q) in
       case sock_send (drop (dwOffsetWrite q) (to_be 4 dwPktSize)) iLeft k of
         Return (Some m, k1) \<Rightarrow>
           if m = iLeft then send_size_loop dwPktSize (q\<lparr>dwOffsetWrite := 0, dwBytesToWrite := dwPktSize\<rparr>) k1 0
           else send_size_loop dwPktSize (q\<lparr>dwOffsetWrite := u32_add (dwOffsetWrite q) m\<rparr>) k1 0
       | Return (None, k1) \<Rightarrow> Return (send_error k1, q, k1)
       | _ \<Rightarrow> Undefined)"
  by pat_completeness auto

lemma sock_send_accepts:
  "sock_send mem n k = Return (Some m, k1) \<Longrightarrow> length (accepts k1) < length (accepts k) \<and> werr k1 = werr k"
  by (auto simp: sock_send_def Let_def split: list.splits if_splits)

termination send_size_loop
  by (relation "measure (\<lambda>(_, _, k, _). length (accepts k))") (auto dest: sock_send_accepts)

declare send_size_loop.simps [simp del]

text \<open>The payload of the current block; the packet is dequeued when nothing is left of it.\<close>

function send_payload_loop :: "nat \<Rightarrow> send_que \<Rightarrow> wsock \<Rightarrow> int \<Rightarrow> (int \<times> send_que \<times> wsock) outcome" where
  "send_payload_loop dwPktSize q k ret =
    (if dwBytesToWrite q = 0 then Return (ret, q, k)
     else case pktData (hd (queBufWrite q)) of
       None \<Rightarrow> Return (- EFAULT, q, k)
     | Some pBuf \<Rightarrow>
        let iLeft = u32_sub dwPktSize (dwOffsetWrite q) in
        if dwBytesToWrite q > iLeft then Return (- ERANGE, q, k)
        else (case sock_send (drop (dwOffset pBuf + (dwBlockSent q * STM_MAX_BYTES_PER_BUF) mod 2 ^ 32 + dwOffsetWrite q)
                                   (memBytes pBuf)) iLeft k of
          Return (Some m, k1) \<Rightarrow>
            if m = iLeft then
              let q1 = q\<lparr>dwOffsetWrite := NO_OFFSET, dwBytesToWrite := 0,
                         dwBytesPendingW := u32_sub (dwBytesPendingW q) (u32_add 5 dwPktSize),
                         dwRestBytes := u32_sub (dwRestBytes q) dwPktSize\<rparr>
              in if dwRestBytes q1 > 0
                 then Return (int m, q1\<lparr>dwBlockSent := u32_add (dwBlockSent q) 1\<rparr>, k1)
                 else Return (0, q1\<lparr>queBufWrite := tl (queBufWrite q)\<rparr>, k1)
            else send_payload_loop dwPktSize
                   (q\<lparr>dwBytesToWrite := u32_sub (dwBytesToWrite q) m,
                      dwOffsetWrite := u32_add (dwOffsetWrite q) m\<rparr>) k1 0
        | Return (None, k1) \<Rightarrow> Return (send_error k1, q, k1)
        | _ \<Rightarrow> Undefined))"
  by pat_completeness auto
termination
  by (relation "measure (\<lambda>(_, _, k, _). length (accepts k))") (auto dest: sock_send_accepts)

declare send_payload_loop.simps [simp del]

text \<open>The token phase; \<open>Inl\<close> leaves or repeats the outer loop with a packet finished or failed.\<close>

definition send_token :: "send_que \<Rightarrow> wsock \<Rightarrow> int \<Rightarrow> ((int \<times> send_que \<times> wsock) + (int \<times> send_que \<times> wsock)) outcome" where
  "send_token q k ret =
    (let oPkt = hd (queBufWrite q); tok = pktToken oPkt in
     if GetSendState q \<noteq> sendTok then Return (Inr (ret, q, k))
     else case sock_send [tok] 1 k of
       Return (None, k1) \<Rightarrow> Return (Inl (send_error k1, q, k1))
     | Return (Some m, k1) \<Rightarrow>
         if command_token tok then
           Return (Inl (0, q\<lparr>dwBytesPendingW := u32_sub (dwBytesPendingW q) 1, queBufWrite := tl (queBufWrite q)\<rparr>, k1))
         else if \<not> payload_token tok then Return (Inl (- EBADMSG, q, k1))
         else if tok \<noteq> tokData \<and> pktSize oPkt > STM_MAX_BYTES_PER_BUF then Return (Inl (- EBADMSG, q, k1))
         else Return (Inr (int m, q\<lparr>dwOffsetWrite := 0\<rparr>, k1))
     | _ \<Rightarrow> Undefined)"

text \<open>One round of the outer loop, after the token: how much of the packet goes into this block.\<close>

definition send_block :: "send_que \<Rightarrow> wsock \<Rightarrow> int \<Rightarrow> (int \<times> send_que \<times> wsock) outcome" where
  "send_block q k ret =
    (let room = u32_sub (dwRestBytes q) ((STM_MAX_BYTES_PER_BUF * dwBlockSent q) mod 2 ^ 32);
         dwPktSize = (if room > STM_MAX_BYTES_PER_BUF then STM_MAX_BYTES_PER_BUF else room)
     in case send_size_loop dwPktSize q k ret of
         Return (ret1, q1, k1) \<Rightarrow>
           if ERROR ret1 then Return (ret1, q1, k1)
           else if GetSendState q1 \<noteq> sendPayload then Return (ERROR_STATE, q1, k1)
           else send_payload_loop dwPktSize q1 k1 ret1
       | r \<Rightarrow> r)"

text \<open>
  \<open>CSendQue::OnIoReady\<close>: \<open>do ... while( m_dwRestBytes > 0 )\<close>. A \<open>continue\<close> of the outer loop
  evaluates its condition; an error leaves the loop.
\<close>

partial_function (option) send_loop :: "send_que \<Rightarrow> wsock \<Rightarrow> int \<Rightarrow> ((int \<times> send_que \<times> wsock) outcome) option" where
  "send_loop q k ret =
    (if queBufWrite q = [] then Some (Return (ret, q, k))
     else
       let q0 = (case pktData (hd (queBufWrite q)) of
                   Some b \<Rightarrow> if dwRestBytes q = 0 then q\<lparr>dwRestBytes := bufSize b\<rparr> else q
                 | None \<Rightarrow> q)
       in case send_token q0 k ret of
         Return (Inl (ret1, q1, k1)) \<Rightarrow>
           if ERROR ret1 \<or> dwRestBytes q1 = 0 then Some (Return (ret1, q1, k1)) else send_loop q1 k1 ret1
       | Return (Inr (ret1, q1, k1)) \<Rightarrow>
          (case send_block q1 k1 ret1 of
             Return (ret2, q2, k2) \<Rightarrow>
               if ERROR ret2 \<or> dwRestBytes q2 = 0 then Some (Return (ret2, q2, k2)) else send_loop q2 k2 ret2
           | _ \<Rightarrow> Some Undefined)
       | _ \<Rightarrow> Some Undefined)"

definition SendOnIoReady :: "send_que \<Rightarrow> wsock \<Rightarrow> ((int \<times> send_que \<times> wsock) outcome) option" where
  "SendOnIoReady q k = send_loop q k 0"

subsection \<open>Queueing packets\<close>

definition pending_result :: "((int \<times> send_que \<times> wsock) outcome) option \<Rightarrow> ((int \<times> send_que \<times> wsock) outcome) option" where
  "pending_result r = map_option (map_outcome (\<lambda>(ret, x). (if ret = - EAGAIN then STATUS_PENDING else ret, x))) r"

definition SendPingPong :: "bool \<Rightarrow> send_que \<Rightarrow> wsock \<Rightarrow> ((int \<times> send_que \<times> wsock) outcome) option" where
  "SendPingPong bPing q k = pending_result (SendOnIoReady
     (q\<lparr>queBufWrite := queBufWrite q @ [\<lparr>pktToken = (if bPing then tokPing else tokPong), pktSize = 0, pktData = None\<rparr>],
        dwBytesPendingW := u32_add (dwBytesPendingW q) 1\<rparr>) k)"

definition SendClose :: "send_que \<Rightarrow> wsock \<Rightarrow> ((int \<times> send_que \<times> wsock) outcome) option" where
  "SendClose q k = pending_result (SendOnIoReady
     (q\<lparr>queBufWrite := queBufWrite q @ [\<lparr>pktToken = tokClose, pktSize = 0, pktData = None\<rparr>],
        dwBytesPendingW := u32_add (dwBytesPendingW q) 1\<rparr>) k)"

definition WriteStream :: "cbuffer \<Rightarrow> u8 \<Rightarrow> send_que \<Rightarrow> wsock \<Rightarrow> ((int \<times> send_que \<times> wsock) outcome) option" where
  "WriteStream pBuf tok q k =
    (let q1 = q\<lparr>queBufWrite := queBufWrite q @ [\<lparr>pktToken = tok, pktSize = bufSize pBuf, pktData = Some pBuf\<rparr>],
                dwBytesPendingW := u32_add (dwBytesPendingW q) (u32_add 5 (bufSize pBuf))\<rparr>
     in if length (queBufWrite q1) > 1 then Some (Return (STATUS_PENDING, q1, k))
        else pending_result (SendOnIoReady q1 k))"

subsection \<open>What the sender promises\<close>

definition frame :: "stm_packet \<Rightarrow> u8 list" where
  "frame pkt = (case pktData pkt of None \<Rightarrow> [pktToken pkt] | Some b \<Rightarrow> packet (pktToken pkt) (window b))"

text \<open>The packets the callers are expected to queue: commands, and payloads of 1 to 63K bytes.\<close>

definition valid_payload :: "cbuffer \<Rightarrow> bool" where
  "valid_payload b \<longleftrightarrow> buf_wf b \<and> 1 \<le> bufSize b \<and> bufSize b \<le> STM_MAX_BYTES_PER_BUF"

definition valid_packet :: "stm_packet \<Rightarrow> bool" where
  "valid_packet pkt \<longleftrightarrow> (case pktData pkt of
      None \<Rightarrow> command_token (pktToken pkt)
    | Some b \<Rightarrow> payload_token (pktToken pkt) \<and> pktSize pkt = bufSize b \<and> valid_payload b)"

text \<open>How many bytes of the front packet are out, and the bytes still to go.\<close>

definition send_pos :: "send_que \<Rightarrow> nat" where
  "send_pos q = (if dwBytesToWrite q = 0
     then if dwOffsetWrite q = NO_OFFSET then 0 else 1 + dwOffsetWrite q
     else 5 + dwOffsetWrite q)"

definition remaining :: "send_que \<Rightarrow> u8 list" where
  "remaining q = drop (send_pos q) (concat (map frame (queBufWrite q)))"

definition front_ok :: "stm_packet \<Rightarrow> send_que \<Rightarrow> bool" where
  "front_ok pkt q \<longleftrightarrow> (case pktData pkt of
      None \<Rightarrow> dwBytesToWrite q = 0 \<and> dwOffsetWrite q = NO_OFFSET \<and> dwRestBytes q = 0
    | Some b \<Rightarrow>
       (dwBytesToWrite q = 0 \<and> dwOffsetWrite q = NO_OFFSET \<and> dwRestBytes q \<in> {0, bufSize b}) \<or>
       (dwBytesToWrite q = 0 \<and> dwOffsetWrite q < 4 \<and> dwRestBytes q = bufSize b) \<or>
       (dwOffsetWrite q < bufSize b \<and> dwBytesToWrite q = bufSize b - dwOffsetWrite q \<and> dwRestBytes q = bufSize b))"

definition send_ok :: "send_que \<Rightarrow> bool" where
  "send_ok q \<longleftrightarrow> list_all valid_packet (queBufWrite q) \<and> dwBlockSent q = 0 \<and>
     dwBytesPendingW q = length (concat (map frame (queBufWrite q))) mod 2 ^ 32 \<and>
     (case queBufWrite q of
        [] \<Rightarrow> dwBytesToWrite q = 0 \<and> dwOffsetWrite q = NO_OFFSET \<and> dwRestBytes q = 0
      | pkt # _ \<Rightarrow> front_ok pkt q)"

text \<open>A call moves bytes from what remains to the stream, one at least for each call of \<open>send\<close>.\<close>

definition moves :: "send_que \<Rightarrow> wsock \<Rightarrow> send_que \<Rightarrow> wsock \<Rightarrow> bool" where
  "moves q k q' k' \<longleftrightarrow> send_ok q' \<and> sent k' @ remaining q' = sent k @ remaining q \<and> werr k' = werr k \<and>
     length (sent k) + length (accepts k) \<le> length (sent k') + length (accepts k')"

lemma moves_refl: "send_ok q \<Longrightarrow> moves q k q k"
  by (simp add: moves_def)

lemma moves_trans: "moves q k q1 k1 \<Longrightarrow> moves q1 k1 q2 k2 \<Longrightarrow> moves q k q2 k2"
  by (auto simp: moves_def)

lemma frame_payload:
  assumes "pktData pkt = Some b" "buf_wf b"
  obtains hdr where "frame pkt = hdr @ window b" "length hdr = 5" "hdr = pktToken pkt # to_be 4 (bufSize b)"
  using assms by (intro that [of "pktToken pkt # to_be 4 (bufSize b)"])
    (simp_all add: frame_def packet_def to_be_4 buf_wf_lengths(4))

lemma frame_length: "pktData pkt = Some b \<Longrightarrow> buf_wf b \<Longrightarrow> length (frame pkt) = 5 + bufSize b"
  by (simp add: frame_def packet_def to_be_4 buf_wf_lengths(4))

lemma front_mem:
  assumes "buf_wf b" "off + m \<le> bufSize b"
  shows "take m (drop (dwOffset b + off) (memBytes b)) = take m (drop off (window b))"
    "m \<le> length (drop (dwOffset b + off) (memBytes b))"
  using assms buf_wf_lengths(5) [OF assms(1)]
  by (auto simp: window_def drop_take min_def add.commute)

lemma sock_send_cases:
  assumes "0 < n" "n \<le> length mem"
  obtains (full) "accepts k = []" "sock_send mem n k = Return (None, k)"
  | (some) m as k1 where "accepts k = m # as" "sock_send mem n k = Return (Some (min n (max 1 m)), k1)"
    "k1 = k\<lparr>sent := sent k @ take (min n (max 1 m)) mem, accepts := as\<rparr>"
  using assms by (cases "accepts k") (auto simp: sock_send_def Let_def)

lemma send_error_neg: "0 < werr k \<Longrightarrow> ERROR (send_error k)"
  by (simp add: send_error_def ERROR_def)

text \<open>Sending the payload of a packet that fits one block.\<close>

definition in_payload :: "stm_packet \<Rightarrow> cbuffer \<Rightarrow> stm_packet list \<Rightarrow> nat \<Rightarrow> send_que \<Rightarrow> bool" where
  "in_payload pkt b rest off q \<longleftrightarrow> send_ok q \<and> queBufWrite q = pkt # rest \<and> pktData pkt = Some b \<and>
     dwOffsetWrite q = off \<and> off < bufSize b \<and> dwBytesToWrite q = bufSize b - off \<and> dwRestBytes q = bufSize b"

lemma in_payloadD:
  assumes "in_payload pkt b rest off q"
  shows "buf_wf b" "1 \<le> bufSize b" "bufSize b \<le> STM_MAX_BYTES_PER_BUF" "payload_token (pktToken pkt)" "pktSize pkt = bufSize b"
    "list_all valid_packet rest" "dwBlockSent q = 0"
    "remaining q = drop off (window b) @ concat (map frame rest)"
    "dwBytesPendingW q = (5 + bufSize b + length (concat (map frame rest))) mod 2 ^ 32"
proof -
  have p: "valid_packet pkt" "pktData pkt = Some b" "send_ok q" "queBufWrite q = pkt # rest" using assms
    by (auto simp: in_payload_def send_ok_def)
  show w: "buf_wf b" "1 \<le> bufSize b" "bufSize b \<le> STM_MAX_BYTES_PER_BUF" "payload_token (pktToken pkt)" "pktSize pkt = bufSize b"
    using p(1,2) by (simp_all add: valid_packet_def valid_payload_def)
  show "list_all valid_packet rest" "dwBlockSent q = 0" using p by (simp_all add: send_ok_def)
  have l: "length (window b) = bufSize b" "length (to_be 4 (bufSize b)) = 4" using buf_wf_lengths(4) [OF w(1)] by (simp_all add: to_be_4)
  have "send_pos q = 5 + off" using assms by (simp add: send_pos_def in_payload_def)
  moreover obtain hdr where "frame pkt = hdr @ window b" "length hdr = 5" using frame_payload [OF p(2) w(1)] by metis
  ultimately show "remaining q = drop off (window b) @ concat (map frame rest)"
    using p(4) assms l by (simp add: remaining_def in_payload_def)
  show "dwBytesPendingW q = (5 + bufSize b + length (concat (map frame rest))) mod 2 ^ 32"
    using p frame_length [OF p(2) w(1)] by (simp add: send_ok_def)
qed

lemma mod_sub_shift: "((x :: int) mod m + (m - y mod m)) mod m = (x - y) mod m"
proof -
  have "(x mod m + (m - y mod m)) mod m = ((x mod m - y mod m) + m) mod m" by (simp add: algebra_simps)
  also have "\<dots> = (x mod m - y mod m) mod m" by (rule mod_add_self2)
  finally show ?thesis by (simp only: mod_diff_eq)
qed

lemma u32_sub_mod:
  assumes "a \<le> b"
  shows "u32_sub (b mod 2 ^ 32) a = (b - a) mod 2 ^ 32"
proof -
  have m: "a mod 2 ^ 32 \<le> 2 ^ 32" by simp
  have "int (b mod 2 ^ 32 + (2 ^ 32 - a mod 2 ^ 32)) = int b mod 2 ^ 32 + (2 ^ 32 - int a mod 2 ^ 32)"
    using m by (simp add: of_nat_diff zmod_int)
  then have "int (u32_sub (b mod 2 ^ 32) a) = (int b mod 2 ^ 32 + (2 ^ 32 - int a mod 2 ^ 32)) mod 2 ^ 32"
    unfolding u32_sub_def by (simp only: zmod_int of_nat_power of_nat_numeral mod_mod_trivial)
  also have "\<dots> = (int b - int a) mod 2 ^ 32" by (rule mod_sub_shift)
  also have "\<dots> = int ((b - a) mod 2 ^ 32)" using assms by (simp add: zmod_int of_nat_diff)
  finally show ?thesis by (simp only: of_nat_eq_iff)
qed


text \<open>The packet at the front is done: the next one starts from scratch.\<close>

lemma send_ok_dequeued:
  assumes "send_ok q" "queBufWrite q = pkt # rest"
  shows "send_ok (q\<lparr>dwOffsetWrite := NO_OFFSET, dwBytesToWrite := 0,
      dwBytesPendingW := u32_sub (dwBytesPendingW q) (length (frame pkt)), dwRestBytes := 0, queBufWrite := rest\<rparr>)"
proof -
  have "dwBytesPendingW q = (length (frame pkt) + length (concat (map frame rest))) mod 2 ^ 32"
    using assms by (simp add: send_ok_def)
  then have "u32_sub (dwBytesPendingW q) (length (frame pkt)) = length (concat (map frame rest)) mod 2 ^ 32"
    using u32_sub_mod [of "length (frame pkt)" "length (frame pkt) + length (concat (map frame rest))"] by simp
  then show ?thesis using assms by (auto simp: send_ok_def front_ok_def split: list.split option.split)
qed

definition finishes :: "stm_packet list \<Rightarrow> wsock \<Rightarrow> int \<Rightarrow> send_que \<Rightarrow> wsock \<Rightarrow> bool" where
  "finishes rest k ret q' k' \<longleftrightarrow>
    (if queBufWrite q' = rest then ret = 0 \<and> dwRestBytes q' = 0 else ret = send_error k \<and> accepts k' = [])"

lemma in_payload_next:
  assumes "in_payload pkt b rest off q" "off + m < bufSize b"
  shows "in_payload pkt b rest (off + m)
    (q\<lparr>dwBytesToWrite := u32_sub (dwBytesToWrite q) m, dwOffsetWrite := u32_add (dwOffsetWrite q) m\<rparr>)"
proof -
  note d = in_payloadD [OF assms(1)]
  have u: "u32_add (dwOffsetWrite q) m = off + m" "u32_sub (dwBytesToWrite q) m = bufSize b - (off + m)"
    using assms d(3) by (auto simp: in_payload_def u32_simps)
  show ?thesis using assms unfolding u by (auto simp: in_payload_def send_ok_def front_ok_def)
qed

lemma send_payload_loop_ok:
  "in_payload pkt b rest off q \<Longrightarrow> 0 < werr k \<Longrightarrow>
   \<exists>ret' q' k'. send_payload_loop (bufSize b) q k ret = Return (ret', q', k') \<and> moves q k q' k' \<and>
     queBufWrite q' \<in> {rest, pkt # rest} \<and> finishes rest k ret' q' k'"
proof (induction "bufSize b - off" arbitrary: off q k ret rule: less_induct)
  case less
  note d = in_payloadD [OF less.prems(1)]
  have q: "queBufWrite q = pkt # rest" "pktData pkt = Some b" "dwOffsetWrite q = off" "off < bufSize b"
    "dwBytesToWrite q = bufSize b - off" "dwRestBytes q = bufSize b" "send_ok q" "dwBlockSent q = 0"
    using less.prems(1) d(7) by (auto simp: in_payload_def)
  have il: "u32_sub (bufSize b) off = bufSize b - off" using q(4) d(3) by (simp add: u32_simps)
  let ?mem = "drop (dwOffset b + off) (memBytes b)"
  have mem: "take m ?mem = take m (drop off (window b))" "m \<le> length ?mem" if "m \<le> bufSize b - off" for m
    using front_mem [OF d(1), of off m] that q(4) by auto
  have body: "send_payload_loop (bufSize b) q k ret = (case sock_send ?mem (bufSize b - off) k of
      Return (Some m, k1) \<Rightarrow>
        if m = bufSize b - off then
          Return (0, q\<lparr>dwOffsetWrite := NO_OFFSET, dwBytesToWrite := 0,
                       dwBytesPendingW := u32_sub (dwBytesPendingW q) (length (frame pkt)), dwRestBytes := 0,
                       queBufWrite := rest\<rparr>, k1)
        else send_payload_loop (bufSize b)
               (q\<lparr>dwBytesToWrite := u32_sub (dwBytesToWrite q) m, dwOffsetWrite := u32_add (dwOffsetWrite q) m\<rparr>) k1 0
    | Return (None, k1) \<Rightarrow> Return (send_error k1, q, k1)
    | _ \<Rightarrow> Undefined)"
  proof -
    have "u32_add 5 (bufSize b) = length (frame pkt)" using frame_length [OF q(2) d(1)] d(3) by (simp add: u32_simps)
    moreover have "u32_sub (bufSize b) (bufSize b) = 0" using d(3) by (simp add: u32_simps)
    ultimately show ?thesis
      by (subst send_payload_loop.simps) (use q il in \<open>simp add: Let_def split: outcome.split prod.split option.split\<close>)
  qed
  have n: "0 < bufSize b - off" "bufSize b - off \<le> length ?mem" using q(4) mem(2) by auto
  show ?case
  proof (cases rule: sock_send_cases [OF n, of k])
    case 1
    then have "send_payload_loop (bufSize b) q k ret = Return (send_error k, q, k)" using body by simp
    then show ?thesis using 1(1) q moves_refl [OF q(7)] by (auto simp: finishes_def)
  next
    case (2 a as k1)
    define m where "m = min (bufSize b - off) (max 1 a)"
    have m: "0 < m" "m \<le> bufSize b - off" using n(1) by (auto simp: m_def)
    have k1: "sent k1 = sent k @ take m (drop off (window b))" "accepts k1 = as" "werr k1 = werr k"
      using 2(3) mem(1) [OF m(2)] by (simp_all add: m_def)
    have len: "length (take m (drop off (window b))) = m" using m(2) buf_wf_lengths(4) [OF d(1)] by simp
    show ?thesis
    proof (cases "m = bufSize b - off")
      case True
      let ?q = "q\<lparr>dwOffsetWrite := NO_OFFSET, dwBytesToWrite := 0,
          dwBytesPendingW := u32_sub (dwBytesPendingW q) (length (frame pkt)), dwRestBytes := 0, queBufWrite := rest\<rparr>"
      have "send_payload_loop (bufSize b) q k ret = Return (0, ?q, k1)" using body 2(2) True by (simp add: m_def)
      moreover have "remaining ?q = concat (map frame rest)" by (simp add: remaining_def send_pos_def)
      moreover have "take m (drop off (window b)) = drop off (window b)"
        using True buf_wf_lengths(4) [OF d(1)] by simp
      ultimately show ?thesis
        using send_ok_dequeued [OF q(7,1)] k1 d(8) len 2(1) m(1) by (auto simp: moves_def finishes_def)
    next
      case False
      then have lt: "off + m < bufSize b" using m(2) by simp
      let ?q = "q\<lparr>dwBytesToWrite := u32_sub (dwBytesToWrite q) m, dwOffsetWrite := u32_add (dwOffsetWrite q) m\<rparr>"
      have nx: "in_payload pkt b rest (off + m) ?q" by (rule in_payload_next [OF less.prems(1) lt])
      have "bufSize b - (off + m) < bufSize b - off" using m(1) lt by simp
      from less.hyps [OF this nx, of k1 0] obtain ret' q' k' where
        r: "send_payload_loop (bufSize b) ?q k1 0 = Return (ret', q', k')" "moves ?q k1 q' k'"
          "queBufWrite q' \<in> {rest, pkt # rest}" "finishes rest k1 ret' q' k'"
        using k1(3) less.prems(2) by auto
      have "moves q k ?q k1"
        using nx in_payloadD(8) [OF nx] d(8) k1 len 2(1) m(1)
          append_take_drop_id [of m "drop off (window b)"]
        by (auto simp: moves_def in_payload_def add.commute)
      moreover have "finishes rest k ret' q' k'" using r(4) k1(3) by (simp add: finishes_def send_error_def)
      moreover have "send_payload_loop (bufSize b) q k ret = Return (ret', q', k')"
        using body 2(2) False r(1) by (simp add: m_def)
      ultimately show ?thesis using moves_trans r(2,3) by blast
    qed
  qed
qed


text \<open>Sending the size.\<close>

definition in_size :: "stm_packet \<Rightarrow> cbuffer \<Rightarrow> stm_packet list \<Rightarrow> nat \<Rightarrow> send_que \<Rightarrow> bool" where
  "in_size pkt b rest off q \<longleftrightarrow> send_ok q \<and> queBufWrite q = pkt # rest \<and> pktData pkt = Some b \<and>
     dwOffsetWrite q = off \<and> off < 4 \<and> dwBytesToWrite q = 0 \<and> dwRestBytes q = bufSize b"

lemma in_sizeD:
  assumes "in_size pkt b rest off q"
  shows "valid_payload b" "GetSendState q = sendSize" "dwBlockSent q = 0"
    "remaining q = drop off (to_be 4 (bufSize b)) @ window b @ concat (map frame rest)"
    "off + m < 4 \<Longrightarrow> in_size pkt b rest (off + m) (q\<lparr>dwOffsetWrite := off + m\<rparr>)"
    "in_payload pkt b rest 0 (q\<lparr>dwOffsetWrite := 0, dwBytesToWrite := bufSize b\<rparr>)"
proof -
  have p: "valid_packet pkt" "pktData pkt = Some b" "send_ok q" "queBufWrite q = pkt # rest" using assms
    by (auto simp: in_size_def send_ok_def)
  show v: "valid_payload b" using p(1,2) by (simp add: valid_packet_def)
  then have w: "buf_wf b" "0 < bufSize b" by (simp_all add: valid_payload_def)
  show "GetSendState q = sendSize" "dwBlockSent q = 0" using assms by (auto simp: in_size_def GetSendState_def send_ok_def)
  have "send_pos q = Suc off" using assms by (simp add: send_pos_def in_size_def)
  moreover obtain hdr where "frame pkt = hdr @ window b" "hdr = pktToken pkt # to_be 4 (bufSize b)"
    using frame_payload [OF p(2) w(1)] by metis
  moreover have "length (to_be 4 (bufSize b)) = 4" by (simp add: to_be_4)
  ultimately show "remaining q = drop off (to_be 4 (bufSize b)) @ window b @ concat (map frame rest)"
    using p(4) assms by (simp add: remaining_def in_size_def)
  show "off + m < 4 \<Longrightarrow> in_size pkt b rest (off + m) (q\<lparr>dwOffsetWrite := off + m\<rparr>)"
    using assms by (auto simp: in_size_def send_ok_def front_ok_def)
  show "in_payload pkt b rest 0 (q\<lparr>dwOffsetWrite := 0, dwBytesToWrite := bufSize b\<rparr>)"
    using assms w(2) by (auto simp: in_size_def in_payload_def send_ok_def front_ok_def)
qed

lemma in_payload_state: "in_payload pkt b rest off q \<Longrightarrow> GetSendState q = sendPayload"
  by (auto simp: in_payload_def GetSendState_def)

lemma send_size_loop_ok:
  "in_size pkt b rest off q \<Longrightarrow> 0 < werr k \<Longrightarrow>
   \<exists>ret' q' k'. send_size_loop (bufSize b) q k ret = Return (ret', q', k') \<and> moves q k q' k' \<and>
     (ret' = 0 \<and> in_payload pkt b rest 0 q' \<or>
      ret' = send_error k \<and> accepts k' = [] \<and> queBufWrite q' = pkt # rest)"
proof (induction "4 - off" arbitrary: off q k ret rule: less_induct)
  case less
  note d = in_sizeD [OF less.prems(1)]
  have q: "queBufWrite q = pkt # rest" "dwOffsetWrite q = off" "off < 4" "send_ok q"
    using less.prems(1) by (auto simp: in_size_def)
  let ?w = "to_be 4 (bufSize b)"
  have l4: "length ?w = 4" by (simp add: to_be_4)
  have il: "u32_sub 4 off = 4 - off" using q(3) by (simp add: u32_simps)
  have body: "send_size_loop (bufSize b) q k ret = (case sock_send (drop off ?w) (4 - off) k of
      Return (Some m, k1) \<Rightarrow>
        if m = 4 - off then send_size_loop (bufSize b) (q\<lparr>dwOffsetWrite := 0, dwBytesToWrite := bufSize b\<rparr>) k1 0
        else send_size_loop (bufSize b) (q\<lparr>dwOffsetWrite := u32_add off m\<rparr>) k1 0
    | Return (None, k1) \<Rightarrow> Return (send_error k1, q, k1)
    | _ \<Rightarrow> Undefined)"
    by (subst send_size_loop.simps)
      (use q il d(2) in \<open>simp add: Let_def split: outcome.split prod.split option.split\<close>)
  have n: "0 < 4 - off" "4 - off \<le> length (drop off ?w)" using q(3) l4 by auto
  show ?case
  proof (cases rule: sock_send_cases [OF n, of k])
    case 1
    then have "send_size_loop (bufSize b) q k ret = Return (send_error k, q, k)" using body by simp
    then show ?thesis using 1(1) q moves_refl [OF q(4)] by auto
  next
    case (2 a as k1)
    define m where "m = min (4 - off) (max 1 a)"
    have m: "0 < m" "m \<le> 4 - off" using n(1) by (auto simp: m_def)
    have k1: "sent k1 = sent k @ take m (drop off ?w)" "accepts k1 = as" "werr k1 = werr k"
      using 2(3) by (simp_all add: m_def)
    have len: "length (take m (drop off ?w)) = m" using m(2) l4 by simp
    show ?thesis
    proof (cases "m = 4 - off")
      case True
      let ?q = "q\<lparr>dwOffsetWrite := 0, dwBytesToWrite := bufSize b\<rparr>"
      have "send_size_loop (bufSize b) ?q k1 0 = Return (0, ?q, k1)"
        by (subst send_size_loop.simps) (simp add: in_payload_state [OF d(6)])
      then have "send_size_loop (bufSize b) q k ret = Return (0, ?q, k1)" using body 2(2) True by (simp add: m_def)
      moreover have "moves q k ?q k1"
        using True d(4) in_payloadD(8) [OF d(6)] d(6) k1 len 2(1) m(1) l4
        by (auto simp: moves_def in_payload_def)
      ultimately show ?thesis using d(6) by blast
    next
      case False
      then have lt: "off + m < 4" using m(2) by simp
      then have u: "u32_add off m = off + m" by (simp add: u32_simps)
      let ?q = "q\<lparr>dwOffsetWrite := off + m\<rparr>"
      have nx: "in_size pkt b rest (off + m) ?q" by (rule d(5) [OF lt])
      have "4 - (off + m) < 4 - off" using m(1) lt by simp
      from less.hyps [OF this nx, of k1 0] obtain ret' q' k' where
        r: "send_size_loop (bufSize b) ?q k1 0 = Return (ret', q', k')" "moves ?q k1 q' k'"
          "ret' = 0 \<and> in_payload pkt b rest 0 q' \<or> ret' = send_error k1 \<and> accepts k' = [] \<and> queBufWrite q' = pkt # rest"
        using k1(3) less.prems(2) by auto
      have "moves q k ?q k1"
        using nx in_sizeD(4) [OF nx] d(4) k1 len 2(1) m(1) append_take_drop_id [of m "drop off ?w"]
        by (auto simp: moves_def in_size_def add.commute)
      moreover have "send_error k1 = send_error k" using k1(3) by (simp add: send_error_def)
      moreover have "send_size_loop (bufSize b) q k ret = Return (ret', q', k')"
        using body 2(2) False r(1) u by (simp add: m_def)
      ultimately show ?thesis using moves_trans r(2,3) by metis
    qed
  qed
qed

text \<open>One call of \<open>OnIoReady\<close> finishes the front packet or stops at an error of the socket.\<close>

definition call_ok :: "stm_packet \<Rightarrow> stm_packet list \<Rightarrow> send_que \<Rightarrow> wsock \<Rightarrow> int \<times> send_que \<times> wsock \<Rightarrow> bool" where
  "call_ok pkt rest q k r \<longleftrightarrow> (case r of (ret', q', k') \<Rightarrow>
     moves q k q' k' \<and> queBufWrite q' \<in> {rest, pkt # rest} \<and> finishes rest k ret' q' k')"

lemma block_size:
  assumes "valid_payload b" "dwRestBytes q = bufSize b" "dwBlockSent q = 0"
  shows "send_block q k ret = (case send_size_loop (bufSize b) q k ret of
         Return (ret1, q1, k1) \<Rightarrow>
           if ERROR ret1 then Return (ret1, q1, k1)
           else if GetSendState q1 \<noteq> sendPayload then Return (ERROR_STATE, q1, k1)
           else send_payload_loop (bufSize b) q1 k1 ret1
       | r \<Rightarrow> r)"
proof -
  have "bufSize b \<le> STM_MAX_BYTES_PER_BUF" using assms(1) by (simp add: valid_payload_def)
  moreover from this have "u32_sub (bufSize b) 0 = bufSize b" by (simp add: u32_simps)
  ultimately show ?thesis using assms by (simp add: send_block_def Let_def)
qed

lemma send_block_payload:
  assumes "in_payload pkt b rest off q" "0 < werr k" "0 \<le> ret"
  shows "\<exists>r. send_block q k ret = Return r \<and> call_ok pkt rest q k r"
proof -
  note d = in_payloadD [OF assms(1)]
  have st: "send_size_loop (bufSize b) q k ret = Return (ret, q, k)"
    by (subst send_size_loop.simps) (simp add: in_payload_state [OF assms(1)])
  have "send_block q k ret = send_payload_loop (bufSize b) q k ret"
    using block_size [of b q k ret] st in_payload_state [OF assms(1)] d assms(1,3)
    by (simp add: valid_payload_def in_payload_def ERROR_def)
  then show ?thesis using send_payload_loop_ok [OF assms(1,2), of ret] by (auto simp: call_ok_def)
qed

lemma call_ok_trans: "moves q k q1 k1 \<Longrightarrow> call_ok pkt rest q1 k1 r \<Longrightarrow> call_ok pkt rest q k r"
  by (auto simp: call_ok_def finishes_def send_error_def moves_def split: prod.splits)

lemma send_block_size:
  assumes "in_size pkt b rest off q" "0 < werr k"
  shows "\<exists>r. send_block q k ret = Return r \<and> call_ok pkt rest q k r"
proof -
  note d = in_sizeD [OF assms(1)]
  have rb: "dwRestBytes q = bufSize b" using assms(1) by (simp add: in_size_def)
  note sb = block_size [OF d(1) rb d(3), of k ret]
  obtain ret' q' k' where r: "send_size_loop (bufSize b) q k ret = Return (ret', q', k')" "moves q k q' k'"
     "ret' = 0 \<and> in_payload pkt b rest 0 q' \<or> ret' = send_error k \<and> accepts k' = [] \<and> queBufWrite q' = pkt # rest"
    using send_size_loop_ok [OF assms] by blast
  from r(3) show ?thesis
  proof
    assume p: "ret' = 0 \<and> in_payload pkt b rest 0 q'"
    have "0 < werr k'" using r(2) assms(2) by (simp add: moves_def)
    then obtain x where x: "send_payload_loop (bufSize b) q' k' 0 = Return x" "call_ok pkt rest q' k' x"
      using send_payload_loop_ok [of pkt b rest 0 q' k' 0] p by (auto simp: call_ok_def)
    then have "send_block q k ret = Return x" using sb r(1) p in_payload_state [of pkt b rest 0 q'] by (simp add: ERROR_def)
    then show ?thesis using call_ok_trans [OF r(2) x(2)] by blast
  next
    assume e: "ret' = send_error k \<and> accepts k' = [] \<and> queBufWrite q' = pkt # rest"
    then have "send_block q k ret = Return (ret', q', k')" using sb r(1) send_error_neg [OF assms(2)] by simp
    then show ?thesis using e r(2) by (auto simp: call_ok_def finishes_def)
  qed
qed


lemma front_cases:
  assumes "send_ok q" "queBufWrite q = pkt # rest"
  obtains (command) "pktData pkt = None" "command_token (pktToken pkt)" "GetSendState q = sendTok" "dwRestBytes q = 0"
  | (start) b where "pktData pkt = Some b" "valid_payload b" "payload_token (pktToken pkt)" "pktSize pkt = bufSize b"
      "GetSendState q = sendTok" "dwRestBytes q \<in> {0, bufSize b}"
  | (size) b off where "in_size pkt b rest off q"
  | (payload) b off where "in_payload pkt b rest off q"
proof (cases "pktData pkt")
  case None
  then show thesis using assms command by (auto simp: send_ok_def front_ok_def valid_packet_def GetSendState_def)
next
  case (Some b)
  then have v: "valid_payload b" "payload_token (pktToken pkt)" "pktSize pkt = bufSize b" "front_ok pkt q"
    using assms by (auto simp: send_ok_def valid_packet_def)
  from v(4) Some consider "dwBytesToWrite q = 0" "dwOffsetWrite q = NO_OFFSET" "dwRestBytes q \<in> {0, bufSize b}"
    | "in_size pkt b rest (dwOffsetWrite q) q" | "in_payload pkt b rest (dwOffsetWrite q) q"
    using assms by (auto simp: front_ok_def in_size_def in_payload_def)
  then show thesis
    by cases (use Some v start size payload in \<open>auto simp: GetSendState_def\<close>)
qed

lemma sendTok_front:
  assumes "send_ok q" "GetSendState q = sendTok"
  shows "dwBytesToWrite q = 0" "dwOffsetWrite q = NO_OFFSET" "remaining q = concat (map frame (queBufWrite q))"
  using assms by (auto simp: GetSendState_def remaining_def send_pos_def split: if_splits)

lemma send_token_skips: "GetSendState q \<noteq> sendTok \<Longrightarrow> send_token q k ret = Return (Inr (ret, q, k))"
  by (simp add: send_token_def)

text \<open>The token of a command is the whole packet.\<close>

lemma send_token_command:
  assumes "send_ok q" "queBufWrite q = pkt # rest" "pktData pkt = None" "command_token (pktToken pkt)"
    "GetSendState q = sendTok" "dwRestBytes q = 0" "0 < werr k"
  shows "\<exists>r. send_token q k ret = Return (Inl r) \<and> call_ok pkt rest q k r"
proof -
  note f = sendTok_front [OF assms(1,5)]
  have fr: "frame pkt = [pktToken pkt]" using assms(3) by (simp add: frame_def)
  have n: "0 < (1 :: nat)" "1 \<le> length [pktToken pkt]" by simp_all
  show ?thesis
  proof (cases rule: sock_send_cases [OF n, of k])
    case 1
    then show ?thesis using assms moves_refl [OF assms(1)]
      by (auto simp: send_token_def Let_def call_ok_def finishes_def)
  next
    case (2 a as k1)
    let ?q = "q\<lparr>dwBytesPendingW := u32_sub (dwBytesPendingW q) 1, queBufWrite := rest\<rparr>"
    have t: "send_token q k ret = Return (Inl (0, ?q, k1))"
      using 2 assms by (auto simp: send_token_def Let_def)
    have "?q = q\<lparr>dwOffsetWrite := NO_OFFSET, dwBytesToWrite := 0,
      dwBytesPendingW := u32_sub (dwBytesPendingW q) (length (frame pkt)), dwRestBytes := 0, queBufWrite := rest\<rparr>"
      using f assms(6) fr by simp
    then have "send_ok ?q" using send_ok_dequeued [OF assms(1,2)] by simp
    moreover have "remaining ?q = concat (map frame rest)" using f by (simp add: remaining_def send_pos_def)
    ultimately have "moves q k ?q k1" using 2 f(3) assms(2) fr by (auto simp: moves_def)
    then show ?thesis using t assms(6) by (auto simp: call_ok_def finishes_def)
  qed
qed

lemma payload_not_command: "payload_token t \<Longrightarrow> \<not> command_token t"
  by (auto simp: payload_token_def command_token_def)

lemma send_token_start:
  assumes "send_ok q" "queBufWrite q = pkt # rest" "pktData pkt = Some b" "valid_payload b" "payload_token (pktToken pkt)"
    "pktSize pkt = bufSize b" "GetSendState q = sendTok" "dwRestBytes q = bufSize b" "0 < werr k"
  shows "(\<exists>q1 k1. send_token q k ret = Return (Inr (1, q1, k1)) \<and> in_size pkt b rest 0 q1 \<and> moves q k q1 k1) \<or>
    (\<exists>r. send_token q k ret = Return (Inl r) \<and> call_ok pkt rest q k r \<and> ERROR (fst r))"
proof -
  note f = sendTok_front [OF assms(1,7)]
  have w: "buf_wf b" "0 < bufSize b" "bufSize b \<le> STM_MAX_BYTES_PER_BUF" using assms(4) by (simp_all add: valid_payload_def)
  have n: "0 < (1 :: nat)" "1 \<le> length [pktToken pkt]" by simp_all
  show ?thesis
  proof (cases rule: sock_send_cases [OF n, of k])
    case 1
    then show ?thesis using assms moves_refl [OF assms(1)] send_error_neg [OF assms(9)]
      by (auto simp: send_token_def Let_def call_ok_def finishes_def)
  next
    case (2 a as k1)
    let ?q = "q\<lparr>dwOffsetWrite := 0\<rparr>"
    have t: "send_token q k ret = Return (Inr (1, ?q, k1))"
      using 2 assms w(3) payload_not_command [OF assms(5)] by (simp add: send_token_def Let_def)
    have s: "in_size pkt b rest 0 ?q" using assms f by (auto simp: in_size_def send_ok_def front_ok_def)
    have "frame pkt = pktToken pkt # to_be 4 (bufSize b) @ window b"
      using frame_payload [OF assms(3) w(1)] by (metis append_Cons)
    then have "moves q k ?q k1" using 2 f(3) assms(2) in_sizeD(4) [OF s] s by (auto simp: moves_def in_size_def)
    then show ?thesis using t s by blast
  qed
qed

lemma call_ok_ends:
  assumes "call_ok pkt rest q k (ret', q', k')" "0 < werr k"
  shows "ERROR ret' \<or> dwRestBytes q' = 0"
  using assms send_error_neg [OF assms(2)] by (auto simp: call_ok_def finishes_def split: if_splits)

lemma send_loop_ok:
  assumes "send_ok q" "queBufWrite q = pkt # rest" "0 < werr k" "0 \<le> ret"
  shows "\<exists>r. send_loop q k ret = Some (Return r) \<and> call_ok pkt rest q k r"
proof -
  define q0 where "q0 = (case pktData pkt of Some b \<Rightarrow> if dwRestBytes q = 0 then q\<lparr>dwRestBytes := bufSize b\<rparr> else q | None \<Rightarrow> q)"
  have body: "send_loop q k ret = (case send_token q0 k ret of
         Return (Inl (ret1, q1, k1)) \<Rightarrow>
           if ERROR ret1 \<or> dwRestBytes q1 = 0 then Some (Return (ret1, q1, k1)) else send_loop q1 k1 ret1
       | Return (Inr (ret1, q1, k1)) \<Rightarrow>
          (case send_block q1 k1 ret1 of
             Return (ret2, q2, k2) \<Rightarrow>
               if ERROR ret2 \<or> dwRestBytes q2 = 0 then Some (Return (ret2, q2, k2)) else send_loop q2 k2 ret2
           | _ \<Rightarrow> Some Undefined)
       | _ \<Rightarrow> Some Undefined)"
    using assms(2) by (subst send_loop.simps) (simp add: q0_def Let_def)
  have inl: "send_loop q k ret = Some (Return r)" if "send_token q0 k ret = Return (Inl r)" "call_ok pkt rest q k r" for r
    using that body call_ok_ends [of pkt rest q k "fst r" "fst (snd r)" "snd (snd r)"] assms(3) by (cases r) auto
  have inr: "send_loop q k ret = Some (Return r)"
    if "send_token q0 k ret = Return (Inr (ret1, q1, k1))" "send_block q1 k1 ret1 = Return r" "call_ok pkt rest q k r" for r ret1 q1 k1
    using that body call_ok_ends [of pkt rest q k "fst r" "fst (snd r)" "snd (snd r)"] assms(3) by (cases r) auto
  from assms(1,2) show ?thesis
  proof (cases rule: front_cases)
    case command
    then have "q0 = q" by (simp add: q0_def)
    then show ?thesis using send_token_command [OF assms(1,2) command assms(3), of ret] inl by blast
  next
    case (start b)
    have w: "0 < bufSize b" using start(2) by (simp add: valid_payload_def)
    have q0: "q0 = q\<lparr>dwRestBytes := bufSize b\<rparr>" using start(1,6) w by (auto simp: q0_def)
    have ok: "send_ok q0" "queBufWrite q0 = pkt # rest" "GetSendState q0 = sendTok" "dwRestBytes q0 = bufSize b"
      using assms(1,2) start sendTok_front [OF assms(1) start(5)]
      by (auto simp: q0 send_ok_def front_ok_def GetSendState_def)
    have m0: "moves q k q0 k" using ok(1) by (simp add: moves_def q0 remaining_def send_pos_def)
    from send_token_start [OF ok(1,2) start(1-4) ok(3,4) assms(3), of ret] show ?thesis
    proof (elim disjE exE conjE)
      fix q1 k1
      assume t: "send_token q0 k ret = Return (Inr (1, q1, k1))" "in_size pkt b rest 0 q1" "moves q0 k q1 k1"
      have "0 < werr k1" using t(3) assms(3) by (simp add: moves_def)
      then obtain r where r: "send_block q1 k1 1 = Return r" "call_ok pkt rest q1 k1 r"
        using send_block_size [OF t(2)] by blast
      have "call_ok pkt rest q k r" by (rule call_ok_trans [OF moves_trans [OF m0 t(3)] r(2)])
      then show ?thesis using inr [OF t(1) r(1)] by blast
    next
      fix r assume "send_token q0 k ret = Return (Inl r)" "call_ok pkt rest q0 k r"
      then show ?thesis using inl call_ok_trans [OF m0] by blast
    qed
  next
    case (size b off)
    then have "q0 = q" "GetSendState q0 \<noteq> sendTok" using in_sizeD(1,2) [OF size]
      by (auto simp: q0_def in_size_def valid_payload_def)
    then show ?thesis using send_block_size [OF size assms(3), of ret] inr send_token_skips [of q k ret] by metis
  next
    case (payload b off)
    then have "q0 = q" "GetSendState q0 \<noteq> sendTok" using in_payload_state [OF payload] in_payloadD(2) [OF payload]
      by (auto simp: q0_def in_payload_def)
    then show ?thesis using send_block_payload [OF payload assms(3,4)] inr send_token_skips [of q k ret] by metis
  qed
qed


subsection \<open>The sender as a machine\<close>

datatype send_op = OpReady | OpWrite cbuffer u8 | OpPing bool | OpClose

fun send_exec :: "send_op \<Rightarrow> send_que \<Rightarrow> wsock \<Rightarrow> ((int \<times> send_que \<times> wsock) outcome) option" where
  "send_exec OpReady q k = SendOnIoReady q k"
| "send_exec (OpWrite b tok) q k = WriteStream b tok q k"
| "send_exec (OpPing bPing) q k = SendPingPong bPing q k"
| "send_exec OpClose q k = SendClose q k"

text \<open>The packets an operation queues.\<close>

fun queued :: "send_op \<Rightarrow> stm_packet list" where
  "queued OpReady = []"
| "queued (OpWrite b tok) = [\<lparr>pktToken = tok, pktSize = bufSize b, pktData = Some b\<rparr>]"
| "queued (OpPing bPing) = [\<lparr>pktToken = (if bPing then tokPing else tokPong), pktSize = 0, pktData = None\<rparr>]"
| "queued OpClose = [\<lparr>pktToken = tokClose, pktSize = 0, pktData = None\<rparr>]"

text \<open>
  A session: each operation with what the socket accepts during it and the \<open>errno\<close> it reports
  then. The result collects the values returned and everything sent.
\<close>

primrec run_sender :: "(send_op \<times> nat list \<times> int) list \<Rightarrow> send_que \<Rightarrow> u8 list \<Rightarrow> (int list \<times> send_que \<times> u8 list) option" where
  "run_sender [] q out = Some ([], q, out)"
| "run_sender (x # xs) q out =
    (case send_exec (fst x) q \<lparr>sent = out, accepts = fst (snd x), werr = snd (snd x)\<rparr> of
       Some (Return (ret, q', k')) \<Rightarrow> map_option (\<lambda>(rets, y). (ret # rets, y)) (run_sender xs q' (sent k'))
     | _ \<Rightarrow> None)"

definition send_step_ok :: "send_op \<times> nat list \<times> int \<Rightarrow> bool" where
  "send_step_ok x \<longleftrightarrow> list_all valid_packet (queued (fst x)) \<and> 0 < snd (snd x)"

definition all_queued :: "(send_op \<times> nat list \<times> int) list \<Rightarrow> stm_packet list" where
  "all_queued xs = concat (map (\<lambda>x. queued (fst x)) xs)"

lemma all_queued_simps [simp]:
  "all_queued [] = []" "all_queued (x # xs) = queued (fst x) @ all_queued xs" "all_queued (xs @ ys) = all_queued xs @ all_queued ys"
  by (simp_all add: all_queued_def)

lemma send_pos_lt:
  assumes "send_ok q" "queBufWrite q = pkt # rest"
  shows "send_pos q < length (frame pkt)" "length (frame pkt) \<le> 5 + STM_MAX_BYTES_PER_BUF"
proof -
  have "valid_packet pkt" using assms by (simp add: send_ok_def)
  then show l: "length (frame pkt) \<le> 5 + STM_MAX_BYTES_PER_BUF"
    using frame_length by (auto simp: valid_packet_def valid_payload_def frame_def split: option.splits)
  have pos: "0 < length (frame pkt)" by (simp add: frame_def packet_def split: option.split)
  have tok: "GetSendState q = sendTok \<Longrightarrow> send_pos q = 0" by (simp add: send_pos_def GetSendState_def split: if_splits)
  from assms show "send_pos q < length (frame pkt)"
  proof (cases rule: front_cases)
    case (size b off)
    then have "length (frame pkt) = 5 + bufSize b"
      using frame_length in_sizeD(1) [OF size] by (simp add: in_size_def valid_payload_def)
    then show ?thesis using size by (simp add: send_pos_def in_size_def)
  next
    case (payload b off)
    then have "length (frame pkt) = 5 + bufSize b"
      using frame_length in_payloadD(1) [OF payload] by (simp add: in_payload_def)
    then show ?thesis using payload by (simp add: send_pos_def in_payload_def)
  qed (use tok pos in auto)
qed

lemma send_pos_le:
  assumes "send_ok q"
  shows "send_pos q \<le> length (concat (map frame (queBufWrite q)))"
  using assms send_pos_lt(1) [OF assms] by (cases "queBufWrite q") (fastforce simp: send_ok_def send_pos_def)+

definition enqueue :: "stm_packet \<Rightarrow> send_que \<Rightarrow> send_que" where
  "enqueue pkt q = q\<lparr>queBufWrite := queBufWrite q @ [pkt], dwBytesPendingW := u32_add (dwBytesPendingW q) (length (frame pkt))\<rparr>"

lemma enqueue_ok:
  assumes "send_ok q" "valid_packet pkt"
  shows "send_ok (enqueue pkt q)" "remaining (enqueue pkt q) = remaining q @ frame pkt" "queBufWrite (enqueue pkt q) = queBufWrite q @ [pkt]"
proof -
  have "dwBytesPendingW (enqueue pkt q) = length (concat (map frame (queBufWrite q @ [pkt]))) mod 2 ^ 32"
    using assms(1) by (simp add: enqueue_def send_ok_def u32_add_def mod_add_left_eq)
  then show "send_ok (enqueue pkt q)"
    using assms by (cases "queBufWrite q") (auto simp: send_ok_def enqueue_def front_ok_def split: option.split)
  have "send_pos (enqueue pkt q) = send_pos q" by (simp add: send_pos_def enqueue_def)
  then show "remaining (enqueue pkt q) = remaining q @ frame pkt"
    using send_pos_le [OF assms(1)] by (simp add: remaining_def enqueue_def)
qed (simp add: enqueue_def)

lemma SendOnIoReady_ok:
  assumes "send_ok q" "0 < werr k"
  shows "\<exists>ret q' k'. SendOnIoReady q k = Some (Return (ret, q', k')) \<and> moves q k q' k' \<and>
    queBufWrite q' \<in> {tl (queBufWrite q), queBufWrite q} \<and> (queBufWrite q \<noteq> [] \<longrightarrow> queBufWrite q' = queBufWrite q \<longrightarrow> accepts k' = [])"
proof (cases "queBufWrite q")
  case Nil
  then have "SendOnIoReady q k = Some (Return (0, q, k))" unfolding SendOnIoReady_def by (subst send_loop.simps) simp
  then show ?thesis using Nil moves_refl [OF assms(1)] by auto
next
  case (Cons pkt rest)
  from send_loop_ok [OF assms(1) Cons assms(2), of 0] show ?thesis
    using Cons by (fastforce simp: SendOnIoReady_def call_ok_def finishes_def)
qed

lemma pending_result_ok:
  "r = Some (Return (ret, x)) \<Longrightarrow> \<exists>ret'. pending_result r = Some (Return (ret', x))"
  by (simp add: pending_result_def map_outcome_def)

lemma send_exec_ok:
  assumes "send_ok q" "list_all valid_packet (queued op)" "0 < werr k"
  shows "\<exists>ret q' k'. send_exec op q k = Some (Return (ret, q', k')) \<and> send_ok q' \<and> werr k' = werr k \<and>
    sent k' @ remaining q' = sent k @ remaining q @ concat (map frame (queued op)) \<and>
    length (queBufWrite q') \<le> length (queBufWrite q) + length (queued op)"
proof -
  have ready: "\<exists>ret q' k'. pending_result (SendOnIoReady (enqueue pkt q) k) = Some (Return (ret, q', k')) \<and> send_ok q' \<and>
    werr k' = werr k \<and> sent k' @ remaining q' = sent k @ remaining q @ frame pkt \<and>
    length (queBufWrite q') \<le> length (queBufWrite q) + 1" if v: "valid_packet pkt" for pkt
  proof -
    note e = enqueue_ok [OF assms(1) v]
    obtain ret q' k' where r: "SendOnIoReady (enqueue pkt q) k = Some (Return (ret, q', k'))" "moves (enqueue pkt q) k q' k'"
       "queBufWrite q' \<in> {tl (queBufWrite (enqueue pkt q)), queBufWrite (enqueue pkt q)}"
      using SendOnIoReady_ok [OF e(1) assms(3)] by blast
    from pending_result_ok [OF r(1)] r(2,3) e show ?thesis by (auto simp: moves_def)
  qed
  show ?thesis
  proof (cases op)
    case OpReady
    from SendOnIoReady_ok [OF assms(1,3)] obtain ret q' k' where "SendOnIoReady q k = Some (Return (ret, q', k'))" "moves q k q' k'"
      "queBufWrite q' \<in> {tl (queBufWrite q), queBufWrite q}" by blast
    then show ?thesis using OpReady by (auto simp: moves_def)
  next
    case (OpPing p)
    let ?p = "\<lparr>pktToken = (if p then tokPing else tokPong), pktSize = 0, pktData = None\<rparr>"
    have "send_exec op q k = pending_result (SendOnIoReady (enqueue ?p q) k)"
      using OpPing by (simp add: SendPingPong_def enqueue_def frame_def)
    then show ?thesis using ready [of ?p] assms(2) OpPing by simp
  next
    case OpClose
    let ?p = "\<lparr>pktToken = tokClose, pktSize = 0, pktData = None\<rparr>"
    have "send_exec op q k = pending_result (SendOnIoReady (enqueue ?p q) k)"
      using OpClose by (simp add: SendClose_def enqueue_def frame_def)
    then show ?thesis using ready [of ?p] assms(2) OpClose by simp
  next
    case (OpWrite b tok)
    let ?p = "\<lparr>pktToken = tok, pktSize = bufSize b, pktData = Some b\<rparr>"
    have v: "valid_packet ?p" using assms(2) OpWrite by simp
    then have "u32_add 5 (bufSize b) = length (frame ?p)"
      using frame_length [of ?p b] by (simp add: valid_packet_def valid_payload_def u32_simps)
    then have eq: "send_exec op q k = (if queBufWrite q \<noteq> [] then Some (Return (STATUS_PENDING, enqueue ?p q, k))
        else pending_result (SendOnIoReady (enqueue ?p q) k))"
      using OpWrite by (simp add: WriteStream_def enqueue_def Let_def)
    show ?thesis
    proof (cases "queBufWrite q = []")
      case True
      then show ?thesis using ready [OF v] eq OpWrite by simp
    next
      case False
      then show ?thesis using enqueue_ok [OF assms(1) v] eq OpWrite by simp
    qed
  qed
qed

lemma run_sender_ok:
  "send_ok q \<Longrightarrow> list_all send_step_ok xs \<Longrightarrow>
   \<exists>rets q' out'. run_sender xs q out = Some (rets, q', out') \<and> send_ok q' \<and>
     out' @ remaining q' = out @ remaining q @ concat (map frame (all_queued xs)) \<and>
     length (queBufWrite q') \<le> length (queBufWrite q) + length (all_queued xs)"
proof (induction xs arbitrary: q out)
  case Nil
  then show ?case by simp
next
  case (Cons x xs)
  let ?k = "\<lparr>sent = out, accepts = fst (snd x), werr = snd (snd x)\<rparr>"
  have "0 < werr ?k" "list_all valid_packet (queued (fst x))" using Cons.prems(2) by (simp_all add: send_step_ok_def)
  from send_exec_ok [OF Cons.prems(1) this(2,1)] obtain ret q1 k1 where
    r: "send_exec (fst x) q ?k = Some (Return (ret, q1, k1))" "send_ok q1"
       "sent k1 @ remaining q1 = out @ remaining q @ concat (map frame (queued (fst x)))"
       "length (queBufWrite q1) \<le> length (queBufWrite q) + length (queued (fst x))"
    by auto
  have "list_all send_step_ok xs" using Cons.prems(2) by simp
  from Cons.IH [OF r(2) this, of "sent k1"] obtain rets q' out' where
    i: "run_sender xs q1 (sent k1) = Some (rets, q', out')" "send_ok q'"
     "out' @ remaining q' = sent k1 @ remaining q1 @ concat (map frame (all_queued xs))"
     "length (queBufWrite q') \<le> length (queBufWrite q1) + length (all_queued xs)"
    by blast
  have "out' @ remaining q' = (out @ remaining q @ concat (map frame (queued (fst x)))) @ concat (map frame (all_queued xs))"
    unfolding i(3) r(3) [symmetric] by simp
  moreover have "run_sender (x # xs) q out = Some (ret # rets, q', out')" using r(1) i(1) by simp
  ultimately show ?case using r(4) i(2,4) by auto
qed

lemma new_send_ok: "send_ok new_send" "remaining new_send = []" "queBufWrite new_send = []"
  by (simp_all add: new_send_def send_ok_def remaining_def send_pos_def)


text \<open>A call in which the socket takes bytes often enough finishes the front packet.\<close>

definition drain_step :: "send_op \<times> nat list \<times> int \<Rightarrow> bool" where
  "drain_step x \<longleftrightarrow> fst x = OpReady \<and> 5 + STM_MAX_BYTES_PER_BUF \<le> length (fst (snd x)) \<and> 0 < snd (snd x)"

lemma ready_finishes_front:
  assumes "send_ok q" "0 < werr k" "5 + STM_MAX_BYTES_PER_BUF \<le> length (accepts k)"
  shows "\<exists>ret q' k'. SendOnIoReady q k = Some (Return (ret, q', k')) \<and> moves q k q' k' \<and> queBufWrite q' = tl (queBufWrite q)"
proof -
  obtain ret q' k' where r: "SendOnIoReady q k = Some (Return (ret, q', k'))" "moves q k q' k'"
    "queBufWrite q' \<in> {tl (queBufWrite q), queBufWrite q}"
    "queBufWrite q \<noteq> [] \<longrightarrow> queBufWrite q' = queBufWrite q \<longrightarrow> accepts k' = []"
    using SendOnIoReady_ok [OF assms(1,2)] by blast
  have "queBufWrite q' = tl (queBufWrite q)"
  proof (rule ccontr)
    assume n: "queBufWrite q' \<noteq> tl (queBufWrite q)"
    then have same: "queBufWrite q' = queBufWrite q" "queBufWrite q \<noteq> []" using r(3) by auto
    then obtain pkt rest where q: "queBufWrite q' = pkt # rest" by (cases "queBufWrite q") auto
    have ok: "send_ok q'" using r(2) by (simp add: moves_def)
    have "length (sent k') + length (remaining q') = length (sent k) + length (remaining q)"
      using r(2) by (metis length_append moves_def)
    moreover have "length (accepts k') = 0" using r(4) same by simp
    moreover have "length (remaining q) - length (remaining q') \<le> send_pos q'"
      using same(1) by (simp add: remaining_def)
    moreover have "send_pos q' < 5 + STM_MAX_BYTES_PER_BUF" using send_pos_lt [OF ok q] by simp
    moreover have "length (sent k) + length (accepts k) \<le> length (sent k') + length (accepts k')" using r(2) by (simp add: moves_def)
    ultimately show False using assms(3) by linarith
  qed
  then show ?thesis using r(1,2) by blast
qed

lemma run_sender_drains:
  "send_ok q \<Longrightarrow> list_all drain_step xs \<Longrightarrow> length (queBufWrite q) \<le> length xs \<Longrightarrow>
   \<exists>rets q' out'. run_sender xs q out = Some (rets, q', out') \<and> queBufWrite q' = []"
proof (induction xs arbitrary: q out)
  case Nil
  then show ?case by simp
next
  case (Cons x xs)
  let ?k = "\<lparr>sent = out, accepts = fst (snd x), werr = snd (snd x)\<rparr>"
  have x: "fst x = OpReady" "0 < werr ?k" "5 + STM_MAX_BYTES_PER_BUF \<le> length (accepts ?k)"
    using Cons.prems(2) by (simp_all add: drain_step_def)
  obtain ret q' k' where r: "SendOnIoReady q ?k = Some (Return (ret, q', k'))" "moves q ?k q' k'" "queBufWrite q' = tl (queBufWrite q)"
    using ready_finishes_front [OF Cons.prems(1) x(2,3)] by blast
  have "send_ok q'" using r(2) by (simp add: moves_def)
  moreover have "length (queBufWrite q') \<le> length xs" using Cons.prems(3) r(3) by simp
  moreover have "list_all drain_step xs" using Cons.prems(2) by simp
  ultimately obtain rets q2 out2 where "run_sender xs q' (sent k') = Some (rets, q2, out2)" "queBufWrite q2 = []"
    using Cons.IH by blast
  then show ?case using r(1) x(1) by simp
qed

lemma run_sender_append:
  "run_sender xs q out = Some (r1, q1, o1) \<Longrightarrow> run_sender ys q1 o1 = Some (r2, z) \<Longrightarrow>
   run_sender (xs @ ys) q out = Some (r1 @ r2, z)"
  by (induction xs arbitrary: q out r1) (cases z, auto split: option.splits outcome.splits prod.splits)+

subsection \<open>Claims about the sender\<close>

text \<open>
  C12: The stream is the packets in the order they were queued. For payloads of 1 to 63K bytes
  (an empty one floods the peer and a larger one is read behind its end, see the last two
  theorems) in their well-formed buffers, and a \<open>send\<close> that fails only with a positive
  \<open>errno\<close>: however often the socket stops
  the sender, at whatever byte, with \<open>EAGAIN\<close> or another error, and whatever such packets are
  queued meanwhile, no call touches memory outside a payload or fails to return, what was sent
  and what the queue still holds are together exactly the frames of all packets queued, and the
  count of pending bytes is the length of the frames of the queued packets, modulo 32 bits.
\<close>

theorem send_stream_in_order:
  assumes "list_all send_step_ok xs"
  shows "\<exists>rets q out. run_sender xs new_send [] = Some (rets, q, out) \<and>
     out @ remaining q = concat (map frame (all_queued xs)) \<and>
     dwBytesPendingW q = length (concat (map frame (queBufWrite q))) mod 2 ^ 32"
  using run_sender_ok [OF new_send_ok(1) assms, of "[]"] new_send_ok(2) by (auto simp: send_ok_def)

text \<open>
  C13: Nothing is left behind: after any session with payloads of 1 to 63K bytes and positive
  error numbers, as before (an empty payload never leaves the queue), one call of \<open>OnIoReady\<close> per queued packet in
  which the socket takes at least one byte for each of 64517 calls of \<open>send\<close> empties the
  queue, and the bytes sent are the whole stream.
\<close>

theorem send_queue_drains:
  assumes "list_all send_step_ok xs" "list_all drain_step ys" "length (all_queued xs) \<le> length ys"
  shows "\<exists>rets q. run_sender (xs @ ys) new_send [] = Some (rets, q, concat (map frame (all_queued xs))) \<and>
     queBufWrite q = [] \<and> dwBytesPendingW q = 0"
proof -
  have y: "list_all send_step_ok ys" "all_queued ys = []"
    using assms(2) by (induction ys) (simp_all add: drain_step_def send_step_ok_def)
  then have xy: "list_all send_step_ok (xs @ ys)" using assms(1) by simp
  obtain r1 q1 o1 where x: "run_sender xs new_send [] = Some (r1, q1, o1)" "send_ok q1" "length (queBufWrite q1) \<le> length ys"
    using run_sender_ok [OF new_send_ok(1) assms(1), of "[]"] new_send_ok(3) assms(3) by auto
  obtain r2 q2 o2 where d: "run_sender ys q1 o1 = Some (r2, q2, o2)" "queBufWrite q2 = []"
    using run_sender_drains [OF x(2) assms(2) x(3)] by blast
  have xs: "run_sender (xs @ ys) new_send [] = Some (r1 @ r2, q2, o2)" by (rule run_sender_append [OF x(1) d(1)])
  obtain rets q out where r: "run_sender (xs @ ys) new_send [] = Some (rets, q, out)" "send_ok q"
      "out @ remaining q = concat (map frame (all_queued (xs @ ys)))"
    using run_sender_ok [OF new_send_ok(1) xy, of "[]"] new_send_ok(2) by auto
  have e: "q = q2" "out = o2" using xs r(1) by simp_all
  have "remaining q = []" using d(2) e by (simp add: remaining_def)
  then show ?thesis using xs e d(2) r(2,3) y(2) by (simp add: send_ok_def)
qed


definition wit_payload :: cbuffer where
  "wit_payload = \<lparr>arrBuf = [7, 8, 9] @ replicate 45 0, base = ArrBase, actSize = 3, dwType = 0,
     dwOffset = 0, dwTailOff = 3, held = 0\<rparr>"

lemma wit_payload_facts: "valid_payload wit_payload" "bufSize wit_payload = 3" "window wit_payload = [7, 8, 9]"
  by (simp_all add: valid_payload_def wit_payload_def buf_wf_def bufSize_def GetTailOff_def u32_sub_def window_def memBytes_def)

lemma send_stream_in_order_witness:
  "\<exists>rets q out. run_sender [(OpWrite wit_payload tokData, [1, 2], EAGAIN), (OpPing True, [], EAGAIN), (OpReady, [9, 9], 32)] new_send [] =
       Some (rets, q, out) \<and>
     out @ remaining q = concat (map frame (all_queued [(OpWrite wit_payload tokData, [1, 2], EAGAIN), (OpPing True, [], EAGAIN), (OpReady, [9, 9], 32)])) \<and>
     dwBytesPendingW q = length (concat (map frame (queBufWrite q))) mod 2 ^ 32"
  by (rule send_stream_in_order)
    (simp add: send_step_ok_def valid_packet_def wit_payload_facts payload_token_def command_token_def)

lemma send_queue_drains_witness:
  "\<exists>rets q. run_sender ([(OpWrite wit_payload tokData, [1, 2], EAGAIN), (OpClose, [], EAGAIN)] @
        replicate 2 (OpReady, replicate 64517 1, EAGAIN)) new_send [] =
      Some (rets, q, concat (map frame (all_queued [(OpWrite wit_payload tokData, [1, 2], EAGAIN), (OpClose, [], EAGAIN)]))) \<and>
     queBufWrite q = [] \<and> dwBytesPendingW q = 0"
  by (rule send_queue_drains)
    (simp_all add: send_step_ok_def drain_step_def valid_packet_def wit_payload_facts payload_token_def command_token_def list_all_iff)

text \<open>
  C14: From end to end: a payload of 1 to 63K bytes written with \<open>WriteStream\<close>, sent over
  any number of interrupted calls and arriving in any chunks over any number of calls of the
  receiver, is what \<open>ReadStream\<close> hands out, and the receiver reports its token.
\<close>

theorem stream_transfer_roundtrip:
  assumes "valid_payload b" "payload_token tok" "roomy hp stale"
    "list_all send_step_ok ((OpWrite b tok, acc, e) # xs)" "all_queued xs = []"
    "run_sender ((OpWrite b tok, acc, e) # xs) new_send [] = Some (rets, q, out)" "queBufWrite q = []"
    "concat (concat (as @ [a])) = out" "concat a \<noteq> []"
  shows "\<exists>f s b' f2. pump hp stale (as @ [a]) (new_recv g) \<lparr>chunks = [], rend = Waiting\<rparr> =
       Some (replicate (length as) (- EAGAIN) @ [int (unat tok)], f, s) \<and>
     ReadStream f = (0, Some b', f2) \<and> window b' = window b"
proof -
  have w: "buf_wf b" "1 \<le> length (window b)" "length (window b) \<le> STM_MAX_BYTES_PER_BUF"
    using assms(1) buf_wf_lengths(4) by (auto simp: valid_payload_def)
  have "out @ remaining q = frame \<lparr>pktToken = tok, pktSize = bufSize b, pktData = Some b\<rparr>"
    using run_sender_ok [OF new_send_ok(1) assms(4), of "[]"] assms(5,6) new_send_ok(2) by simp
  then have out: "out = packet tok (window b)" using assms(7) by (simp add: remaining_def frame_def)
  have pr: "progress tok (window b) [] 0 0 (new_recv g)" by (simp add: progress_def idle_def new_recv_def)
  obtain f s where f: "pump hp stale (as @ [a]) (new_recv g) \<lparr>chunks = [], rend = Waiting\<rparr> =
       Some (replicate (length as) (- EAGAIN) @ [int (unat tok)], f, s)" "delivered (window b) [] 0 f"
    using pump_progress [OF assms(3,2) w(2,3) pr, of "\<lparr>chunks = [], rend = Waiting\<rparr>" as a] assms(8,9) out
    by (auto simp: avail_def)
  then show ?thesis by (auto simp: delivered_def ReadStream_def GetRecvState_def)
qed


lemma stream_transfer_roundtrip_witness:
  "\<exists>f s b' f2. pump wit_heap (replicate 48 0) ([[[1], [0, 0]], [], [[0], [3, 7]]] @ [[[8, 9]]]) (new_recv 0) \<lparr>chunks = [], rend = Waiting\<rparr> =
       Some (replicate (length [[[1 :: u8], [0, 0]], [], [[0], [3, 7]]]) (- EAGAIN) @ [int (unat tokData)], f, s) \<and>
     ReadStream f = (0, Some b', f2) \<and> window b' = window wit_payload"
proof -
  let ?x = "(OpWrite wit_payload tokData, [1, 2], EAGAIN)" and ?ys = "[(OpReady, replicate 64517 1, EAGAIN)] :: (send_op \<times> nat list \<times> int) list"
  have ok: "list_all send_step_ok (?x # ?ys)" "all_queued ?ys = []" "list_all drain_step ?ys" "list_all send_step_ok [?x]"
    by (simp_all add: send_step_ok_def drain_step_def valid_packet_def wit_payload_facts payload_token_def list_all_iff)
  obtain r1 q1 o1 where x: "run_sender [?x] new_send [] = Some (r1, q1, o1)" "send_ok q1" "length (queBufWrite q1) \<le> length ?ys"
    using run_sender_ok [OF new_send_ok(1) ok(4), of "[]"] new_send_ok(3) by auto
  obtain r2 q2 o2 where d: "run_sender ?ys q1 o1 = Some (r2, q2, o2)" "queBufWrite q2 = []"
    using run_sender_drains [OF x(2) ok(3) x(3)] by blast
  have r: "run_sender (?x # ?ys) new_send [] = Some (r1 @ r2, q2, o2)"
    using run_sender_append [OF x(1) d(1)] by simp
  have "o2 @ remaining q2 = frame \<lparr>pktToken = tokData, pktSize = 3, pktData = Some wit_payload\<rparr>"
    using run_sender_ok [OF new_send_ok(1) ok(1), of "[]"] r new_send_ok(2) wit_payload_facts(2) by simp
  then have "o2 = [1, 0, 0, 0, 3, 7, 8, 9]"
    using d(2) by (simp add: remaining_def frame_def packet_def to_be_4 wit_payload_facts)
  then show ?thesis
    by (intro stream_transfer_roundtrip [OF wit_payload_facts(1) _ _ ok(1,2) r d(2)])
      (simp_all add: roomy_def wit_heap_def payload_token_def)
qed

text \<open>
  A payload of more than 63K and less than 126K bytes is not sent: after its first block
  \<open>OnIoReady\<close> subtracts the bytes already sent a second time, the size of the next block wraps
  below zero and is cut to 63K, and the block is read from behind the payload; the memory of
  the buffer ends there, so the bytes sent are not the program's.
\<close>

theorem send_large_payload_overreads:
  assumes "buf_wf b" "STM_MAX_BYTES_PER_BUF < bufSize b" "length (memBytes b) < dwOffset b + 2 * STM_MAX_BYTES_PER_BUF"
  shows "WriteStream b tokData new_send
     \<lparr>sent = out, accepts = [1, 4, STM_MAX_BYTES_PER_BUF, 1, 4, STM_MAX_BYTES_PER_BUF], werr = e\<rparr> = Some Undefined"
proof -
  let ?n = "bufSize b"
  have n: "?n < 2 * STM_MAX_BYTES_PER_BUF" "dwOffset b + ?n \<le> length (memBytes b)"
    using buf_wf_lengths(5) [OF assms(1)] assms(3) by auto
  have u: "u32_sub ?n 0 = ?n" "u32_sub ?n STM_MAX_BYTES_PER_BUF = ?n - STM_MAX_BYTES_PER_BUF"
    "u32_sub (?n - STM_MAX_BYTES_PER_BUF) STM_MAX_BYTES_PER_BUF = 2 ^ 32 - (2 * STM_MAX_BYTES_PER_BUF - ?n)"
    using n(1) assms(2) u32_sub_wraps [of "?n - STM_MAX_BYTES_PER_BUF" STM_MAX_BYTES_PER_BUF] by (auto simp: u32_simps)
  let ?pkt = "\<lparr>pktToken = tokData, pktSize = ?n, pktData = Some b\<rparr>"
  have size: "\<exists>o1. send_size_loop STM_MAX_BYTES_PER_BUF q \<lparr>sent = o0, accepts = 4 # as, werr = e\<rparr> ret =
      Return (0, q\<lparr>dwOffsetWrite := 0, dwBytesToWrite := STM_MAX_BYTES_PER_BUF\<rparr>, \<lparr>sent = o1, accepts = as, werr = e\<rparr>)"
    if "dwBytesToWrite q = 0" "dwOffsetWrite q = 0" for q o0 as ret
    apply (subst send_size_loop.simps, simp add: that GetSendState_def sock_send_def Let_def u32_simps to_be_4)
    apply (subst send_size_loop.simps, simp add: that GetSendState_def)
    done
  have tok: "\<exists>o1. send_token q \<lparr>sent = o0, accepts = 1 # as, werr = e\<rparr> ret =
      Return (Inr (1, q\<lparr>dwOffsetWrite := 0\<rparr>, \<lparr>sent = o1, accepts = as, werr = e\<rparr>))"
    if "queBufWrite q = [?pkt]" "dwBytesToWrite q = 0" "dwOffsetWrite q = NO_OFFSET" for q o0 as ret
    using that by (simp add: send_token_def GetSendState_def sock_send_def command_token_def payload_token_def Let_def)
  define q0 where "q0 = new_send\<lparr>queBufWrite := [?pkt], dwBytesPendingW := u32_add 0 (u32_add 5 ?n), dwRestBytes := ?n\<rparr>"
  define q1 where "q1 = q0\<lparr>dwBytesPendingW := u32_sub (dwBytesPendingW q0) (u32_add 5 STM_MAX_BYTES_PER_BUF),
     dwRestBytes := ?n - STM_MAX_BYTES_PER_BUF, dwBlockSent := 1\<rparr>"
  have q0: "queBufWrite q0 = [?pkt]" "dwBytesToWrite q0 = 0" "dwOffsetWrite q0 = NO_OFFSET" "dwRestBytes q0 = ?n" "dwBlockSent q0 = 0"
    by (simp_all add: q0_def new_send_def)
  have q1: "queBufWrite q1 = [?pkt]" "dwBytesToWrite q1 = 0" "dwOffsetWrite q1 = NO_OFFSET"
    "dwRestBytes q1 = ?n - STM_MAX_BYTES_PER_BUF" "dwBlockSent q1 = 1"
    using q0 by (simp_all add: q1_def)
  have n1: "\<not> length (memBytes b) - dwOffset b < STM_MAX_BYTES_PER_BUF" using n(2) assms(2) by linarith
  have n2: "length (memBytes b) - (dwOffset b + STM_MAX_BYTES_PER_BUF) < STM_MAX_BYTES_PER_BUF" using n(2) assms(2,3) by linarith
  let ?as = "[1, 4, STM_MAX_BYTES_PER_BUF]"
  obtain o1 o2 o3 where
    t0: "send_token q0 \<lparr>sent = out, accepts = 1 # 4 # STM_MAX_BYTES_PER_BUF # ?as, werr = e\<rparr> 0 =
      Return (Inr (1, q0\<lparr>dwOffsetWrite := 0\<rparr>, \<lparr>sent = o1, accepts = 4 # STM_MAX_BYTES_PER_BUF # ?as, werr = e\<rparr>))"
    and b0: "send_block (q0\<lparr>dwOffsetWrite := 0\<rparr>) \<lparr>sent = o1, accepts = 4 # STM_MAX_BYTES_PER_BUF # ?as, werr = e\<rparr> 1 =
      Return (int STM_MAX_BYTES_PER_BUF, q1, \<lparr>sent = o3, accepts = ?as, werr = e\<rparr>)"
  proof -
    from tok [OF q0(1-3)] obtain o1 where
      t: "send_token q0 \<lparr>sent = out, accepts = 1 # 4 # STM_MAX_BYTES_PER_BUF # ?as, werr = e\<rparr> 0 =
      Return (Inr (1, q0\<lparr>dwOffsetWrite := 0\<rparr>, \<lparr>sent = o1, accepts = 4 # STM_MAX_BYTES_PER_BUF # ?as, werr = e\<rparr>))" by blast
    from size [of "q0\<lparr>dwOffsetWrite := 0\<rparr>" o1 "STM_MAX_BYTES_PER_BUF # ?as" 1] q0 obtain o2 where
      s: "send_size_loop STM_MAX_BYTES_PER_BUF (q0\<lparr>dwOffsetWrite := 0\<rparr>) \<lparr>sent = o1, accepts = 4 # STM_MAX_BYTES_PER_BUF # ?as, werr = e\<rparr> 1 =
        Return (0, q0\<lparr>dwOffsetWrite := 0, dwBytesToWrite := STM_MAX_BYTES_PER_BUF\<rparr>, \<lparr>sent = o2, accepts = STM_MAX_BYTES_PER_BUF # ?as, werr = e\<rparr>)"
      by auto
    have "\<exists>o3. send_payload_loop STM_MAX_BYTES_PER_BUF (q0\<lparr>dwOffsetWrite := 0, dwBytesToWrite := STM_MAX_BYTES_PER_BUF\<rparr>)
        \<lparr>sent = o2, accepts = STM_MAX_BYTES_PER_BUF # ?as, werr = e\<rparr> 0 = Return (int STM_MAX_BYTES_PER_BUF, q1, \<lparr>sent = o3, accepts = ?as, werr = e\<rparr>)"
      by (subst send_payload_loop.simps)
        (use q0 u n1 assms(2) in \<open>simp add: sock_send_def Let_def u32_sub_def [of 64512 0] q1_def u32_add_def [of 0 "Suc 0"] q0_def new_send_def\<close>)
    then obtain o3 where p: "send_payload_loop STM_MAX_BYTES_PER_BUF (q0\<lparr>dwOffsetWrite := 0, dwBytesToWrite := STM_MAX_BYTES_PER_BUF\<rparr>)
        \<lparr>sent = o2, accepts = STM_MAX_BYTES_PER_BUF # ?as, werr = e\<rparr> 0 = Return (int STM_MAX_BYTES_PER_BUF, q1, \<lparr>sent = o3, accepts = ?as, werr = e\<rparr>)" by blast
    show thesis
      by (rule that [OF t]) (use s p q0 u assms(2) in \<open>simp add: send_block_def Let_def GetSendState_def ERROR_def\<close>)
  qed
  obtain o4 where t1: "send_token q1 \<lparr>sent = o3, accepts = ?as, werr = e\<rparr> (int STM_MAX_BYTES_PER_BUF) =
      Return (Inr (1, q1\<lparr>dwOffsetWrite := 0\<rparr>, \<lparr>sent = o4, accepts = [4, STM_MAX_BYTES_PER_BUF], werr = e\<rparr>))"
    using tok [OF q1(1-3)] by blast
  obtain o5 where s1: "send_size_loop STM_MAX_BYTES_PER_BUF (q1\<lparr>dwOffsetWrite := 0\<rparr>) \<lparr>sent = o4, accepts = [4, STM_MAX_BYTES_PER_BUF], werr = e\<rparr> 1 =
        Return (0, q1\<lparr>dwOffsetWrite := 0, dwBytesToWrite := STM_MAX_BYTES_PER_BUF\<rparr>, \<lparr>sent = o5, accepts = [STM_MAX_BYTES_PER_BUF], werr = e\<rparr>)"
    using size [of "q1\<lparr>dwOffsetWrite := 0\<rparr>" o4 "[STM_MAX_BYTES_PER_BUF]" 1] q1 by auto
  have p1: "send_payload_loop STM_MAX_BYTES_PER_BUF (q1\<lparr>dwOffsetWrite := 0, dwBytesToWrite := STM_MAX_BYTES_PER_BUF\<rparr>)
        \<lparr>sent = o5, accepts = [STM_MAX_BYTES_PER_BUF], werr = e\<rparr> 0 = Undefined"
    by (subst send_payload_loop.simps)
      (use q1 n2 in \<open>simp add: sock_send_def Let_def u32_sub_def [of 64512 0]\<close>)
  have b1: "send_block (q1\<lparr>dwOffsetWrite := 0\<rparr>) \<lparr>sent = o4, accepts = [4, STM_MAX_BYTES_PER_BUF], werr = e\<rparr> 1 = Undefined"
    using s1 p1 q1 u n(1) assms(2) by (simp add: send_block_def Let_def GetSendState_def ERROR_def)
  have l1: "send_loop q1 \<lparr>sent = o3, accepts = ?as, werr = e\<rparr> (int STM_MAX_BYTES_PER_BUF) = Some Undefined"
    by (subst send_loop.simps) (use q1 t1 b1 assms(2) in \<open>simp add: Let_def\<close>)
  have "send_loop (q0\<lparr>dwRestBytes := 0\<rparr>) \<lparr>sent = out, accepts = 1 # 4 # STM_MAX_BYTES_PER_BUF # ?as, werr = e\<rparr> 0 = Some Undefined"
  proof -
    have e: "q0\<lparr>dwRestBytes := ?n\<rparr> = q0" by (simp add: q0_def)
    show ?thesis
      by (subst send_loop.simps) (use q0 q1 t0 b0 l1 assms(2) in \<open>simp add: e Let_def ERROR_def\<close>)
  qed
  then show ?thesis by (simp add: WriteStream_def SendOnIoReady_def pending_result_def map_outcome_def q0_def new_send_def)
qed


definition wit_large :: cbuffer where
  "wit_large = \<lparr>arrBuf = replicate 48 0, base = HeapBase (replicate 70000 7), actSize = 70000, dwType = 0,
     dwOffset = 0, dwTailOff = 70000, held = 0\<rparr>"

lemma send_large_payload_witness:
  "WriteStream wit_large tokData new_send
     \<lparr>sent = [], accepts = [1, 4, STM_MAX_BYTES_PER_BUF, 1, 4, STM_MAX_BYTES_PER_BUF], werr = EAGAIN\<rparr> = Some Undefined"
  by (rule send_large_payload_overreads)
    (simp_all add: wit_large_def buf_wf_def bufSize_def GetTailOff_def u32_sub_def memBytes_def)

lemma send_empty_size_loop:
  "dwBytesToWrite q = 0 \<Longrightarrow> dwOffsetWrite q = 0 \<Longrightarrow>
   send_size_loop 0 q \<lparr>sent = o0, accepts = replicate m 4, werr = e\<rparr> ret =
     Return (if e = EAGAIN then - EAGAIN else - e, q, \<lparr>sent = o0 @ concat (replicate m [0, 0, 0, 0]), accepts = [], werr = e\<rparr>)"
proof (induction m arbitrary: o0 ret)
  case 0
  then show ?case
    by (subst send_size_loop.simps) (simp add: GetSendState_def sock_send_def send_error_def Let_def)
next
  case (Suc m)
  have q: "q\<lparr>dwOffsetWrite := 0, dwBytesToWrite := 0\<rparr> = q" using Suc.prems by (cases q) simp
  show ?case using Suc
    by (subst send_size_loop.simps) (simp add: q GetSendState_def sock_send_def Let_def u32_simps to_be_4)
qed

text \<open>
  An empty payload never leaves the queue: \<open>OnIoReady\<close> sends its token and then the size
  zero again and again, as often as the socket takes it, since the state after a size of zero
  is still that of the size; only an error of the socket ends the call, and the packet stays
  at the front with every byte pending.
\<close>

theorem send_empty_payload_floods:
  assumes "bufSize b = 0" "0 < e"
  shows "\<exists>ret q. WriteStream b tokData new_send \<lparr>sent = out, accepts = 1 # replicate m 4, werr = e\<rparr> =
      Some (Return (ret, q, \<lparr>sent = out @ tokData # concat (replicate m [0, 0, 0, 0]), accepts = [], werr = e\<rparr>)) \<and>
    ret = (if e = EAGAIN then STATUS_PENDING else - e) \<and> length (queBufWrite q) = 1 \<and> dwBytesPendingW q = 5"
proof -
  let ?pkt = "\<lparr>pktToken = tokData, pktSize = 0, pktData = Some b\<rparr>"
  define q0 where "q0 = new_send\<lparr>queBufWrite := [?pkt], dwBytesPendingW := 5\<rparr>"
  let ?k = "\<lparr>sent = out, accepts = 1 # replicate m 4, werr = e\<rparr>"
  let ?k1 = "\<lparr>sent = out @ [tokData], accepts = replicate m 4, werr = e\<rparr>"
  let ?r = "(if e = EAGAIN then - EAGAIN else - e, q0\<lparr>dwOffsetWrite := 0\<rparr>,
     \<lparr>sent = (out @ [tokData]) @ concat (replicate m [0, 0, 0, 0]), accepts = [], werr = e\<rparr>)"
  have t: "send_token q0 ?k 0 = Return (Inr (1, q0\<lparr>dwOffsetWrite := 0\<rparr>, ?k1))"
    by (simp add: send_token_def GetSendState_def q0_def new_send_def sock_send_def command_token_def payload_token_def Let_def)
  have s: "send_size_loop 0 (q0\<lparr>dwOffsetWrite := 0\<rparr>) ?k1 1 = Return ?r"
    by (rule send_empty_size_loop) (simp_all add: q0_def new_send_def)
  have b: "send_block (q0\<lparr>dwOffsetWrite := 0\<rparr>) ?k1 1 = Return ?r"
    using s assms(2) by (auto simp: send_block_def Let_def q0_def new_send_def u32_sub_def ERROR_def)
  have l: "send_loop q0 ?k 0 = Some (Return ?r)"
  proof -
    have q: "queBufWrite q0 = [?pkt]" "dwRestBytes q0 = 0" "q0\<lparr>dwRestBytes := 0\<rparr> = q0" by (simp_all add: q0_def new_send_def)
    show ?thesis by (subst send_loop.simps) (use q(1,2) t b assms in \<open>simp add: q(3) Let_def ERROR_def\<close>)
  qed
  have w: "WriteStream b tokData new_send ?k = pending_result (send_loop q0 ?k 0)"
    using assms(1) by (simp add: WriteStream_def SendOnIoReady_def q0_def new_send_def u32_add_def)
  show ?thesis unfolding w l using assms(2)
    by (auto simp: pending_result_def map_outcome_def q0_def new_send_def)
qed

lemma send_empty_payload_witness:
  "\<exists>ret q. WriteStream (wit_payload\<lparr>dwTailOff := 0\<rparr>) tokData new_send \<lparr>sent = [], accepts = 1 # replicate 3 4, werr = EAGAIN\<rparr> =
      Some (Return (ret, q, \<lparr>sent = [] @ tokData # concat (replicate 3 [0, 0, 0, 0]), accepts = [], werr = EAGAIN\<rparr>)) \<and>
    ret = (if (EAGAIN :: int) = EAGAIN then STATUS_PENDING else - EAGAIN) \<and> length (queBufWrite q) = 1 \<and> dwBytesPendingW q = 5"
  by (rule send_empty_payload_floods) (simp_all add: wit_payload_def bufSize_def GetTailOff_def u32_sub_def)

end
