(* ===== verification/TcpPkt.thy ===== *)
theory TcpPkt
  imports UxSend
begin

text \<open>
  The packets of the TCP transport, \<open>CPacketHeader\<close>, \<open>COutgoingPacket\<close> and \<open>CIncomingPacket\<close> of
  \<open>rpc/tcpport.h\<close> and \<open>rpc/tcpport.cpp\<close>. A packet is a header of 28 bytes in network order
  and its payload. Sockets and buffers are those of \<open>UxSock\<close>, \<open>UxSend\<close> and \<open>Buffer\<close>; the
  descriptors passed are valid ones.
\<close>

subsection \<open>The header\<close>

abbreviation (input) EPROTO :: int where "EPROTO \<equiv> 71"
abbreviation (input) SIZEOF_PKT_HEADER :: nat where "SIZEOF_PKT_HEADER \<equiv> 28"
abbreviation (input) MAX_BYTES_PER_TRANSFER :: nat where "MAX_BYTES_PER_TRANSFER \<equiv> 1048576"
abbreviation (input) RPC_MAX_BYTES_PACKET :: nat where "RPC_MAX_BYTES_PACKET \<equiv> 65476"
abbreviation (input) RPC_PACKET_MAGIC :: nat where "RPC_PACKET_MAGIC \<equiv> 0x72644850"

text \<open>The fields as unsigned numbers; the stream ids are read as signed ones where they are used.\<close>

record pkt_header =
  phMagic :: nat
  phSize :: nat
  phStmId :: nat
  phPeerStmId :: nat
  phFlags :: nat
  phProtoId :: nat
  phSessId :: nat
  phSeqNo :: nat

definition new_pkt_header :: pkt_header where
  "new_pkt_header = \<lparr>phMagic = RPC_PACKET_MAGIC, phSize = 0, phStmId = 0, phPeerStmId = 0, phFlags = 0,
     phProtoId = 0, phSessId = 0, phSeqNo = 0\<rparr>"

text \<open>\<open>htonl\<close> and \<open>htons\<close> swap the bytes of a number, and so do their inverses.\<close>

definition swap_bytes :: "nat \<Rightarrow> nat \<Rightarrow> nat" where
  "swap_bytes w x = of_be (rev (to_be w x))"

definition hton :: "pkt_header \<Rightarrow> pkt_header" where
  "hton h = \<lparr>phMagic = swap_bytes 4 (phMagic h), phSize = swap_bytes 4 (phSize h), phStmId = swap_bytes 4 (phStmId h),
     phPeerStmId = swap_bytes 4 (phPeerStmId h), phFlags = swap_bytes 2 (phFlags h), phProtoId = swap_bytes 2 (phProtoId h),
     phSessId = swap_bytes 4 (phSessId h), phSeqNo = swap_bytes 4 (phSeqNo h)\<rparr>"

abbreviation (input) ntoh :: "pkt_header \<Rightarrow> pkt_header" where "ntoh \<equiv> hton"

text \<open>The memory of a header: its fields, little-endian, without gaps.\<close>

definition hdr_mem :: "pkt_header \<Rightarrow> u8 list" where
  "hdr_mem h = rev (to_be 4 (phMagic h)) @ rev (to_be 4 (phSize h)) @ rev (to_be 4 (phStmId h)) @
     rev (to_be 4 (phPeerStmId h)) @ rev (to_be 2 (phFlags h)) @ rev (to_be 2 (phProtoId h)) @
     rev (to_be 4 (phSessId h)) @ rev (to_be 4 (phSeqNo h))"

definition le_field :: "nat \<Rightarrow> nat \<Rightarrow> u8 list \<Rightarrow> nat" where
  "le_field i w bs = of_be (rev (take w (drop i bs)))"

definition mem_hdr :: "u8 list \<Rightarrow> pkt_header" where
  "mem_hdr bs = \<lparr>phMagic = le_field 0 4 bs, phSize = le_field 4 4 bs, phStmId = le_field 8 4 bs,
     phPeerStmId = le_field 12 4 bs, phFlags = le_field 16 2 bs, phProtoId = le_field 18 2 bs,
     phSessId = le_field 20 4 bs, phSeqNo = le_field 24 4 bs\<rparr>"

text \<open>\<open>CPacketHeader::Deserialize\<close> from the memory at \<open>pBuf\<close>.\<close>

definition HdrDeserialize :: "u8 list option \<Rightarrow> nat \<Rightarrow> pkt_header \<Rightarrow> (int \<times> pkt_header) outcome" where
  "HdrDeserialize pBuf dwSize h = (case pBuf of
      None \<Rightarrow> Return (- EPROTO, h)
    | Some src \<Rightarrow>
        if dwSize < SIZEOF_PKT_HEADER then Return (- EPROTO, h)
        else if length src < SIZEOF_PKT_HEADER then Undefined
        else if swap_bytes 4 (phMagic (mem_hdr src)) \<noteq> RPC_PACKET_MAGIC then Return (- EPROTO, h)
        else Return (0, ntoh (mem_hdr src)))"

text \<open>\<open>CPacketHeader::Serialize\<close>.\<close>

definition HdrSerialize :: "heap \<Rightarrow> pkt_header \<Rightarrow> cbuffer \<Rightarrow> (int \<times> cbuffer) outcome" where
  "HdrSerialize hp h oBuf =
     bindOutcome (Resize hp SIZEOF_PKT_HEADER oBuf) (\<lambda>(_, b).
     if base b = NullBase then Return (- EFAULT, b)
     else bindOutcome (optOutcome (storeBytes b (dwOffset b) (hdr_mem (hton h)))) (\<lambda>b1. Return (0, b1)))"

subsection \<open>Outgoing packets\<close>

record out_packet =
  opHeader :: pkt_header
  opBuf :: "cbuffer option"
  opIrp :: "nat option"
  opToSend :: nat
  opOffset :: nat

definition new_out_packet :: out_packet where
  "new_out_packet = \<lparr>opHeader = new_pkt_header, opBuf = None, opIrp = None, opToSend = 0, opOffset = 0\<rparr>"

text \<open>Magic and size are not copied.\<close>

definition SetHeader :: "pkt_header \<Rightarrow> out_packet \<Rightarrow> out_packet" where
  "SetHeader h p = p\<lparr>opHeader := h\<lparr>phMagic := phMagic (opHeader p), phSize := phSize (opHeader p)\<rparr>\<rparr>"

definition SetBufToSend :: "cbuffer \<Rightarrow> out_packet \<Rightarrow> int \<times> out_packet" where
  "SetBufToSend pBuf p =
    (if bufEmpty pBuf \<or> bufSize pBuf > MAX_BYTES_PER_TRANSFER then (- EINVAL, p)
     else (0, p\<lparr>opBuf := Some pBuf, opToSend := u32_add (bufSize pBuf) SIZEOF_PKT_HEADER, opOffset := 0,
                opHeader := hton ((opHeader p)\<lparr>phSize := bufSize pBuf\<rparr>)\<rparr>))"

definition send_result :: "wsock \<Rightarrow> int" where
  "send_result k = (if werr k = EAGAIN then STATUS_PENDING else - werr k)"

text \<open>
  The loop of \<open>StartSend\<close>: the rest of the header, and at most \<open>RPC_MAX_BYTES_PACKET\<close> bytes of
  the payload, in every round. The header is turned back when its last byte is out.
\<close>

function out_send_loop :: "out_packet \<Rightarrow> wsock \<Rightarrow> (int \<times> out_packet \<times> wsock) outcome"
  and out_send_payload :: "out_packet \<Rightarrow> wsock \<Rightarrow> (int \<times> out_packet \<times> wsock) outcome" where
  "out_send_loop p k =
    (if opOffset p < SIZEOF_PKT_HEADER then
       (case sock_send (drop (opOffset p) (hdr_mem (opHeader p))) (u32_sub SIZEOF_PKT_HEADER (opOffset p)) k of
          Return (None, k1) \<Rightarrow> Return (send_result k1, p, k1)
        | Return (Some m, k1) \<Rightarrow>
            let p1 = p\<lparr>opOffset := u32_add (opOffset p) m, opToSend := u32_sub (opToSend p) m\<rparr>;
                p2 = (if opOffset p1 = SIZEOF_PKT_HEADER then p1\<lparr>opHeader := ntoh (opHeader p1)\<rparr> else p1)
            in if opOffset p1 < SIZEOF_PKT_HEADER then out_send_loop p1 k1 else out_send_payload p2 k1
        | Throw b \<Rightarrow> Throw b
        | Undefined \<Rightarrow> Undefined)
     else out_send_payload p k)"
| "out_send_payload p k = (case opBuf p of
      None \<Rightarrow> Undefined
    | Some b \<Rightarrow>
       let dwActOffset = u32_sub (opOffset p) SIZEOF_PKT_HEADER;
           dwSize = min (u32_sub (bufSize b) dwActOffset) RPC_MAX_BYTES_PACKET
       in case sock_send (drop (dwOffset b + dwActOffset) (memBytes b)) dwSize k of
          Return (None, k1) \<Rightarrow> Return (send_result k1, p, k1)
        | Return (Some m, k1) \<Rightarrow>
            let p1 = p\<lparr>opOffset := u32_add (opOffset p) m, opToSend := u32_sub (opToSend p) m\<rparr>
            in if opToSend p1 > 0 then out_send_loop p1 k1 else Return (0, p1, k1)
        | Throw b \<Rightarrow> Throw b
        | Undefined \<Rightarrow> Undefined)"
  by pat_completeness auto
termination
  by (relation "measure (\<lambda>x. case x of Inl (p, k) \<Rightarrow> 2 * length (accepts k) + 1 | Inr (p, k) \<Rightarrow> 2 * length (accepts k))")
    (auto dest: sock_send_accepts)

declare out_send_loop.simps [simp del] out_send_payload.simps [simp del]

definition OutStartSend :: "out_packet \<Rightarrow> wsock \<Rightarrow> (int \<times> out_packet \<times> wsock) outcome" where
  "OutStartSend p k =
    (if opToSend p = 0 then Return (0, p, k)
     else if opToSend p > MAX_BYTES_PER_TRANSFER then Return (- EINVAL, p, k)
     else out_send_loop p k)"

subsection \<open>Incoming packets\<close>

record in_packet =
  ipBuf :: "cbuffer option"
  ipHeader :: pkt_header
  ipToRecv :: nat
  ipOffset :: nat

definition new_in_packet :: in_packet where
  "new_in_packet = \<lparr>ipBuf = None, ipHeader = new_pkt_header, ipToRecv = 0, ipOffset = 0\<rparr>"

text \<open>How much is wanted, the buffer it goes to, and where in the buffer.\<close>

definition fill_size :: "in_packet \<Rightarrow> nat" where
  "fill_size p = (if ipToRecv p = 0 then u32_sub SIZEOF_PKT_HEADER (ipOffset p) else ipToRecv p)"

definition fill_buffer :: "heap \<Rightarrow> u8 list \<Rightarrow> in_packet \<Rightarrow> cbuffer outcome" where
  "fill_buffer hp stale p = (case ipBuf p of
      Some b \<Rightarrow> Return b
    | None \<Rightarrow> bindOutcome (Resize hp SIZEOF_PKT_HEADER (newBuffer stale)) (\<lambda>(_, b). Return b))"

definition fill_offset :: "in_packet \<Rightarrow> nat" where
  "fill_offset p = (if ipOffset p < SIZEOF_PKT_HEADER then ipOffset p else ipOffset p - SIZEOF_PKT_HEADER)"

definition fill_header :: "in_packet \<Rightarrow> cbuffer \<Rightarrow> (int \<times> pkt_header) outcome" where
  "fill_header p b = HdrDeserialize (if base b = NullBase then None else Some (drop (dwOffset b) (memBytes b)))
     SIZEOF_PKT_HEADER (ipHeader p)"

text \<open>Reading no byte returns zero at once.\<close>

definition read_some :: "nat \<Rightarrow> rsock \<Rightarrow> read_result \<times> rsock" where
  "read_some n s = (if n = 0 then (Got [], s) else sock_read n s)"

text \<open>\<open>FillPacket( iFd )\<close>. The loop runs again only after a header was read.\<close>

partial_function (option) fill_fd_loop :: "heap \<Rightarrow> u8 list \<Rightarrow> bool \<Rightarrow> in_packet \<Rightarrow> rsock \<Rightarrow> ((int \<times> in_packet \<times> rsock) outcome) option" where
  "fill_fd_loop hp stale bFirst p s =
    (if fill_size p > MAX_BYTES_PER_TRANSFER then Some (Return (- EINVAL, p, s))
     else case fill_buffer hp stale p of
       Throw b \<Rightarrow> Some (Throw b)
     | Undefined \<Rightarrow> Some Undefined
     | Return b \<Rightarrow>
        (case read_some (fill_size p) s of
          (Fail e, s1) \<Rightarrow> Some (Return (if e = EAGAIN then STATUS_PENDING else - e, p\<lparr>ipBuf := Some b\<rparr>, s1))
        | (res, s1) \<Rightarrow>
          (let bs = (case res of Got bs \<Rightarrow> bs | _ \<Rightarrow> []) in
           if bs = [] \<and> bFirst then Some (Return (- ENOTCONN, p\<lparr>ipBuf := Some b\<rparr>, s1))
           else case storeBytes b (dwOffset b + fill_offset p) bs of
             None \<Rightarrow> Some Undefined
           | Some b1 \<Rightarrow>
             (let p1 = p\<lparr>ipBuf := Some b1, ipOffset := u32_add (ipOffset p) (length bs)\<rparr> in
              if ipOffset p1 < SIZEOF_PKT_HEADER then Some (Return (STATUS_PENDING, p1, s1))
              else if ipOffset p1 = SIZEOF_PKT_HEADER \<and> ipToRecv p1 = 0 then
                (case fill_header p1 b1 of
                   Return (ret, h) \<Rightarrow>
                     if ERROR ret then Some (Return (ret, p1, s1))
                     else (case Resize hp (phSize h) b1 of
                         Return (_, b2) \<Rightarrow> fill_fd_loop hp stale False (p1\<lparr>ipHeader := h, ipToRecv := phSize h, ipBuf := Some b2\<rparr>) s1
                       | Throw b \<Rightarrow> Some (Throw b)
                       | Undefined \<Rightarrow> Some Undefined)
                 | Throw b \<Rightarrow> Some (Throw b)
                 | Undefined \<Rightarrow> Some Undefined)
              else if length bs < fill_size p then
                Some (Return (STATUS_PENDING, p1\<lparr>ipToRecv := u32_sub (ipToRecv p1) (length bs)\<rparr>, s1))
              else Some (Return (0, p1\<lparr>ipToRecv := 0, ipOffset := 0\<rparr>, s1))))))"

definition FillPacketFd :: "heap \<Rightarrow> u8 list \<Rightarrow> in_packet \<Rightarrow> rsock \<Rightarrow> ((int \<times> in_packet \<times> rsock) outcome) option" where
  "FillPacketFd hp stale p s = fill_fd_loop hp stale True p s"

text \<open>\<open>FillPacket( BufPtr& )\<close>: the bytes come from a buffer, whose offset moves on.\<close>

partial_function (option) fill_buf_loop :: "heap \<Rightarrow> u8 list \<Rightarrow> in_packet \<Rightarrow> cbuffer \<Rightarrow> ((int \<times> in_packet \<times> cbuffer) outcome) option" where
  "fill_buf_loop hp stale p src =
    (if fill_size p > MAX_BYTES_PER_TRANSFER then Some (Return (- EINVAL, p, src))
     else case fill_buffer hp stale p of
       Throw b \<Rightarrow> Some (Throw b)
     | Undefined \<Rightarrow> Some Undefined
     | Return b \<Rightarrow>
       (let dwToCopy = min (fill_size p) (bufSize src) in
        case (loadBytes src (dwOffset src) dwToCopy, storeBytes b (dwOffset b + fill_offset p) (take dwToCopy (drop (dwOffset src) (memBytes src)))) of
          (Some bs, Some b1) \<Rightarrow>
            (let src1 = (if dwToCopy > 0 then snd (IncOffset dwToCopy src) else src);
                 p1 = p\<lparr>ipBuf := Some b1, ipOffset := u32_add (ipOffset p) dwToCopy\<rparr> in
             if ipOffset p1 < SIZEOF_PKT_HEADER then Some (Return (STATUS_PENDING, p1, src1))
             else if ipOffset p1 = SIZEOF_PKT_HEADER \<and> ipToRecv p1 = 0 then
               (case fill_header p1 b1 of
                  Return (ret, h) \<Rightarrow>
                    if ERROR ret then Some (Return (ret, p1, src1))
                    else if phSize h > MAX_BYTES_PER_TRANSFER \<or> phSize h = 0 then Some (Return (- EPROTO, p1\<lparr>ipHeader := h\<rparr>, src1))
                    else (case Resize hp (phSize h) b1 of
                        Return (_, b2) \<Rightarrow> fill_buf_loop hp stale (p1\<lparr>ipHeader := h, ipToRecv := phSize h, ipBuf := Some b2\<rparr>) src1
                      | Throw b \<Rightarrow> Some (Throw b)
                      | Undefined \<Rightarrow> Some Undefined)
                | Throw b \<Rightarrow> Some (Throw b)
                | Undefined \<Rightarrow> Some Undefined)
             else if dwToCopy < fill_size p then
               Some (Return (STATUS_PENDING, p1\<lparr>ipToRecv := u32_sub (ipToRecv p1) dwToCopy\<rparr>, src1))
             else Some (Return (0, p1\<lparr>ipToRecv := 0, ipOffset := 0\<rparr>, src1)))
        | _ \<Rightarrow> Some Undefined))"

definition FillPacketBuf :: "heap \<Rightarrow> u8 list \<Rightarrow> in_packet \<Rightarrow> cbuffer \<Rightarrow> ((int \<times> in_packet \<times> cbuffer) outcome) option" where
  "FillPacketBuf hp stale p src =
    (if bufEmpty src then Some (Return (- EINVAL, p, src)) else fill_buf_loop hp stale p src)"

subsection \<open>Headers\<close>

definition hdr_fits :: "pkt_header \<Rightarrow> bool" where
  "hdr_fits h \<longleftrightarrow> phMagic h < 2 ^ 32 \<and> phSize h < 2 ^ 32 \<and> phStmId h < 2 ^ 32 \<and> phPeerStmId h < 2 ^ 32 \<and>
     phFlags h < 2 ^ 16 \<and> phProtoId h < 2 ^ 16 \<and> phSessId h < 2 ^ 32 \<and> phSeqNo h < 2 ^ 32"

lemma swap_bytes_bytes: "rev (to_be w (swap_bytes w x)) = to_be w x"
  using to_be_of_be [of "rev (to_be w x)"] by (simp add: swap_bytes_def)

lemma swap_swap: "x < 256 ^ w \<Longrightarrow> swap_bytes w (swap_bytes w x) = x"
proof -
  assume x: "x < 256 ^ w"
  have "swap_bytes w (swap_bytes w x) = of_be (to_be w x)"
    using swap_bytes_bytes [of w x] by (simp add: swap_bytes_def)
  then show ?thesis using x by (simp add: of_be_to_be)
qed

lemma swap_bytes_lt: "swap_bytes w x < 256 ^ w"
  using of_be_bound [of "rev (to_be w x)"] by (simp add: swap_bytes_def)

lemma hton_hton: "hdr_fits h \<Longrightarrow> hton (hton h) = h"
  by (simp add: hton_def hdr_fits_def swap_swap)

lemma hton_fits: "hdr_fits (hton h)"
  using swap_bytes_lt [of 4] swap_bytes_lt [of 2] by (simp add: hdr_fits_def hton_def)

lemma hdr_mem_length [simp]: "length (hdr_mem h) = SIZEOF_PKT_HEADER"
  by (simp add: hdr_mem_def)

lemma mem_hdr_mem: "hdr_fits h \<Longrightarrow> mem_hdr (hdr_mem h @ rest) = h"
  by (simp add: mem_hdr_def le_field_def hdr_mem_def hdr_fits_def of_be_to_be)

text \<open>The header on the wire, and reading it back.\<close>

lemma HdrDeserialize_wire:
  assumes "hdr_fits h" "phMagic h = RPC_PACKET_MAGIC"
  shows "HdrDeserialize (Some (hdr_mem (hton h) @ rest)) SIZEOF_PKT_HEADER h0 = Return (0, h)"
proof -
  have m: "mem_hdr (hdr_mem (hton h) @ rest) = hton h" by (rule mem_hdr_mem [OF hton_fits])
  have "swap_bytes 4 (phMagic (hton h)) = phMagic h" using assms(1) by (simp add: hton_def hdr_fits_def swap_swap)
  then show ?thesis unfolding HdrDeserialize_def using m assms(2) hton_hton [OF assms(1)] by simp
qed

text \<open>Only the magic word is checked.\<close>

lemma HdrDeserialize_magic: "28 \<le> length src \<Longrightarrow> of_be (take 4 src) \<noteq> RPC_PACKET_MAGIC \<Longrightarrow>
   HdrDeserialize (Some src) SIZEOF_PKT_HEADER h0 = Return (- EPROTO, h0)"
proof -
  assume l: "28 \<le> length src" and m: "of_be (take 4 src) \<noteq> RPC_PACKET_MAGIC"
  have "length (rev (take 4 src)) = 4" using l by simp
  then have "to_be 4 (of_be (rev (take 4 src))) = rev (take 4 src)" using to_be_of_be by metis
  then have "swap_bytes 4 (phMagic (mem_hdr src)) = of_be (take 4 src)"
    by (simp add: swap_bytes_def mem_hdr_def le_field_def)
  then show ?thesis using l m by (simp add: HdrDeserialize_def)
qed

subsection \<open>Sending\<close>

definition wire :: "pkt_header \<Rightarrow> u8 list \<Rightarrow> u8 list" where
  "wire h w = hdr_mem (hton h) @ w"

lemma wire_length [simp]: "length (wire h w) = SIZEOF_PKT_HEADER + length w"
  by (simp add: wire_def)

text \<open>The first \<open>off\<close> bytes of the packet are out.\<close>

definition out_at :: "pkt_header \<Rightarrow> cbuffer \<Rightarrow> nat \<Rightarrow> out_packet \<Rightarrow> bool" where
  "out_at h b off p \<longleftrightarrow> hdr_fits h \<and> buf_wf b \<and> 0 < bufSize b \<and> SIZEOF_PKT_HEADER + bufSize b \<le> MAX_BYTES_PER_TRANSFER \<and>
     off \<le> SIZEOF_PKT_HEADER + bufSize b \<and> opBuf p = Some b \<and> opOffset p = off \<and>
     opToSend p = SIZEOF_PKT_HEADER + bufSize b - off \<and> opHeader p = (if off < SIZEOF_PKT_HEADER then hton h else h)"

lemma out_at_next:
  assumes "out_at h b off p" "0 < m" "off + m \<le> SIZEOF_PKT_HEADER + bufSize b"
    "off < SIZEOF_PKT_HEADER \<longrightarrow> off + m \<le> SIZEOF_PKT_HEADER"
  shows "u32_add (opOffset p) m = off + m" "u32_sub (opToSend p) m = SIZEOF_PKT_HEADER + bufSize b - (off + m)"
    "out_at h b (off + m) (p\<lparr>opOffset := off + m, opToSend := SIZEOF_PKT_HEADER + bufSize b - (off + m),
        opHeader := (if off + m = SIZEOF_PKT_HEADER then hton (opHeader p) else opHeader p)\<rparr>)"
  using assms hton_hton [of h] by (auto simp: out_at_def u32_simps)

lemma header_step:
  assumes p: "out_at h b off p" and off: "off < SIZEOF_PKT_HEADER" and k: "accepts k = a # as"
  obtains m p1 k1 where "0 < m" "off + m \<le> SIZEOF_PKT_HEADER" "out_at h b (off + m) p1"
    "sent k1 = sent k @ take m (drop off (wire h (window b)))" "accepts k1 = as" "werr k1 = werr k"
    "out_send_loop p k = (if off + m < SIZEOF_PKT_HEADER then out_send_loop p1 k1 else out_send_payload p1 k1)"
proof -
  have d: "opOffset p = off" "opHeader p = hton h" using p off by (simp_all add: out_at_def)
  have n: "u32_sub SIZEOF_PKT_HEADER (opOffset p) = SIZEOF_PKT_HEADER - off" using d off by (simp add: u32_simps)
  have l: "0 < SIZEOF_PKT_HEADER - off" "SIZEOF_PKT_HEADER - off \<le> length (drop off (hdr_mem (hton h)))" using off by simp_all
  define m where "m = min (SIZEOF_PKT_HEADER - off) (max 1 a)"
  define k1 where "k1 = k\<lparr>sent := sent k @ take m (drop off (hdr_mem (hton h))), accepts := as\<rparr>"
  have s: "sock_send (drop off (hdr_mem (hton h))) (SIZEOF_PKT_HEADER - off) k = Return (Some m, k1)"
    using k l(2) by (auto simp: sock_send_def Let_def m_def k1_def)
  have m: "0 < m" "off + m \<le> SIZEOF_PKT_HEADER" using l(1) by (simp_all add: m_def)
  have fits: "off + m \<le> SIZEOF_PKT_HEADER + bufSize b" using m(2) by simp
  define p1 where "p1 = p\<lparr>opOffset := off + m, opToSend := SIZEOF_PKT_HEADER + bufSize b - (off + m),
        opHeader := (if off + m = SIZEOF_PKT_HEADER then hton (opHeader p) else opHeader p)\<rparr>"
  note nx = out_at_next [OF p m(1) fits]
  have at: "out_at h b (off + m) p1" unfolding p1_def using nx(3) m(2) by blast
  have upd: "p\<lparr>opOffset := off + m, opToSend := SIZEOF_PKT_HEADER + bufSize b - (off + m)\<rparr> = p1" if "off + m \<noteq> SIZEOF_PKT_HEADER"
    using that by (simp add: p1_def)
  have "out_send_loop p k = (if off + m < SIZEOF_PKT_HEADER then out_send_loop p1 k1 else out_send_payload p1 k1)"
  proof (cases "off + m = SIZEOF_PKT_HEADER")
    case True
    then show ?thesis using nx(1,2) d s n off by (subst out_send_loop.simps) (simp add: Let_def p1_def)
  next
    case False
    then have "opOffset p1 = off + m" "off + m < SIZEOF_PKT_HEADER" using m(2) by (simp_all add: p1_def)
    then show ?thesis using nx(1,2) d s n off upd [OF False] by (subst out_send_loop.simps) (simp add: Let_def)
  qed
  moreover have "take m (drop off (hdr_mem (hton h))) = take m (drop off (wire h (window b)))"
    using m(2) by (simp add: wire_def)
  ultimately show thesis using m at by (intro that [of m p1 k1]) (simp_all add: k1_def)
qed

lemma payload_step:
  assumes p: "out_at h b off p" and off: "SIZEOF_PKT_HEADER \<le> off" "off < SIZEOF_PKT_HEADER + bufSize b" and k: "accepts k = a # as"
  obtains m p1 k1 where "0 < m" "off + m \<le> SIZEOF_PKT_HEADER + bufSize b" "out_at h b (off + m) p1"
    "sent k1 = sent k @ take m (drop off (wire h (window b)))" "accepts k1 = as" "werr k1 = werr k"
    "out_send_payload p k = (if off + m < SIZEOF_PKT_HEADER + bufSize b then out_send_loop p1 k1 else Return (0, p1, k1))"
proof -
  have d: "opOffset p = off" "opBuf p = Some b" "buf_wf b" "bufSize b \<le> MAX_BYTES_PER_TRANSFER" using p by (simp_all add: out_at_def)
  have act: "u32_sub (opOffset p) SIZEOF_PKT_HEADER = off - SIZEOF_PKT_HEADER"
    "u32_sub (bufSize b) (off - SIZEOF_PKT_HEADER) = bufSize b - (off - SIZEOF_PKT_HEADER)"
    using d off by (simp_all add: u32_simps)
  define n where "n = min (bufSize b - (off - SIZEOF_PKT_HEADER)) RPC_MAX_BYTES_PACKET"
  have n: "0 < n" "off - SIZEOF_PKT_HEADER + n \<le> bufSize b" using off by (auto simp: n_def)
  define m where "m = min n (max 1 a)"
  have m: "0 < m" "m \<le> n" "off + m \<le> SIZEOF_PKT_HEADER + bufSize b" using n off by (auto simp: m_def)
  note fm = front_mem [OF d(3), of "off - SIZEOF_PKT_HEADER" m]
  have lm: "off - SIZEOF_PKT_HEADER + m \<le> bufSize b" using n m by simp
  let ?mem = "drop (dwOffset b + (off - SIZEOF_PKT_HEADER)) (memBytes b)"
  define k1 where "k1 = k\<lparr>sent := sent k @ take m ?mem, accepts := as\<rparr>"
  have s: "sock_send ?mem n k = Return (Some m, k1)"
    using k fm(2) [OF lm] by (auto simp: sock_send_def Let_def m_def k1_def)
  define p1 where "p1 = p\<lparr>opOffset := off + m, opToSend := SIZEOF_PKT_HEADER + bufSize b - (off + m)\<rparr>"
  note nx = out_at_next [OF p m(1,3)]
  have at: "out_at h b (off + m) p1" using nx(3) off(1) m(1) by (simp add: p1_def)
  have "out_send_payload p k = (if off + m < SIZEOF_PKT_HEADER + bufSize b then out_send_loop p1 k1 else Return (0, p1, k1))"
    using nx(1,2) off d act s by (subst out_send_payload.simps) (auto simp: Let_def p1_def n_def)
  moreover have "take m ?mem = take m (drop off (wire h (window b)))"
    using fm(1) [OF lm] off(1) by (simp add: wire_def)
  ultimately show thesis using m at by (intro that [of m p1 k1]) (simp_all add: k1_def)
qed

text \<open>A call of the loop: what went out is the next part of the packet.\<close>

definition sent_part :: "pkt_header \<Rightarrow> cbuffer \<Rightarrow> nat \<Rightarrow> wsock \<Rightarrow> int \<times> out_packet \<times> wsock \<Rightarrow> bool" where
  "sent_part h b off k r \<longleftrightarrow> (case r of (ret, p', k') \<Rightarrow> \<exists>off'. out_at h b off' p' \<and> off \<le> off' \<and>
     sent k' = sent k @ take (off' - off) (drop off (wire h (window b))) \<and> werr k' = werr k \<and>
     length (accepts k) \<le> length (accepts k') + (off' - off) \<and>
     (if off' = SIZEOF_PKT_HEADER + bufSize b then ret = 0 else ret = send_result k \<and> accepts k' = []))"

lemma sent_part_step:
  assumes "sent_part h b (off + m) k1 r" "sent k1 = sent k @ take m (drop off (wire h (window b)))" "0 < m"
    "accepts k = a # accepts k1" "werr k1 = werr k"
  shows "sent_part h b off k r"
proof -
  obtain ret p' k' where r: "r = (ret, p', k')" by (cases r)
  obtain off' where o': "out_at h b off' p'" "off + m \<le> off'"
     "sent k' = sent k1 @ take (off' - (off + m)) (drop (off + m) (wire h (window b)))" "werr k' = werr k1"
     "length (accepts k1) \<le> length (accepts k') + (off' - (off + m))"
     "if off' = SIZEOF_PKT_HEADER + bufSize b then ret = 0 else ret = send_result k1 \<and> accepts k' = []"
    using assms(1) r by (auto simp: sent_part_def)
  have "take (off' - off) (drop off (wire h (window b))) =
     take m (drop off (wire h (window b))) @ take (off' - (off + m)) (drop (off + m) (wire h (window b)))"
    using o'(2) take_add [of m "off' - (off + m)" "drop off (wire h (window b))"] by (simp add: add.commute)
  moreover have "send_result k1 = send_result k" using assms(5) by (simp add: send_result_def)
  ultimately show ?thesis unfolding sent_part_def r using o' assms(2-5) by (auto intro!: exI [of _ off'])
qed

lemma out_send_loop_ok:
  assumes "out_at h b off p" "off < SIZEOF_PKT_HEADER + bufSize b"
  shows "(\<exists>r. out_send_loop p k = Return r \<and> sent_part h b off k r) \<and>
    (SIZEOF_PKT_HEADER \<le> off \<longrightarrow> (\<exists>r. out_send_payload p k = Return r \<and> sent_part h b off k r))"
  using assms
proof (induction "length (accepts k)" arbitrary: k p off)
  case 0
  have pay: "SIZEOF_PKT_HEADER \<le> off \<Longrightarrow> out_send_payload p k = Return (send_result k, p, k)" using 0
    by (simp add: sock_send_def out_at_def out_send_payload.simps)
  then have "out_send_loop p k = Return (send_result k, p, k)" using 0
    by (subst out_send_loop.simps) (simp add: sock_send_def out_at_def)
  moreover have "sent_part h b off k (send_result k, p, k)" using 0 by (auto simp: sent_part_def intro!: exI [of _ off])
  ultimately show ?case using pay by blast
next
  case (Suc n)
  obtain a as where k: "accepts k = a # as" "n = length as" using Suc.hyps(2) by (cases "accepts k") auto
  have pay: "\<exists>r. out_send_payload p k = Return r \<and> sent_part h b off k r" if off: "SIZEOF_PKT_HEADER \<le> off"
  proof -
    obtain m p1 k1 where s: "0 < m" "off + m \<le> SIZEOF_PKT_HEADER + bufSize b" "out_at h b (off + m) p1"
      "sent k1 = sent k @ take m (drop off (wire h (window b)))" "accepts k1 = as" "werr k1 = werr k"
      "out_send_payload p k = (if off + m < SIZEOF_PKT_HEADER + bufSize b then out_send_loop p1 k1 else Return (0, p1, k1))"
      by (rule payload_step [OF Suc.prems(1) off Suc.prems(2) k(1)]) blast
    have n1: "n = length (accepts k1)" "accepts k = a # accepts k1" using s(5) k by simp_all
    show ?thesis
    proof (cases "off + m < SIZEOF_PKT_HEADER + bufSize b")
      case True
      obtain r where "out_send_loop p1 k1 = Return r" "sent_part h b (off + m) k1 r"
        using Suc.hyps(1) [OF n1(1) s(3) True] by blast
      then show ?thesis using True s(7) sent_part_step [OF _ s(4,1) n1(2) s(6)] by auto
    next
      case False
      then have "sent_part h b (off + m) k1 (0, p1, k1)" using s(2,3) by (auto simp: sent_part_def intro!: exI [of _ "off + m"])
      then show ?thesis using False s(7) sent_part_step [OF _ s(4,1) n1(2) s(6)] by auto
    qed
  qed
  moreover have "\<exists>r. out_send_loop p k = Return r \<and> sent_part h b off k r"
  proof (cases "off < SIZEOF_PKT_HEADER")
    case True
    obtain m p1 k1 where s: "0 < m" "off + m \<le> SIZEOF_PKT_HEADER" "out_at h b (off + m) p1"
      "sent k1 = sent k @ take m (drop off (wire h (window b)))" "accepts k1 = as" "werr k1 = werr k"
      "out_send_loop p k = (if off + m < SIZEOF_PKT_HEADER then out_send_loop p1 k1 else out_send_payload p1 k1)"
      by (rule header_step [OF Suc.prems(1) True k(1)]) blast
    have n1: "n = length (accepts k1)" "accepts k = a # accepts k1" using s(5) k by simp_all
    have lt: "off + m < SIZEOF_PKT_HEADER + bufSize b" using s(2,3) by (auto simp: out_at_def)
    obtain r where "out_send_loop p k = Return r" "sent_part h b (off + m) k1 r"
      using s(7) Suc.hyps(1) [OF n1(1) s(3) lt] by (cases "off + m < SIZEOF_PKT_HEADER") auto
    then show ?thesis using sent_part_step [OF _ s(4,1) n1(2) s(6)] by auto
  next
    case False
    then have "out_send_loop p k = out_send_payload p k" using Suc.prems(1) by (subst out_send_loop.simps) (simp add: out_at_def)
    then show ?thesis using pay False by simp
  qed
  ultimately show ?case by blast
qed

subsection \<open>Receiving\<close>

text \<open>The first \<open>k\<close> bytes of the packet with header \<open>h\<close> and payload \<open>w\<close> are in.\<close>

definition in_at :: "pkt_header \<Rightarrow> u8 list \<Rightarrow> nat \<Rightarrow> in_packet \<Rightarrow> bool" where
  "in_at h w k p \<longleftrightarrow> hdr_fits h \<and> phMagic h = RPC_PACKET_MAGIC \<and> phSize h = length w \<and> 0 < length w \<and>
     length w \<le> MAX_BYTES_PER_TRANSFER \<and> k < SIZEOF_PKT_HEADER + length w \<and> ipOffset p = k \<and>
     (if k < SIZEOF_PKT_HEADER then ipToRecv p = 0 \<and> (k = 0 \<and> ipBuf p = None \<or>
        (\<exists>b. ipBuf p = Some b \<and> buf_wf b \<and> GetDataType b = DataTypeMem \<and> bufSize b = SIZEOF_PKT_HEADER \<and>
           take k (window b) = take k (hdr_mem (hton h))))
      else ipToRecv p = SIZEOF_PKT_HEADER + length w - k \<and> ipHeader p = h \<and>
        (\<exists>b. ipBuf p = Some b \<and> buf_wf b \<and> GetDataType b = DataTypeMem \<and> bufSize b = length w \<and>
           take (k - SIZEOF_PKT_HEADER) (window b) = take (k - SIZEOF_PKT_HEADER) w))"

definition packet_in :: "pkt_header \<Rightarrow> u8 list \<Rightarrow> in_packet \<Rightarrow> bool" where
  "packet_in h w p \<longleftrightarrow> ipHeader p = h \<and> ipToRecv p = 0 \<and> ipOffset p = 0 \<and>
     (\<exists>b. ipBuf p = Some b \<and> buf_wf b \<and> GetDataType b = DataTypeMem \<and> window b = w)"

lemma store_plain:
  assumes b: "buf_wf b" "GetDataType b = DataTypeMem" "i + length bs \<le> bufSize b" and w: "length w = bufSize b"
    "take i (window b) = take i w" "take (length bs) (drop i w) = bs"
  obtains b1 where "storeBytes b (dwOffset b + i) bs = Some b1" "buf_wf b1" "GetDataType b1 = DataTypeMem"
    "bufSize b1 = bufSize b" "take (i + length bs) (window b1) = take (i + length bs) w"
proof -
  obtain b1 where b1: "storeBytes b (dwOffset b + i) bs = Some b1" "buf_wf b1" "window b1 = overwrite i bs (window b)"
    "bufSize b1 = bufSize b" "dwType b1 = dwType b"
    by (rule store_window [OF b(1,3)]) blast
  have lw: "length (window b) = bufSize b" using buf_wf_lengths(4) [OF b(1)] .
  have "take (i + length bs) (overwrite i bs (window b)) = take (i + length bs) w"
    by (rule take_overwrite_extends [where t = "drop (length bs) (drop i w)"])
      (use w b(3) lw append_take_drop_id [of "length bs" "drop i w"] in simp_all)
  then show thesis using b1 b(2) by (intro that [of b1]) (simp_all add: GetDataType_def)
qed

text \<open>What the two kinds of rounds have in common: the bytes taken from the source.\<close>

lemma take_source:
  assumes "rd src inp" "c \<le> length inp"
  obtains src1 where "loadBytes src (dwOffset src) c = Some (take c inp)"
    "take c (drop (dwOffset src) (memBytes src)) = take c inp"
    "(if c > 0 then snd (IncOffset c src) else src) = src1" "rd src1 (drop c inp)"
proof -
  have l: "loadBytes src (dwOffset src) c = Some (take c inp)" using rd_facts(5) [OF assms] .
  then have m: "take c (drop (dwOffset src) (memBytes src)) = take c inp" by (auto simp: loadBytes_def split: if_splits)
  obtain s where "IncOffset c src = (STATUS_SUCCESS, s)" "rd s (drop c inp)" by (rule IncOffset_spec [OF assms])
  then show thesis using l m assms by (cases "c > 0") (auto intro: that)
qed

lemma payload_round:
  assumes p: "in_at h w k p" and k: "SIZEOF_PKT_HEADER \<le> k" and r: "rd src inp"
    and ag: "take (SIZEOF_PKT_HEADER + length w - k) inp = take (length inp) (drop k (wire h w))"
  shows "\<exists>ret p' src'. fill_buf_loop hp stale p src = Some (Return (ret, p', src')) \<and>
    (if length inp < SIZEOF_PKT_HEADER + length w - k
     then ret = STATUS_PENDING \<and> in_at h w (k + length inp) p' \<and> rd src' []
     else ret = 0 \<and> packet_in h w p' \<and> rd src' (drop (SIZEOF_PKT_HEADER + length w - k) inp))"
proof -
  let ?T = "SIZEOF_PKT_HEADER + length w"
  obtain b where b: "ipBuf p = Some b" "buf_wf b" "GetDataType b = DataTypeMem" "bufSize b = length w"
    "take (k - SIZEOF_PKT_HEADER) (window b) = take (k - SIZEOF_PKT_HEADER) w"
    using p k by (auto simp: in_at_def)
  have f: "ipToRecv p = ?T - k" "ipOffset p = k" "k < ?T" "length w \<le> MAX_BYTES_PER_TRANSFER" "ipHeader p = h"
    using p k by (auto simp: in_at_def)
  have fs: "fill_size p = ?T - k" "fill_offset p = k - SIZEOF_PKT_HEADER" "fill_buffer hp stale p = Return b"
    using f k b(1) by (auto simp: fill_size_def fill_offset_def fill_buffer_def)
  define c where "c = min (?T - k) (length inp)"
  have c: "c \<le> length inp" "c \<le> ?T - k" by (simp_all add: c_def)
  obtain src1 where s: "loadBytes src (dwOffset src) c = Some (take c inp)" "take c (drop (dwOffset src) (memBytes src)) = take c inp"
    "(if c > 0 then snd (IncOffset c src) else src) = src1" "rd src1 (drop c inp)"
    by (rule take_source [OF r c(1)])
  have "take c inp = take c (take (?T - k) inp)" using c(2) by (simp add: min_def)
  also have "\<dots> = take c (drop k (wire h w))" unfolding ag using c(1) by (simp add: min_def)
  also have "\<dots> = take c (drop (k - SIZEOF_PKT_HEADER) w)" using k by (simp add: wire_def)
  finally have tc: "take c (drop (k - SIZEOF_PKT_HEADER) w) = take c inp" by simp
  have lc: "length (take c inp) = c" using c(1) by simp
  have fit: "k - SIZEOF_PKT_HEADER + length (take c inp) \<le> bufSize b" "length w = bufSize b"
    "take (length (take c inp)) (drop (k - SIZEOF_PKT_HEADER) w) = take c inp"
    using lc c(2) k f(3) b(4) tc by simp_all
  obtain b1 where b1: "storeBytes b (dwOffset b + (k - SIZEOF_PKT_HEADER)) (take c inp) = Some b1" "buf_wf b1" "GetDataType b1 = DataTypeMem"
    "bufSize b1 = bufSize b" "take (k - SIZEOF_PKT_HEADER + length (take c inp)) (window b1) = take (k - SIZEOF_PKT_HEADER + length (take c inp)) w"
    by (rule store_plain [OF b(2,3) fit(1,2) b(5) fit(3)])
  have u: "u32_add k c = k + c" "u32_sub (?T - k) c = ?T - (k + c)" using c(2) f(3,4) by (simp_all add: u32_simps)
  have sz: "bufSize src = length inp" using rd_facts(1) [OF r] .
  define p1 where "p1 = p\<lparr>ipBuf := Some b1, ipOffset := k + c\<rparr>"
  have run: "fill_buf_loop hp stale p src =
     (if c < ?T - k then Some (Return (STATUS_PENDING, p1\<lparr>ipToRecv := ?T - (k + c)\<rparr>, src1))
      else Some (Return (0, p1\<lparr>ipToRecv := 0, ipOffset := 0\<rparr>, src1)))"
  proof -
    have a: "\<not> ?T - k > MAX_BYTES_PER_TRANSFER" "?T - k \<noteq> 0" "\<not> k + c < SIZEOF_PKT_HEADER" using f(3,4) k by simp_all
    have m: "min (?T - k) (bufSize src) = c" using sz by (simp add: c_def)
    show ?thesis
      using a fs f(1,2) m s(1-3) b1(1) u
      by (subst fill_buf_loop.simps) (simp add: Let_def p1_def)
  qed
  show ?thesis
  proof (cases "c < ?T - k")
    case True
    then have ci: "c = length inp" "length inp < ?T - k" by (simp_all add: c_def)
    have "in_at h w (k + c) (p1\<lparr>ipToRecv := ?T - (k + c)\<rparr>)"
      using p k True b1(2,3,4,5) b(4) lc f(5) by (auto simp: in_at_def p1_def)
    then show ?thesis using run True ci s(4) by simp
  next
    case False
    then have ci: "c = ?T - k" "\<not> length inp < ?T - k" using c(2) by (simp_all add: c_def)
    have "k - SIZEOF_PKT_HEADER + c = length w" using ci(1) k f(3) by simp
    then have "window b1 = w" using b1(5) lc buf_wf_lengths(4) [OF b1(2)] b1(4) b(4) by simp
    then have "packet_in h w (p1\<lparr>ipToRecv := 0, ipOffset := 0\<rparr>)" using b1 f(5) by (simp add: packet_in_def p1_def)
    then show ?thesis using run False ci s(4) by simp
  qed
qed

lemma header_buffer:
  assumes "in_at h w k p" "k < SIZEOF_PKT_HEADER" "roomy hp stale"
  obtains b where "fill_buffer hp stale p = Return b" "buf_wf b" "GetDataType b = DataTypeMem" "bufSize b = SIZEOF_PKT_HEADER"
    "take k (window b) = take k (hdr_mem (hton h))"
proof (cases "ipBuf p")
  case None
  then have k0: "k = 0" using assms(1,2) by (auto simp: in_at_def)
  have nb: "buf_wf (newBuffer stale)" "GetDataType (newBuffer stale) \<in> {DataTypeMem, DataTypeObjPtr, DataTypeMsgPtr}"
    using assms(3) by (simp_all add: roomy_def)
  have al: "allocOk hp SIZEOF_PKT_HEADER" using assms(3) by (simp add: roomy_def)
  show thesis
    by (cases rule: Resize_cases [OF nb, of SIZEOF_PKT_HEADER hp])
      (use None k0 al in \<open>auto simp: fill_buffer_def bindOutcome_def intro: that\<close>)
next
  case (Some b)
  then show thesis using assms(1,2) by (intro that [of b]) (auto simp: in_at_def fill_buffer_def)
qed

lemma header_round:
  assumes p: "in_at h w k p" and k: "k < SIZEOF_PKT_HEADER" and hp: "roomy hp stale" and r: "rd src inp"
    and ag: "take (SIZEOF_PKT_HEADER + length w - k) inp = take (length inp) (drop k (wire h w))"
  shows "if length inp < SIZEOF_PKT_HEADER - k
    then \<exists>p' src'. fill_buf_loop hp stale p src = Some (Return (STATUS_PENDING, p', src')) \<and> in_at h w (k + length inp) p' \<and> rd src' []
    else \<exists>p' src'. fill_buf_loop hp stale p src = fill_buf_loop hp stale p' src' \<and> in_at h w SIZEOF_PKT_HEADER p' \<and>
      rd src' (drop (SIZEOF_PKT_HEADER - k) inp)"
proof -
  let ?H = "hdr_mem (hton h)"
  obtain b where b: "fill_buffer hp stale p = Return b" "buf_wf b" "GetDataType b = DataTypeMem" "bufSize b = SIZEOF_PKT_HEADER"
    "take k (window b) = take k ?H"
    by (rule header_buffer [OF p k hp])
  have f: "ipToRecv p = 0" "ipOffset p = k" "0 < length w" "length w \<le> MAX_BYTES_PER_TRANSFER" "hdr_fits h"
    "phMagic h = RPC_PACKET_MAGIC" "phSize h = length w"
    using p k by (auto simp: in_at_def)
  have fs: "fill_size p = SIZEOF_PKT_HEADER - k" "fill_offset p = k"
    using f k by (auto simp: fill_size_def fill_offset_def u32_simps)
  define c where "c = min (SIZEOF_PKT_HEADER - k) (length inp)"
  have c: "c \<le> length inp" "c \<le> SIZEOF_PKT_HEADER - k" by (simp_all add: c_def)
  obtain src1 where s: "loadBytes src (dwOffset src) c = Some (take c inp)" "take c (drop (dwOffset src) (memBytes src)) = take c inp"
    "(if c > 0 then snd (IncOffset c src) else src) = src1" "rd src1 (drop c inp)"
    by (rule take_source [OF r c(1)])
  have cT: "c \<le> SIZEOF_PKT_HEADER + length w - k" using c(2) by simp
  have "take c inp = take c (take (SIZEOF_PKT_HEADER + length w - k) inp)" using cT by (simp add: min_def)
  also have "\<dots> = take c (drop k (wire h w))" unfolding ag using c(1) by (simp add: min_def)
  also have "\<dots> = take c (drop k ?H)" using c(2) k by (simp add: wire_def)
  finally have tc: "take c (drop k ?H) = take c inp" by simp
  have lc: "length (take c inp) = c" using c(1) by simp
  have fit: "k + length (take c inp) \<le> bufSize b" "length ?H = bufSize b" "take (length (take c inp)) (drop k ?H) = take c inp"
    using lc c(2) k b(4) tc by simp_all
  obtain b1 where b1: "storeBytes b (dwOffset b + k) (take c inp) = Some b1" "buf_wf b1" "GetDataType b1 = DataTypeMem"
    "bufSize b1 = bufSize b" "take (k + length (take c inp)) (window b1) = take (k + length (take c inp)) ?H"
    by (rule store_plain [OF b(2,3) fit(1,2) b(5) fit(3)])
  have u: "u32_add k c = k + c" using c(2) k by (simp add: u32_simps)
  have m: "min (SIZEOF_PKT_HEADER - k) (bufSize src) = c" using rd_facts(1) [OF r] by (simp add: c_def)
  have a: "\<not> SIZEOF_PKT_HEADER - k > MAX_BYTES_PER_TRANSFER" by simp
  define p1 where "p1 = p\<lparr>ipBuf := Some b1, ipOffset := k + c\<rparr>"
  show ?thesis
  proof (cases "length inp < SIZEOF_PKT_HEADER - k")
    case True
    then have ci: "c = length inp" "k + c < SIZEOF_PKT_HEADER" by (simp_all add: c_def)
    have "fill_buf_loop hp stale p src = Some (Return (STATUS_PENDING, p1, src1))"
      using a fs f(1,2) m s(1-3) b(1) b1(1) u ci(2) by (subst fill_buf_loop.simps) (simp add: Let_def p1_def)
    moreover have "in_at h w (k + c) p1"
      using p k ci(2) b1(2,3,4,5) b(4) lc f(1) by (auto simp: in_at_def p1_def)
    ultimately show ?thesis using True ci(1) s(4) by simp
  next
    case False
    then have ci: "c = SIZEOF_PKT_HEADER - k" "k + c = SIZEOF_PKT_HEADER" using c(2) k by (simp_all add: c_def)
    have w1: "window b1 = ?H" using b1(5) lc ci buf_wf_lengths(4) [OF b1(2)] b1(4) b(4) by simp
    obtain t where t: "drop (dwOffset b1) (memBytes b1) = ?H @ t"
      using w1 unfolding window_def by (metis append_take_drop_id)
    have nn: "base b1 \<noteq> NullBase" using b1(2,4) b(4) by (auto elim: buf_wf_cases)
    have fh: "fill_header p1 b1 = Return (0, h)"
      using HdrDeserialize_wire [OF f(5,6)] nn t by (simp add: fill_header_def)
    have ty: "GetDataType b1 \<in> {DataTypeMem, DataTypeObjPtr, DataTypeMsgPtr}" using b1(3) by simp
    have al: "allocOk hp (length w)" using hp by (simp add: roomy_def)
    obtain b2 where b2: "Resize hp (length w) b1 = Return (0, b2)" "buf_wf b2" "bufSize b2 = length w" "GetDataType b2 = DataTypeMem"
      by (cases rule: Resize_cases [OF b1(2) ty, of "length w" hp]) (use f(4) al in auto)
    define p2 where "p2 = p1\<lparr>ipHeader := h, ipToRecv := length w, ipBuf := Some b2\<rparr>"
    have "fill_buf_loop hp stale p src = fill_buf_loop hp stale p2 src1"
      using a fs f m s(1-3) b(1) b1(1) u ci(2) fh b2(1) by (subst fill_buf_loop.simps) (simp add: Let_def p1_def p2_def)
    moreover have "in_at h w SIZEOF_PKT_HEADER p2"
      using p f b2 ci(2) by (auto simp: in_at_def p2_def p1_def)
    ultimately show ?thesis using False ci(1) s(4) by auto
  qed
qed

lemma fill_buf_spec:
  assumes p: "in_at h w k p" and hp: "roomy hp stale" and r: "rd src inp"
    and ag: "take (SIZEOF_PKT_HEADER + length w - k) inp = take (length inp) (drop k (wire h w))"
  shows "\<exists>ret p' src'. fill_buf_loop hp stale p src = Some (Return (ret, p', src')) \<and>
    (if length inp < SIZEOF_PKT_HEADER + length w - k
     then ret = STATUS_PENDING \<and> in_at h w (k + length inp) p' \<and> rd src' []
     else ret = 0 \<and> packet_in h w p' \<and> rd src' (drop (SIZEOF_PKT_HEADER + length w - k) inp))"
proof (cases "k < SIZEOF_PKT_HEADER")
  case False
  then show ?thesis using payload_round [OF p _ r ag] by simp
next
  case True
  show ?thesis
  proof (cases "length inp < SIZEOF_PKT_HEADER - k")
    case short: True
    then have "length inp < SIZEOF_PKT_HEADER + length w - k" by simp
    then show ?thesis using header_round [OF p True hp r ag] short by auto
  next
    case False
    obtain p1 src1 where s: "fill_buf_loop hp stale p src = fill_buf_loop hp stale p1 src1" "in_at h w SIZEOF_PKT_HEADER p1"
      "rd src1 (drop (SIZEOF_PKT_HEADER - k) inp)"
      using header_round [OF p True hp r ag] False by auto
    let ?inp = "drop (SIZEOF_PKT_HEADER - k) inp"
    have "take (length w) ?inp = drop (SIZEOF_PKT_HEADER - k) (take (SIZEOF_PKT_HEADER + length w - k) inp)"
      using True by (simp add: drop_take)
    also have "\<dots> = take (length ?inp) (drop SIZEOF_PKT_HEADER (wire h w))"
      unfolding ag using True by (simp add: drop_take)
    finally have ag1: "take (SIZEOF_PKT_HEADER + length w - SIZEOF_PKT_HEADER) ?inp = take (length ?inp) (drop SIZEOF_PKT_HEADER (wire h w))"
      by simp
    have e: "SIZEOF_PKT_HEADER + length ?inp = k + length inp"
      "drop (SIZEOF_PKT_HEADER + length w - SIZEOF_PKT_HEADER) ?inp = drop (SIZEOF_PKT_HEADER + length w - k) inp"
      "length ?inp < SIZEOF_PKT_HEADER + length w - SIZEOF_PKT_HEADER \<longleftrightarrow> length inp < SIZEOF_PKT_HEADER + length w - k"
      using False True by (auto simp: add.commute)
    show ?thesis using payload_round [OF s(2) order_refl s(3) ag1, where hp = hp and stale = stale] unfolding s(1) e .
  qed
qed

subsection \<open>Calls of StartSend\<close>

text \<open>The socket is ready again and again; every time \<open>StartSend\<close> is called.\<close>

primrec out_calls :: "out_packet \<Rightarrow> wsock list \<Rightarrow> (int list \<times> u8 list \<times> out_packet) outcome" where
  "out_calls p [] = Return ([], [], p)"
| "out_calls p (k # ks) =
     bindOutcome (OutStartSend p k) (\<lambda>(ret, p1, k1).
     bindOutcome (out_calls p1 ks) (\<lambda>(rets, bs, p2). Return (ret # rets, sent k1 @ bs, p2)))"

text \<open>The header a packet goes out with.\<close>

definition packet_header :: "pkt_header \<Rightarrow> nat \<Rightarrow> pkt_header" where
  "packet_header h n = h\<lparr>phMagic := RPC_PACKET_MAGIC, phSize := n\<rparr>"

lemma packet_header_fits: "hdr_fits h \<Longrightarrow> n < 2 ^ 32 \<Longrightarrow> hdr_fits (packet_header h n)"
  by (simp add: hdr_fits_def packet_header_def)

lemma buf_wf_not_empty: "buf_wf b \<Longrightarrow> 0 < bufSize b \<Longrightarrow> \<not> bufEmpty b"
  using buf_wf_lengths(2) [of b] by (auto simp: bufEmpty_def buf_wf_def)

lemma out_at_start:
  assumes "hdr_fits h" "buf_wf b" "0 < bufSize b" "SIZEOF_PKT_HEADER + bufSize b \<le> MAX_BYTES_PER_TRANSFER"
  obtains p where "SetBufToSend b (SetHeader h new_out_packet) = (0, p)" "out_at (packet_header h (bufSize b)) b 0 p"
proof -
  define p where "p = snd (SetBufToSend b (SetHeader h new_out_packet))"
  have e: "\<not> bufEmpty b" using assms(2,3) by (rule buf_wf_not_empty)
  have "SetBufToSend b (SetHeader h new_out_packet) = (0, p)"
    using e assms(4) by (simp add: SetBufToSend_def p_def)
  moreover have "out_at (packet_header h (bufSize b)) b 0 p"
    using e assms packet_header_fits [OF assms(1), of "bufSize b"]
    by (auto simp: out_at_def p_def SetBufToSend_def SetHeader_def new_out_packet_def new_pkt_header_def packet_header_def u32_simps)
  ultimately show thesis by (rule that)
qed

lemma OutStartSend_ok:
  assumes "out_at h b off p" "sent k = []"
  shows "\<exists>ret p' k' off'. OutStartSend p k = Return (ret, p', k') \<and> out_at h b off' p' \<and> off \<le> off' \<and>
    sent k' = take (off' - off) (drop off (wire h (window b))) \<and>
    (if off' = SIZEOF_PKT_HEADER + bufSize b then ret = 0 else ret = send_result k \<and> length (accepts k) \<le> off' - off)"
proof (cases "off < SIZEOF_PKT_HEADER + bufSize b")
  case True
  obtain r where r: "out_send_loop p k = Return r" "sent_part h b off k r" using out_send_loop_ok [OF assms(1) True] by blast
  have "opToSend p \<noteq> 0" "\<not> opToSend p > MAX_BYTES_PER_TRANSFER" using assms(1) True by (auto simp: out_at_def)
  then have "OutStartSend p k = out_send_loop p k" by (simp add: OutStartSend_def)
  then show ?thesis using r assms(2) by (auto simp: sent_part_def split: if_splits)
next
  case False
  then have "OutStartSend p k = Return (0, p, k)" "off = SIZEOF_PKT_HEADER + bufSize b" using assms(1) by (auto simp: OutStartSend_def out_at_def)
  then show ?thesis using assms by (intro exI [of _ 0] exI [of _ p] exI [of _ k] exI [of _ off]) simp
qed

lemma out_calls_ok:
  assumes "out_at h b off p" "\<forall>k \<in> set ks. sent k = []"
  shows "\<exists>rets bs p' off'. out_calls p ks = Return (rets, bs, p') \<and> off \<le> off' \<and> off' \<le> SIZEOF_PKT_HEADER + bufSize b \<and>
    length rets = length ks \<and> bs = take (off' - off) (drop off (wire h (window b))) \<and>
    (if off' = SIZEOF_PKT_HEADER + bufSize b then (if rets = [] then off = off' else last rets = 0)
     else rets = List.map send_result ks \<and> sum_list (List.map (\<lambda>k. length (accepts k)) ks) \<le> off' - off)"
  using assms
proof (induction ks arbitrary: p off)
  case Nil
  then show ?case by (intro exI [of _ "[]"] exI [of _ "[]"] exI [of _ p] exI [of _ off]) (auto simp: out_at_def)
next
  case (Cons k ks)
  obtain ret p1 k1 off1 where s: "OutStartSend p k = Return (ret, p1, k1)" "out_at h b off1 p1" "off \<le> off1"
    "sent k1 = take (off1 - off) (drop off (wire h (window b)))"
    "if off1 = SIZEOF_PKT_HEADER + bufSize b then ret = 0 else ret = send_result k \<and> length (accepts k) \<le> off1 - off"
    using OutStartSend_ok [OF Cons.prems(1), of k] Cons.prems(2) by auto
  obtain rets bs p2 off2 where r: "out_calls p1 ks = Return (rets, bs, p2)" "off1 \<le> off2" "off2 \<le> SIZEOF_PKT_HEADER + bufSize b"
    "length rets = length ks" "bs = take (off2 - off1) (drop off1 (wire h (window b)))"
    "if off2 = SIZEOF_PKT_HEADER + bufSize b then (if rets = [] then off1 = off2 else last rets = 0)
     else rets = List.map send_result ks \<and> sum_list (List.map (\<lambda>k. length (accepts k)) ks) \<le> off2 - off1"
    using Cons.IH [OF s(2)] Cons.prems(2) by auto
  have run: "out_calls p (k # ks) = Return (ret # rets, sent k1 @ bs, p2)" using s(1) r(1) by (simp add: bindOutcome_def)
  have "off2 - off = (off1 - off) + (off2 - off1)" using s(3) r(2) by simp
  then have "take (off2 - off) (drop off (wire h (window b))) = sent k1 @ bs"
    using s(3,4) r(5) by (simp only: take_add) (simp add: add.commute)
  moreover have "if off2 = SIZEOF_PKT_HEADER + bufSize b then (if ret # rets = [] then off = off2 else last (ret # rets) = 0)
     else ret # rets = List.map send_result (k # ks) \<and> sum_list (List.map (\<lambda>k. length (accepts k)) (k # ks)) \<le> off2 - off"
    using s(3,5) r(2-4,6) by (auto split: if_splits)
  ultimately show ?case using run s(3) r(2-4) by (intro exI [of _ "ret # rets"] exI [of _ "sent k1 @ bs"] exI [of _ p2] exI [of _ off2]) auto
qed

text \<open>
  A payload in the last 28 bytes below the limit of one transfer is accepted by
  \<open>SetBufToSend\<close>, which compares the payload with the limit, and refused with \<open>-EINVAL\<close> by every
  \<open>StartSend\<close>, which compares the payload and the header: not one byte of it goes out.
\<close>

lemma full_payload_refused:
  assumes "buf_wf b" "MAX_BYTES_PER_TRANSFER < SIZEOF_PKT_HEADER + bufSize b" "bufSize b \<le> MAX_BYTES_PER_TRANSFER"
  shows "\<exists>p. SetBufToSend b (SetHeader h new_out_packet) = (0, p) \<and>
    (\<forall>ks. out_calls p ks = Return (List.map (\<lambda>_. - EINVAL) ks, concat (List.map sent ks), p))"
proof -
  define p where "p = snd (SetBufToSend b (SetHeader h new_out_packet))"
  have e: "\<not> bufEmpty b" using assms(2,3) by (intro buf_wf_not_empty [OF assms(1)]) simp
  have s: "SetBufToSend b (SetHeader h new_out_packet) = (0, p)" using e assms(3) by (simp add: SetBufToSend_def p_def)
  have n: "opToSend p > MAX_BYTES_PER_TRANSFER" using e assms(2,3) by (simp add: p_def SetBufToSend_def u32_simps)
  have "out_calls p ks = Return (List.map (\<lambda>_. - EINVAL) ks, concat (List.map sent ks), p)" for ks
    using n by (induction ks) (simp_all add: OutStartSend_def bindOutcome_def)
  then show ?thesis using s by blast
qed

text \<open>
  C17: A packet that \<open>SetBufToSend\<close> accepted goes out as its header in network order followed by
  its payload. However often
  the socket refuses in between, the bytes sent by all calls of \<open>StartSend\<close> are the beginning
  of that, each once and in order; the calls answer what the socket answered until everything
  is out, and then 0; and everything is out when the socket took as many portions as the packet
  has bytes. The exception are the payloads in the last 28 bytes below the limit of one transfer:
  every call of \<open>StartSend\<close> refuses them with \<open>-EINVAL\<close> and sends nothing. The header's fields
  fit their widths and the payload's buffer is well-formed.
\<close>

theorem tcp_packet_sent_in_order:
  assumes "hdr_fits h" "buf_wf b" "\<forall>k \<in> set ks. sent k = []"
    and "SetBufToSend b (SetHeader h new_out_packet) = (0, p)"
  shows "\<exists>rets bs p'. out_calls p ks = Return (rets, bs, p') \<and>
    (if SIZEOF_PKT_HEADER + bufSize b \<le> MAX_BYTES_PER_TRANSFER
     then bs = take (length bs) (wire (packet_header h (bufSize b)) (window b)) \<and>
       (if bs = wire (packet_header h (bufSize b)) (window b) then rets \<noteq> [] \<and> last rets = 0
        else rets = List.map send_result ks \<and> sum_list (List.map (\<lambda>k. length (accepts k)) ks) \<le> length bs)
     else rets = List.map (\<lambda>_. - EINVAL) ks \<and> bs = [] \<and> p' = p)"
proof (cases "SIZEOF_PKT_HEADER + bufSize b \<le> MAX_BYTES_PER_TRANSFER")
  case fits: True
  let ?W = "wire (packet_header h (bufSize b)) (window b)"
  have pos: "0 < bufSize b" using assms(2,4) by (auto simp: SetBufToSend_def bufEmpty_def split: if_splits elim: buf_wf_cases)
  have at0: "out_at (packet_header h (bufSize b)) b 0 p" by (rule out_at_start [OF assms(1,2) pos fits]) (use assms(4) in simp)
  obtain rets bs p' off' where r: "out_calls p ks = Return (rets, bs, p')" "off' \<le> SIZEOF_PKT_HEADER + bufSize b"
    "length rets = length ks" "bs = take off' ?W"
    "if off' = SIZEOF_PKT_HEADER + bufSize b then (if rets = [] then 0 = off' else last rets = 0)
     else rets = List.map send_result ks \<and> sum_list (List.map (\<lambda>k. length (accepts k)) ks) \<le> off'"
    using out_calls_ok [OF at0 assms(3), unfolded diff_zero drop_0] by blast
  have l: "length bs = off'" "length ?W = SIZEOF_PKT_HEADER + bufSize b" using r(2,4) buf_wf_lengths(4) [OF assms(2)] by simp_all
  have "bs = ?W \<longleftrightarrow> off' = SIZEOF_PKT_HEADER + bufSize b" using l r(4) by auto
  moreover have "rets = [] \<Longrightarrow> off' \<noteq> SIZEOF_PKT_HEADER + bufSize b" using r(5) by auto
  ultimately show ?thesis using r(1,4,5) l(1) fits by (intro exI [of _ rets] exI [of _ bs] exI [of _ p']) (auto split: if_splits)
next
  case False
  have "bufSize b \<le> MAX_BYTES_PER_TRANSFER" using assms(4) by (simp add: SetBufToSend_def split: if_splits)
  then obtain p1 where p1: "SetBufToSend b (SetHeader h new_out_packet) = (0, p1)"
    "out_calls p1 ks = Return (List.map (\<lambda>_. - EINVAL) ks, concat (List.map sent ks), p1)"
    using full_payload_refused [OF assms(2), of h] False by auto
  moreover have "concat (List.map sent ks) = []" using assms(3) by simp
  ultimately show ?thesis using assms(4) False by simp
qed

definition wit_wbuf :: "u8 list \<Rightarrow> cbuffer" where
  "wit_wbuf bs = \<lparr>arrBuf = replicate 48 0, base = HeapBase bs, actSize = length bs, dwType = 0,
     dwOffset = 0, dwTailOff = length bs, held = 0\<rparr>"

lemma wit_wbuf: "48 < length bs \<Longrightarrow> length bs \<le> MAX_BYTES_PER_BUFFER \<Longrightarrow> buf_wf (wit_wbuf bs) \<and> bufSize (wit_wbuf bs) = length bs"
  by (simp add: wit_wbuf_def buf_wf_def bufSize_def GetTailOff_def u32_sub_def)

definition wit_socks :: "wsock list" where
  "wit_socks = [\<lparr>sent = [], accepts = [20, 8, 40], werr = EAGAIN\<rparr>, \<lparr>sent = [], accepts = [100], werr = EAGAIN\<rparr>]"

lemma tcp_packet_sent_in_order_witness:
  "\<exists>p rets bs p'. SetBufToSend (wit_wbuf (replicate 60 7)) (SetHeader new_pkt_header new_out_packet) = (0, p) \<and>
    out_calls p wit_socks = Return (rets, bs, p') \<and> bs = take (length bs) (wire (packet_header new_pkt_header 60) (window (wit_wbuf (replicate 60 7)))) \<and>
    (if bs = wire (packet_header new_pkt_header 60) (window (wit_wbuf (replicate 60 7))) then rets \<noteq> [] \<and> last rets = 0
     else rets = List.map send_result wit_socks \<and> sum_list (List.map (\<lambda>k. length (accepts k)) wit_socks) \<le> length bs)"
proof -
  let ?b = "wit_wbuf (replicate 60 7)"
  have b: "buf_wf ?b" "bufSize ?b = 60" using wit_wbuf [of "replicate 60 7"] by simp_all
  have h: "hdr_fits new_pkt_header" by (simp add: hdr_fits_def new_pkt_header_def)
  obtain p where p: "SetBufToSend ?b (SetHeader new_pkt_header new_out_packet) = (0, p)"
    by (rule out_at_start [OF h b(1)]) (use b(2) in simp_all)
  show ?thesis using p tcp_packet_sent_in_order [OF h b(1) _ p, of wit_socks] b(2) by (simp add: wit_socks_def)
qed

end
