(* ===== verification/TcpStream.thy ===== *)
theory TcpStream
  imports TcpPkt
begin

text \<open>
  The streams of a TCP connection: \<open>CRpcStream2\<close> and the part of \<open>CRpcNativeProtoFdo\<close> of
  \<open>rpc/tcportex.cpp\<close> and \<open>rpc/tcportex.h\<close> that assigns incoming packets to streams, completes
  the read requests of a stream, and picks the stream that sends next. The same read path is
  in \<open>CRpcStream\<close> of \<open>rpc/tcpport.cpp\<close>.

  An IRP is a number with what the stream looks at: the size requested, if any, the data
  collected so far, and whether \<open>CanContinue( IRP_STATE_READY )\<close> still admits it. Locks are
  not modelled, every function below runs under the lock of the port.
\<close>

subsection \<open>State\<close>

abbreviation (input) EEXIST :: int where "EEXIST \<equiv> 17"
abbreviation (input) ERROR_QUEUE_FULL :: int where "ERROR_QUEUE_FULL \<equiv> -2147418098"
abbreviation (input) STM_MAX_RECV_PACKETS :: nat where "STM_MAX_RECV_PACKETS \<equiv> 272"
abbreviation (input) STMSOCK_STMID_FLOOR :: int where "STMSOCK_STMID_FLOOR \<equiv> 1024"
abbreviation (input) RPC_PACKET_FLG_COMPRESS :: nat where "RPC_PACKET_FLG_COMPRESS \<equiv> 1"
abbreviation (input) protoDBusRelay :: nat where "protoDBusRelay \<equiv> 0"
abbreviation (input) protoStream :: nat where "protoStream \<equiv> 1"
abbreviation (input) protoControl :: nat where "protoControl \<equiv> 2"

record read_irp =
  riId :: nat
  riByteCount :: "nat option"
  riResp :: "cbuffer option"
  riReady :: bool

record stream2 =
  smStmId :: int
  smPeerId :: int
  smProtoId :: nat
  smRecv :: "in_packet list"
  smRead :: "read_irp list"
  smWrite :: "nat list"
  smSeqNo :: nat

text \<open>The sequence numbers start at a random \<open>seed\<close>.\<close>

definition new_stream2 :: "nat \<Rightarrow> int \<Rightarrow> nat \<Rightarrow> int \<Rightarrow> stream2" where
  "new_stream2 seed iStream wProtoId iPeer = \<lparr>smStmId = iStream, smPeerId = iPeer, smProtoId = wProtoId,
     smRecv = [], smRead = [], smWrite = [], smSeqNo = seed\<rparr>"

text \<open>
  The port: the packet being received, the streams, the ring of streams that have something to
  send, whether a request is on its way; and what left it, completed reads and the notices of
  packets for unknown streams.
\<close>

record native_fdo =
  ndReceiving :: "in_packet option"
  ndStreams :: "int \<Rightarrow> stream2 option"
  ndCycQueSend :: "int list"
  ndSending :: bool
  ndCompleted :: "(nat \<times> int \<times> cbuffer option) list"
  ndInvalid :: "pkt_header list"

subsection \<open>Compression\<close>

text \<open>The three functions of LZ4, as in \<open>BufSeri\<close>.\<close>

record lz4 =
  lzBound :: "nat \<Rightarrow> nat"
  lzCompress :: "u8 list \<Rightarrow> nat \<Rightarrow> int \<times> u8 list"
  lzDecompress :: "u8 list \<Rightarrow> nat \<Rightarrow> int \<times> u8 list"

definition CompressDataLZ4 :: "heap \<Rightarrow> u8 list \<Rightarrow> lz4 \<Rightarrow> cbuffer \<Rightarrow> (int \<times> cbuffer) outcome" where
  "CompressDataLZ4 hp stale lz pPayload =
    (if bufEmpty pPayload then Return (- EINVAL, newBuffer stale)
     else case Compress (lzBound lz) (lzCompress lz) pPayload False 0 of (ret, dwMaxSize, _) \<Rightarrow>
       bindOutcome (Resize hp (u32_add 4 dwMaxSize) (newBuffer stale)) (\<lambda>(_, c1).
       case Compress (lzBound lz) (lzCompress lz) pPayload True dwMaxSize of (ret, dwActSize, out) \<Rightarrow>
       bindOutcome (optOutcome (storeBytes c1 (dwOffset c1 + 4) out)) (\<lambda>c2.
       if ERROR ret then Return (ret, c2)
       else if dwActSize < dwMaxSize then
         bindOutcome (Resize hp (u32_add 4 dwActSize) c2) (\<lambda>(_, c3).
         bindOutcome (optOutcome (storeBytes c3 (dwOffset c3) (to_be 4 (bufSize pPayload)))) (\<lambda>c4. Return (ret, c4)))
       else Return (ret, c2))))"

definition DecompressDataLZ4 :: "heap \<Rightarrow> u8 list \<Rightarrow> lz4 \<Rightarrow> cbuffer \<Rightarrow> (int \<times> cbuffer) outcome" where
  "DecompressDataLZ4 hp stale lz pPayload =
    (if bufEmpty pPayload then Return (- EINVAL, newBuffer stale)
     else bindOutcome (optOutcome (loadBytes pPayload (dwOffset pPayload) 4)) (\<lambda>w.
       let dwOrigSize = of_be w in
       if dwOrigSize = 0 \<or> dwOrigSize > MAX_BYTES_PER_TRANSFER then Return (- EBADMSG, newBuffer stale)
       else bindOutcome (Resize hp dwOrigSize (newBuffer stale)) (\<lambda>(_, d1).
         case Decompress (lzDecompress lz) (snd (IncOffset 4 pPayload)) dwOrigSize of (ret, out) \<Rightarrow>
         bindOutcome (optOutcome (storeBytes d1 (dwOffset d1) out)) (\<lambda>d2. Return (ret, d2)))))"

subsection \<open>Reading from a stream\<close>

definition RecvPacket :: "in_packet \<Rightarrow> stream2 \<Rightarrow> stream2" where
  "RecvPacket p s =
    (let q = smRecv s @ [p] in
     s\<lparr>smRecv := (if length q > STM_MAX_RECV_PACKETS then tl q else q), smSeqNo := u32_add (smSeqNo s) 1\<rparr>)"

text \<open>\<open>GetPayload\<close> takes the buffer out of the packet.\<close>

definition GetPayload :: "in_packet \<Rightarrow> int \<times> cbuffer option" where
  "GetPayload p = (case ipBuf p of None \<Rightarrow> (- EFAULT, None) | Some b \<Rightarrow> (0, Some b))"

text \<open>
  \<open>Append( pBuf->ptr(), pBuf->size() )\<close> to the response; the two buffers are different
  objects.
\<close>

definition append_resp :: "heap \<Rightarrow> cbuffer \<Rightarrow> cbuffer \<Rightarrow> (int \<times> cbuffer) outcome" where
  "append_resp hp resp b = Append hp (if base b = NullBase then None else Some (drop (dwOffset b) (memBytes b))) (bufSize b) resp"

text \<open>\<open>HandleReadIrp\<close>: the result, the irp with its response, and the stream.\<close>

function HandleReadIrp :: "heap \<Rightarrow> read_irp \<Rightarrow> stream2 \<Rightarrow> (int \<times> read_irp \<times> stream2) outcome" where
  "HandleReadIrp hp irp s =
    (if smRecv s = [] \<or> smRead s \<noteq> [] then Return (STATUS_PENDING, irp, s\<lparr>smRead := smRead s @ [irp]\<rparr>)
     else let s1 = s\<lparr>smRecv := tl (smRecv s)\<rparr> in
       case GetPayload (hd (smRecv s)) of
         (ret, None) \<Rightarrow> Return (ret, irp, s1)
       | (ret, Some b) \<Rightarrow>
          let dwReqSize = (case riByteCount irp of None \<Rightarrow> bufSize b | Some n \<Rightarrow> n) in
          if dwReqSize < bufSize b then Return (- EBADMSG, irp, s1)
          else (case (case riResp irp of None \<Rightarrow> Return (0, b) | Some r \<Rightarrow> append_resp hp r b) of
              Return (_, r) \<Rightarrow>
                let irp1 = irp\<lparr>riResp := Some r\<rparr> in
                if bufSize r > dwReqSize then Return (- EBADMSG, irp1, s1)
                else if bufSize r = dwReqSize then Return (0, irp1, s1)
                else HandleReadIrp hp irp1 s1
            | Throw e \<Rightarrow> Throw e
            | Undefined \<Rightarrow> Undefined))"
  by pat_completeness auto
termination
  by (relation "measure (\<lambda>(_, _, s). length (smRecv s))") auto

declare HandleReadIrp.simps [simp del]

text \<open>
  The branch of \<open>GetReadIrpsToComp\<close> for a packet that is smaller than the request and a
  response that has data already: what happens with the irp (it goes back, or it completes
  with a buffer), and the packet that goes back.
\<close>

datatype read_step = Again read_irp | Done read_irp cbuffer "in_packet option" | Stop int

definition fill_response :: "heap \<Rightarrow> nat \<Rightarrow> read_irp \<Rightarrow> cbuffer \<Rightarrow> in_packet \<Rightarrow> cbuffer \<Rightarrow> read_step outcome" where
  "fill_response hp dwReqSize irp resp p b =
    (let dwRecvSize = bufSize b; dwSizeToRecv = u32_sub dwReqSize (bufSize resp) in
     bindOutcome (append_resp hp resp b) (\<lambda>(ret, resp1).
     if ERROR ret then Return (Stop ret)
     else if dwSizeToRecv > dwRecvSize then Return (Again (irp\<lparr>riResp := Some resp1\<rparr>))
     else if dwSizeToRecv = dwRecvSize then Return (Done (irp\<lparr>riResp := None\<rparr>) resp1 None)
     else let dwResidual = u32_sub (bufSize b) dwRecvSize in
       bindOutcome (optOutcome (loadBytes b (dwOffset b) dwResidual)) (\<lambda>bs.
       bindOutcome (optOutcome (storeBytes b (dwOffset b + dwRecvSize) bs)) (\<lambda>b1.
       bindOutcome (Resize hp dwResidual b1) (\<lambda>(_, b2).
         Return (Done (irp\<lparr>riResp := None\<rparr>) resp1 (Some (p\<lparr>ipBuf := Some b2\<rparr>))))))))"

definition read_one :: "heap \<Rightarrow> read_irp \<Rightarrow> in_packet \<Rightarrow> read_step outcome" where
  "read_one hp irp p = (case GetPayload p of
      (ret, None) \<Rightarrow> Return (Stop ret)
    | (_, Some b) \<Rightarrow>
       let dwReqSize = (case riByteCount irp of None \<Rightarrow> bufSize b | Some n \<Rightarrow> n) in
       if dwReqSize < bufSize b then Return (Stop (- EBADMSG))
       else if dwReqSize = bufSize b then Return (Done irp b None)
       else (case riResp irp of
           None \<Rightarrow> Return (Again (irp\<lparr>riResp := Some b\<rparr>))
         | Some resp \<Rightarrow> fill_response hp dwReqSize irp resp p b))"

text \<open>The irp and the packet are popped first; an irp that is gone already is dropped.\<close>

function GetReadIrpsToComp :: "heap \<Rightarrow> stream2 \<Rightarrow> (int \<times> (read_irp \<times> cbuffer) list \<times> stream2) outcome" where
  "GetReadIrpsToComp hp s =
    (if smRead s = [] \<or> smRecv s = [] then Return (0, [], s)
     else let irp = hd (smRead s); s1 = s\<lparr>smRead := tl (smRead s)\<rparr> in
       if \<not> riReady irp then GetReadIrpsToComp hp s1
       else let p = hd (smRecv s); s2 = s1\<lparr>smRecv := tl (smRecv s)\<rparr> in
         (case read_one hp irp p of
            Return (Stop ret) \<Rightarrow> Return (ret, [], s2)
          | Return (Again irp1) \<Rightarrow> GetReadIrpsToComp hp (s2\<lparr>smRead := irp1 # tl (smRead s)\<rparr>)
          | Return (Done irp1 b back) \<Rightarrow>
              bindOutcome (GetReadIrpsToComp hp (s2\<lparr>smRecv := (case back of None \<Rightarrow> [] | Some q \<Rightarrow> [q]) @ tl (smRecv s)\<rparr>))
                (\<lambda>(ret, vecIrps, s3). Return (ret, (irp1, b) # vecIrps, s3))
          | Throw e \<Rightarrow> Throw e
          | Undefined \<Rightarrow> Undefined))"
  by pat_completeness auto
termination
  by (relation "measure (\<lambda>(_, s). length (smRead s) + length (smRecv s))")
    (auto simp: neq_Nil_conv split: option.splits)

declare GetReadIrpsToComp.simps [simp del]

text \<open>\<open>SetRespReadIrp\<close> and the completion: the irp, the status, the response it completes with.\<close>

definition SetRespReadIrp :: "heap \<Rightarrow> read_irp \<Rightarrow> cbuffer \<Rightarrow> (int \<times> read_irp) outcome" where
  "SetRespReadIrp hp irp b =
    (if \<not> riReady irp then Return (ERROR_STATE, irp)
     else case riResp irp of
       None \<Rightarrow> Return (0, irp\<lparr>riResp := Some b\<rparr>)
     | Some r \<Rightarrow> bindOutcome (append_resp hp r b) (\<lambda>(_, r1). Return (0, irp\<lparr>riResp := Some r1\<rparr>)))"

primrec complete_reads :: "heap \<Rightarrow> (read_irp \<times> cbuffer) list \<Rightarrow> (nat \<times> int \<times> cbuffer option) list outcome" where
  "complete_reads hp [] = Return []"
| "complete_reads hp (x # xs) =
     bindOutcome (SetRespReadIrp hp (fst x) (snd x)) (\<lambda>(ret, irp).
     bindOutcome (complete_reads hp xs) (\<lambda>rest.
       Return (if SUCCEEDED ret then (riId irp, 0, riResp irp) # rest else rest)))"

definition DispatchDataIncoming :: "heap \<Rightarrow> stream2 \<Rightarrow> ((nat \<times> int \<times> cbuffer option) list \<times> stream2) outcome" where
  "DispatchDataIncoming hp s =
     bindOutcome (GetReadIrpsToComp hp s) (\<lambda>(_, vecIrps, s1).
     bindOutcome (complete_reads hp vecIrps) (\<lambda>done. Return (done, s1)))"

subsection \<open>Incoming packets\<close>

text \<open>
  One complete packet in \<open>CRpcNativeProtoFdo::OnReceive\<close>: decompressed where its flag says so,
  given to the stream it names if the stream's peer sent it. A notice is scheduled for an
  unknown stream, and the packet object stays the one being received.
\<close>

definition nd_deliver :: "heap \<Rightarrow> u8 list \<Rightarrow> lz4 \<Rightarrow> in_packet \<Rightarrow> native_fdo \<Rightarrow> native_fdo outcome" where
  "nd_deliver hp stale lz p nd =
    (let h = ipHeader p; iStmId = s32 (phPeerStmId h); iStmPeerId = s32 (phStmId h) in
     bindOutcome
      (if phFlags h AND RPC_PACKET_FLG_COMPRESS \<noteq> 0 then
         (case GetPayload p of
            (ret, None) \<Rightarrow> Return (ret, p)
          | (_, Some b) \<Rightarrow> bindOutcome (DecompressDataLZ4 hp stale lz b) (\<lambda>(ret, d).
              if ERROR ret then Return (ret, p\<lparr>ipBuf := None\<rparr>) else Return (0, p\<lparr>ipBuf := Some d\<rparr>)))
       else Return (0, p)) (\<lambda>(ret, p1).
     if ERROR ret then Return (nd\<lparr>ndReceiving := None\<rparr>)
     else case ndStreams nd iStmId of
       None \<Rightarrow> Return (nd\<lparr>ndReceiving := Some p1, ndInvalid := ndInvalid nd @ [h]\<rparr>)
     | Some s \<Rightarrow>
        bindOutcome (DispatchDataIncoming hp (if smPeerId s = iStmPeerId then RecvPacket p1 s else s)) (\<lambda>(done, s1).
          Return (nd\<lparr>ndReceiving := None, ndStreams := (ndStreams nd)(iStmId := Some s1), ndCompleted := ndCompleted nd @ done\<rparr>))))"

text \<open>
  The loop over the packets in a buffer. Whatever a packet came to, the next round starts with
  the result 0.
\<close>

partial_function (option) nd_receive_loop :: "heap \<Rightarrow> u8 list \<Rightarrow> lz4 \<Rightarrow> native_fdo \<Rightarrow> cbuffer \<Rightarrow> ((int \<times> native_fdo \<times> cbuffer) outcome) option" where
  "nd_receive_loop hp stale lz nd src =
    (let p = (case ndReceiving nd of None \<Rightarrow> new_in_packet | Some p \<Rightarrow> p) in
     if bufEmpty src then Some (Return (0, nd\<lparr>ndReceiving := Some p\<rparr>, src))
     else (case FillPacketBuf hp stale p src of
         None \<Rightarrow> None
       | Some (Return (ret, p1, src1)) \<Rightarrow>
           if ret = STATUS_PENDING then Some (Return (ret, nd\<lparr>ndReceiving := Some p1\<rparr>, src1))
           else if ERROR ret then Some (Return (ret, nd\<lparr>ndReceiving := None\<rparr>, src1))
           else (case nd_deliver hp stale lz p1 nd of
               Return nd1 \<Rightarrow> nd_receive_loop hp stale lz nd1 src1
             | Throw e \<Rightarrow> Some (Throw e)
             | Undefined \<Rightarrow> Some Undefined)
       | Some (Throw e) \<Rightarrow> Some (Throw e)
       | Some Undefined \<Rightarrow> Some Undefined))"

text \<open>\<open>OnReceive( -1, pBuf )\<close>; the offset of the buffer is put back.\<close>

definition NdOnReceive :: "heap \<Rightarrow> u8 list \<Rightarrow> lz4 \<Rightarrow> native_fdo \<Rightarrow> cbuffer \<Rightarrow> ((int \<times> native_fdo \<times> cbuffer) outcome) option" where
  "NdOnReceive hp stale lz nd src =
    (if bufEmpty src then Some (Return (- EINVAL, nd, src))
     else map_option (map_outcome (\<lambda>(ret, nd1, src1).
       let nd2 = (if ERROR ret then nd1\<lparr>ndReceiving := None\<rparr> else nd1) in
       if bufSize src1 > 0 \<and> SUCCEEDED ret then (- EFAULT, nd2, src1)
       else (ret, nd2, snd (SetOffset (dwOffset src) src1))))
      (nd_receive_loop hp stale lz nd src))"

subsection \<open>Streams\<close>

definition AddStream :: "nat \<Rightarrow> int \<Rightarrow> nat \<Rightarrow> int \<Rightarrow> native_fdo \<Rightarrow> int \<times> native_fdo" where
  "AddStream seed iStream wProtoId iPeerStmId nd =
    (if iStream < 0 then (- EINVAL, nd)
     else if ndStreams nd iStream \<noteq> None then (- EEXIST, nd)
     else if wProtoId = protoStream \<or> wProtoId = protoDBusRelay \<or> wProtoId = protoControl then
       (0, nd\<lparr>ndStreams := (ndStreams nd)(iStream := Some (new_stream2 seed iStream wProtoId iPeerStmId))\<rparr>)
     else (- ENOTSUP, nd))"

definition RemoveStream :: "int \<Rightarrow> native_fdo \<Rightarrow> int \<times> native_fdo" where
  "RemoveStream iStream nd =
    (if iStream < 0 then (- EINVAL, nd)
     else if ndStreams nd iStream = None then (- ENOENT, nd)
     else (0, nd\<lparr>ndStreams := (ndStreams nd)(iStream := None), ndCycQueSend := remove1 iStream (ndCycQueSend nd)\<rparr>))"

text \<open>\<open>GetStreamByPeerId\<close>: \<open>order\<close> is the order the map is iterated in.\<close>

definition GetStreamByPeerId :: "int list \<Rightarrow> int \<Rightarrow> native_fdo \<Rightarrow> int \<times> stream2 option" where
  "GetStreamByPeerId order iPeerId nd =
    (if iPeerId < 0 then (- EINVAL, None)
     else if iPeerId < STMSOCK_STMID_FLOOR then
       (case ndStreams nd iPeerId of None \<Rightarrow> (- ENOENT, None) | Some s \<Rightarrow> (0, Some s))
     else (case order of [] \<Rightarrow> (- ENOENT, None) | i # _ \<Rightarrow> (0, ndStreams nd i)))"

text \<open>\<open>GetSeedStmId\<close>: the counter is a \<open>gint32\<close>; the new counter is the second component.\<close>

definition GetSeedStmId :: "int \<Rightarrow> int \<times> int" where
  "GetSeedStmId iStmCounter =
    (let c = s32 (nat ((iStmCounter + 1) mod 2 ^ 32)) in (iStmCounter, if c < 0 then STMSOCK_STMID_FLOOR else c))"

subsection \<open>Sending in turn\<close>

definition QueueIrpOutgoing :: "nat \<Rightarrow> stream2 \<Rightarrow> int \<times> stream2" where
  "QueueIrpOutgoing irp s =
    (if length (smWrite s) > STM_MAX_RECV_PACKETS then (ERROR_QUEUE_FULL, s) else (0, s\<lparr>smWrite := smWrite s @ [irp]\<rparr>))"

definition AddStmToSendQue :: "int \<Rightarrow> native_fdo \<Rightarrow> native_fdo" where
  "AddStmToSendQue i nd =
    (if i \<in> set (ndCycQueSend nd) then nd else nd\<lparr>ndCycQueSend := ndCycQueSend nd @ [i]\<rparr>)"

text \<open>The part of \<open>SubmitWriteIrp\<close> under the lock.\<close>

definition SubmitWriteIrp :: "int \<Rightarrow> nat \<Rightarrow> native_fdo \<Rightarrow> int \<times> native_fdo" where
  "SubmitWriteIrp iStm irp nd = (case ndStreams nd iStm of
      None \<Rightarrow> (- ENOENT, nd)
    | Some s \<Rightarrow> (case QueueIrpOutgoing irp s of (ret, s1) \<Rightarrow>
        if ERROR ret then (ret, nd)
        else (ret, AddStmToSendQue iStm (nd\<lparr>ndStreams := (ndStreams nd)(iStm := Some s1)\<rparr>))))"

definition GetQueSizeSend :: "native_fdo \<Rightarrow> int \<Rightarrow> nat" where
  "GetQueSizeSend nd i = (case ndStreams nd i of None \<Rightarrow> 0 | Some s \<Rightarrow> length (smWrite s))"

text \<open>
  \<open>GetStreamToSend\<close>: streams with nothing to send leave the ring, the one picked moves to its
  end.
\<close>

definition GetStreamToSend :: "native_fdo \<Rightarrow> int \<times> int option \<times> native_fdo" where
  "GetStreamToSend nd =
    (if ndSending nd then (- EAGAIN, None, nd)
     else case dropWhile (\<lambda>i. GetQueSizeSend nd i = 0) (ndCycQueSend nd) of
       [] \<Rightarrow> (- ENOENT, None, nd\<lparr>ndCycQueSend := []\<rparr>)
     | i # q \<Rightarrow> (0, Some i, nd\<lparr>ndCycQueSend := q @ [i]\<rparr>))"

text \<open>
  One round of the loop of \<open>StartSend\<close>: the port is marked as sending, and the stream picked
  hands out its oldest request.
\<close>

definition nd_send_next :: "native_fdo \<Rightarrow> (int \<times> nat) option \<times> native_fdo" where
  "nd_send_next nd = (case GetStreamToSend nd of
      (ret, None, nd1) \<Rightarrow> (None, nd1)
    | (ret, Some i, nd1) \<Rightarrow> (case ndStreams nd1 i of
        None \<Rightarrow> (None, nd1)
      | Some s \<Rightarrow> (Some (i, hd (smWrite s)),
          nd1\<lparr>ndStreams := (ndStreams nd1)(i := Some (s\<lparr>smWrite := tl (smWrite s)\<rparr>)), ndSending := True\<rparr>)))"

definition nd_send_done :: "native_fdo \<Rightarrow> native_fdo" where
  "nd_send_done nd = nd\<lparr>ndSending := False\<rparr>"

subsection \<open>Packets reach their streams in order\<close>

definition payload_of :: "in_packet \<Rightarrow> u8 list" where
  "payload_of p = (case ipBuf p of None \<Rightarrow> [] | Some b \<Rightarrow> window b)"

definition pkt_bytes :: "(pkt_header \<times> u8 list) list \<Rightarrow> u8 list" where
  "pkt_bytes ps = concat (List.map (\<lambda>(h, w). wire h w) ps)"

lemma pkt_bytes_simps [simp]: "pkt_bytes [] = []" "pkt_bytes ((h, w) # ps) = wire h w @ pkt_bytes ps"
  by (simp_all add: pkt_bytes_def)

text \<open>A packet the sender builds, without compression, from the peer of the stream it names.\<close>

definition good_packet :: "native_fdo \<Rightarrow> pkt_header \<times> u8 list \<Rightarrow> bool" where
  "good_packet nd hw \<longleftrightarrow> (case hw of (h, w) \<Rightarrow> hdr_fits h \<and> phMagic h = RPC_PACKET_MAGIC \<and> phSize h = length w \<and>
     0 < length w \<and> length w \<le> MAX_BYTES_PER_TRANSFER \<and> phFlags h AND RPC_PACKET_FLG_COMPRESS = 0 \<and>
     (\<exists>s. ndStreams nd (s32 (phPeerStmId h)) = Some s \<and> smPeerId s = s32 (phStmId h)))"

definition for_stream :: "int \<Rightarrow> (pkt_header \<times> u8 list) list \<Rightarrow> u8 list list" where
  "for_stream i ps = List.map snd (filter (\<lambda>(h, w). s32 (phPeerStmId h) = i) ps)"

lemma for_stream_simps [simp]: "for_stream i [] = []"
  "for_stream i ((h, w) # ps) = (if s32 (phPeerStmId h) = i then w # for_stream i ps else for_stream i ps)"
  by (simp_all add: for_stream_def)

text \<open>Nobody reads while the packets come in, and they fit the queues.\<close>

definition room_for :: "native_fdo \<Rightarrow> (pkt_header \<times> u8 list) list \<Rightarrow> bool" where
  "room_for nd ps \<longleftrightarrow> (\<forall>i s. ndStreams nd i = Some s \<longrightarrow>
     smRead s = [] \<and> length (smRecv s) + length (for_stream i ps) \<le> STM_MAX_RECV_PACKETS)"

definition gained :: "native_fdo \<Rightarrow> (pkt_header \<times> u8 list) list \<Rightarrow> native_fdo \<Rightarrow> bool" where
  "gained nd qs nd' \<longleftrightarrow> (\<forall>i. case ndStreams nd i of None \<Rightarrow> ndStreams nd' i = None
     | Some s \<Rightarrow> (\<exists>s'. ndStreams nd' i = Some s' \<and> smPeerId s' = smPeerId s \<and> smRead s' = smRead s \<and>
         List.map payload_of (smRecv s') = List.map payload_of (smRecv s) @ for_stream i qs))"

lemma gained_refl: "gained nd [] nd"
  by (auto simp: gained_def split: option.split)

lemma gained_trans:
  assumes "gained nd qs nd1" "gained nd1 rs nd2"
  shows "gained nd (qs @ rs) nd2"
proof -
  have f: "for_stream i (qs @ rs) = for_stream i qs @ for_stream i rs" for i by (simp add: for_stream_def)
  show ?thesis unfolding gained_def
  proof
    fix i
    show "case ndStreams nd i of None \<Rightarrow> ndStreams nd2 i = None
     | Some s \<Rightarrow> (\<exists>s'. ndStreams nd2 i = Some s' \<and> smPeerId s' = smPeerId s \<and> smRead s' = smRead s \<and>
         List.map payload_of (smRecv s') = List.map payload_of (smRecv s) @ for_stream i (qs @ rs))"
      using assms(1) [unfolded gained_def, rule_format, of i] assms(2) [unfolded gained_def, rule_format, of i] f
      by (cases "ndStreams nd i") (auto split: option.splits)
  qed
qed

lemma gained_good: "gained nd qs nd' \<Longrightarrow> good_packet nd hw \<Longrightarrow> good_packet nd' hw"
  unfolding gained_def good_packet_def by (fastforce split: option.splits prod.splits)

lemma gained_room:
  assumes "gained nd qs nd'" "room_for nd (qs @ ps)"
  shows "room_for nd' ps"
  unfolding room_for_def
proof (intro allI impI)
  fix i s' assume s': "ndStreams nd' i = Some s'"
  obtain s where s: "ndStreams nd i = Some s" "smRead s' = smRead s"
    "List.map payload_of (smRecv s') = List.map payload_of (smRecv s) @ for_stream i qs"
    using assms(1) [unfolded gained_def, rule_format, of i] s' by (auto split: option.splits)
  have "length (smRecv s') = length (smRecv s) + length (for_stream i qs)"
    using arg_cong [OF s(3), of length] by simp
  then show "smRead s' = [] \<and> length (smRecv s') + length (for_stream i ps) \<le> STM_MAX_RECV_PACKETS"
    using assms(2) [unfolded room_for_def, rule_format, OF s(1)] s(2) by (simp add: for_stream_def)
qed

text \<open>Delivering one packet.\<close>

lemma nd_deliver_gains:
  assumes p: "packet_in h w p" and g: "good_packet nd (h, w)" and r: "room_for nd ((h, w) # ps)"
  obtains nd' where "nd_deliver hp stale lz p nd = Return nd'" "gained nd [(h, w)] nd'" "ndReceiving nd' = None"
proof -
  let ?i = "s32 (phPeerStmId h)"
  obtain s where s: "ndStreams nd ?i = Some s" "smPeerId s = s32 (phStmId h)" using g by (auto simp: good_packet_def)
  have q: "smRead s = []" "\<not> length (smRecv s) + 1 > STM_MAX_RECV_PACKETS" using r s(1) by (force simp: room_for_def)+
  have pl: "payload_of p = w" "ipHeader p = h" using p by (auto simp: packet_in_def payload_of_def)
  let ?s1 = "RecvPacket p s"
  have s1: "smRecv ?s1 = smRecv s @ [p]" "smRead ?s1 = []" "smPeerId ?s1 = smPeerId s"
    using q by (simp_all add: RecvPacket_def Let_def)
  have d: "DispatchDataIncoming hp ?s1 = Return ([], ?s1)"
    using s1(2) by (simp add: DispatchDataIncoming_def GetReadIrpsToComp.simps bindOutcome_def)
  define nd' where "nd' = nd\<lparr>ndReceiving := None, ndStreams := (ndStreams nd)(?i := Some ?s1), ndCompleted := ndCompleted nd @ []\<rparr>"
  have "nd_deliver hp stale lz p nd = Return nd'"
    using g s pl d by (simp add: nd_deliver_def bindOutcome_def nd'_def good_packet_def)
  moreover have "gained nd [(h, w)] nd'"
    using s(1) s1 pl q(1) by (auto simp: gained_def nd'_def split: option.split)
  moreover have "ndReceiving nd' = None" by (simp add: nd'_def)
  ultimately show thesis by (rule that)
qed

text \<open>The port has received \<open>k\<close> bytes of the first of the packets to come.\<close>

definition nd_at :: "(pkt_header \<times> u8 list) list \<Rightarrow> nat \<Rightarrow> native_fdo \<Rightarrow> bool" where
  "nd_at ps k nd \<longleftrightarrow> (if k = 0 then ndReceiving nd = None \<or> ndReceiving nd = Some new_in_packet
     else (\<exists>h w rest p. ps = (h, w) # rest \<and> ndReceiving nd = Some p \<and> in_at h w k p))"

lemma new_in_at: "good_packet nd (h, w) \<Longrightarrow> in_at h w 0 new_in_packet"
  by (simp add: good_packet_def in_at_def new_in_packet_def)

lemma split_common: "xs @ ys = a @ b \<Longrightarrow> take (length a) xs = take (length xs) a"
  by (metis append_eq_append_conv_if append_take_drop_id order_refl take_all take_append nat_le_linear append_Nil2 diff_is_0_eq take_eq_Nil)

lemma nd_at_packet:
  assumes "nd_at ((h, w) # ps) k nd" "good_packet nd (h, w)"
  shows "in_at h w k (case ndReceiving nd of None \<Rightarrow> new_in_packet | Some p \<Rightarrow> p)"
  using assms new_in_at by (auto simp: nd_at_def split: if_splits)

lemma gained_receiving: "gained nd [] (nd\<lparr>ndReceiving := x\<rparr>)"
  by (auto simp: gained_def split: option.split)

text \<open>One buffer: the packets that end in it are delivered, the next one is begun.\<close>

lemma nd_receive_loop_spec:
  assumes "nd_at ps k nd" "\<forall>hw \<in> set ps. good_packet nd hw" "room_for nd ps" "roomy hp stale" "rd src inp"
    "inp @ fut = drop k (pkt_bytes ps)"
  shows "\<exists>ret nd' src' qs ps' k'. nd_receive_loop hp stale lz nd src = Some (Return (ret, nd', src')) \<and> ret \<in> {0, STATUS_PENDING} \<and>
     rd src' [] \<and> ps = qs @ ps' \<and> gained nd qs nd' \<and> nd_at ps' k' nd' \<and> fut = drop k' (pkt_bytes ps')"
  using assms
proof (induction ps arbitrary: k nd src inp)
  case Nil
  then have i: "inp = []" "fut = []" by simp_all
  then have e: "bufEmpty src" using rd_facts(2) [OF Nil.prems(5)] by simp
  have k: "k = 0" using Nil.prems(1) by (auto simp: nd_at_def split: if_splits)
  define nd' where "nd' = nd\<lparr>ndReceiving := Some (case ndReceiving nd of None \<Rightarrow> new_in_packet | Some p \<Rightarrow> p)\<rparr>"
  have "nd_receive_loop hp stale lz nd src = Some (Return (0, nd', src))"
    using e by (subst nd_receive_loop.simps) (simp add: Let_def nd'_def)
  moreover have "gained nd [] nd'" unfolding nd'_def by (rule gained_receiving)
  moreover have "nd_at [] 0 nd'" using Nil.prems(1) k by (auto simp: nd_at_def nd'_def)
  ultimately show ?case using i Nil.prems(5) by (auto intro!: exI [of _ "[]"])
next
  case (Cons hw ps)
  obtain h w where hw: "hw = (h, w)" by force
  let ?T = "SIZEOF_PKT_HEADER + length w"
  define p where "p = (case ndReceiving nd of None \<Rightarrow> new_in_packet | Some p \<Rightarrow> p)"
  have g: "good_packet nd (h, w)" using Cons.prems(2) hw by simp
  have p: "in_at h w k p" unfolding p_def by (rule nd_at_packet [OF _ g]) (use Cons.prems(1) hw in simp)
  then have k: "k < ?T" by (simp add: in_at_def)
  have bytes: "inp @ fut = drop k (wire h w) @ pkt_bytes ps" using Cons.prems(6) hw k by simp
  show ?case
  proof (cases "inp = []")
    case True
    then have e: "bufEmpty src" using rd_facts(2) [OF Cons.prems(5)] by simp
    define nd' where "nd' = nd\<lparr>ndReceiving := Some p\<rparr>"
    have "nd_receive_loop hp stale lz nd src = Some (Return (0, nd', src))"
      using e by (subst nd_receive_loop.simps) (simp add: Let_def nd'_def p_def)
    moreover have "gained nd [] nd'" unfolding nd'_def by (rule gained_receiving)
    moreover have "nd_at (hw # ps) k nd'" using Cons.prems(1) hw p by (auto simp: nd_at_def nd'_def p_def)
    ultimately show ?thesis using True Cons.prems(5,6) 
      by (intro exI [of _ 0] exI [of _ nd'] exI [of _ src] exI [of _ "[]"] exI [of _ "hw # ps"] exI [of _ k]) simp
  next
    case False
    have ne: "\<not> bufEmpty src" using rd_facts(2) [OF Cons.prems(5)] False by simp
    have ag: "take (?T - k) inp = take (length inp) (drop k (wire h w))"
      using split_common [OF bytes] by simp
    obtain ret p1 src1 where f: "fill_buf_loop hp stale p src = Some (Return (ret, p1, src1))"
      "if length inp < ?T - k then ret = STATUS_PENDING \<and> in_at h w (k + length inp) p1 \<and> rd src1 []
       else ret = 0 \<and> packet_in h w p1 \<and> rd src1 (drop (?T - k) inp)"
      using fill_buf_spec [OF p Cons.prems(4,5) ag] by blast
    have fp: "FillPacketBuf hp stale p src = Some (Return (ret, p1, src1))" using f(1) ne by (simp add: FillPacketBuf_def)
    show ?thesis
    proof (cases "length inp < ?T - k")
      case True
      define nd' where "nd' = nd\<lparr>ndReceiving := Some p1\<rparr>"
      have r: "ret = STATUS_PENDING" "in_at h w (k + length inp) p1" "rd src1 []" using f(2) True by simp_all
      have "nd_receive_loop hp stale lz nd src = Some (Return (STATUS_PENDING, nd', src1))"
        using ne fp r(1) by (subst nd_receive_loop.simps) (simp add: Let_def nd'_def p_def)
      moreover have "gained nd [] nd'" unfolding nd'_def by (rule gained_receiving)
      moreover have "nd_at (hw # ps) (k + length inp) nd'" using False r(2) hw by (auto simp: nd_at_def nd'_def)
      moreover have "fut = drop (k + length inp) (pkt_bytes (hw # ps))"
        using arg_cong [OF Cons.prems(6), of "drop (length inp)"] by (simp add: add.commute)
      ultimately show ?thesis using r(3) 
        by (intro exI [of _ STATUS_PENDING] exI [of _ nd'] exI [of _ src1] exI [of _ "[]"] exI [of _ "hw # ps"] exI [of _ "k + length inp"]) simp
    next
      case False
      have r: "ret = 0" "packet_in h w p1" "rd src1 (drop (?T - k) inp)" using f(2) False by simp_all
      have rm: "room_for nd ((h, w) # ps)" using Cons.prems(3) hw by simp
      obtain nd1 where d: "nd_deliver hp stale lz p1 nd = Return nd1" "gained nd [(h, w)] nd1" "ndReceiving nd1 = None"
        by (rule nd_deliver_gains [OF r(2) g rm])
      have run: "nd_receive_loop hp stale lz nd src = nd_receive_loop hp stale lz nd1 src1"
        using ne fp r(1) d(1) by (subst nd_receive_loop.simps) (simp add: Let_def p_def)
      have g1: "\<forall>hw \<in> set ps. good_packet nd1 hw" using Cons.prems(2) gained_good [OF d(2)] by simp
      have rm1: "room_for nd1 ps" using gained_room [OF d(2)] rm by simp
      have at1: "nd_at ps 0 nd1" using d(3) by (simp add: nd_at_def)
      have "drop (?T - k) (inp @ fut) = pkt_bytes ps" unfolding bytes by simp
      then have fut: "drop (?T - k) inp @ fut = drop 0 (pkt_bytes ps)" using False by simp
      obtain ret' nd' src' qs ps' k' where ih: "nd_receive_loop hp stale lz nd1 src1 = Some (Return (ret', nd', src'))"
        "ret' \<in> {0, STATUS_PENDING}" "rd src' []" "ps = qs @ ps'" "gained nd1 qs nd'" "nd_at ps' k' nd'" "fut = drop k' (pkt_bytes ps')"
        using Cons.IH [OF at1 g1 rm1 Cons.prems(4) r(3) fut] by blast
      have "gained nd ((h, w) # qs) nd'" using gained_trans [OF d(2) ih(5)] by simp
      then show ?thesis using run ih hw
        by (intro exI [of _ ret'] exI [of _ nd'] exI [of _ src'] exI [of _ "(h, w) # qs"] exI [of _ ps'] exI [of _ k']) simp
    qed
  qed
qed

lemma NdOnReceive_spec:
  assumes "nd_at ps k nd" "\<forall>hw \<in> set ps. good_packet nd hw" "room_for nd ps" "roomy hp stale" "rd src inp" "inp \<noteq> []"
    "inp @ fut = drop k (pkt_bytes ps)"
  shows "\<exists>ret nd' src' qs ps' k'. NdOnReceive hp stale lz nd src = Some (Return (ret, nd', src')) \<and> ret \<in> {0, STATUS_PENDING} \<and>
     ps = qs @ ps' \<and> gained nd qs nd' \<and> nd_at ps' k' nd' \<and> fut = drop k' (pkt_bytes ps')"
proof -
  obtain ret nd' src' qs ps' k' where l: "nd_receive_loop hp stale lz nd src = Some (Return (ret, nd', src'))"
     "ret \<in> {0, STATUS_PENDING}" "rd src' []" "ps = qs @ ps'" "gained nd qs nd'" "nd_at ps' k' nd'" "fut = drop k' (pkt_bytes ps')"
    using nd_receive_loop_spec [OF assms(1-5,7)] by blast
  have "\<not> bufEmpty src" "bufSize src' = 0" using rd_facts(2) [OF assms(5)] assms(6) rd_facts(1) [OF l(3)] by simp_all
  moreover have "\<not> ERROR ret" using l(2) by auto
  ultimately have "NdOnReceive hp stale lz nd src = Some (Return (ret, nd', snd (SetOffset (dwOffset src) src')))"
    using l(1) by (simp add: NdOnReceive_def map_outcome_def Let_def)
  then show ?thesis using l by blast
qed

text \<open>The buffers of a connection, one after the other.\<close>

primrec nd_feed :: "heap \<Rightarrow> u8 list \<Rightarrow> lz4 \<Rightarrow> cbuffer list \<Rightarrow> native_fdo \<Rightarrow> (int list \<times> native_fdo) option" where
  "nd_feed hp stale lz [] nd = Some ([], nd)"
| "nd_feed hp stale lz (b # bs) nd = (case NdOnReceive hp stale lz nd b of
      Some (Return (ret, nd1, _)) \<Rightarrow> map_option (\<lambda>(rets, nd2). (ret # rets, nd2)) (nd_feed hp stale lz bs nd1)
    | _ \<Rightarrow> None)"

lemma nd_feed_spec:
  assumes "nd_at ps k nd" "\<forall>hw \<in> set ps. good_packet nd hw" "room_for nd ps" "roomy hp stale"
    "\<forall>b \<in> set bs. rd b (window b) \<and> window b \<noteq> []" "concat (List.map window bs) = drop k (pkt_bytes ps)"
  shows "\<exists>rets nd'. nd_feed hp stale lz bs nd = Some (rets, nd') \<and> set rets \<subseteq> {0, STATUS_PENDING} \<and> gained nd ps nd'"
  using assms
proof (induction bs arbitrary: ps k nd)
  case Nil
  have "ps = []"
  proof (rule ccontr)
    assume "ps \<noteq> []"
    then obtain h w rest where ps: "ps = (h, w) # rest" by (metis neq_Nil_conv surj_pair)
    have g: "good_packet nd (h, w)" using Nil.prems(2) ps by simp
    have "in_at h w k (case ndReceiving nd of None \<Rightarrow> new_in_packet | Some p \<Rightarrow> p)"
      using nd_at_packet [OF _ g] Nil.prems(1) ps by simp
    then show False using Nil.prems(6) ps by (simp add: in_at_def)
  qed
  then show ?case using gained_refl by auto
next
  case (Cons b bs)
  have b: "rd b (window b)" "window b \<noteq> []" using Cons.prems(5) by simp_all
  have e: "window b @ concat (List.map window bs) = drop k (pkt_bytes ps)" using Cons.prems(6) by simp
  obtain ret nd1 src1 qs ps1 k1 where r: "NdOnReceive hp stale lz nd b = Some (Return (ret, nd1, src1))" "ret \<in> {0, STATUS_PENDING}"
     "ps = qs @ ps1" "gained nd qs nd1" "nd_at ps1 k1 nd1" "concat (List.map window bs) = drop k1 (pkt_bytes ps1)"
    using NdOnReceive_spec [OF Cons.prems(1-4) b e] by blast
  have "\<forall>hw \<in> set ps1. good_packet nd1 hw" using Cons.prems(2) r(3) gained_good [OF r(4)] by simp
  moreover have "room_for nd1 ps1" using gained_room [OF r(4)] Cons.prems(3) r(3) by simp
  ultimately obtain rets nd' where "nd_feed hp stale lz bs nd1 = Some (rets, nd')" "set rets \<subseteq> {0, STATUS_PENDING}" "gained nd1 ps1 nd'"
    using Cons.IH [OF r(5) _ _ Cons.prems(4) _ r(6)] Cons.prems(5) by auto
  then show ?case using r gained_trans [OF r(4)] by auto
qed

text \<open>
  C15: An idle port that is handed the bytes of a sequence of packets, cut into buffers
  anywhere, appends every payload to the queue of the stream its header names, in order and
  unchanged, and reports no error: streams that gain nothing keep their queue, and the bytes
  of one packet never reach another stream. The packets are well formed and uncompressed, the
  streams exist, belong to the sender, have nobody reading and have room.
\<close>

theorem tcp_receive_in_order:
  assumes "ndReceiving nd = None" "\<forall>hw \<in> set ps. good_packet nd hw" "room_for nd ps" "roomy hp stale"
    and "\<forall>b \<in> set bs. rd b (window b) \<and> window b \<noteq> []" "concat (List.map window bs) = pkt_bytes ps"
  shows "\<exists>rets nd'. nd_feed hp stale lz bs nd = Some (rets, nd') \<and> set rets \<subseteq> {0, STATUS_PENDING} \<and> gained nd ps nd'"
  by (rule nd_feed_spec [of ps 0 nd]) (use assms in \<open>simp_all add: nd_at_def\<close>)

definition wit_hdr :: "int \<Rightarrow> nat \<Rightarrow> pkt_header" where
  "wit_hdr i n = (packet_header new_pkt_header n)\<lparr>phStmId := 9, phPeerStmId := nat i\<rparr>"

definition wit_port :: native_fdo where
  "wit_port = \<lparr>ndReceiving = None, ndStreams = [4 \<mapsto> new_stream2 0 4 protoStream 9, 5 \<mapsto> new_stream2 0 5 protoStream 9],
     ndCycQueSend = [], ndSending = False, ndCompleted = [], ndInvalid = []\<rparr>"

definition wit_pkts :: "(pkt_header \<times> u8 list) list" where
  "wit_pkts = [(wit_hdr 4 30, replicate 30 7), (wit_hdr 5 90, replicate 90 8), (wit_hdr 4 1, [9])]"

definition wit_cuts :: "cbuffer list" where
  "wit_cuts = [wit_wbuf (take 60 (pkt_bytes wit_pkts)), wit_wbuf (drop 60 (pkt_bytes wit_pkts))]"

lemma wit_wbuf_rd: "48 < length bs \<Longrightarrow> length bs \<le> MAX_BYTES_PER_BUFFER \<Longrightarrow> rd (wit_wbuf bs) bs \<and> window (wit_wbuf bs) = bs"
  using wit_wbuf [of bs]
  by (simp add: rd_def wit_wbuf_def GetDataType_def window_def memBytes_def bufSize_def GetTailOff_def u32_sub_def)

definition wit_lz :: lz4 where
  "wit_lz = \<lparr>lzBound = (\<lambda>n. n), lzCompress = (\<lambda>bs n. (int (length bs), bs)), lzDecompress = (\<lambda>bs n. (int (length bs), bs))\<rparr>"

lemma tcp_receive_in_order_witness:
  "\<exists>rets nd'. nd_feed wit_heap (replicate 48 0) wit_lz wit_cuts wit_port = Some (rets, nd') \<and> set rets \<subseteq> {0, STATUS_PENDING} \<and>
     gained wit_port wit_pkts nd'"
proof (rule tcp_receive_in_order)
  have l: "length (pkt_bytes wit_pkts) = 205" by (simp add: wit_pkts_def)
  have c: "rd (wit_wbuf x) x \<and> window (wit_wbuf x) = x \<and> x \<noteq> []" if "x \<in> {take 60 (pkt_bytes wit_pkts), drop 60 (pkt_bytes wit_pkts)}" for x
  proof -
    have "48 < length x" "length x \<le> MAX_BYTES_PER_BUFFER" using that l by auto
    then show ?thesis using wit_wbuf_rd [of x] by auto
  qed
  show "ndReceiving wit_port = None" by (simp add: wit_port_def)
  show "\<forall>hw \<in> set wit_pkts. good_packet wit_port hw"
    by (simp add: wit_pkts_def wit_port_def good_packet_def wit_hdr_def packet_header_def new_pkt_header_def hdr_fits_def new_stream2_def s32_def)
  show "room_for wit_port wit_pkts"
    by (simp add: room_for_def wit_pkts_def wit_port_def new_stream2_def wit_hdr_def packet_header_def new_pkt_header_def s32_def)
  show "roomy wit_heap (replicate 48 0)" by (rule wit_roomy)
  show "\<forall>b \<in> set wit_cuts. rd b (window b) \<and> window b \<noteq> []"
  proof
    fix b assume "b \<in> set wit_cuts"
    then obtain x where "b = wit_wbuf x" "x \<in> {take 60 (pkt_bytes wit_pkts), drop 60 (pkt_bytes wit_pkts)}" by (auto simp: wit_cuts_def)
    then show "rd b (window b) \<and> window b \<noteq> []" using c [of x] by presburger
  qed
  show "concat (List.map window wit_cuts) = pkt_bytes wit_pkts" using c by (simp add: wit_cuts_def)
qed

subsection \<open>Every stream gets its turn\<close>

datatype ring_event = Submit int nat | Open nat int nat int | Close int | Send | SendDone

primrec ring_do :: "ring_event \<Rightarrow> native_fdo \<Rightarrow> (int \<times> nat) list \<times> native_fdo" where
  "ring_do (Submit i irp) nd = ([], snd (SubmitWriteIrp i irp nd))"
| "ring_do (Open seed i proto peer) nd = ([], snd (AddStream seed i proto peer nd))"
| "ring_do (Close i) nd = ([], snd (RemoveStream i nd))"
| "ring_do Send nd = (case nd_send_next nd of (x, nd1) \<Rightarrow> (case x of None \<Rightarrow> [] | Some y \<Rightarrow> [y], nd1))"
| "ring_do SendDone nd = ([], nd_send_done nd)"

primrec ring_run :: "ring_event list \<Rightarrow> native_fdo \<Rightarrow> (int \<times> nat) list \<times> native_fdo" where
  "ring_run [] nd = ([], nd)"
| "ring_run (e # es) nd = (case ring_do e nd of (xs, nd1) \<Rightarrow> case ring_run es nd1 of (ys, nd2) \<Rightarrow> (xs @ ys, nd2))"

text \<open>The ring has no stream twice, only open streams, and every stream with something to send.\<close>

definition ring_inv :: "native_fdo \<Rightarrow> bool" where
  "ring_inv nd \<longleftrightarrow> distinct (ndCycQueSend nd) \<and> set (ndCycQueSend nd) \<subseteq> dom (ndStreams nd) \<and>
     {i. 0 < GetQueSizeSend nd i} \<subseteq> set (ndCycQueSend nd)"

lemma queue_size_simps [simp]:
  "GetQueSizeSend (nd\<lparr>ndCycQueSend := q\<rparr>) i = GetQueSizeSend nd i"
  "GetQueSizeSend (nd\<lparr>ndSending := b\<rparr>) i = GetQueSizeSend nd i"
  "GetQueSizeSend (nd\<lparr>ndStreams := (ndStreams nd)(j := x)\<rparr>) i =
     (if i = j then (case x of None \<Rightarrow> 0 | Some s \<Rightarrow> length (smWrite s)) else GetQueSizeSend nd i)"
  "GetQueSizeSend (nd\<lparr>ndCycQueSend := q, ndStreams := (ndStreams nd)(j := x)\<rparr>) i =
     (if i = j then (case x of None \<Rightarrow> 0 | Some s \<Rightarrow> length (smWrite s)) else GetQueSizeSend nd i)"
  by (simp_all add: GetQueSizeSend_def)

lemma queue_size_pos: "0 < GetQueSizeSend nd i \<longleftrightarrow> (\<exists>s. ndStreams nd i = Some s \<and> smWrite s \<noteq> [])"
  by (auto simp: GetQueSizeSend_def split: option.split)

text \<open>The two outcomes of a round.\<close>

lemma nd_send_next_cases:
  obtains (busy) "ndSending nd" "nd_send_next nd = (None, nd)"
  | (idle) "\<not> ndSending nd" "\<forall>i \<in> set (ndCycQueSend nd). GetQueSizeSend nd i = 0" "nd_send_next nd = (None, nd\<lparr>ndCycQueSend := []\<rparr>)"
  | (sends) xs i q s where "\<not> ndSending nd" "ndCycQueSend nd = xs @ i # q" "\<forall>j \<in> set xs. GetQueSizeSend nd j = 0"
      "ndStreams nd i = Some s" "smWrite s \<noteq> []"
      "nd_send_next nd = (Some (i, hd (smWrite s)), nd\<lparr>ndCycQueSend := q @ [i],
         ndStreams := (ndStreams nd)(i \<mapsto> s\<lparr>smWrite := tl (smWrite s)\<rparr>), ndSending := True\<rparr>)"
proof (cases "ndSending nd")
  case True
  then show thesis using busy by (simp add: nd_send_next_def GetStreamToSend_def)
next
  case False
  let ?P = "\<lambda>i. GetQueSizeSend nd i = 0"
  show thesis
  proof (cases "dropWhile ?P (ndCycQueSend nd)")
    case Nil
    have "\<forall>i \<in> set (ndCycQueSend nd). ?P i" using Nil by (simp add: dropWhile_eq_Nil_conv)
    moreover have "nd_send_next nd = (None, nd\<lparr>ndCycQueSend := []\<rparr>)"
      unfolding nd_send_next_def GetStreamToSend_def Nil using False by simp
    ultimately show thesis using False by (intro idle)
  next
    case (Cons i q)
    have ring: "ndCycQueSend nd = takeWhile ?P (ndCycQueSend nd) @ i # q" using Cons by (metis takeWhile_dropWhile_id)
    have "\<not> ?P i" using Cons hd_dropWhile [of ?P "ndCycQueSend nd"] by simp
    then obtain s where s: "ndStreams nd i = Some s" "smWrite s \<noteq> []" using queue_size_pos [of nd i] by auto
    show thesis using False Cons s
      by (intro sends [OF False ring _ s]) (auto simp: nd_send_next_def GetStreamToSend_def dest: set_takeWhileD)
  qed
qed

lemma ring_inv_step: "ring_inv nd \<Longrightarrow> ring_inv (snd (ring_do e nd))"
proof -
  assume i: "ring_inv nd"
  show ?thesis
  proof (cases e)
    case (Submit k irp)
    then show ?thesis using i
      by (auto simp: ring_inv_def SubmitWriteIrp_def QueueIrpOutgoing_def AddStmToSendQue_def Let_def split: option.splits if_splits)
  next
    case (Open seed k proto peer)
    then show ?thesis using i by (auto simp: ring_inv_def AddStream_def new_stream2_def GetQueSizeSend_def split: if_splits)
  next
    case (Close k)
    then show ?thesis using i by (auto simp: ring_inv_def RemoveStream_def set_remove1_eq)
  next
    case Send
    show ?thesis
    proof (cases nd rule: nd_send_next_cases)
      case busy
      then show ?thesis using i Send by simp
    next
      case idle
      then show ?thesis using i Send by (fastforce simp: ring_inv_def)
    next
      case (sends xs k q s)
      have d: "distinct (q @ [k])" "set (q @ [k]) \<subseteq> set (ndCycQueSend nd)" using i sends(2) by (auto simp: ring_inv_def)
      have p: "\<forall>j. 0 < GetQueSizeSend nd j \<longrightarrow> j = k \<or> j \<in> set q"
        using i sends(2,3) by (fastforce simp: ring_inv_def)
      have "0 < GetQueSizeSend nd k" using sends(4,5) queue_size_pos by blast
      then show ?thesis using p i Send sends(4,6) d unfolding ring_inv_def
        by (auto simp: subset_iff)
    qed
  next
    case SendDone
    then show ?thesis using i by (auto simp: ring_inv_def nd_send_done_def)
  qed
qed

interpretation ring: event_machine "\<lambda>nd e. snd (ring_do e nd)" "\<lambda>nd e. True" ring_inv
  by unfold_locales (rule ring_inv_step)

text \<open>A stream that waits with the request \<open>r\<close>, at most \<open>j\<close> places from the front.\<close>

definition waits :: "int \<Rightarrow> nat \<Rightarrow> nat \<Rightarrow> native_fdo \<Rightarrow> bool" where
  "waits i r j nd \<longleftrightarrow> (\<exists>xs ys s rest. ndCycQueSend nd = xs @ i # ys \<and> i \<notin> set xs \<and> length xs \<le> j \<and>
     ndStreams nd i = Some s \<and> smWrite s = r # rest)"

lemma waitsI:
  "ndCycQueSend nd = xs @ i # ys \<Longrightarrow> i \<notin> set xs \<Longrightarrow> length xs \<le> j \<Longrightarrow> ndStreams nd i = Some s \<Longrightarrow>
    smWrite s = r # rest \<Longrightarrow> waits i r j nd"
  by (auto simp: waits_def)

lemma waits_append:
  "ndCycQueSend nd' = ndCycQueSend nd @ zs \<Longrightarrow> ndStreams nd i = Some s \<Longrightarrow> ndStreams nd' i = Some s' \<Longrightarrow>
    smWrite s' = smWrite s @ ws \<Longrightarrow> waits i r j nd \<Longrightarrow> waits i r j nd'"
  by (fastforce simp: waits_def)

lemma waits_send:
  assumes "waits i r j nd"
  shows "nd_send_next nd = (None, nd) \<or> fst (nd_send_next nd) = Some (i, r) \<or>
    (\<exists>y. fst (nd_send_next nd) = Some y \<and> 0 < j \<and> waits i r (j - 1) (snd (nd_send_next nd)))"
proof -
  obtain xs ys s rest where w: "ndCycQueSend nd = xs @ i # ys" "i \<notin> set xs" "length xs \<le> j"
    "ndStreams nd i = Some s" "smWrite s = r # rest" using assms by (auto simp: waits_def)
  have p: "0 < GetQueSizeSend nd i" using w(4,5) by (simp add: GetQueSizeSend_def)
  show ?thesis
  proof (cases nd rule: nd_send_next_cases)
    case idle
    then show ?thesis using p w(1) by simp
  next
    case (sends zs k q s')
    show ?thesis
    proof (cases "k = i")
      case True
      then show ?thesis using sends w(4,5) by simp
    next
      case False
      have "i \<notin> set zs" using sends(3) p by auto
      then obtain us where us: "xs = zs @ k # us" "q = us @ i # ys"
        using sends(2) w(1,2) False by (auto simp: append_eq_append_conv2 append_eq_Cons_conv Cons_eq_append_conv)
      have "waits i r (j - 1) (snd (nd_send_next nd))"
        by (rule waitsI [where xs = us and ys = "ys @ [k]" and s = s and rest = rest]) (use sends(6) us w False in auto)
      then show ?thesis using sends(6) us(1) w(3) by auto
    qed
  qed simp
qed

lemma waits_step:
  assumes "waits i r j nd" "e \<noteq> Close i"
  shows "(i, r) \<in> set (fst (ring_do e nd)) \<or>
    length (fst (ring_do e nd)) \<le> j \<and> waits i r (j - length (fst (ring_do e nd))) (snd (ring_do e nd))"
proof -
  obtain xs ys s rest where w: "ndCycQueSend nd = xs @ i # ys" "i \<notin> set xs" "length xs \<le> j"
    "ndStreams nd i = Some s" "smWrite s = r # rest" using assms(1) by (auto simp: waits_def)
  show ?thesis
  proof (cases e)
    case (Submit k irp)
    have "\<exists>zs s' ws. ndCycQueSend (snd (ring_do e nd)) = ndCycQueSend nd @ zs \<and>
       ndStreams (snd (ring_do e nd)) i = Some s' \<and> smWrite s' = smWrite s @ ws"
      using Submit w(4)
      by (auto simp: SubmitWriteIrp_def QueueIrpOutgoing_def AddStmToSendQue_def split: option.split)
    then show ?thesis using waits_append [OF _ w(4) _ _ assms(1)] Submit by fastforce
  next
    case (Open seed k proto peer)
    then have "ndStreams (snd (ring_do e nd)) i = Some s" "ndCycQueSend (snd (ring_do e nd)) = ndCycQueSend nd"
      using w(4) by (auto simp: AddStream_def)
    then show ?thesis using waits_append [of _ nd "[]" i s s "[]", OF _ w(4) _ _ assms(1)] Open by simp
  next
    case (Close k)
    then have k: "k \<noteq> i" using assms(2) by simp
    have "waits i r j (snd (ring_do e nd))"
    proof (cases "k < 0 \<or> ndStreams nd k = None")
      case True
      then have "snd (ring_do e nd) = nd" using Close by (auto simp: RemoveStream_def)
      then show ?thesis using assms(1) by simp
    next
      case False
      let ?ys = "if k \<in> set xs then ys else remove1 k ys"
      have "length (remove1 k xs) \<le> j" using w(3) by (auto simp: length_remove1)
      moreover have "i \<notin> set (remove1 k xs)" using w(2) notin_set_remove1 by metis
      ultimately show ?thesis using Close False w(1,4,5) k
        by (intro waitsI [where xs = "remove1 k xs" and ys = ?ys and s = s and rest = rest])
          (auto simp: RemoveStream_def remove1_append remove1_idem)
    qed
    then show ?thesis using Close by simp
  next
    case Send
    then show ?thesis using waits_send [OF assms(1)] assms(1) by (auto split: prod.split)
  next
    case SendDone
    then show ?thesis using w by (auto simp: waits_def nd_send_done_def)
  qed
qed

lemma waits_run:
  assumes "waits i r j nd" "Close i \<notin> set es" "ring_run es nd = (outs, nd')" "j < length outs"
  shows "(i, r) \<in> set (take (Suc j) outs)"
  using assms
proof (induction es arbitrary: j nd outs)
  case (Cons e es)
  obtain xs nd1 ys where r: "ring_do e nd = (xs, nd1)" "ring_run es nd1 = (ys, nd')" "outs = xs @ ys"
    using Cons.prems(3) by (auto split: prod.splits)
  have l: "length xs \<le> 1" using r(1) by (cases e) (auto split: option.splits prod.splits)
  consider "(i, r) \<in> set xs" | "length xs \<le> j" "waits i r (j - length xs) nd1"
    using waits_step [OF Cons.prems(1), of e] Cons.prems(2) r(1) by auto
  then show ?case
  proof cases
    case 1
    then show ?thesis using l r(3) by (cases xs) auto
  next
    case 2
    then have "(i, r) \<in> set (take (Suc (j - length xs)) ys)"
      using Cons.IH [OF 2(2) _ r(2)] Cons.prems(2,4) r(3) by auto
    then show ?thesis using 2(1) r(3) by (simp add: Suc_diff_le)
  qed
qed simp

text \<open>A port whose streams are all still to be opened.\<close>

definition new_native_fdo :: native_fdo where
  "new_native_fdo = \<lparr>ndReceiving = None, ndStreams = Map.empty, ndCycQueSend = [], ndSending = False,
     ndCompleted = [], ndInvalid = []\<rparr>"

lemma new_ring_inv: "ring_inv new_native_fdo"
  by (simp add: ring_inv_def new_native_fdo_def GetQueSizeSend_def)

text \<open>
  C16: No stream starves. In a state the port can be in, a stream with a request waiting is
  handed to the lower port within as many requests as the ring has streams now, whatever is
  submitted, opened or closed meanwhile, as long as the stream itself stays open; and no round
  of the sender passes over a waiting stream without handing out something.
\<close>

theorem ring_serves_everyone:
  assumes "reach (\<lambda>nd e. snd (ring_do e nd)) (\<lambda>nd e. True) new_native_fdo nd"
    and "ndStreams nd i = Some s" "smWrite s = r # rest" "Close i \<notin> set es"
    and "ring_run es nd = (outs, nd')" "length (ndCycQueSend nd) \<le> length outs"
  shows "(i, r) \<in> set (take (length (ndCycQueSend nd)) outs) \<and> (\<not> ndSending nd \<longrightarrow> fst (nd_send_next nd) \<noteq> None)"
proof -
  have inv: "ring_inv nd" by (rule ring.inv_reach [OF assms(1) new_ring_inv])
  have "0 < GetQueSizeSend nd i" using assms(2,3) by (simp add: GetQueSizeSend_def)
  then have "i \<in> set (ndCycQueSend nd)" using inv by (auto simp: ring_inv_def)
  then obtain xs ys where x: "ndCycQueSend nd = xs @ i # ys" "i \<notin> set xs" by (meson split_list_first)
  have w: "waits i r (length xs) nd" using x assms(2,3) by (auto simp: waits_def)
  have "(i, r) \<in> set (take (Suc (length xs)) outs)"
    by (rule waits_run [OF w assms(4,5)]) (use assms(6) x(1) in simp)
  then have "(i, r) \<in> set (take (length (ndCycQueSend nd)) outs)"
    using set_take_subset_set_take [of "Suc (length xs)" "length (ndCycQueSend nd)" outs] x(1) by auto
  moreover have "\<not> ndSending nd \<longrightarrow> fst (nd_send_next nd) \<noteq> None"
    using waits_send [OF w] w by (cases nd rule: nd_send_next_cases) (auto simp: waits_def GetQueSizeSend_def)
  ultimately show ?thesis by blast
qed

definition wit_before :: "ring_event list" where
  "wit_before = [Open 0 4 protoStream 9, Open 0 5 protoStream 9, Submit 5 70, Submit 4 71, Submit 5 72]"

definition wit_after :: "ring_event list" where
  "wit_after = [Send, SendDone, Submit 5 73, Send, SendDone]"

lemma ring_run_reach:
  "reach (\<lambda>nd e. snd (ring_do e nd)) (\<lambda>nd e. True) nd0 nd \<Longrightarrow>
   reach (\<lambda>nd e. snd (ring_do e nd)) (\<lambda>nd e. True) nd0 (snd (ring_run es nd))"
  by (induction es arbitrary: nd) (auto simp: split_beta dest: reach.advance)

lemma ring_serves_everyone_witness:
  "(4, 71) \<in> set (take 2 (fst (ring_run wit_after (snd (ring_run wit_before new_native_fdo)))))"
proof -
  let ?nd = "snd (ring_run wit_before new_native_fdo)"
  note ev = wit_before_def new_native_fdo_def AddStream_def new_stream2_def SubmitWriteIrp_def QueueIrpOutgoing_def AddStmToSendQue_def
  have nd: "ndCycQueSend ?nd = [5, 4]" "ndSending ?nd = False"
    "ndStreams ?nd = [4 \<mapsto> (new_stream2 0 4 protoStream 9)\<lparr>smWrite := [71]\<rparr>, 5 \<mapsto> (new_stream2 0 5 protoStream 9)\<lparr>smWrite := [70, 72]\<rparr>]"
    by (simp_all add: ev fun_eq_iff)
  have outs: "length (fst (ring_run wit_after ?nd)) = 2"
    using nd by (simp add: wit_after_def nd_send_next_def GetStreamToSend_def GetQueSizeSend_def nd_send_done_def
      SubmitWriteIrp_def QueueIrpOutgoing_def AddStmToSendQue_def new_stream2_def)
  have "(4, 71) \<in> set (take (length (ndCycQueSend ?nd)) (fst (ring_run wit_after ?nd))) \<and> (\<not> ndSending ?nd \<longrightarrow> fst (nd_send_next ?nd) \<noteq> None)"
    by (rule ring_serves_everyone [where es = wit_after and nd' = "snd (ring_run wit_after ?nd)" and rest = "[]" and s = "(new_stream2 0 4 protoStream 9)\<lparr>smWrite := [71]\<rparr>"])
      (use ring_run_reach [OF reach.start] nd outs in \<open>simp_all add: wit_after_def\<close>)
  then show ?thesis using nd(1) by (simp add: numeral_2_eq_2)
qed

subsection \<open>Reads and packets\<close>

definition plain_read :: "read_irp \<Rightarrow> bool" where
  "plain_read irp \<longleftrightarrow> riReady irp \<and> riByteCount irp = None \<and> riResp irp = None"

lemma plain_reads:
  assumes "\<forall>irp \<in> set (smRead s). plain_read irp" "\<forall>p \<in> set (smRecv s). ipBuf p \<noteq> None"
  shows "GetReadIrpsToComp hp s =
    Return (0, zip (smRead s) (List.map (\<lambda>p. the (ipBuf p)) (smRecv s)),
      s\<lparr>smRead := drop (length (smRecv s)) (smRead s), smRecv := drop (length (smRead s)) (smRecv s)\<rparr>)"
  using assms
proof (induction "smRead s" arbitrary: s)
  case Nil
  have "s\<lparr>smRead := [], smRecv := smRecv s\<rparr> = s" using Nil.hyps by (cases s) simp
  then show ?case using Nil.hyps by (simp add: GetReadIrpsToComp.simps)
next
  case (Cons irp irps)
  show ?case
  proof (cases "smRecv s")
    case Nil
    have "s\<lparr>smRead := smRead s, smRecv := []\<rparr> = s" using Nil by (cases s) simp
    then show ?thesis using Nil by (simp add: GetReadIrpsToComp.simps)
  next
    case (Cons p ps)
    let ?s1 = "s\<lparr>smRead := irps, smRecv := ps\<rparr>"
    have r: "smRead s = irp # irps" using Cons.hyps(2) ..
    obtain b where b: "ipBuf p = Some b" using Cons.prems(2) Cons by auto
    have one: "read_one hp irp p = Return (Done irp b None)" "riReady irp"
      using Cons.prems(1) r b by (simp_all add: read_one_def GetPayload_def plain_read_def)
    have "GetReadIrpsToComp hp ?s1 = Return (0, zip irps (List.map (\<lambda>p. the (ipBuf p)) ps),
        ?s1\<lparr>smRead := drop (length ps) irps, smRecv := drop (length irps) ps\<rparr>)"
      using Cons.hyps(1) [of ?s1] Cons.prems r Cons by simp
    then show ?thesis using r Cons one b
      by (subst GetReadIrpsToComp.simps) (simp add: Let_def bindOutcome_def)
  qed
qed

lemma plain_completions:
  "\<forall>x \<in> set xs. plain_read (fst x) \<Longrightarrow> complete_reads hp xs = Return (List.map (\<lambda>(irp, b). (riId irp, 0, Some b)) xs)"
  by (induction xs) (auto simp: plain_read_def SetRespReadIrp_def bindOutcome_def)

text \<open>
  Read requests that name no size are served first come, first served: every request gets
  the whole payload of one packet, the packets in the order of their arrival; what is left
  over, requests or packets, stays queued in order.
\<close>

theorem tcp_reads_first_come:
  assumes "\<forall>irp \<in> set (smRead s). plain_read irp" "\<forall>p \<in> set (smRecv s). ipBuf p \<noteq> None"
  shows "DispatchDataIncoming hp s =
    Return (zip (List.map riId (smRead s)) (List.map (\<lambda>p. (0, ipBuf p)) (smRecv s)),
      s\<lparr>smRead := drop (length (smRecv s)) (smRead s), smRecv := drop (length (smRead s)) (smRecv s)\<rparr>)"
proof -
  have p: "\<forall>x \<in> set (zip (smRead s) (List.map (\<lambda>p. the (ipBuf p)) (smRecv s))). plain_read (fst x)"
    using assms(1) by (auto dest: set_zip_leftD)
  have "List.map (\<lambda>(irp, b). (riId irp, 0, Some b)) (zip xs (List.map (\<lambda>p. the (ipBuf p)) ps)) =
     zip (List.map riId xs) (List.map (\<lambda>p. (0, ipBuf p)) ps)" if "\<forall>p \<in> set ps. ipBuf p \<noteq> None" for xs and ps :: "in_packet list"
    using that by (induction xs ps rule: list_induct2') auto
  then show ?thesis using assms plain_completions [OF p] plain_reads [OF assms, of hp]
    by (simp add: DispatchDataIncoming_def bindOutcome_def)
qed

text \<open>
  A sized read can complete with more bytes than it asked for: when the data collected so
  far and the next packet are together longer than the size, the whole packet is appended to
  the response, and the packet goes back to the queue with nothing left in it, where the next
  read meets it.
\<close>

theorem tcp_read_overfilled:
  assumes "smRead s = [irp]" "smRecv s = [p]" "riReady irp" "riByteCount irp = Some n" "riResp irp = Some r" "ipBuf p = Some b"
    and "buf_wf r" "GetDataType r = DataTypeMem" "buf_wf b" "GetDataType b = DataTypeMem" "\<forall>k. allocOk hp k"
    and "0 < bufSize r" "bufSize r < n" "bufSize b < n" "n < bufSize r + bufSize b" "bufSize r + bufSize b \<le> MAX_BYTES_PER_BUFFER"
  shows "\<exists>r' q. DispatchDataIncoming hp s = Return ([(riId irp, 0, Some r')], s\<lparr>smRead := [], smRecv := [q]\<rparr>) \<and>
    window r' = window r @ window b \<and> n < length (window r') \<and> payload_of q = []"
proof -
  note lr = buf_wf_lengths [OF assms(7)] and lb = buf_wf_lengths [OF assms(9)]
  have pos: "0 < bufSize b" using assms(13,15) by simp
  have nb: "base b \<noteq> NullBase" using buf_wf_not_empty [OF assms(9) pos] by (simp add: bufEmpty_def)
  let ?blk = "drop (dwOffset b) (memBytes b)"
  have blk: "bufSize b \<le> length ?blk" "take (bufSize b) ?blk = window b" using lb(5) by (simp_all add: window_def)
  obtain r' where r': "Append hp (Some ?blk) (bufSize b) r = Return (0, r')" "window r' = window r @ window b"
    by (cases rule: Append_cases [OF assms(7,8) pos assms(16) blk(1), of hp]) (use assms(11) blk(2) in auto)
  have ar: "append_resp hp r b = Return (0, r')" using r'(1) nb by (simp add: append_resp_def)
  have small: "bufSize b < 2 ^ 32" "n < 2 ^ 32" using assms(15,16) by simp_all
  have st: "loadBytes b (dwOffset b) 0 = Some []" "storeBytes b (dwOffset b + bufSize b) [] = Some b"
    using lb(5) nb by (auto simp: loadBytes_def storeBytes_def overwrite_def SetBuffer_def memBytes_def split: membase.split)
  have ty: "GetDataType b \<in> {DataTypeMem, DataTypeObjPtr, DataTypeMsgPtr}" using assms(10) by simp
  obtain b0 where b0: "Resize hp 0 b = Return (0, b0)" "buf_wf b0" "bufSize b0 = 0"
    by (cases rule: Resize_cases [OF assms(9) ty, of 0 hp]) (use assms(11) in auto)
  have cmp: "n - bufSize r \<noteq> bufSize b" "\<not> bufSize b < n - bufSize r" using assms(13,15) by linarith+
  have one: "read_one hp irp p = Return (Done (irp\<lparr>riResp := None\<rparr>) r' (Some (p\<lparr>ipBuf := Some b0\<rparr>)))"
    using assms(3-6,13-15) ar small st b0(1) cmp
    by (simp add: optOutcome_def read_one_def GetPayload_def fill_response_def bindOutcome_def Let_def u32_simps)
  have "GetReadIrpsToComp hp s = Return (0, [(irp\<lparr>riResp := None\<rparr>, r')], s\<lparr>smRead := [], smRecv := [p\<lparr>ipBuf := Some b0\<rparr>]\<rparr>)"
    using assms(1-3) one by (simp add: GetReadIrpsToComp.simps bindOutcome_def Let_def)
  then have "DispatchDataIncoming hp s = Return ([(riId irp, 0, Some r')], s\<lparr>smRead := [], smRecv := [p\<lparr>ipBuf := Some b0\<rparr>]\<rparr>)"
    using assms(3) by (simp add: DispatchDataIncoming_def bindOutcome_def SetRespReadIrp_def)
  moreover have "payload_of (p\<lparr>ipBuf := Some b0\<rparr>) = []" using buf_wf_lengths(4) [OF b0(2)] b0(3) by (simp add: payload_of_def)
  moreover have "n < length (window r')" using r'(2) lr(4) lb(4) assms(15) by simp
  ultimately show ?thesis using r'(2) by blast
qed

definition wit_packet :: "u8 list \<Rightarrow> in_packet" where
  "wit_packet bs = new_in_packet\<lparr>ipBuf := Some (wit_wbuf bs)\<rparr>"

definition wit_read :: "nat \<Rightarrow> nat option \<Rightarrow> cbuffer option \<Rightarrow> read_irp" where
  "wit_read i n r = \<lparr>riId = i, riByteCount = n, riResp = r, riReady = True\<rparr>"

lemma tcp_reads_first_come_witness:
  "DispatchDataIncoming wit_heap ((new_stream2 0 4 1 9)\<lparr>smRead := [wit_read 1 None None, wit_read 2 None None], smRecv := [wit_packet [7]]\<rparr>) =
    Return ([(1, 0, Some (wit_wbuf [7]))], (new_stream2 0 4 1 9)\<lparr>smRead := [wit_read 2 None None], smRecv := []\<rparr>)"
  using tcp_reads_first_come [of "(new_stream2 0 4 1 9)\<lparr>smRead := [wit_read 1 None None, wit_read 2 None None], smRecv := [wit_packet [7]]\<rparr>" wit_heap]
  by (simp add: wit_read_def plain_read_def wit_packet_def new_in_packet_def)

lemma tcp_read_overfilled_witness:
  "\<exists>r' q. DispatchDataIncoming wit_heap ((new_stream2 0 4 1 9)\<lparr>smRead := [wit_read 1 (Some 100) (Some (wit_wbuf (replicate 60 7)))], smRecv := [wit_packet (replicate 80 8)]\<rparr>) =
      Return ([(riId (wit_read 1 (Some 100) (Some (wit_wbuf (replicate 60 7)))), 0, Some r')],
        (new_stream2 0 4 1 9)\<lparr>smRead := [wit_read 1 (Some 100) (Some (wit_wbuf (replicate 60 7)))], smRecv := [wit_packet (replicate 80 8)]\<rparr>\<lparr>smRead := [], smRecv := [q]\<rparr>) \<and>
    window r' = window (wit_wbuf (replicate 60 7)) @ window (wit_wbuf (replicate 80 8)) \<and> 100 < length (window r') \<and> payload_of q = []"
proof -
  have b: "buf_wf (wit_wbuf (replicate 60 7)) \<and> bufSize (wit_wbuf (replicate 60 7)) = 60"
    "buf_wf (wit_wbuf (replicate 80 8)) \<and> bufSize (wit_wbuf (replicate 80 8)) = 80"
    using wit_wbuf [of "replicate 60 7"] wit_wbuf [of "replicate 80 8"] by simp_all
  have t: "GetDataType (wit_wbuf bs) = DataTypeMem" for bs by (simp add: wit_wbuf_def GetDataType_def)
  show ?thesis
    by (rule tcp_read_overfilled [where p = "wit_packet (replicate 80 8)"])
      (use b t in \<open>simp_all add: wit_read_def wit_packet_def wit_heap_def\<close>)
qed

end
