(* ===== verification/Timer.thy ===== *)
theory Timer
  imports Prelude "HOL-Library.Multiset"
begin

text \<open>
  The timer service \<open>CTimerService\<close> of \<open>ipc/utils.cpp\<close> and \<open>ipc/utils.h\<close>: a vector of ticking
  timers, the timers that are due, and the clock value of the last tick. The main loop calls
  \<open>TimerCallback\<close> every 500 ms. A callback runs without the lock and may call the service
  again; what it calls is a parameter.
\<close>

subsection \<open>State\<close>

record timer_entry =
  teId :: int
  teIntervalMs :: nat
  teTicks :: nat
  teParam :: nat
  teCallback :: nat

text \<open>
  The id counter is a static member. Besides the members there are the log of the callbacks
  made, in order, and the number of wakeups of the timer thread.
\<close>

record timer_svc =
  tsTimers :: "timer_entry list"
  tsPending :: "timer_entry list"
  tsStamp :: nat
  tsNextId :: int
  tsFired :: "timer_entry list"
  tsWakeups :: nat

text \<open>A new service, started at the clock value \<open>now\<close>.\<close>

definition new_timer_svc :: "nat \<Rightarrow> timer_svc" where
  "new_timer_svc now = \<lparr>tsTimers = [], tsPending = [], tsStamp = now, tsNextId = 1, tsFired = [], tsWakeups = 0\<rparr>"

definition MAX_TIMER_ID :: int where "MAX_TIMER_ID = 0x7fffffff"

text \<open>The constructor of an entry takes the next id and keeps the counter positive.\<close>

definition new_timer_id :: "timer_svc \<Rightarrow> int \<times> timer_svc" where
  "new_timer_id s = (tsNextId s, s\<lparr>tsNextId := (if tsNextId s = MAX_TIMER_ID then 1 else tsNextId s + 1)\<rparr>)"

definition Wakeup :: "timer_svc \<Rightarrow> timer_svc" where
  "Wakeup s = (if tsPending s \<noteq> [] then s\<lparr>tsWakeups := Suc (tsWakeups s)\<rparr> else s)"

subsection \<open>Operations\<close>

text \<open>\<open>dwIntervalSec * 1000\<close> is a product of 32 bits.\<close>

definition AddTimer :: "nat \<Rightarrow> nat option \<Rightarrow> nat \<Rightarrow> timer_svc \<Rightarrow> int \<times> timer_svc" where
  "AddTimer dwIntervalSec pEvent dwParam s = (case pEvent of
      None \<Rightarrow> (- EINVAL, s)
    | Some ev \<Rightarrow> (case new_timer_id s of (i, s1) \<Rightarrow>
        (i, s1\<lparr>tsTimers := tsTimers s1 @ [\<lparr>teId = i, teIntervalMs = (dwIntervalSec * 1000) mod 2 ^ 32,
                 teTicks = 0, teParam = dwParam, teCallback = ev\<rparr>]\<rparr>)))"

text \<open>The first entry with the id, if there is one.\<close>

fun update_timer :: "int \<Rightarrow> (timer_entry \<Rightarrow> timer_entry) \<Rightarrow> timer_entry list \<Rightarrow> timer_entry list" where
  "update_timer i f [] = []"
| "update_timer i f (t # ts) = (if teId t = i then f t # ts else t # update_timer i f ts)"

fun erase_timer :: "int \<Rightarrow> timer_entry list \<Rightarrow> timer_entry list" where
  "erase_timer i [] = []"
| "erase_timer i (t # ts) = (if teId t = i then ts else t # erase_timer i ts)"

definition has_timer :: "int \<Rightarrow> timer_entry list \<Rightarrow> bool" where
  "has_timer i ts \<longleftrightarrow> i \<in> set (List.map teId ts)"

definition ResetTimer :: "int \<Rightarrow> timer_svc \<Rightarrow> int \<times> timer_svc" where
  "ResetTimer i s = (if has_timer i (tsTimers s) then 0 else - ENOENT,
     Wakeup (s\<lparr>tsTimers := update_timer i (\<lambda>t. t\<lparr>teTicks := 0\<rparr>) (tsTimers s)\<rparr>))"

text \<open>\<open>SecToMs\<close> multiplies two signed integers; \<open>None\<close> is the overflow of the product.\<close>

definition AdjustTimer :: "int \<Rightarrow> int \<Rightarrow> timer_svc \<Rightarrow> (int \<times> timer_svc) option" where
  "AdjustTimer i iNewInterval s =
    (if iNewInterval \<le> 0 then Some (- EINVAL, s)
     else if has_timer i (tsTimers s) \<and> iNewInterval * 1000 \<ge> 2 ^ 31 then None
     else Some (if has_timer i (tsTimers s) then 0 else - ENOENT,
       Wakeup (s\<lparr>tsTimers := update_timer i (\<lambda>t. t\<lparr>teIntervalMs := nat (iNewInterval * 1000), teTicks := 0\<rparr>) (tsTimers s)\<rparr>)))"

definition RemoveTimer :: "int \<Rightarrow> timer_svc \<Rightarrow> int \<times> timer_svc" where
  "RemoveTimer i s = (if has_timer i (tsTimers s) then 0 else - ENOENT,
     Wakeup (s\<lparr>tsTimers := erase_timer i (tsTimers s)\<rparr>))"

subsection \<open>The tick\<close>

text \<open>The clock difference in milliseconds, cut to 32 bits.\<close>

definition tick_interval :: "nat \<Rightarrow> nat \<Rightarrow> nat" where
  "tick_interval now stamp = (((now + (2 ^ 64 - stamp mod 2 ^ 64)) mod 2 ^ 64) div 1000) mod 2 ^ 32"

definition advance_timer :: "nat \<Rightarrow> timer_entry \<Rightarrow> timer_entry" where
  "advance_timer d t = t\<lparr>teTicks := (teTicks t + d) mod 2 ^ 64\<rparr>"

definition timer_due :: "timer_entry \<Rightarrow> bool" where
  "timer_due t \<longleftrightarrow> teTicks t \<ge> teIntervalMs t"

definition TickTimers :: "nat \<Rightarrow> timer_svc \<Rightarrow> timer_svc" where
  "TickTimers now s =
    (let ts = List.map (advance_timer (tick_interval now (tsStamp s))) (tsTimers s) in
     Wakeup (s\<lparr>tsStamp := now, tsTimers := filter (\<lambda>t. \<not> timer_due t) ts, tsPending := tsPending s @ filter timer_due ts\<rparr>))"

text \<open>What a callback may do with the service.\<close>

datatype timer_call = Add nat "nat option" nat | Remove int | Reset int | Adjust int int

primrec timer_do :: "timer_call \<Rightarrow> timer_svc \<Rightarrow> timer_svc" where
  "timer_do (Add secs ev param) s = snd (AddTimer secs ev param s)"
| "timer_do (Remove i) s = snd (RemoveTimer i s)"
| "timer_do (Reset i) s = snd (ResetTimer i s)"
| "timer_do (Adjust i iv) s = (case AdjustTimer i iv s of Some (_, s') \<Rightarrow> s' | None \<Rightarrow> s)"

definition fire_timer :: "(timer_entry \<Rightarrow> timer_call list) \<Rightarrow> timer_entry \<Rightarrow> timer_svc \<Rightarrow> timer_svc" where
  "fire_timer cb t s = fold timer_do (cb t) (s\<lparr>tsFired := tsFired s @ [t]\<rparr>)"

text \<open>The copy of the pending timers is worked off from its back.\<close>

definition fire_batch :: "(timer_entry \<Rightarrow> timer_call list) \<Rightarrow> timer_entry list \<Rightarrow> timer_svc \<Rightarrow> timer_svc" where
  "fire_batch cb tempPending s = fold (fire_timer cb) (rev tempPending) s"

lemma timer_do_pending [simp]: "tsPending (timer_do c s) = tsPending s" "tsFired (timer_do c s) = tsFired s"
  "tsStamp (timer_do c s) = tsStamp s"
  by (cases c; simp add: AddTimer_def new_timer_id_def RemoveTimer_def ResetTimer_def AdjustTimer_def Wakeup_def split: option.split)+

lemma timer_dos_pending [simp]: "tsPending (fold timer_do cs s) = tsPending s" "tsFired (fold timer_do cs s) = tsFired s"
  "tsStamp (fold timer_do cs s) = tsStamp s"
  by (induction cs arbitrary: s) simp_all

lemma fire_batch_pending [simp]: "tsPending (fire_batch cb ts s) = tsPending s" "tsFired (fire_batch cb ts s) = tsFired s @ rev ts"
  "tsStamp (fire_batch cb ts s) = tsStamp s"
proof -
  have "tsPending (fold (fire_timer cb) ts s) = tsPending s \<and> tsFired (fold (fire_timer cb) ts s) = tsFired s @ ts \<and>
     tsStamp (fold (fire_timer cb) ts s) = tsStamp s" for ts
    by (induction ts arbitrary: s) (simp_all add: fire_timer_def)
  then show "tsPending (fire_batch cb ts s) = tsPending s" "tsFired (fire_batch cb ts s) = tsFired s @ rev ts"
    "tsStamp (fire_batch cb ts s) = tsStamp s" by (simp_all add: fire_batch_def)
qed

function ProcessTimers :: "(timer_entry \<Rightarrow> timer_call list) \<Rightarrow> timer_svc \<Rightarrow> timer_svc" where
  "ProcessTimers cb s = (if tsPending s = [] then s
     else ProcessTimers cb (fire_batch cb (tsPending s) (s\<lparr>tsPending := []\<rparr>)))"
  by pat_completeness auto
termination by (relation "measure (\<lambda>(cb, s). length (tsPending s))") simp_all

declare ProcessTimers.simps [simp del]

definition TimerCallback :: "(timer_entry \<Rightarrow> timer_call list) \<Rightarrow> nat \<Rightarrow> timer_svc \<Rightarrow> timer_svc" where
  "TimerCallback cb now s = ProcessTimers cb (TickTimers now s)"


text \<open>A history of the service: ticks of the main loop and calls from elsewhere.\<close>

datatype timer_event = Tick nat | Call timer_call

primrec timer_step :: "(timer_entry \<Rightarrow> timer_call list) \<Rightarrow> timer_event \<Rightarrow> timer_svc \<Rightarrow> timer_svc" where
  "timer_step cb (Tick now) s = TimerCallback cb now s"
| "timer_step cb (Call c) s = timer_do c s"

abbreviation timer_run :: "(timer_entry \<Rightarrow> timer_call list) \<Rightarrow> timer_event list \<Rightarrow> timer_svc \<Rightarrow> timer_svc" where
  "timer_run cb \<equiv> fold (timer_step cb)"

subsection \<open>What a tick fires\<close>

lemma Wakeup_simps [simp]: "tsTimers (Wakeup s) = tsTimers s" "tsPending (Wakeup s) = tsPending s" "tsFired (Wakeup s) = tsFired s"
  "tsStamp (Wakeup s) = tsStamp s" "tsNextId (Wakeup s) = tsNextId s"
  by (simp_all add: Wakeup_def)

text \<open>The calls only see the timers and the counter.\<close>

definition timers_eq :: "timer_svc \<Rightarrow> timer_svc \<Rightarrow> bool" where
  "timers_eq s s' \<longleftrightarrow> tsTimers s = tsTimers s' \<and> tsNextId s = tsNextId s'"

lemma timers_eq_do: "timers_eq s s' \<Longrightarrow> timers_eq (timer_do c s) (timer_do c s')"
  by (cases c) (auto simp: timers_eq_def AddTimer_def new_timer_id_def RemoveTimer_def ResetTimer_def AdjustTimer_def split: option.split)

lemma timers_eq_dos: "timers_eq s s' \<Longrightarrow> timers_eq (fold timer_do cs s) (fold timer_do cs s')"
  by (induction cs arbitrary: s s') (auto intro: timers_eq_do)

lemma timers_eq_fire: "timers_eq s s' \<Longrightarrow> timers_eq (fold (fire_timer cb) ts s) (fold timer_do (concat (List.map cb ts)) s')"
proof (induction ts arbitrary: s s')
  case (Cons t ts)
  have "timers_eq (s\<lparr>tsFired := tsFired s @ [t]\<rparr>) s'" using Cons.prems by (simp add: timers_eq_def)
  then have "timers_eq (fire_timer cb t s) (fold timer_do (cb t) s')" unfolding fire_timer_def by (rule timers_eq_dos)
  then show ?case using Cons.IH by simp
qed simp

definition due_now :: "nat \<Rightarrow> timer_svc \<Rightarrow> timer_entry list" where
  "due_now now s = rev (tsPending s @ filter timer_due (List.map (advance_timer (tick_interval now (tsStamp s))) (tsTimers s)))"

definition left_now :: "nat \<Rightarrow> timer_svc \<Rightarrow> timer_entry list" where
  "left_now now s = filter (\<lambda>t. \<not> timer_due t) (List.map (advance_timer (tick_interval now (tsStamp s))) (tsTimers s))"

lemma TimerCallback_spec:
  "tsFired (TimerCallback cb now s) = tsFired s @ due_now now s" "tsPending (TimerCallback cb now s) = []"
  "tsStamp (TimerCallback cb now s) = now"
  "timers_eq (TimerCallback cb now s) (fold timer_do (concat (List.map cb (due_now now s))) (s\<lparr>tsTimers := left_now now s\<rparr>))"
proof -
  let ?s1 = "TickTimers now s" and ?due = "due_now now s"
  have t: "tsPending ?s1 = rev ?due" "tsFired ?s1 = tsFired s" "tsStamp ?s1 = now" "tsTimers ?s1 = left_now now s" "tsNextId ?s1 = tsNextId s"
    by (simp_all add: TickTimers_def due_now_def left_now_def Let_def)
  have p: "ProcessTimers cb ?s1 = (if ?due = [] then ?s1 else fire_batch cb (rev ?due) (?s1\<lparr>tsPending := []\<rparr>))"
    using t(1) by (subst ProcessTimers.simps, subst ProcessTimers.simps) simp
  show "tsFired (TimerCallback cb now s) = tsFired s @ due_now now s" "tsPending (TimerCallback cb now s) = []"
    "tsStamp (TimerCallback cb now s) = now"
    using p t by (simp_all add: TimerCallback_def)
  have "timers_eq (?s1\<lparr>tsPending := []\<rparr>) (s\<lparr>tsTimers := left_now now s\<rparr>)" "timers_eq ?s1 (s\<lparr>tsTimers := left_now now s\<rparr>)"
    using t by (simp_all add: timers_eq_def)
  then show "timers_eq (TimerCallback cb now s) (fold timer_do (concat (List.map cb ?due)) (s\<lparr>tsTimers := left_now now s\<rparr>))"
    using p timers_eq_fire [of "?s1\<lparr>tsPending := []\<rparr>" _ cb ?due] by (auto simp: TimerCallback_def fire_batch_def)
qed

text \<open>
  C18: One tick fires exactly the timers that are due, those left pending and those whose count
  reached their interval, the one added last first; every other timer keeps its place with the
  time passed added to its count; and after that the timers are what the calls made by the
  callbacks, in the order of firing, leave of them.
\<close>

theorem timer_tick_fires_due:
  "tsFired (TimerCallback cb now s) = tsFired s @ due_now now s \<and> tsPending (TimerCallback cb now s) = [] \<and>
   tsTimers (TimerCallback cb now s) =
     tsTimers (fold timer_do (concat (List.map cb (due_now now s))) (s\<lparr>tsTimers := left_now now s\<rparr>))"
  using TimerCallback_spec [of cb now s] by (simp add: timers_eq_def)

subsection \<open>A timer fires on time\<close>

text \<open>Calls that leave the timer \<open>i\<close> alone, and a clock that does not go back.\<close>

primrec spares :: "int \<Rightarrow> timer_call \<Rightarrow> bool" where
  "spares i (Add secs ev param) = True"
| "spares i (Remove j) = (j \<noteq> i)"
| "spares i (Reset j) = (j \<noteq> i)"
| "spares i (Adjust j iv) = (j \<noteq> i)"

primrec clock_ok :: "int \<Rightarrow> nat \<Rightarrow> timer_event list \<Rightarrow> bool" where
  "clock_ok i t [] = True"
| "clock_ok i t (e # es) = (case e of Call c \<Rightarrow> spares i c \<and> clock_ok i t es
    | Tick now \<Rightarrow> t \<le> now \<and> now - t < 1000 * 2 ^ 32 \<and> now < 2 ^ 64 \<and> clock_ok i now es)"

definition tick_count :: "timer_event list \<Rightarrow> nat" where
  "tick_count es = length (filter (\<lambda>e. case e of Tick _ \<Rightarrow> True | Call _ \<Rightarrow> False) es)"

lemma tick_count_simps [simp]: "tick_count [] = 0" "tick_count (Tick now # es) = Suc (tick_count es)"
  "tick_count (Call c # es) = tick_count es" "tick_count (es @ es') = tick_count es + tick_count es'"
  by (simp_all add: tick_count_def)

lemma erase_other: "t \<in> set ts \<Longrightarrow> teId t \<noteq> i \<Longrightarrow> t \<in> set (erase_timer i ts)"
  by (induction ts) auto

lemma update_other: "t \<in> set ts \<Longrightarrow> teId t \<noteq> i \<Longrightarrow> t \<in> set (update_timer i f ts)"
  by (induction ts) auto

lemma spared_do: "t \<in> set (tsTimers s) \<Longrightarrow> spares (teId t) c \<Longrightarrow> t \<in> set (tsTimers (timer_do c s))"
  by (cases c) (auto simp: AddTimer_def new_timer_id_def RemoveTimer_def ResetTimer_def AdjustTimer_def
      intro: erase_other update_other split: option.split)

lemma spared_dos: "t \<in> set (tsTimers s) \<Longrightarrow> \<forall>c \<in> set cs. spares (teId t) c \<Longrightarrow> t \<in> set (tsTimers (fold timer_do cs s))"
  by (induction cs arbitrary: s) (auto intro: spared_do)

lemma tick_interval_exact: "stamp \<le> now \<Longrightarrow> now - stamp < 1000 * 2 ^ 32 \<Longrightarrow> now < 2 ^ 64 \<Longrightarrow> tick_interval now stamp = (now - stamp) div 1000"
proof -
  assume a: "stamp \<le> now" "now - stamp < 1000 * 2 ^ 32" "now < 2 ^ 64"
  have "now + (2 ^ 64 - stamp mod 2 ^ 64) = (now - stamp) + 2 ^ 64" using a by simp
  then have "(now + (2 ^ 64 - stamp mod 2 ^ 64)) mod 2 ^ 64 = (now - stamp) mod 2 ^ 64" by (metis mod_add_self2)
  then have "(now + (2 ^ 64 - stamp mod 2 ^ 64)) mod 2 ^ 64 = now - stamp" using a by simp
  moreover have "(now - stamp) div 1000 < 2 ^ 32" using a(2) by (simp add: less_mult_imp_div_less)
  ultimately show ?thesis by (simp add: tick_interval_def)
qed

text \<open>
  A tick of a clock that has moved by \<open>now - tsStamp s\<close> since the last one, for a timer whose
  count lags behind the time \<open>t0\<close> by less than a millisecond a tick.
\<close>

lemma tick_one:
  assumes t: "t \<in> set (tsTimers s)" and c: "\<forall>t'. \<forall>c \<in> set (cb t'). spares (teId t) c"
    and k: "tsStamp s \<le> now" "now - tsStamp s < 1000 * 2 ^ 32" "now < 2 ^ 64"
    and q: "t0 \<le> tsStamp s" "1000 * teTicks t \<le> tsStamp s - t0" "tsStamp s - t0 \<le> 1000 * teTicks t + 999 * m"
  obtains (fires) t' where "t' \<in> set (due_now now s)" "teId t' = teId t" "1000 * teIntervalMs t \<le> now - t0"
  | (waits) t' where "t' \<in> set (tsTimers (TimerCallback cb now s))" "t' = t\<lparr>teTicks := teTicks t'\<rparr>" "teTicks t' < teIntervalMs t"
      "1000 * teTicks t' \<le> now - t0" "now - t0 \<le> 1000 * teTicks t' + 999 * Suc m"
proof -
  define d where "d = tick_interval now (tsStamp s)"
  have d: "d = (now - tsStamp s) div 1000" unfolding d_def by (rule tick_interval_exact [OF k])
  have r: "1000 * d \<le> now - tsStamp s" "now - tsStamp s \<le> 1000 * d + 999"
    unfolding d using div_mult_mod_eq [of "now - tsStamp s" 1000] by (auto simp: mult.commute)
  define t' where "t' = advance_timer d t"
  have sum: "teTicks t + d < 2 ^ 64" using r(1) q(1,2) k(1,3) by linarith
  have t': "teTicks t' = teTicks t + d" "teId t' = teId t" "t' = t\<lparr>teTicks := teTicks t'\<rparr>" "teIntervalMs t' = teIntervalMs t"
    using sum by (simp_all add: t'_def advance_timer_def)
  have b: "1000 * teTicks t' \<le> now - t0" "now - t0 \<le> 1000 * teTicks t' + 999 * Suc m"
    using r q k(1) t'(1) by simp_all
  show thesis
  proof (cases "timer_due t'")
    case True
    then have "t' \<in> set (due_now now s)" using t by (auto simp: due_now_def t'_def d_def)
    then show thesis using fires t'(2,4) True b(1) by (auto simp: timer_due_def)
  next
    case False
    then have "t' \<in> set (left_now now s)" using t by (auto simp: left_now_def t'_def d_def)
    then have "t' \<in> set (tsTimers (TimerCallback cb now s))"
      using TimerCallback_spec(4) [of cb now s] c t'(2)
        spared_dos [of t' "s\<lparr>tsTimers := left_now now s\<rparr>" "concat (List.map cb (due_now now s))"]
      by (auto simp: timers_eq_def)
    then show thesis using waits t'(3,4) False b by (auto simp: timer_due_def)
  qed
qed

text \<open>Followed through a history, the timer is still ticking or has fired in one of the ticks.\<close>

definition in_time :: "timer_entry \<Rightarrow> nat \<Rightarrow> nat \<Rightarrow> nat \<Rightarrow> bool" where
  "in_time t t0 m now \<longleftrightarrow> m = 0 \<or> now - t0 < 1000 * teIntervalMs t + 999 * m"

definition fires_at :: "(timer_entry \<Rightarrow> timer_call list) \<Rightarrow> timer_svc \<Rightarrow> timer_entry \<Rightarrow> nat \<Rightarrow> timer_event list \<Rightarrow> nat \<Rightarrow> bool" where
  "fires_at cb s t now es1 t0 \<longleftrightarrow> (\<exists>t'. t' \<in> set (due_now now (timer_run cb es1 s)) \<and> teId t' = teId t \<and> 1000 * teIntervalMs t \<le> now - t0)"

lemma timer_followed:
  assumes "t \<in> set (tsTimers s)" "\<forall>t'. \<forall>c \<in> set (cb t'). spares (teId t) c" "clock_ok (teId t) (tsStamp s) es"
    and "t0 \<le> tsStamp s" "1000 * teTicks t \<le> tsStamp s - t0" "tsStamp s - t0 \<le> 1000 * teTicks t + 999 * m" "in_time t t0 m (tsStamp s)"
  shows "(\<exists>t'. t' \<in> set (tsTimers (timer_run cb es s)) \<and> teId t' = teId t \<and> in_time t t0 (m + tick_count es) (tsStamp (timer_run cb es s))) \<or>
    (\<exists>es1 now es2. es = es1 @ Tick now # es2 \<and> fires_at cb s t now es1 t0 \<and> in_time t t0 (m + tick_count es1) (tsStamp (timer_run cb es1 s)))"
  using assms
proof (induction es arbitrary: s t m)
  case Nil
  then show ?case by auto
next
  case (Cons e es)
  let ?P = "\<lambda>s t m es. (\<exists>t'. t' \<in> set (tsTimers (timer_run cb es s)) \<and> teId t' = teId t \<and> in_time t t0 (m + tick_count es) (tsStamp (timer_run cb es s)))"
  let ?Q = "\<lambda>s t m es. \<exists>es1 now es2. es = es1 @ Tick now # es2 \<and> fires_at cb s t now es1 t0 \<and> in_time t t0 (m + tick_count es1) (tsStamp (timer_run cb es1 s))"
  show ?case
  proof (cases e)
    case (Call c)
    have "?P (timer_do c s) t m es \<or> ?Q (timer_do c s) t m es"
      by (rule Cons.IH) (use Cons.prems Call spared_do in auto)
    moreover have "?Q (timer_do c s) t m es \<Longrightarrow> ?Q s t m (e # es)"
      using Call by (fastforce simp: fires_at_def intro: exI [of _ "Call c # _"])
    ultimately show ?thesis using Call by auto
  next
    case (Tick now)
    have k: "tsStamp s \<le> now" "now - tsStamp s < 1000 * 2 ^ 32" "now < 2 ^ 64" "clock_ok (teId t) now es"
      using Cons.prems(3) Tick by simp_all
    let ?s1 = "TimerCallback cb now s"
    from Cons.prems(1,2) k(1-3) Cons.prems(4-6) show ?thesis
    proof (cases rule: tick_one)
      case (fires t')
      then have "fires_at cb s t now [] t0" by (auto simp: fires_at_def)
      then have "?Q s t m (e # es)" using Tick Cons.prems(7) by (auto intro!: exI [of _ "[]"])
      then show ?thesis by blast
    next
      case (waits t')
      have same: "teId t' = teId t" "teIntervalMs t' = teIntervalMs t"
        by (subst waits(2), simp)+
      have it: "in_time t' t0 n x = in_time t t0 n x" for n x by (simp add: in_time_def same(2))
      have "in_time t t0 (Suc m) (tsStamp ?s1)" using waits(3,5) TimerCallback_spec(3) [of cb now s] by (simp add: in_time_def)
      then have "?P ?s1 t' (Suc m) es \<or> ?Q ?s1 t' (Suc m) es"
        by (intro Cons.IH) (use waits Cons.prems(2,4) k TimerCallback_spec(3) [of cb now s] same it in auto)
      moreover have "?Q ?s1 t' (Suc m) es \<Longrightarrow> ?Q s t m (e # es)"
      proof -
        assume "?Q ?s1 t' (Suc m) es"
        then obtain es1 u es2 where "es = es1 @ Tick u # es2" "fires_at cb ?s1 t' u es1 t0"
          "in_time t' t0 (Suc m + tick_count es1) (tsStamp (timer_run cb es1 ?s1))" by blast
        then show "?Q s t m (e # es)" using Tick same it
          by (intro exI [of _ "Tick now # es1"] exI [of _ u] exI [of _ es2]) (auto simp: fires_at_def)
      qed
      moreover have "?P ?s1 t' (Suc m) es \<Longrightarrow> ?P s t m (e # es)" using Tick same it by auto
      ultimately show ?thesis by blast
    qed
  qed
qed

text \<open>
  C19: A timer is neither early nor late by more than the ticks allow. Followed from a tick, or
  from its creation, through any calls and ticks that do not touch it, it fires at a tick only
  when its interval has passed since the last tick before it was set, and it has fired at the
  latest when its interval and one millisecond for every tick have passed. The last tick
  before it was set may lie up to a whole tick period back, so a timer can fire that much
  before its interval is over.
\<close>

theorem timer_fires_on_time:
  assumes "t \<in> set (tsTimers s)" "teTicks t = 0" "\<forall>t'. \<forall>c \<in> set (cb t'). spares (teId t) c" "clock_ok (teId t) (tsStamp s) es"
  shows "(\<exists>t'. t' \<in> set (tsTimers (timer_run cb es s)) \<and> teId t' = teId t \<and>
       (tick_count es = 0 \<or> tsStamp (timer_run cb es s) - tsStamp s < 1000 * teIntervalMs t + 999 * tick_count es)) \<or>
    (\<exists>es1 now es2 t'. es = es1 @ Tick now # es2 \<and> t' \<in> set (due_now now (timer_run cb es1 s)) \<and> teId t' = teId t \<and>
       1000 * teIntervalMs t \<le> now - tsStamp s \<and>
       (tick_count es1 = 0 \<or> tsStamp (timer_run cb es1 s) - tsStamp s < 1000 * teIntervalMs t + 999 * tick_count es1))"
  using timer_followed [of t s cb es "tsStamp s" 0] assms by (fastforce simp: in_time_def fires_at_def)

subsection \<open>Every timer fires once, and a removed one never\<close>

definition timer_ids :: "timer_svc \<Rightarrow> int list" where
  "timer_ids s = List.map teId (tsTimers s) @ List.map teId (tsPending s) @ List.map teId (tsFired s)"

text \<open>All ids are different, and at least \<open>k\<close> more can be given out before the counter starts again.\<close>

definition ids_fresh :: "nat \<Rightarrow> timer_svc \<Rightarrow> bool" where
  "ids_fresh k s \<longleftrightarrow> distinct (timer_ids s) \<and> (\<forall>i \<in> set (timer_ids s). i < tsNextId s) \<and> tsNextId s + int k \<le> MAX_TIMER_ID"

lemma ids_fresh_mono: "ids_fresh k s \<Longrightarrow> j \<le> k \<Longrightarrow> ids_fresh j s"
  by (simp add: ids_fresh_def)

lemma erase_timer_ids: "List.map teId (erase_timer i ts) = remove1 i (List.map teId ts)"
  by (induction ts) auto

lemma update_timer_ids: "(\<And>t. teId (f t) = teId t) \<Longrightarrow> List.map teId (update_timer i f ts) = List.map teId ts"
  by (induction ts) auto

lemma update_timer_id_set: "(\<And>t. teId (f t) = teId t) \<Longrightarrow> teId ` set (update_timer i f ts) = teId ` set ts"
  by (induction ts) auto

lemma ids_fresh_do: "ids_fresh (Suc k) s \<Longrightarrow> ids_fresh k (timer_do c s)"
proof (cases c)
  case (Add secs ev param)
  then show "ids_fresh (Suc k) s \<Longrightarrow> ?thesis"
    by (cases ev) (auto simp: ids_fresh_def timer_ids_def AddTimer_def new_timer_id_def MAX_TIMER_ID_def ball_Un intro: less_imp_le)
next
  case (Remove i)
  then show "ids_fresh (Suc k) s \<Longrightarrow> ?thesis"
    by (auto simp: ids_fresh_def timer_ids_def RemoveTimer_def erase_timer_ids dest: notin_set_remove1 set_mp [OF set_remove1_subset])
next
  case (Reset i)
  then show "ids_fresh (Suc k) s \<Longrightarrow> ?thesis"
    by (simp add: ids_fresh_def timer_ids_def ResetTimer_def update_timer_ids update_timer_id_set)
next
  case (Adjust i iv)
  then show "ids_fresh (Suc k) s \<Longrightarrow> ?thesis"
    by (simp add: ids_fresh_def timer_ids_def AdjustTimer_def update_timer_ids update_timer_id_set)
qed

lemma ids_fresh_dos: "ids_fresh (k + length cs) s \<Longrightarrow> ids_fresh k (fold timer_do cs s)"
  by (induction cs arbitrary: s) (auto intro: ids_fresh_do)

text \<open>A tick moves ids from one list to the other; its callbacks are calls.\<close>

lemma advance_timer_id [simp]: "teId (advance_timer d t) = teId t"
  by (simp add: advance_timer_def)

lemma mset_partition_ids: "mset (List.map f (filter (\<lambda>x. \<not> P x) xs)) + mset (List.map f (filter P xs)) = mset (List.map f xs)"
  by (induction xs) auto

lemma ids_fresh_mset:
  assumes "mset (timer_ids s') = mset (timer_ids s)" "tsNextId s' = tsNextId s" "ids_fresh k s"
  shows "ids_fresh k s'"
  using assms mset_eq_setD [OF assms(1)] mset_eq_imp_distinct_iff [OF assms(1)] by (simp add: ids_fresh_def)

text \<open>A tick is a redistribution of the timers followed by the calls of the callbacks.\<close>

definition after_tick :: "nat \<Rightarrow> timer_svc \<Rightarrow> timer_svc" where
  "after_tick now s = s\<lparr>tsTimers := left_now now s, tsPending := [], tsFired := tsFired s @ due_now now s\<rparr>"

lemma TimerCallback_after:
  "timer_ids (TimerCallback cb now s) = timer_ids (fold timer_do (concat (List.map cb (due_now now s))) (after_tick now s))"
  "timers_eq (TimerCallback cb now s) (fold timer_do (concat (List.map cb (due_now now s))) (after_tick now s))"
proof -
  let ?cs = "concat (List.map cb (due_now now s))"
  have "timers_eq (fold timer_do ?cs (s\<lparr>tsTimers := left_now now s\<rparr>)) (fold timer_do ?cs (after_tick now s))"
    by (rule timers_eq_dos) (simp add: timers_eq_def after_tick_def)
  then show "timers_eq (TimerCallback cb now s) (fold timer_do ?cs (after_tick now s))"
    using TimerCallback_spec(4) [of cb now s] by (simp add: timers_eq_def)
  then show "timer_ids (TimerCallback cb now s) = timer_ids (fold timer_do ?cs (after_tick now s))"
    using TimerCallback_spec(1,2) [of cb now s] by (simp add: timers_eq_def timer_ids_def after_tick_def)
qed

lemma ids_fresh_after: "ids_fresh k s \<Longrightarrow> ids_fresh k (after_tick now s)"
proof (rule ids_fresh_mset)
  let ?d = "tick_interval now (tsStamp s)"
  have ids: "List.map teId (List.map (advance_timer ?d) (tsTimers s)) = List.map teId (tsTimers s)" by simp
  have "mset (timer_ids (after_tick now s)) = mset (List.map teId (left_now now s)) +
      mset (List.map teId (filter timer_due (List.map (advance_timer ?d) (tsTimers s)))) +
      mset (List.map teId (tsPending s)) + mset (List.map teId (tsFired s))"
    by (simp add: timer_ids_def due_now_def after_tick_def)
  also have "\<dots> = mset (List.map teId (tsTimers s)) + mset (List.map teId (tsPending s)) + mset (List.map teId (tsFired s))"
    unfolding left_now_def mset_partition_ids ids ..
  finally show "mset (timer_ids (after_tick now s)) = mset (timer_ids s)" by (simp add: timer_ids_def)
qed (simp_all add: after_tick_def)

lemma ids_fresh_tick:
  assumes "ids_fresh (k + length (concat (List.map cb (due_now now s)))) s"
  shows "ids_fresh k (TimerCallback cb now s)"
  using ids_fresh_dos [OF ids_fresh_after [OF assms], of now] TimerCallback_after [of cb now s]
  by (simp add: ids_fresh_def timers_eq_def)

text \<open>How many calls a history makes.\<close>

primrec calls_made :: "(timer_entry \<Rightarrow> timer_call list) \<Rightarrow> timer_event list \<Rightarrow> timer_svc \<Rightarrow> nat" where
  "calls_made cb [] s = 0"
| "calls_made cb (e # es) s = (case e of Call c \<Rightarrow> 1 | Tick now \<Rightarrow> length (concat (List.map cb (due_now now s)))) +
     calls_made cb es (timer_step cb e s)"

lemma ids_fresh_run: "ids_fresh (k + calls_made cb es s) s \<Longrightarrow> ids_fresh k (timer_run cb es s)"
proof (induction es arbitrary: s)
  case (Cons e es)
  have "ids_fresh (k + calls_made cb es (timer_step cb e s)) (timer_step cb e s)"
  proof (cases e)
    case (Tick now)
    then show ?thesis using Cons.prems
      by (auto intro!: ids_fresh_tick intro: ids_fresh_mono)
  next
    case (Call c)
    then show ?thesis using Cons.prems by (auto intro: ids_fresh_do)
  qed
  then show ?case using Cons.IH by simp
qed simp

lemma timer_run_fired: "\<exists>ts. tsFired (timer_run cb es s) = tsFired s @ ts"
proof (induction es arbitrary: s)
  case (Cons e es)
  have "\<exists>ts. tsFired (timer_step cb e s) = tsFired s @ ts"
    using TimerCallback_spec(1) by (cases e) auto
  then show ?case using Cons.IH [of "timer_step cb e s"] by auto
qed simp

text \<open>An id that is neither ticking nor pending, and has been given out, does not come back.\<close>

definition gone :: "int \<Rightarrow> timer_svc \<Rightarrow> bool" where
  "gone i s \<longleftrightarrow> i < tsNextId s \<and> i \<notin> teId ` set (tsTimers s) \<union> teId ` set (tsPending s)"

lemma gone_do: "gone i s \<Longrightarrow> ids_fresh (Suc k) s \<Longrightarrow> gone i (timer_do c s)"
proof (cases c)
  case (Add secs ev param)
  then show "gone i s \<Longrightarrow> ids_fresh (Suc k) s \<Longrightarrow> ?thesis"
    by (cases ev) (auto simp: gone_def ids_fresh_def AddTimer_def new_timer_id_def MAX_TIMER_ID_def)
next
  case (Remove j)
  have "set (erase_timer j ts) \<subseteq> set ts" for ts by (induction ts) auto
  then show "gone i s \<Longrightarrow> ?thesis" using Remove by (auto simp: gone_def RemoveTimer_def)
next
  case (Reset j)
  then show "gone i s \<Longrightarrow> ?thesis" using Reset by (simp add: gone_def ResetTimer_def update_timer_id_set)
next
  case (Adjust j iv)
  then show "gone i s \<Longrightarrow> ?thesis" using Adjust by (simp add: gone_def AdjustTimer_def update_timer_id_set)
qed

lemma gone_dos: "gone i s \<Longrightarrow> ids_fresh (k + length cs) s \<Longrightarrow> gone i (fold timer_do cs s)"
  by (induction cs arbitrary: s) (auto intro: gone_do ids_fresh_do)

lemma gone_tick:
  assumes "gone i s" "ids_fresh (k + length (concat (List.map cb (due_now now s)))) s"
  shows "gone i (TimerCallback cb now s)" "i \<notin> teId ` set (due_now now s)"
proof -
  have "gone i (after_tick now s)" using assms(1) by (auto simp: gone_def left_now_def after_tick_def)
  then have "gone i (fold timer_do (concat (List.map cb (due_now now s))) (after_tick now s))"
    by (rule gone_dos) (rule ids_fresh_after [OF assms(2)])
  then show "gone i (TimerCallback cb now s)"
    using TimerCallback_after(2) [of cb now s] TimerCallback_spec(2) [of cb now s] by (simp add: gone_def timers_eq_def)
  show "i \<notin> teId ` set (due_now now s)" using assms(1) by (auto simp: gone_def due_now_def)
qed

lemma gone_run:
  "gone i s \<Longrightarrow> ids_fresh (calls_made cb es s) s \<Longrightarrow> i \<notin> teId ` set (drop (length (tsFired s)) (tsFired (timer_run cb es s)))"
proof (induction es arbitrary: s)
  case (Cons e es)
  let ?s1 = "timer_step cb e s"
  have fresh: "ids_fresh (calls_made cb es ?s1 + (case e of Call c \<Rightarrow> 1 | Tick now \<Rightarrow> length (concat (List.map cb (due_now now s))))) s"
    using Cons.prems(2) by (simp add: add.commute)
  have s1: "gone i ?s1 \<and> ids_fresh (calls_made cb es ?s1) ?s1 \<and> (\<exists>new. tsFired ?s1 = tsFired s @ new \<and> i \<notin> teId ` set new)"
  proof (cases e)
    case (Tick now)
    then show ?thesis using gone_tick [OF Cons.prems(1), of "calls_made cb es ?s1" cb now] ids_fresh_tick [of "calls_made cb es ?s1" cb now s]
        fresh TimerCallback_spec(1) [of cb now s] by simp
  next
    case (Call c)
    then show ?thesis using fresh gone_do [OF Cons.prems(1)] ids_fresh_do by auto
  qed
  then obtain new where new: "tsFired ?s1 = tsFired s @ new" "i \<notin> teId ` set new" by blast
  obtain rest where rest: "tsFired (timer_run cb es ?s1) = tsFired ?s1 @ rest" using timer_run_fired by blast
  have "i \<notin> teId ` set rest" using Cons.IH [of ?s1] s1 rest by simp
  then show ?case using new rest by auto
qed simp

text \<open>
  C20: From the start of the service, as long as fewer than \<open>2^31 - 2\<close> calls are made, no timer
  fires twice, and a timer whose removal was answered with 0 never fires, whatever calls and
  ticks follow.
\<close>

theorem timer_fires_once_or_never:
  assumes "s = timer_run cb es (new_timer_svc t0)" "RemoveTimer i s = (0, s1)" "s2 = timer_run cb es' s1"
    and "calls_made cb es (new_timer_svc t0) + calls_made cb es' s1 < 2 ^ 31 - 2"
  shows "distinct (List.map teId (tsFired s2)) \<and> i \<notin> teId ` set (drop (length (tsFired s)) (tsFired s2))"
proof -
  let ?n = "calls_made cb es' s1"
  have "ids_fresh (Suc ?n + calls_made cb es (new_timer_svc t0)) (new_timer_svc t0)"
    using assms(4) by (simp add: ids_fresh_def timer_ids_def new_timer_svc_def MAX_TIMER_ID_def)
  then have f: "ids_fresh (Suc ?n) s" unfolding assms(1) by (rule ids_fresh_run)
  have s1: "s1 = timer_do (Remove i) s" "has_timer i (tsTimers s)" using assms(2) by (auto simp: RemoveTimer_def split: if_splits)
  have f1: "ids_fresh ?n s1" using ids_fresh_do [OF f, of "Remove i"] s1(1) by simp
  have "distinct (timer_ids s)" "\<forall>j \<in> set (timer_ids s). j < tsNextId s" using f by (simp_all add: ids_fresh_def)
  then have "i < tsNextId s" "i \<notin> teId ` set (tsPending s)" "i \<notin> set (remove1 i (List.map teId (tsTimers s)))"
    using s1(2) by (auto simp: timer_ids_def has_timer_def)
  then have g: "gone i s1" using s1(1) by (simp add: gone_def RemoveTimer_def flip: erase_timer_ids)
  have "tsFired s1 = tsFired s" using s1(1) by (simp add: RemoveTimer_def)
  then have "i \<notin> teId ` set (drop (length (tsFired s)) (tsFired s2))"
    using gone_run [OF g f1] assms(3) by simp
  moreover have "ids_fresh 0 s2" using ids_fresh_run [of 0 cb es' s1] f1 assms(3) by simp
  ultimately show ?thesis by (simp add: ids_fresh_def timer_ids_def)
qed

subsection \<open>Examples\<close>

definition wit_timer :: timer_entry where
  "wit_timer = \<lparr>teId = 1, teIntervalMs = 1000, teTicks = 0, teParam = 7, teCallback = 3\<rparr>"

definition wit_svc :: timer_svc where
  "wit_svc = snd (AddTimer 1 (Some 3) 7 (new_timer_svc 5000))"

lemma wit_svc: "tsTimers wit_svc = [wit_timer]" "tsStamp wit_svc = 5000" "tsPending wit_svc = []" "tsFired wit_svc = []" "tsNextId wit_svc = 2"
  by (simp_all add: wit_svc_def wit_timer_def AddTimer_def new_timer_id_def new_timer_svc_def MAX_TIMER_ID_def)

lemma timer_fires_on_time_witness:
  "(\<exists>t'. t' \<in> set (tsTimers (timer_run (\<lambda>_. []) [Tick 505000, Tick 1005000] wit_svc)) \<and> teId t' = teId wit_timer \<and>
       (tick_count [Tick 505000, Tick 1005000] = 0 \<or>
        tsStamp (timer_run (\<lambda>_. []) [Tick 505000, Tick 1005000] wit_svc) - tsStamp wit_svc <
          1000 * teIntervalMs wit_timer + 999 * tick_count [Tick 505000, Tick 1005000])) \<or>
    (\<exists>es1 now es2 t'. [Tick 505000, Tick 1005000] = es1 @ Tick now # es2 \<and> t' \<in> set (due_now now (timer_run (\<lambda>_. []) es1 wit_svc)) \<and>
       teId t' = teId wit_timer \<and> 1000 * teIntervalMs wit_timer \<le> now - tsStamp wit_svc \<and>
       (tick_count es1 = 0 \<or> tsStamp (timer_run (\<lambda>_. []) es1 wit_svc) - tsStamp wit_svc < 1000 * teIntervalMs wit_timer + 999 * tick_count es1))"
  by (rule timer_fires_on_time) (simp_all add: wit_svc, simp add: wit_timer_def)

lemma timer_fires_once_or_never_witness:
  "distinct (List.map teId (tsFired (timer_run (\<lambda>_. []) [Tick 2005000] (snd (RemoveTimer 1 (timer_run (\<lambda>_. []) [Call (Add 1 (Some 3) 7)] (new_timer_svc 5000))))))) \<and>
   1 \<notin> teId ` set (drop (length (tsFired (timer_run (\<lambda>_. []) [Call (Add 1 (Some 3) 7)] (new_timer_svc 5000))))
     (tsFired (timer_run (\<lambda>_. []) [Tick 2005000] (snd (RemoveTimer 1 (timer_run (\<lambda>_. []) [Call (Add 1 (Some 3) 7)] (new_timer_svc 5000)))))))"
proof (rule timer_fires_once_or_never [OF refl _ refl])
  have s: "timer_run (\<lambda>_. []) [Call (Add 1 (Some 3) 7)] (new_timer_svc 5000) = wit_svc" by (simp add: wit_svc_def)
  have "has_timer 1 (tsTimers wit_svc)" by (simp add: wit_svc has_timer_def wit_timer_def)
  then show "RemoveTimer 1 (timer_run (\<lambda>_. []) [Call (Add 1 (Some 3) 7)] (new_timer_svc 5000)) =
     (0, snd (RemoveTimer 1 (timer_run (\<lambda>_. []) [Call (Add 1 (Some 3) 7)] (new_timer_svc 5000))))"
    unfolding s by (simp add: RemoveTimer_def)
  have c: "length (concat (List.map (\<lambda>_. []) ts)) = 0" for ts :: "timer_entry list" by simp
  show "calls_made (\<lambda>_. []) [Call (Add 1 (Some 3) 7)] (new_timer_svc 5000) +
    calls_made (\<lambda>_. []) [Tick 2005000] (snd (RemoveTimer 1 (timer_run (\<lambda>_. []) [Call (Add 1 (Some 3) 7)] (new_timer_svc 5000)))) < 2 ^ 31 - 2"
    by (simp add: c)
qed

end
