(* ===== verification/TaskGroup.thy ===== *)
theory TaskGroup
  imports Prelude
begin

text \<open>
  The task groups \<open>CIfTaskGroup\<close> and \<open>CIfRootTaskGroup\<close> of \<open>ipc/iftasks.cpp\<close> and
  \<open>ipc/iftasks.h\<close>: a queue of tasks run one after the other, whose results decide whether the
  rest is still run (\<open>logicAND\<close>, \<open>logicOR\<close>, \<open>logicNONE\<close>) or cancelled.

  A task is a number. While a task runs, the lock of the group is released: what its call
  answers, and the calls that reach the group in the meantime (the task's own completion among
  them), are given by an environment that may answer differently at every call.
\<close>

subsection \<open>State\<close>

abbreviation (input) ERROR_CANCEL_INSTEAD :: int where "ERROR_CANCEL_INSTEAD \<equiv> -2147418097"

datatype logic_op = logicAND | logicOR | logicNONE
datatype task_state = grpStarting | grpStarted | grpStopped

text \<open>
  \<open>tgCtxCancel\<close>: the property \<open>propContext\<close> is set to \<open>eventCancelTask\<close>. \<open>tgRan\<close> logs the
  tasks called, with \<open>True\<close> for a call that cancels, \<open>tgResched\<close> counts the calls of
  \<open>RescheduleTask\<close>, and \<open>tgResult\<close> is what \<open>OnComplete\<close> has reported.
\<close>

record task_group =
  tgRel :: logic_op
  tgState :: task_state
  tgRunning :: bool
  tgCanceling :: bool
  tgNoSched :: bool
  tgCtxCancel :: bool
  tgQueue :: "nat list"
  tgRetVals :: "int list"
  tgRan :: "(nat \<times> bool) list"
  tgResched :: nat
  tgResult :: "int option"

definition new_task_group :: "logic_op \<Rightarrow> task_group" where
  "new_task_group rel = \<lparr>tgRel = rel, tgState = grpStarting, tgRunning = False, tgCanceling = False, tgNoSched = False,
     tgCtxCancel = False, tgQueue = [], tgRetVals = [], tgRan = [], tgResched = 0, tgResult = None\<rparr>"

subsection \<open>The queue\<close>

definition PopTask :: "task_group \<Rightarrow> task_group" where
  "PopTask g = g\<lparr>tgQueue := tl (tgQueue g)\<rparr>"

definition SetCanceling :: "bool \<Rightarrow> task_group \<Rightarrow> task_group" where
  "SetCanceling bCancel g = g\<lparr>tgCanceling := bCancel, tgRunning := \<not> bCancel, tgCtxCancel := bCancel\<rparr>"

definition InsertTask :: "nat \<Rightarrow> task_group \<Rightarrow> int \<times> task_group" where
  "InsertTask pTask g =
    (if tgState g \<noteq> grpStarting then (ERROR_STATE, g) else (0, g\<lparr>tgQueue := pTask # tgQueue g\<rparr>))"

definition AppendTask :: "nat \<Rightarrow> task_group \<Rightarrow> int \<times> task_group" where
  "AppendTask pTask g =
    (if tgState g = grpStopped then (ERROR_STATE, g)
     else if tgState g = grpStarted \<and> \<not> tgRunning g then (ERROR_STATE, g)
     else (0, g\<lparr>tgQueue := tgQueue g @ [pTask]\<rparr>))"

definition RemoveTask :: "nat \<Rightarrow> task_group \<Rightarrow> int \<times> task_group" where
  "RemoveTask pTask g =
    (if pTask \<in> set (tgQueue g) then (0, g\<lparr>tgQueue := remove1 pTask (tgQueue g)\<rparr>) else (- ENOENT, g))"

definition GetHeadTask :: "task_group \<Rightarrow> int \<times> nat option" where
  "GetHeadTask g = (case tgQueue g of [] \<Rightarrow> (- ENOENT, None) | t # _ \<Rightarrow> (0, Some t))"

definition GetTailTask :: "task_group \<Rightarrow> int \<times> nat option" where
  "GetTailTask g = (if tgQueue g = [] then (- ENOENT, None) else (0, Some (last (tgQueue g))))"

subsection \<open>Completion of a task\<close>

definition RescheduleTask :: "task_group \<Rightarrow> task_group" where
  "RescheduleTask g = g\<lparr>tgResched := Suc (tgResched g)\<rparr>"

definition OnChildComplete :: "int \<Rightarrow> nat \<Rightarrow> task_group \<Rightarrow> int \<times> task_group" where
  "OnChildComplete iRet pChild g =
    (if tgQueue g = [] \<or> hd (tgQueue g) \<noteq> pChild then (- ENOENT, g)
     else let g1 = (PopTask g)\<lparr>tgRetVals := tgRetVals g @ [iRet]\<rparr> in
       if tgNoSched g1 then (0, g1) else (0, RescheduleTask g1))"

text \<open>The root group is not scheduled again when its queue is empty.\<close>

definition RootOnChildComplete :: "int \<Rightarrow> nat \<Rightarrow> task_group \<Rightarrow> int \<times> task_group" where
  "RootOnChildComplete iRet pChild g =
    (if tgQueue g = [] \<or> hd (tgQueue g) \<noteq> pChild then (- ENOENT, g)
     else let g1 = (PopTask g)\<lparr>tgRetVals := tgRetVals g @ [iRet]\<rparr> in
       if tgNoSched g1 then (0, g1)
       else if tgQueue g1 = [] then (0, g1\<lparr>tgRetVals := []\<rparr>)
       else (0, RescheduleTask g1))"

subsection \<open>Running the tasks\<close>

text \<open>Calls of the group while a task runs; the group does not reschedule itself then.\<close>

datatype group_call = CallAppend nat | CallInsert nat | CallRemove nat | CallComplete nat int | CallCancel

definition request_cancel :: "task_group \<Rightarrow> task_group" where
  "request_cancel g = (if tgState g = grpStopped \<or> tgCanceling g then g else SetCanceling True g)"

primrec group_do :: "group_call \<Rightarrow> task_group \<Rightarrow> task_group" where
  "group_do (CallAppend t) g = snd (AppendTask t g)"
| "group_do (CallInsert t) g = snd (InsertTask t g)"
| "group_do (CallRemove t) g = snd (RemoveTask t g)"
| "group_do (CallComplete t ret) g = snd (OnChildComplete ret t g)"
| "group_do CallCancel g = request_cancel g"

text \<open>What a call of a task does: its result, the calls meanwhile, and its result read again.\<close>

record child_run =
  crRet :: int
  crCalls :: "group_call list"
  crRecheck :: int

type_synonym task_env = "nat \<Rightarrow> nat \<Rightarrow> bool \<Rightarrow> child_run"

definition run_child :: "task_env \<Rightarrow> nat \<Rightarrow> bool \<Rightarrow> task_group \<Rightarrow> child_run \<times> task_group" where
  "run_child env pTask bCancel g =
    (let r = env (length (tgRan g)) pTask bCancel in
     (r, (fold group_do (crCalls r) (g\<lparr>tgNoSched := True, tgRan := tgRan g @ [(pTask, bCancel)]\<rparr>))\<lparr>tgNoSched := False\<rparr>))"

definition stops_rest :: "logic_op \<Rightarrow> int \<Rightarrow> bool" where
  "stops_rest rel ret \<longleftrightarrow> ERROR ret \<and> rel = logicAND \<or> \<not> ERROR ret \<and> rel = logicOR"

text \<open>A task that has gone from the queue without a result counts as failed.\<close>

definition settle_result :: "nat \<Rightarrow> child_run \<Rightarrow> task_group \<Rightarrow> int \<times> task_group" where
  "settle_result pTask r g =
    (let ret = (if crRet r = STATUS_MORE_PROCESS_NEEDED then STATUS_PENDING else crRet r) in
     if (tgQueue g = [] \<or> hd (tgQueue g) \<noteq> pTask) \<and> ret = STATUS_PENDING then
       if crRecheck r = STATUS_PENDING then (ERROR_STATE, g\<lparr>tgRetVals := tgRetVals g @ [ERROR_STATE]\<rparr>) else (crRecheck r, g)
     else (ret, g))"

partial_function (option) run_loop :: "task_env \<Rightarrow> nat option \<Rightarrow> int \<Rightarrow> task_group \<Rightarrow> (int \<times> task_group) option" where
  "run_loop env pPrevTask ret g = (case tgQueue g of
      [] \<Rightarrow> Some (ret, g)
    | pTask # rest \<Rightarrow>
       if pPrevTask = Some pTask then run_loop env pPrevTask ret (g\<lparr>tgQueue := rest\<rparr>)
       else (case run_child env pTask False g of (r, g1) \<Rightarrow>
         if tgCanceling g1 \<and> tgQueue g1 \<noteq> [] then Some (ERROR_CANCEL_INSTEAD, g1)
         else (case settle_result pTask r g1 of (ret1, g2) \<Rightarrow>
           if ret1 = STATUS_PENDING then Some (ret1, g2)
           else if stops_rest (tgRel g2) ret1 \<and> tgQueue g2 \<noteq> [] then Some (ERROR_CANCEL_INSTEAD, SetCanceling True g2)
           else run_loop env (Some pTask) ret1 g2)))"

definition RunTaskInternal :: "task_env \<Rightarrow> task_group \<Rightarrow> (int \<times> task_group) option" where
  "RunTaskInternal env g =
    (if tgState g = grpStopped then Some (STATUS_PENDING, g)
     else if tgCanceling g then Some (ERROR_CANCEL_INSTEAD, g)
     else if \<not> tgRunning g \<and> tgState g = grpStarted then Some (STATUS_PENDING, g)
     else if tgNoSched g then Some (STATUS_PENDING, g)
     else let g1 = (if tgState g = grpStarting then g\<lparr>tgState := grpStarted, tgRunning := True\<rparr> else g) in
       if tgRetVals g1 \<noteq> [] \<and> stops_rest (tgRel g1) (last (tgRetVals g1)) \<and> tgQueue g1 \<noteq> []
       then Some (ERROR_CANCEL_INSTEAD, SetCanceling True g1)
       else map_option (\<lambda>(ret, g2). (ret, if ret = ERROR_CANCEL_INSTEAD \<or> ret = STATUS_PENDING then g2 else g2\<lparr>tgRunning := False\<rparr>))
         (run_loop env None (if tgRetVals g1 = [] then 0 else last (tgRetVals g1)) g1))"

text \<open>The rest of the queue is cancelled one by one.\<close>

partial_function (option) cancel_loop :: "task_env \<Rightarrow> nat option \<Rightarrow> int \<Rightarrow> task_group \<Rightarrow> (int \<times> task_group) option" where
  "cancel_loop env pPrevTask ret g = (case tgQueue g of
      [] \<Rightarrow> Some (ret, g)
    | pTask # rest \<Rightarrow>
       if pPrevTask = Some pTask then cancel_loop env pPrevTask ret (g\<lparr>tgQueue := rest\<rparr>)
       else (case run_child env pTask True g of (r, g1) \<Rightarrow>
         if crRet r = STATUS_MORE_PROCESS_NEEDED \<or> crRet r = STATUS_PENDING then Some (STATUS_PENDING, g1)
         else cancel_loop env (Some pTask) (crRet r) g1))"

text \<open>The result is the last one before the first \<open>-ECANCELED\<close>.\<close>

definition cancel_result :: "int list \<Rightarrow> int" where
  "cancel_result vecRetVals = (case takeWhile (\<lambda>i. i \<noteq> - ECANCELED) vecRetVals of [] \<Rightarrow> - ECANCELED | xs \<Rightarrow> last xs)"

definition OnCancel :: "task_env \<Rightarrow> task_group \<Rightarrow> (int \<times> task_group) option" where
  "OnCancel env g =
    (if tgState g = grpStopped then Some (STATUS_PENDING, g)
     else let g1 = (if tgCanceling g then g else SetCanceling True g) in
       if tgNoSched g1 then Some (STATUS_PENDING, g1)
       else let g2 = (if tgState g1 = grpStarting then g1\<lparr>tgState := grpStarted\<rparr> else g1) in
         map_option (\<lambda>(ret, g3). (if ret = STATUS_PENDING then ret else cancel_result (tgRetVals g3), g3))
           (cancel_loop env None (- ECANCELED) g2))"

definition RunTask :: "task_env \<Rightarrow> task_group \<Rightarrow> (int \<times> task_group) option" where
  "RunTask env g = (case RunTaskInternal env g of
      Some (ret, g1) \<Rightarrow> if ret = ERROR_CANCEL_INSTEAD then OnCancel env g1 else Some (ret, g1)
    | None \<Rightarrow> None)"

definition OnRetry :: "task_env \<Rightarrow> task_group \<Rightarrow> (int \<times> task_group) option" where
  "OnRetry env g = RunTask env (g\<lparr>tgRetVals := []\<rparr>)"

definition OnComplete :: "int \<Rightarrow> task_group \<Rightarrow> int \<times> task_group" where
  "OnComplete iRet g =
    (if tgState g = grpStopped then (ERROR_STATE, g)
     else (iRet, g\<lparr>tgState := grpStopped, tgResult := Some iRet, tgCtxCancel := False\<rparr>))"

text \<open>
  \<open>Process\<close> of the group and of \<open>CIfRetryTask\<close>: the property \<open>propContext\<close> overrides the context
  of the call; a result that is not pending completes the group. \<open>bCanRetry\<close> is \<open>CanRetry()\<close>.
\<close>

abbreviation (input) ERROR_TIMEOUT :: int where "ERROR_TIMEOUT \<equiv> -110"
abbreviation (input) ERROR_USER_CANCEL :: int where "ERROR_USER_CANCEL \<equiv> -2147418100"

datatype task_ctx = eventZero | eventTimeoutRetry | eventCancelTask | eventTimeoutCancel | eventUserCancel

definition Retriable :: "bool \<Rightarrow> int \<Rightarrow> bool" where
  "Retriable bCanRetry iRet \<longleftrightarrow> (iRet = STATUS_MORE_PROCESS_NEEDED \<or> iRet = - EAGAIN) \<and> bCanRetry"

definition dispatch_context :: "task_env \<Rightarrow> task_ctx \<Rightarrow> task_group \<Rightarrow> (int \<times> task_group) option" where
  "dispatch_context env ctx g = (case ctx of
      eventZero \<Rightarrow> RunTask env g
    | eventTimeoutRetry \<Rightarrow> OnRetry env g
    | eventCancelTask \<Rightarrow> map_option (\<lambda>(ret, g1). (if ret \<noteq> STATUS_PENDING then - ECANCELED else ret, g1)) (OnCancel env g)
    | eventTimeoutCancel \<Rightarrow> map_option (\<lambda>(ret, g1). (ERROR_TIMEOUT, g1)) (OnCancel env g)
    | eventUserCancel \<Rightarrow> map_option (\<lambda>(ret, g1). (ERROR_USER_CANCEL, g1)) (OnCancel env g))"

definition complete_run :: "bool \<Rightarrow> (int \<times> task_group) option \<Rightarrow> (int \<times> task_group) option" where
  "complete_run bCanRetry x = (case x of
      None \<Rightarrow> None
    | Some (ret, g) \<Rightarrow>
        if ret = STATUS_PENDING then Some (ret, g)
        else if Retriable bCanRetry ret then Some (STATUS_MORE_PROCESS_NEEDED, g)
        else let ret1 = (if ret = - EAGAIN then ERROR_FAIL else ret) in Some (ret1, snd (OnComplete ret1 g)))"

definition Process :: "task_env \<Rightarrow> bool \<Rightarrow> task_ctx \<Rightarrow> task_group \<Rightarrow> (int \<times> task_group) option" where
  "Process env bCanRetry ctx g =
    (if tgState g = grpStopped then Some (ERROR_STATE, g)
     else complete_run bCanRetry (dispatch_context env (if tgCtxCancel g then eventCancelTask else ctx) g))"

subsection \<open>The reference\<close>

text \<open>
  What a group computes of the results of its tasks: which tasks run, which are cancelled, and
  the result; \<open>vs\<close> are the results so far.
\<close>

fun group_spec :: "logic_op \<Rightarrow> (nat \<Rightarrow> int) \<Rightarrow> nat list \<Rightarrow> int list \<Rightarrow> int \<times> (nat \<times> bool) list" where
  "group_spec rel r [] vs = (if vs = [] then 0 else last vs, [])"
| "group_spec rel r (t # ts) vs =
    (if stops_rest rel (r t) \<and> ts \<noteq> [] then
       (cancel_result (vs @ r t # List.map (\<lambda>_. - ECANCELED) ts), (t, False) # List.map (\<lambda>u. (u, True)) ts)
     else (case group_spec rel r ts (vs @ [r t]) of (ret, log) \<Rightarrow> (ret, (t, False) # log)))"

text \<open>
  Tasks that answer with their result at once, or that are pending and complete later, and that
  accept being cancelled.
\<close>

definition regular_env :: "(nat \<Rightarrow> bool) \<Rightarrow> (nat \<Rightarrow> int) \<Rightarrow> task_env" where
  "regular_env async r n t bCancel =
    (if bCancel then \<lparr>crRet = - ECANCELED, crCalls = [CallComplete t (- ECANCELED)], crRecheck = - ECANCELED\<rparr>
     else if async t then \<lparr>crRet = STATUS_PENDING, crCalls = [], crRecheck = STATUS_PENDING\<rparr>
     else \<lparr>crRet = r t, crCalls = [CallComplete t (r t)], crRecheck = r t\<rparr>)"

definition final_result :: "int \<Rightarrow> bool" where
  "final_result i \<longleftrightarrow> i \<noteq> STATUS_PENDING \<and> i \<noteq> STATUS_MORE_PROCESS_NEEDED \<and> i \<noteq> ERROR_CANCEL_INSTEAD \<and> i \<noteq> - EAGAIN"

text \<open>The group is run, and scheduled again when the pending task at its head has completed.\<close>

primrec drive_from :: "nat \<Rightarrow> bool \<Rightarrow> task_env \<Rightarrow> (nat \<Rightarrow> int) \<Rightarrow> (int \<times> task_group) option \<Rightarrow> (int \<times> task_group) option" where
  "drive_from 0 cr env r x = (case x of Some (ret, g) \<Rightarrow> if ret = STATUS_PENDING then None else Some (ret, g) | None \<Rightarrow> None)"
| "drive_from (Suc n) cr env r x = (case x of Some (ret, g) \<Rightarrow>
      if ret = STATUS_PENDING then
        (case tgQueue g of [] \<Rightarrow> None | t # _ \<Rightarrow> drive_from n cr env r (Process env cr eventZero (snd (OnChildComplete (r t) t g))))
      else Some (ret, g) | None \<Rightarrow> None)"

definition drive :: "nat \<Rightarrow> bool \<Rightarrow> task_env \<Rightarrow> (nat \<Rightarrow> int) \<Rightarrow> task_group \<Rightarrow> (int \<times> task_group) option" where
  "drive n cr env r g = drive_from n cr env r (Process env cr eventZero g)"

text \<open>A group whose task is to be started, with the results \<open>vs\<close> so far.\<close>

definition ready :: "nat list \<Rightarrow> int list \<Rightarrow> (nat \<times> bool) list \<Rightarrow> task_group \<Rightarrow> bool" where
  "ready ts vs log g \<longleftrightarrow> tgState g = grpStarted \<and> tgRunning g \<and> \<not> tgCanceling g \<and> \<not> tgNoSched g \<and> \<not> tgCtxCancel g \<and> tgQueue g = ts \<and>
     tgRetVals g = vs \<and> tgRan g = log"

definition finish_run :: "task_env \<Rightarrow> (int \<times> task_group) option \<Rightarrow> (int \<times> task_group) option" where
  "finish_run env x = (case map_option (\<lambda>(ret, g2). (ret, if ret = ERROR_CANCEL_INSTEAD \<or> ret = STATUS_PENDING then g2 else g2\<lparr>tgRunning := False\<rparr>)) x of
      Some (ret, g1) \<Rightarrow> if ret = ERROR_CANCEL_INSTEAD then OnCancel env g1 else Some (ret, g1)
    | None \<Rightarrow> None)"

lemma Process_ready:
  assumes "ready ts vs log g"
  shows "Process env cr eventZero g = complete_run cr
    (if vs \<noteq> [] \<and> stops_rest (tgRel g) (last vs) \<and> ts \<noteq> [] then OnCancel env (SetCanceling True g)
     else finish_run env (run_loop env None (if vs = [] then 0 else last vs) g))"
  using assms by (simp add: Process_def dispatch_context_def RunTask_def RunTaskInternal_def ready_def finish_run_def Let_def)

text \<open>The calls of one task.\<close>

lemma run_sync:
  assumes "tgQueue g = t # ts" "\<not> async t"
  shows "run_child (regular_env async r) t False g = (regular_env async r (length (tgRan g)) t False,
    g\<lparr>tgNoSched := False, tgRan := tgRan g @ [(t, False)], tgQueue := ts, tgRetVals := tgRetVals g @ [r t]\<rparr>)"
  using assms by (simp add: run_child_def regular_env_def Let_def OnChildComplete_def PopTask_def)

lemma run_async:
  assumes "async t"
  shows "run_child (regular_env async r) t False g = (regular_env async r (length (tgRan g)) t False,
    g\<lparr>tgNoSched := False, tgRan := tgRan g @ [(t, False)]\<rparr>)"
  using assms by (simp add: run_child_def regular_env_def Let_def)

lemma run_cancel:
  assumes "tgQueue g = t # ts"
  shows "run_child (regular_env async r) t True g = (regular_env async r (length (tgRan g)) t True,
    g\<lparr>tgNoSched := False, tgRan := tgRan g @ [(t, True)], tgQueue := ts, tgRetVals := tgRetVals g @ [- ECANCELED]\<rparr>)"
  using assms by (simp add: run_child_def regular_env_def Let_def OnChildComplete_def PopTask_def)

lemma cancel_loop_all:
  assumes "tgQueue g = ts" "\<not> tgNoSched g" "distinct ts" "\<forall>p. pPrev = Some p \<longrightarrow> p \<notin> set ts" "ret = - ECANCELED"
  shows "cancel_loop (regular_env async r) pPrev ret g = Some (- ECANCELED,
    g\<lparr>tgRan := tgRan g @ List.map (\<lambda>u. (u, True)) ts, tgQueue := [], tgRetVals := tgRetVals g @ List.map (\<lambda>_. - ECANCELED) ts\<rparr>)"
  using assms
proof (induction ts arbitrary: g pPrev ret)
  case Nil
  then show ?case by (subst cancel_loop.simps) simp
next
  case (Cons t ts)
  let ?g1 = "g\<lparr>tgNoSched := False, tgRan := tgRan g @ [(t, True)], tgQueue := ts, tgRetVals := tgRetVals g @ [- ECANCELED]\<rparr>"
  have np: "pPrev \<noteq> Some t" using Cons.prems(4) by auto
  have "cancel_loop (regular_env async r) pPrev ret g = cancel_loop (regular_env async r) (Some t) (- ECANCELED) ?g1"
    using np Cons.prems(1) run_cancel [OF Cons.prems(1), of async r] by (subst cancel_loop.simps) (simp add: regular_env_def)
  also have "\<dots> = Some (- ECANCELED, ?g1\<lparr>tgRan := tgRan ?g1 @ List.map (\<lambda>u. (u, True)) ts, tgQueue := [],
      tgRetVals := tgRetVals ?g1 @ List.map (\<lambda>_. - ECANCELED) ts\<rparr>)"
    by (rule Cons.IH) (use Cons.prems in auto)
  finally show ?case using Cons.prems(2) by simp
qed

lemma OnCancel_all:
  assumes "tgState g = grpStarted" "tgCanceling g" "\<not> tgNoSched g" "tgQueue g = ts" "distinct ts"
  shows "OnCancel (regular_env async r) g = Some (cancel_result (tgRetVals g @ List.map (\<lambda>_. - ECANCELED) ts),
    g\<lparr>tgRan := tgRan g @ List.map (\<lambda>u. (u, True)) ts, tgQueue := [], tgRetVals := tgRetVals g @ List.map (\<lambda>_. - ECANCELED) ts\<rparr>)"
  using assms cancel_loop_all [OF assms(4,3,5), of None "- ECANCELED" async r] by (simp add: OnCancel_def Let_def)


text \<open>The drive of a ready group ends as the reference says.\<close>

definition ends_as :: "int \<times> (nat \<times> bool) list \<Rightarrow> (nat \<times> bool) list \<Rightarrow> (int \<times> task_group) option \<Rightarrow> bool" where
  "ends_as spec log x \<longleftrightarrow> (\<exists>g. x = Some (fst spec, g) \<and> tgRan g = log @ snd spec \<and> tgQueue g = [] \<and>
     tgState g = grpStopped \<and> tgResult g = Some (fst spec))"

lemma drive_from_done: "final_result ret \<Longrightarrow> tgState g \<noteq> grpStopped \<Longrightarrow>
   drive_from n cr env r (complete_run cr (Some (ret, g))) = Some (ret, g\<lparr>tgState := grpStopped, tgResult := Some ret, tgCtxCancel := False\<rparr>)"
  by (cases n) (simp_all add: complete_run_def final_result_def Retriable_def OnComplete_def Let_def)

lemma cancel_result_final: "\<forall>i \<in> set vs. final_result i \<Longrightarrow> final_result (cancel_result vs)"
proof (cases "takeWhile (\<lambda>i. i \<noteq> - ECANCELED) vs = []")
  case True
  then have "cancel_result vs = - ECANCELED" unfolding cancel_result_def by simp
  then show ?thesis by (simp add: final_result_def)
next
  case False
  assume f: "\<forall>i \<in> set vs. final_result i"
  have "cancel_result vs = last (takeWhile (\<lambda>i. i \<noteq> - ECANCELED) vs)"
    unfolding cancel_result_def using False by (cases "takeWhile (\<lambda>i. i \<noteq> - ECANCELED) vs") simp_all
  moreover have "last (takeWhile (\<lambda>i. i \<noteq> - ECANCELED) vs) \<in> set vs"
    using last_in_set [OF False] by (rule set_takeWhileD [THEN conjunct1])
  ultimately show ?thesis using f by simp
qed

lemma drive_cancel:
  assumes "ready ts vs log g" "distinct ts" "\<forall>i \<in> set vs. final_result i"
  shows "ends_as (cancel_result (vs @ List.map (\<lambda>_. - ECANCELED) ts), List.map (\<lambda>u. (u, True)) ts) log
    (drive_from n cr (regular_env async r) r (complete_run cr (OnCancel (regular_env async r) (SetCanceling True g))))"
proof -
  have g: "tgState (SetCanceling True g) = grpStarted" "tgCanceling (SetCanceling True g)" "\<not> tgNoSched (SetCanceling True g)"
    "tgQueue (SetCanceling True g) = ts" "tgRetVals (SetCanceling True g) = vs" "tgRan (SetCanceling True g) = log"
    using assms(1) by (simp_all add: ready_def SetCanceling_def)
  have fc: "final_result (- ECANCELED)" by (simp add: final_result_def)
  have f: "final_result (cancel_result (vs @ List.map (\<lambda>_. - ECANCELED) ts))"
    by (rule cancel_result_final) (use assms(3) fc in auto)
  show ?thesis using OnCancel_all [OF g(1-4) assms(2), of async r] g(1,5,6) f by (simp add: drive_from_done ends_as_def)
qed

lemma drive_ready:
  assumes "ready ts vs log g" "distinct ts" "length ts \<le> n" "\<forall>p. pPrev = Some p \<longrightarrow> p \<notin> set ts"
    "ret = (if vs = [] then 0 else last vs)" "\<forall>i \<in> set vs. final_result i" "\<forall>t. final_result (r t)"
  shows "ends_as (group_spec (tgRel g) r ts vs) log
    (drive_from n cr (regular_env async r) r (complete_run cr (finish_run (regular_env async r) (run_loop (regular_env async r) pPrev ret g))))"
  using assms
proof (induction ts arbitrary: g vs log n pPrev ret)
  case Nil
  have "final_result 0" by (simp add: final_result_def)
  then have ret: "final_result ret" using Nil.prems(5,6) by (cases "vs = []") simp_all
  have "run_loop (regular_env async r) pPrev ret g = Some (ret, g)" using Nil.prems(1) by (subst run_loop.simps) (simp add: ready_def)
  then have "finish_run (regular_env async r) (run_loop (regular_env async r) pPrev ret g) = Some (ret, g\<lparr>tgRunning := False\<rparr>)"
    using ret by (simp add: finish_run_def final_result_def)
  then show ?case using Nil.prems(1,5) drive_from_done [OF ret, of "g\<lparr>tgRunning := False\<rparr>"] by (simp add: ends_as_def ready_def)
next
  case (Cons t ts)
  let ?env = "regular_env async r" and ?vs = "vs @ [r t]" and ?log = "log @ [(t, False)]"
  have g: "tgQueue g = t # ts" "\<not> tgCanceling g" "tgRetVals g = vs" "tgRan g = log" "tgState g = grpStarted" "tgRunning g" "\<not> tgNoSched g" "\<not> tgCtxCancel g"
    using Cons.prems(1) by (simp_all add: ready_def)
  have np: "pPrev \<noteq> Some t" using Cons.prems(4) by auto
  have d: "t \<notin> set ts" "distinct ts" using Cons.prems(2) by simp_all
  have rt: "r t \<noteq> STATUS_PENDING" "r t \<noteq> STATUS_MORE_PROCESS_NEEDED" "r t \<noteq> ERROR_CANCEL_INSTEAD"
    using Cons.prems(7) by (simp_all add: final_result_def)
  have hd: "ts = [] \<or> hd ts \<noteq> t" using d(1) by (cases ts) auto
  have vs: "\<forall>i \<in> set ?vs. final_result i" using Cons.prems(6,7) by simp
  have step: "ends_as (group_spec (tgRel g) r ts ?vs) ?log x \<Longrightarrow> \<not> (stops_rest (tgRel g) (r t) \<and> ts \<noteq> []) \<Longrightarrow>
      ends_as (group_spec (tgRel g) r (t # ts) vs) log x" for x
    by (auto simp: ends_as_def split: prod.split)
  have stop: "ends_as (group_spec (tgRel g) r (t # ts) vs) log (drive_from m cr ?env r (complete_run cr (OnCancel ?env (SetCanceling True g1))))"
    if "stops_rest (tgRel g) (r t) \<and> ts \<noteq> []" "ready ts ?vs ?log g1" for g1 m
    using drive_cancel [OF that(2) d(2) vs, of m cr async r] that(1) by (auto simp: ends_as_def)
  show ?case
  proof (cases "async t")
    case False
    define g1 where "g1 = g\<lparr>tgNoSched := False, tgRan := ?log, tgQueue := ts, tgRetVals := ?vs\<rparr>"
    have g1: "ready ts ?vs ?log g1" "tgRel g1 = tgRel g" "tgQueue g1 = ts" "\<not> tgCanceling g1" "tgRel g1 = tgRel g"
      using g by (simp_all add: g1_def ready_def)
    have one: "run_child ?env t False g = (regular_env async r (length log) t False, g1)"
      using run_sync [OF g(1), of async r] False g(3,4) by (simp add: g1_def)
    have settle: "settle_result t (regular_env async r (length log) t False) g1 = (r t, g1)"
      using False rt hd g1(3) by (auto simp: settle_result_def regular_env_def Let_def)
    have run: "run_loop ?env pPrev ret g = (if stops_rest (tgRel g) (r t) \<and> ts \<noteq> [] then Some (ERROR_CANCEL_INSTEAD, SetCanceling True g1)
        else run_loop ?env (Some t) (r t) g1)"
      using np one settle rt(1) g1(2-4) g(1) by (subst run_loop.simps) simp
    show ?thesis
    proof (cases "stops_rest (tgRel g) (r t) \<and> ts \<noteq> []")
      case True
      then show ?thesis using stop [OF True g1(1), of n] run by (simp add: finish_run_def)
    next
      case no: False
      have "ends_as (group_spec (tgRel g1) r ts ?vs) ?log (drive_from n cr ?env r (complete_run cr (finish_run ?env (run_loop ?env (Some t) (r t) g1))))"
        by (rule Cons.IH [OF g1(1) d(2)]) (use Cons.prems(3,7) d(1) vs in simp_all)
      then show ?thesis using run no step g1(2) by simp
    qed
  next
    case True
    define g1 where "g1 = g\<lparr>tgNoSched := False, tgRan := ?log\<rparr>"
    define g2 where "g2 = snd (OnChildComplete (r t) t g1)"
    have one: "run_child ?env t False g = (regular_env async r (length log) t False, g1)"
      using run_async [of async t r g] True g(4) by (simp add: g1_def)
    have "run_loop ?env pPrev ret g = Some (STATUS_PENDING, g1)"
      using np one True g by (subst run_loop.simps) (simp add: settle_result_def regular_env_def Let_def g1_def)
    then have fin: "finish_run ?env (run_loop ?env pPrev ret g) = Some (STATUS_PENDING, g1)" by (simp add: finish_run_def)
    obtain m where m: "n = Suc m" "length ts \<le> m" using Cons.prems(3) by (cases n) auto
    have drv: "drive_from n cr ?env r (complete_run cr (finish_run ?env (run_loop ?env pPrev ret g))) = drive_from m cr ?env r (Process ?env cr eventZero g2)"
      using fin m(1) g(1) by (simp add: g1_def g2_def complete_run_def)
    have g2: "ready ts ?vs ?log g2" "tgRel g2 = tgRel g"
      using g by (simp_all add: g2_def g1_def ready_def OnChildComplete_def PopTask_def RescheduleTask_def Let_def)
    have run: "Process ?env cr eventZero g2 = complete_run cr (if stops_rest (tgRel g) (r t) \<and> ts \<noteq> [] then OnCancel ?env (SetCanceling True g2)
        else finish_run ?env (run_loop ?env None (r t) g2))"
      using Process_ready [OF g2(1), of ?env cr] g2(2) by simp
    show ?thesis
    proof (cases "stops_rest (tgRel g) (r t) \<and> ts \<noteq> []")
      case True
      then show ?thesis using stop [OF True g2(1), of m] run drv by simp
    next
      case no: False
      have "ends_as (group_spec (tgRel g2) r ts ?vs) ?log (drive_from m cr ?env r (complete_run cr (finish_run ?env (run_loop ?env None (r t) g2))))"
        by (rule Cons.IH [OF g2(1) d(2) m(2)]) (use Cons.prems(7) vs in simp_all)
      then show ?thesis unfolding drv using run no step g2(2) by simp
    qed
  qed
qed

text \<open>A group as its owner builds it.\<close>

definition fill_group :: "logic_op \<Rightarrow> nat list \<Rightarrow> task_group" where
  "fill_group rel ts = fold (\<lambda>t g. snd (AppendTask t g)) ts (new_task_group rel)"

lemma fill_group: "fill_group rel ts = (new_task_group rel)\<lparr>tgQueue := ts\<rparr>"
proof -
  have "tgState g = grpStarting \<Longrightarrow> fold (\<lambda>t g. snd (AppendTask t g)) ts g = g\<lparr>tgQueue := tgQueue g @ ts\<rparr>" for g
    by (induction ts arbitrary: g) (simp_all add: AppendTask_def)
  then show ?thesis by (simp add: fill_group_def new_task_group_def)
qed

lemma drive_new:
  assumes "distinct ts" "\<forall>t. final_result (r t)" "length ts \<le> n"
  shows "ends_as (group_spec rel r ts []) [] (drive n cr (regular_env async r) r (fill_group rel ts))"
proof -
  define g where "g = (fill_group rel ts)\<lparr>tgState := grpStarted, tgRunning := True\<rparr>"
  have g: "ready ts [] [] g" "tgRel g = rel" by (simp_all add: g_def fill_group new_task_group_def ready_def)
  have "Process env cr eventZero (fill_group rel ts) = complete_run cr (finish_run env (run_loop env None 0 g))" for env
    by (simp add: g_def fill_group new_task_group_def Process_def dispatch_context_def RunTask_def RunTaskInternal_def finish_run_def Let_def)
  then show ?thesis using drive_ready [OF g(1) assms(1,3), of None 0 r cr async] assms(2) g(2) by (simp add: drive_def)
qed

text \<open>
  C21: A group computes what the reference computes of the results of its tasks: the tasks run in
  the order they were appended, up to the first result that decides (an error under
  \<open>logicAND\<close>, a success under \<open>logicOR\<close>); every task behind it is cancelled, once and in order;
  the group is left stopped and empty and reports the result of the reference. It makes no
  difference which of the tasks answer at once and which complete later.
\<close>

theorem task_group_equals_reference:
  assumes "distinct ts" "\<forall>t. final_result (r t)"
  shows "\<exists>g. drive (length ts) cr (regular_env async r) r (fill_group rel ts) = Some (fst (group_spec rel r ts []), g) \<and>
    tgRan g = snd (group_spec rel r ts []) \<and> tgQueue g = [] \<and> tgState g = grpStopped \<and> tgResult g = Some (fst (group_spec rel r ts []))"
  using drive_new [OF assms order_refl, of rel cr async] by (simp add: ends_as_def)

lemma group_spec_and:
  "\<forall>u \<in> set us. \<not> ERROR (r u) \<Longrightarrow> ERROR (r t) \<Longrightarrow> ws \<noteq> [] \<Longrightarrow>
   fst (group_spec logicAND r (us @ t # ws) vs) = cancel_result (vs @ List.map r us @ r t # List.map (\<lambda>_. - ECANCELED) ws)"
  by (induction us arbitrary: vs) (auto simp: stops_rest_def split_beta)

lemma cancel_result_first: "\<forall>i \<in> set vs. i \<noteq> - ECANCELED \<Longrightarrow> cancel_result (vs @ - ECANCELED # rest) = (if vs = [] then - ECANCELED else last vs)"
proof -
  assume "\<forall>i \<in> set vs. i \<noteq> - ECANCELED"
  then have "takeWhile (\<lambda>i. i \<noteq> - ECANCELED) (vs @ - ECANCELED # rest) = vs" by (induction vs) auto
  then show ?thesis unfolding cancel_result_def by (cases vs) simp_all
qed

text \<open>
  An AND group reports the first error of its tasks, as long as that error is not
  \<open>-ECANCELED\<close>, whatever the tasks behind the failed one would have answered.
\<close>

theorem and_group_reports_first_error:
  assumes "distinct (us @ t # ws)" "\<forall>t. final_result (r t)" "\<forall>u \<in> set us. \<not> ERROR (r u)" "ERROR (r t)" "r t \<noteq> - ECANCELED"
  shows "\<exists>g. drive (length (us @ t # ws)) cr (regular_env async r) r (fill_group logicAND (us @ t # ws)) = Some (r t, g) \<and> tgResult g = Some (r t)"
proof -
  have "fst (group_spec logicAND r (us @ t # ws) []) = r t"
  proof (cases "ws = []")
    case True
    have "fst (group_spec logicAND r (us @ [t]) vs) = r t" for vs
      using assms(3) by (induction us arbitrary: vs) (auto simp: stops_rest_def split_beta)
    then show ?thesis using True by simp
  next
    case False
    have "\<forall>i \<in> set (List.map r us @ [r t]). i \<noteq> - ECANCELED" using assms(3,5) by (auto simp: ERROR_def)
    from cancel_result_first [OF this, of "List.map (\<lambda>_. - ECANCELED) (tl ws)"]
    have "cancel_result (List.map r us @ r t # List.map (\<lambda>_. - ECANCELED) ws) = r t" using False by (cases ws) simp_all
    then show ?thesis using group_spec_and [OF assms(3,4) False, of "[]"] by simp
  qed
  then show ?thesis using drive_new [OF assms(1,2) order_refl, of logicAND cr async] by (auto simp: ends_as_def)
qed

text \<open>
  When the task that fails was itself cancelled, with at least one task before it and one
  behind it, an AND group reports the success of the task before: the search for the result
  stops at the first \<open>-ECANCELED\<close>, which is here not the one of a task the group cancelled.
\<close>

theorem and_group_hides_cancelled_task:
  assumes "distinct (us @ u # t # ws)" "\<forall>t. final_result (r t)" "\<forall>x \<in> set (us @ [u]). \<not> ERROR (r x)" "r t = - ECANCELED" "ws \<noteq> []"
  shows "\<exists>g. drive (length (us @ u # t # ws)) cr (regular_env async r) r (fill_group logicAND (us @ u # t # ws)) = Some (r u, g) \<and>
    tgResult g = Some (r u) \<and> \<not> ERROR (r u) \<and> (t, False) \<in> set (tgRan g) \<and> (\<forall>w \<in> set ws. (w, True) \<in> set (tgRan g))"
proof -
  have e: "ERROR (r t)" using assms(4) by simp
  have log: "snd (group_spec logicAND r (us @ u # t # ws) vs) = List.map (\<lambda>x. (x, False)) (us @ [u, t]) @ List.map (\<lambda>w. (w, True)) ws" for vs
    using assms(3,5) e by (induction us arbitrary: vs) (auto simp: stops_rest_def split_beta)
  have "\<forall>i \<in> set (List.map r (us @ [u])). i \<noteq> - ECANCELED" using assms(3) by (auto simp: ERROR_def)
  from cancel_result_first [OF this, of "List.map (\<lambda>_. - ECANCELED) ws"]
  have "fst (group_spec logicAND r (us @ u # t # ws) []) = r u"
    using group_spec_and [OF assms(3) e assms(5), of "[]"] assms(4) by simp
  then show ?thesis using drive_new [OF assms(1,2) order_refl, of logicAND cr async] log [of "[]"] assms(3) by (auto simp: ends_as_def)
qed

definition wit_results :: "nat \<Rightarrow> int" where
  "wit_results t = (if t = 2 then - ECANCELED else if t = 4 then - EINVAL else 0)"

lemma wit_results: "final_result (wit_results t)"
  by (simp add: wit_results_def final_result_def)

lemma task_group_equals_reference_witness:
  "\<exists>g. drive (length [1, 2, 3 :: nat]) True (regular_env even wit_results) wit_results (fill_group logicOR [1, 2, 3]) =
      Some (fst (group_spec logicOR wit_results [1, 2, 3] []), g) \<and>
    tgRan g = snd (group_spec logicOR wit_results [1, 2, 3] []) \<and> tgQueue g = [] \<and> tgState g = grpStopped \<and>
    tgResult g = Some (fst (group_spec logicOR wit_results [1, 2, 3] []))"
  by (rule task_group_equals_reference) (simp_all add: wit_results)

lemma and_group_reports_first_error_witness:
  "\<exists>g. drive (length ([1, 3] @ 4 # [2 :: nat])) True (regular_env even wit_results) wit_results (fill_group logicAND ([1, 3] @ 4 # [2])) =
      Some (wit_results 4, g) \<and> tgResult g = Some (wit_results 4)"
  by (rule and_group_reports_first_error) (simp_all add: wit_results, simp_all add: wit_results_def)

lemma and_group_hides_cancelled_task_witness:
  "\<exists>g. drive (length ([] @ 1 # 2 # [3 :: nat])) True (regular_env even wit_results) wit_results (fill_group logicAND ([] @ 1 # 2 # [3])) =
      Some (0, g) \<and> tgResult g = Some 0 \<and> (2, False) \<in> set (tgRan g) \<and> (3, True) \<in> set (tgRan g)"
proof -
  have r: "wit_results 1 = 0" by (simp add: wit_results_def)
  have "\<exists>g. drive (length ([] @ 1 # 2 # [3 :: nat])) True (regular_env even wit_results) wit_results (fill_group logicAND ([] @ 1 # 2 # [3])) =
      Some (wit_results 1, g) \<and> tgResult g = Some (wit_results 1) \<and> \<not> ERROR (wit_results 1) \<and> (2, False) \<in> set (tgRan g) \<and>
      (\<forall>w \<in> set [3]. (w, True) \<in> set (tgRan g))"
    by (rule and_group_hides_cancelled_task) (simp_all add: wit_results, simp_all add: wit_results_def)
  then show ?thesis unfolding r by auto
qed

end
