(* ===== verification/TaskGroupRfc.thy ===== *)
theory TaskGroupRfc
  imports TaskGroup "HOL-Library.Multiset"
begin

text \<open>
  The parallel task group with flow control, \<open>CIfParallelTaskGrpRfc\<close> of \<open>ipc/iftasks.cpp\<close> with
  what it inherits from \<open>CIfParallelTaskGrp\<close>: at most \<open>m_dwMaxRunning\<close> tasks run at a time,
  at most \<open>m_dwMaxPending\<close> wait. The bridges put the forwarded requests of a connection into one.

  The group releases its lock while it starts tasks, so \<open>RunTaskInternal\<close> is cut into the
  parts between two changes of the lock; the group's operations may come in between from any
  thread.
\<close>

subsection \<open>State\<close>

abbreviation (input) ERROR_QUEUE_FULL :: int where "ERROR_QUEUE_FULL \<equiv> -2147418098"
abbreviation (input) RFC_MAX_REQS :: nat where "RFC_MAX_REQS \<equiv> 16"
abbreviation (input) RFC_MAX_PENDINGS :: nat where "RFC_MAX_PENDINGS \<equiv> 32"

text \<open>
  \<open>rgTokens\<close> counts the runs of the group that are due: a \<open>RescheduleTask\<close>, or the direct call at
  the end of \<open>AddAndRun\<close>. \<open>rgRunner\<close> holds the tasks the thread inside the group still has to
  start. The logs are the tasks added, in order, the tasks started, those cancelled, and those
  that left the queue without being started (\<open>rgDropped\<close>). The
  set of running tasks is a list without duplicates; its order has no meaning.
\<close>

record rfc_group =
  rgState :: task_state
  rgRunning :: bool
  rgCanceling :: bool
  rgSet :: "nat list"
  rgPending :: "nat list"
  rgMaxRunning :: nat
  rgMaxPending :: nat
  rgTokens :: nat
  rgRunner :: "nat list option"
  rgAdded :: "nat list"
  rgStarted :: "nat list"
  rgCancelled :: "nat list"
  rgDropped :: "nat list"

definition new_rfc_group :: "nat option \<Rightarrow> nat option \<Rightarrow> rfc_group" where
  "new_rfc_group maxReqs maxPendings = \<lparr>rgState = grpStarting, rgRunning = False, rgCanceling = False, rgSet = [], rgPending = [],
     rgMaxRunning = (case maxReqs of None \<Rightarrow> RFC_MAX_REQS | Some n \<Rightarrow> n),
     rgMaxPending = (case maxPendings of None \<Rightarrow> RFC_MAX_PENDINGS | Some n \<Rightarrow> n),
     rgTokens = 0, rgRunner = None, rgAdded = [], rgStarted = [], rgCancelled = [], rgDropped = []\<rparr>"

text \<open>\<open>IsNoSched\<close>: some thread is inside.\<close>

definition rgNoSched :: "rfc_group \<Rightarrow> bool" where
  "rgNoSched g \<longleftrightarrow> rgRunner g \<noteq> None"

definition RfcGetTaskCount :: "rfc_group \<Rightarrow> nat" where
  "RfcGetTaskCount g = length (rgSet g) + length (rgPending g)"

definition RfcReschedule :: "rfc_group \<Rightarrow> rfc_group" where
  "RfcReschedule g = g\<lparr>rgTokens := Suc (rgTokens g)\<rparr>"

subsection \<open>Operations\<close>

definition ParRemoveTask :: "nat \<Rightarrow> rfc_group \<Rightarrow> int \<times> rfc_group" where
  "ParRemoveTask pTask g =
    (if pTask \<in> set (rgSet g) then (0, g\<lparr>rgSet := remove1 pTask (rgSet g)\<rparr>)
     else if pTask \<in> set (rgPending g) then (0, g\<lparr>rgPending := remove1 pTask (rgPending g), rgDropped := rgDropped g @ [pTask]\<rparr>)
     else (- ENOENT, g))"

definition ParOnChildComplete :: "nat \<Rightarrow> rfc_group \<Rightarrow> int \<times> rfc_group" where
  "ParOnChildComplete pChild g =
    (let g1 = snd (ParRemoveTask pChild g) in
     if rgNoSched g1 then (0, g1)
     else if rgPending g1 = [] \<and> RfcGetTaskCount g1 > 0 then (0, g1)
     else (0, RfcReschedule g1))"

definition RfcOnChildComplete :: "nat \<Rightarrow> rfc_group \<Rightarrow> int \<times> rfc_group" where
  "RfcOnChildComplete pChild g =
    (if length (rgSet g) > rgMaxRunning g then (0, snd (ParRemoveTask pChild g))
     else ParOnChildComplete pChild g)"

definition ParAppendTask :: "nat \<Rightarrow> rfc_group \<Rightarrow> int \<times> rfc_group" where
  "ParAppendTask pTask g =
    (if rgCanceling g \<or> rgState g = grpStopped \<or> \<not> rgRunning g \<and> rgState g = grpStarted then (ERROR_STATE, g)
     else (0, g\<lparr>rgPending := rgPending g @ [pTask], rgAdded := rgAdded g @ [pTask]\<rparr>))"

text \<open>The result of the inherited \<open>AppendTask\<close> is not looked at.\<close>

definition RfcAppendTask :: "nat \<Rightarrow> rfc_group \<Rightarrow> int \<times> rfc_group" where
  "RfcAppendTask pTask g =
    (if length (rgPending g) \<ge> rgMaxPending g then (ERROR_QUEUE_FULL, g)
     else (0, snd (ParAppendTask pTask g)))"

text \<open>\<open>InsertTask\<close> asks neither for the state nor for the limit of the queue.\<close>

definition RfcInsertTask :: "nat \<Rightarrow> rfc_group \<Rightarrow> int \<times> rfc_group" where
  "RfcInsertTask pTask g =
    (let g1 = g\<lparr>rgPending := pTask # rgPending g, rgAdded := rgAdded g @ [pTask]\<rparr> in
     if length (rgSet g1) \<ge> rgMaxRunning g1 then (0, g1) else (0, RfcReschedule g1))"

text \<open>\<open>AddAndRun\<close> up to the point where it has released the lock and calls the group.\<close>

definition RfcAddAndRun :: "nat \<Rightarrow> rfc_group \<Rightarrow> int \<times> rfc_group" where
  "RfcAddAndRun pTask g =
    (if rgState g = grpStopped then (ERROR_STATE, g)
     else if \<not> rgRunning g \<and> rgState g = grpStarted then (ERROR_STATE, g)
     else if length (rgPending g) \<ge> rgMaxPending g then (ERROR_QUEUE_FULL, g)
     else let g1 = g\<lparr>rgPending := rgPending g @ [pTask], rgAdded := rgAdded g @ [pTask]\<rparr> in
       (0, if rgRunning g then RfcReschedule g1 else g1))"

definition SetLimit :: "nat \<Rightarrow> nat \<Rightarrow> rfc_group \<Rightarrow> int \<times> rfc_group" where
  "SetLimit dwMaxRunning dwMaxPending g =
    (if dwMaxPending = 0 \<or> dwMaxRunning = 0 then (- EINVAL, g)
     else let g1 = g\<lparr>rgMaxPending := min dwMaxPending RFC_MAX_PENDINGS, rgMaxRunning := min dwMaxRunning RFC_MAX_REQS\<rparr> in
       if rgCanceling g1 then (0, g1)
       else if \<not> rgRunning g1 \<and> rgState g1 = grpStarted then (0, g1)
       else if rgNoSched g1 then (0, g1)
       else if length (rgSet g1) < rgMaxRunning g1 \<and> rgPending g1 \<noteq> [] then (0, RfcReschedule g1)
       else (0, g1))"

text \<open>
  \<open>OnCancel\<close>: with a thread inside it only leaves its mark. The calls that cancel the tasks
  come back to a group that is marked and has no tasks, so they are taken together.
\<close>

definition RfcOnCancel :: "rfc_group \<Rightarrow> int \<times> rfc_group" where
  "RfcOnCancel g =
    (if rgState g = grpStopped then (ERROR_STATE, g)
     else let g1 = (if rgCanceling g then g else g\<lparr>rgCanceling := True, rgRunning := False\<rparr>) in
       if rgNoSched g1 then (STATUS_PENDING, g1)
       else (0, g1\<lparr>rgSet := [], rgPending := [], rgCancelled := rgCancelled g1 @ rgPending g1 @ rgSet g1,
         rgDropped := rgDropped g1 @ rgPending g1\<rparr>))"

subsection \<open>\<open>RunTaskInternal\<close> in parts\<close>

text \<open>The head of the loop: either the run is over, or the tasks picked are left to be started.\<close>

definition RfcPick :: "rfc_group \<Rightarrow> int option \<times> rfc_group" where
  "RfcPick g =
    (if RfcGetTaskCount g = 0 then (Some 0, g\<lparr>rgRunning := False\<rparr>)
     else if rgMaxRunning g \<le> length (rgSet g) then (Some STATUS_PENDING, g)
     else if rgPending g = [] then (Some STATUS_PENDING, g)
     else let iCount = min (rgMaxRunning g - length (rgSet g)) (length (rgPending g));
              queTasksToRun = take iCount (rgPending g) in
       (None, g\<lparr>rgPending := drop iCount (rgPending g), rgSet := fold List.insert queTasksToRun (rgSet g), rgRunner := Some queTasksToRun\<rparr>))"

definition RfcRunEnter :: "rfc_group \<Rightarrow> int option \<times> rfc_group" where
  "RfcRunEnter g =
    (if rgState g = grpStopped then (Some STATUS_PENDING, g)
     else if rgCanceling g then (Some ERROR_CANCEL_INSTEAD, g)
     else if \<not> rgRunning g \<and> rgState g = grpStarted then (Some STATUS_PENDING, g)
     else if rgNoSched g then (Some STATUS_PENDING, g)
     else RfcPick (if rgState g = grpStarting then g\<lparr>rgState := grpStarted, rgRunning := True\<rparr> else g))"

text \<open>The lock is taken again when the last of the tasks picked was started.\<close>

definition RfcRunLeave :: "rfc_group \<Rightarrow> int option \<times> rfc_group" where
  "RfcRunLeave g =
    (let g1 = g\<lparr>rgRunner := None\<rparr> in
     if rgCanceling g1 then (Some ERROR_CANCEL_INSTEAD, g1)
     else if rgPending g1 \<noteq> [] \<and> rgMaxRunning g1 > length (rgSet g1) then RfcPick g1
     else if RfcGetTaskCount g1 > 0 then (Some STATUS_PENDING, g1)
     else (Some 0, g1\<lparr>rgRunning := False\<rparr>))"

text \<open>
  What \<open>RunTask\<close> and \<open>Process\<close> make of the result: a cancelled run continues in \<open>OnCancel\<close>, and a
  result that is not pending completes the group.
\<close>

definition RfcRunDone :: "int option \<times> rfc_group \<Rightarrow> rfc_group" where
  "RfcRunDone x = (case x of
      (None, g) \<Rightarrow> g
    | (Some ret, g) \<Rightarrow> (case (if ret = ERROR_CANCEL_INSTEAD then RfcOnCancel g else (ret, g)) of (ret1, g1) \<Rightarrow>
        if ret1 = STATUS_PENDING \<or> rgState g1 = grpStopped then g1 else g1\<lparr>rgState := grpStopped\<rparr>))"

subsection \<open>The group among its threads\<close>

datatype rfc_event =
    EvAdd nat | EvAppend nat | EvInsert nat | EvComplete nat | EvLimit nat nat | EvCancel
  | EvRun | EvStart | EvLeave

text \<open>A first run comes from the root group, later ones use up a token.\<close>

definition rfc_run_due :: "rfc_group \<Rightarrow> bool" where
  "rfc_run_due g \<longleftrightarrow> rgTokens g > 0 \<or> rgState g = grpStarting"

primrec rfc_step :: "rfc_group \<Rightarrow> rfc_event \<Rightarrow> rfc_group" where
  "rfc_step g (EvAdd t) = snd (RfcAddAndRun t g)"
| "rfc_step g (EvAppend t) = snd (RfcAppendTask t g)"
| "rfc_step g (EvInsert t) = snd (RfcInsertTask t g)"
| "rfc_step g (EvComplete t) = snd (RfcOnChildComplete t g)"
| "rfc_step g (EvLimit a b) = snd (SetLimit a b g)"
| "rfc_step g EvCancel = (case RfcOnCancel g of (ret, g1) \<Rightarrow> if ret = 0 then g1\<lparr>rgState := grpStopped\<rparr> else g1)"
| "rfc_step g EvRun = (if rfc_run_due g then RfcRunDone (RfcRunEnter (g\<lparr>rgTokens := rgTokens g - 1\<rparr>)) else g)"
| "rfc_step g EvStart = (case rgRunner g of Some (t # ts) \<Rightarrow> g\<lparr>rgRunner := Some ts, rgStarted := rgStarted g @ [t]\<rparr> | _ \<Rightarrow> g)"
| "rfc_step g EvLeave = (case rgRunner g of Some [] \<Rightarrow> RfcRunDone (RfcRunLeave g) | _ \<Rightarrow> g)"

text \<open>
  \<open>AppendTask\<close> puts a task in the queue and tells nobody: the owner appends before the group
  runs. Nothing else is asked of the callers: a task may complete while it still waits
  (\<open>UserCancelRequest\<close> finds it in the queue) and may be given to the group again
  (\<open>RequeueTask\<close> of the bridge).
\<close>

definition rfc_legal :: "rfc_group \<Rightarrow> rfc_event \<Rightarrow> bool" where
  "rfc_legal g e = (case e of EvAppend t \<Rightarrow> rgState g = grpStarting | _ \<Rightarrow> True)"

definition rfc_any :: "rfc_group \<Rightarrow> rfc_event \<Rightarrow> bool" where
  "rfc_any g e = True"

subsection \<open>The invariant\<close>

definition rgToStart :: "rfc_group \<Rightarrow> nat list" where
  "rgToStart g = (case rgRunner g of None \<Rightarrow> [] | Some ts \<Rightarrow> ts)"

text \<open>Each time a task is given to the group counts; the same task may be given again.\<close>

definition rfc_tasks_ok :: "rfc_group \<Rightarrow> bool" where
  "rfc_tasks_ok g \<longleftrightarrow>
     mset (rgAdded g) = mset (rgStarted g) + mset (rgToStart g) + mset (rgPending g) + mset (rgDropped g) \<and>
     distinct (rgSet g) \<and> set (rgSet g) \<subseteq> set (rgStarted g) \<union> set (rgToStart g)"

definition rfc_flags_ok :: "rfc_group \<Rightarrow> bool" where
  "rfc_flags_ok g \<longleftrightarrow> (rgRunning g \<longrightarrow> rgState g = grpStarted \<and> \<not> rgCanceling g) \<and>
     (rgState g = grpStarting \<longrightarrow> rgSet g = [] \<and> \<not> rgCanceling g) \<and>
     (rgRunner g \<noteq> None \<longrightarrow> rgState g = grpStarted \<and> (rgRunning g \<or> rgCanceling g))"

text \<open>A task waits in vain only when nobody is about to look at the queue.\<close>

definition rfc_awake :: "rfc_group \<Rightarrow> bool" where
  "rfc_awake g \<longleftrightarrow> (rgRunning g \<and> rgPending g \<noteq> [] \<and> length (rgSet g) < rgMaxRunning g \<longrightarrow> rgRunner g \<noteq> None \<or> rgTokens g > 0)"

definition rfc_inv :: "rfc_group \<Rightarrow> bool" where
  "rfc_inv g \<longleftrightarrow> rfc_tasks_ok g \<and> rfc_flags_ok g \<and> rfc_awake g"

text \<open>What one step keeps: the first two always, the third when the step is legal.\<close>

definition rfc_keeps :: "bool \<Rightarrow> rfc_group \<Rightarrow> bool" where
  "rfc_keeps w g \<longleftrightarrow> rfc_tasks_ok g \<and> rfc_flags_ok g \<and> (w \<longrightarrow> rfc_awake g)"

lemma rfc_inv_keeps: "rfc_inv g \<Longrightarrow> rfc_keeps w g"
  by (simp add: rfc_inv_def rfc_keeps_def)

lemma fold_insert_set: "set (fold List.insert ts xs) = set ts \<union> set xs" "distinct xs \<Longrightarrow> distinct (fold List.insert ts xs)"
  by (induction ts arbitrary: xs) auto

text \<open>One round of picking.\<close>

lemma RfcPick_cases:
  obtains (empty) "rgSet g = []" "rgPending g = []" "RfcPick g = (Some 0, g\<lparr>rgRunning := False\<rparr>)"
  | (waits) "rgMaxRunning g \<le> length (rgSet g) \<or> rgPending g = []" "RfcPick g = (Some STATUS_PENDING, g)"
  | (picks) n where "0 < n" "n \<le> length (rgPending g)" "length (rgSet g) + n \<le> rgMaxRunning g"
      "RfcPick g = (None, g\<lparr>rgPending := drop n (rgPending g), rgSet := fold List.insert (take n (rgPending g)) (rgSet g),
         rgRunner := Some (take n (rgPending g))\<rparr>)"
proof -
  consider "RfcGetTaskCount g = 0" | "RfcGetTaskCount g \<noteq> 0" "rgMaxRunning g \<le> length (rgSet g) \<or> rgPending g = []"
    | "rgMaxRunning g > length (rgSet g)" "rgPending g \<noteq> []" by linarith
  then show thesis
  proof cases
    case 1
    then show thesis by (intro empty) (simp_all add: RfcPick_def RfcGetTaskCount_def)
  next
    case 2
    then show thesis by (intro waits) (auto simp: RfcPick_def)
  next
    case 3
    then show thesis
      by (intro picks [of "min (rgMaxRunning g - length (rgSet g)) (length (rgPending g))"])
        (auto simp: RfcPick_def RfcGetTaskCount_def Let_def)
  qed
qed

lemma RfcPick_inv:
  assumes "rfc_tasks_ok g" "rfc_flags_ok g" "rgRunner g = None" "rgRunning g"
  shows "rfc_inv (RfcRunDone (RfcPick g))"
proof (cases g rule: RfcPick_cases)
  case empty
  then show ?thesis using assms by (auto simp: RfcRunDone_def rfc_inv_def rfc_tasks_ok_def rfc_flags_ok_def rfc_awake_def rgToStart_def)
next
  case waits
  then show ?thesis using assms by (auto simp: RfcRunDone_def rfc_inv_def rfc_awake_def)
next
  case (picks n)
  let ?ts = "take n (rgPending g)" and ?r = "drop n (rgPending g)"
  have "mset (rgPending g) = mset ?ts + mset ?r" by (metis append_take_drop_id mset_append)
  then have "rfc_tasks_ok (snd (RfcPick g))"
    using assms(1,3) picks(4) fold_insert_set(1) [of ?ts "rgSet g"] fold_insert_set(2) [of "rgSet g" ?ts] by (auto simp: rfc_tasks_ok_def rgToStart_def)
  then show ?thesis using picks(4) assms(2,4) by (simp add: RfcRunDone_def rfc_inv_def rfc_flags_ok_def rfc_awake_def)
qed

lemma tasks_ok_irrelevant [simp]:
  "rfc_tasks_ok (g\<lparr>rgTokens := n\<rparr>) = rfc_tasks_ok g" "rfc_tasks_ok (g\<lparr>rgState := st\<rparr>) = rfc_tasks_ok g"
  "rfc_tasks_ok (g\<lparr>rgRunning := b\<rparr>) = rfc_tasks_ok g" "rfc_tasks_ok (g\<lparr>rgCanceling := b\<rparr>) = rfc_tasks_ok g"
  "rfc_tasks_ok (g\<lparr>rgMaxRunning := n\<rparr>) = rfc_tasks_ok g" "rfc_tasks_ok (g\<lparr>rgMaxPending := n\<rparr>) = rfc_tasks_ok g"
  by (simp_all add: rfc_tasks_ok_def rgToStart_def)

lemma tasks_ok_enqueue:
  assumes "rfc_tasks_ok g"
  shows "rfc_tasks_ok (g\<lparr>rgPending := rgPending g @ [t], rgAdded := rgAdded g @ [t]\<rparr>)"
    "rfc_tasks_ok (g\<lparr>rgPending := t # rgPending g, rgAdded := rgAdded g @ [t]\<rparr>)"
  using assms by (simp_all add: rfc_tasks_ok_def rgToStart_def)

lemma tasks_ok_remove: "rfc_tasks_ok g \<Longrightarrow> rfc_tasks_ok (g\<lparr>rgSet := remove1 t (rgSet g)\<rparr>)"
  using set_remove1_subset [of t "rgSet g"] by (auto simp: rfc_tasks_ok_def rgToStart_def)

lemma tasks_ok_drop:
  "rfc_tasks_ok g \<Longrightarrow> t \<in> set (rgPending g) \<Longrightarrow>
   rfc_tasks_ok (g\<lparr>rgPending := remove1 t (rgPending g), rgDropped := rgDropped g @ [t]\<rparr>)"
  by (simp add: rfc_tasks_ok_def rgToStart_def)

lemma RfcOnCancel_inv:
  assumes "rfc_tasks_ok g" "rfc_flags_ok g"
  shows "rfc_inv (RfcRunDone (Some ERROR_CANCEL_INSTEAD, g)) \<and> rfc_inv (rfc_step g EvCancel)"
proof -
  have run: "rgState g = grpStopped \<Longrightarrow> \<not> rgRunning g" using assms(2) by (auto simp: rfc_flags_ok_def)
  show ?thesis
  proof (cases "rgState g = grpStopped \<or> rgRunner g \<noteq> None")
    case True
    then show ?thesis using assms run
      by (auto simp: RfcRunDone_def RfcOnCancel_def rgNoSched_def Let_def rfc_inv_def rfc_flags_ok_def rfc_awake_def)
  next
    case False
    then show ?thesis using assms
      by (auto simp: rfc_tasks_ok_def rgToStart_def RfcRunDone_def RfcOnCancel_def rgNoSched_def Let_def rfc_inv_def rfc_flags_ok_def rfc_awake_def)
  qed
qed

lemma rfc_step_keeps: "rfc_keeps w g \<Longrightarrow> (w \<Longrightarrow> rfc_legal g e) \<Longrightarrow> rfc_keeps w (rfc_step g e)"
proof -
  assume i: "rfc_keeps w g" and l: "w \<Longrightarrow> rfc_legal g e"
  have t: "rfc_tasks_ok g" and f: "rfc_flags_ok g" and a: "w \<Longrightarrow> rfc_awake g" using i by (simp_all add: rfc_keeps_def)
  note fa = rfc_flags_ok_def rfc_awake_def
  show ?thesis
  proof (cases e)
    case (EvAdd u)
    then show ?thesis using t f a l tasks_ok_enqueue(1) [OF t, of u]
      by (auto simp: rfc_keeps_def fa rfc_legal_def RfcAddAndRun_def RfcReschedule_def Let_def)
  next
    case (EvAppend u)
    then show ?thesis using t f a l tasks_ok_enqueue(1) [OF t, of u]
      by (auto simp: rfc_keeps_def fa rfc_legal_def RfcAppendTask_def ParAppendTask_def)
  next
    case (EvInsert u)
    then show ?thesis using t f a l tasks_ok_enqueue(2) [OF t, of u]
      by (auto simp: rfc_keeps_def fa rfc_legal_def RfcInsertTask_def RfcReschedule_def Let_def)
  next
    case (EvComplete u)
    show ?thesis
    proof (cases "u \<in> set (rgSet g)")
      case True
      then have "length (rgSet g) = Suc (length (remove1 u (rgSet g)))" by (simp add: length_remove1) (metis Suc_pred length_pos_if_in_set)
      then show ?thesis using True EvComplete t f a tasks_ok_remove [OF t, of u]
        by (auto simp: rfc_keeps_def fa RfcOnChildComplete_def ParOnChildComplete_def ParRemoveTask_def RfcGetTaskCount_def rgNoSched_def RfcReschedule_def Let_def)
    next
      case False
      then show ?thesis using EvComplete t f a tasks_ok_drop [OF t, of u]
        by (auto simp: rfc_keeps_def fa RfcOnChildComplete_def ParOnChildComplete_def ParRemoveTask_def RfcGetTaskCount_def rgNoSched_def RfcReschedule_def Let_def)
    qed
  next
    case (EvLimit x y)
    then show ?thesis using t f a by (auto simp: rfc_keeps_def fa SetLimit_def RfcReschedule_def rgNoSched_def Let_def)
  next
    case EvCancel
    then show ?thesis using RfcOnCancel_inv [OF t f] rfc_inv_keeps by simp
  next
    case EvRun
    let ?g = "g\<lparr>rgTokens := rgTokens g - 1\<rparr>" and ?start = "g\<lparr>rgTokens := rgTokens g - 1, rgState := grpStarted, rgRunning := True\<rparr>"
    have t1: "rfc_tasks_ok ?g" "rfc_flags_ok ?g" using t f by (simp_all add: rfc_flags_ok_def)
    have "rfc_inv (RfcRunDone (RfcRunEnter ?g))"
    proof (cases "rgState g = grpStopped \<or> rgCanceling g \<or> \<not> rgRunning g \<and> rgState g = grpStarted \<or> rgRunner g \<noteq> None")
      case True
      show ?thesis
      proof (cases "rgCanceling g \<and> rgState g \<noteq> grpStopped")
        case c: True
        then show ?thesis using RfcOnCancel_inv [OF t1] by (simp add: RfcRunEnter_def)
      next
        case c: False
        then have "RfcRunEnter ?g = (Some STATUS_PENDING, ?g)" "rgRunning g \<longrightarrow> rgRunner g \<noteq> None"
          using True f by (auto simp: RfcRunEnter_def rgNoSched_def rfc_flags_ok_def)
        then show ?thesis using t1 by (auto simp: RfcRunDone_def rfc_inv_def rfc_awake_def)
      qed
    next
      case False
      then consider "rgState g = grpStarting" | "rgState g = grpStarted" "rgRunning g" by (cases "rgState g") auto
      then show ?thesis
      proof cases
        case 1
        then have "RfcRunEnter ?g = RfcPick ?start" using False by (simp add: RfcRunEnter_def rgNoSched_def)
        moreover have "rfc_tasks_ok ?start" "rfc_flags_ok ?start" using t f 1 by (simp_all add: rfc_flags_ok_def)
        ultimately show ?thesis using RfcPick_inv [of ?start] False by simp
      next
        case 2
        then have "RfcRunEnter ?g = RfcPick ?g" using False by (simp add: RfcRunEnter_def rgNoSched_def)
        then show ?thesis using RfcPick_inv [OF t1] False 2 by simp
      qed
    qed
    then show ?thesis using EvRun i rfc_inv_keeps by simp
  next
    case EvStart
    show ?thesis
    proof (cases "rgToStart g")
      case Nil
      then show ?thesis using EvStart i by (auto simp: rgToStart_def split: option.splits)
    next
      case (Cons u us)
      then have r: "rgRunner g = Some (u # us)" by (auto simp: rgToStart_def split: option.splits)
      have "rfc_tasks_ok (g\<lparr>rgRunner := Some us, rgStarted := rgStarted g @ [u]\<rparr>)"
        using t r by (auto simp: rfc_tasks_ok_def rgToStart_def)
      then show ?thesis using EvStart r f a by (auto simp: rfc_keeps_def fa)
    qed
  next
    case EvLeave
    show ?thesis
    proof (cases "rgRunner g = Some []")
      case False
      then show ?thesis using EvLeave i by (auto split: option.split list.split)
    next
      case True
      let ?g = "g\<lparr>rgRunner := None\<rparr>"
      have t1: "rfc_tasks_ok ?g" "rfc_flags_ok ?g" using t f True by (auto simp: rfc_tasks_ok_def rgToStart_def rfc_flags_ok_def)
      have st: "rgState g \<noteq> grpStarting" using True f by (auto simp: rfc_flags_ok_def)
      have "rfc_inv (RfcRunDone (RfcRunLeave g))"
      proof (cases "rgCanceling g")
        case c: True
        then show ?thesis using RfcOnCancel_inv [OF t1] by (simp add: RfcRunLeave_def Let_def)
      next
        case c: False
        show ?thesis
        proof (cases "rgPending g \<noteq> [] \<and> rgMaxRunning g > length (rgSet g)")
          case True
          then have "RfcRunLeave g = RfcPick ?g" using c by (simp add: RfcRunLeave_def Let_def)
          then show ?thesis using RfcPick_inv [OF t1] True f c \<open>rgRunner g = Some []\<close> by (simp add: rfc_flags_ok_def)
        next
          case no: False
          then show ?thesis using t1 c st by (auto simp: RfcRunLeave_def Let_def RfcRunDone_def rfc_inv_def fa RfcGetTaskCount_def)
        qed
      qed
      then show ?thesis using EvLeave True rfc_inv_keeps by simp
    qed
  qed
qed

lemma rfc_step_inv: "rfc_inv g \<Longrightarrow> rfc_legal g e \<Longrightarrow> rfc_inv (rfc_step g e)"
  using rfc_step_keeps [of True g e] by (simp add: rfc_keeps_def rfc_inv_def)

interpretation rfc: event_machine rfc_step rfc_legal rfc_inv
  by unfold_locales (rule rfc_step_inv)

interpretation rfc_all: event_machine rfc_step rfc_any "rfc_keeps False"
  by unfold_locales (simp add: rfc_step_keeps)

lemma new_rfc_inv: "rfc_inv (new_rfc_group a b)"
  by (simp add: rfc_inv_def rfc_tasks_ok_def rfc_flags_ok_def rfc_awake_def new_rfc_group_def rgToStart_def)

text \<open>
  C22: Whatever the threads do, in any order and with any tasks, also tasks that complete while
  they wait and tasks given to the group again: each time a task was given to the group it was
  started exactly once, or is about to be, or waits, or left the queue because it was completed
  or cancelled while it waited. If moreover \<open>AppendTask\<close>, which schedules nothing, is only called
  before the group's first run, no task waits behind a free slot of a running group unless a thread
  inside the group or a scheduled run is going to pick it up.
\<close>

theorem rfc_tasks_conserved:
  assumes "reach rfc_step rfc_any (new_rfc_group a b) g"
  shows "mset (rgAdded g) = mset (rgStarted g) + mset (rgToStart g) + mset (rgPending g) + mset (rgDropped g) \<and>
    (reach rfc_step rfc_legal (new_rfc_group a b) g \<longrightarrow>
      rgRunning g \<and> rgPending g \<noteq> [] \<and> length (rgSet g) < rgMaxRunning g \<longrightarrow> rgRunner g \<noteq> None \<or> rgTokens g > 0)"
proof -
  have "rfc_keeps False g" using rfc_all.inv_reach [OF assms rfc_inv_keeps [OF new_rfc_inv]] .
  moreover have "reach rfc_step rfc_legal (new_rfc_group a b) g \<Longrightarrow> rfc_inv g"
    using rfc.inv_reach [OF _ new_rfc_inv] .
  ultimately show ?thesis by (auto simp: rfc_keeps_def rfc_inv_def rfc_tasks_ok_def rfc_awake_def)
qed

subsection \<open>The limits\<close>

lemma length_fold_insert: "length (fold List.insert ts xs) \<le> length ts + length xs"
proof (induction ts arbitrary: xs)
  case (Cons t ts)
  have "length (List.insert t xs) \<le> Suc (length xs)" by (simp add: List.insert_def)
  then show ?case using Cons.IH [of "List.insert t xs"] by simp
qed simp

lemma RfcRunDone_set: "length (rgSet (RfcRunDone (r, g))) \<le> length (rgSet g)" "length (rgPending (RfcRunDone (r, g))) \<le> length (rgPending g)"
  by (auto simp: RfcRunDone_def RfcOnCancel_def Let_def split: option.split)

lemma RfcPick_limits:
  "length (rgSet (RfcRunDone (RfcPick g))) \<le> max (length (rgSet g)) (rgMaxRunning g) \<and> length (rgPending (RfcRunDone (RfcPick g))) \<le> length (rgPending g)"
proof (cases g rule: RfcPick_cases)
  case (picks n)
  then show ?thesis using length_fold_insert [of "take n (rgPending g)" "rgSet g"] by (simp add: RfcRunDone_def)
qed (simp_all add: RfcRunDone_def)

lemma rfc_limits_step:
  "length (rgSet (rfc_step g e)) \<le> max (length (rgSet g)) (rgMaxRunning g) \<and>
   ((\<forall>t. e \<noteq> EvInsert t) \<longrightarrow> length (rgPending (rfc_step g e)) \<le> max (length (rgPending g)) (rgMaxPending g))"
proof (cases e)
  case (EvComplete t)
  then show ?thesis
    by (auto simp: RfcOnChildComplete_def ParOnChildComplete_def ParRemoveTask_def RfcReschedule_def Let_def length_remove1)
next
  case EvRun
  let ?g = "g\<lparr>rgTokens := rgTokens g - 1\<rparr>" and ?start = "g\<lparr>rgTokens := rgTokens g - 1, rgState := grpStarted, rgRunning := True\<rparr>"
  have "RfcRunEnter ?g \<in> {(Some STATUS_PENDING, ?g), (Some ERROR_CANCEL_INSTEAD, ?g), RfcPick ?g, RfcPick ?start}"
    by (simp add: RfcRunEnter_def)
  then show ?thesis using EvRun RfcPick_limits [of ?g] RfcPick_limits [of ?start] RfcRunDone_set [of _ ?g]
    by (auto simp: le_max_iff_disj)
next
  case EvLeave
  let ?g = "g\<lparr>rgRunner := None\<rparr>"
  have "RfcRunLeave g \<in> {(Some STATUS_PENDING, ?g), (Some ERROR_CANCEL_INSTEAD, ?g), RfcPick ?g, (Some 0, ?g\<lparr>rgRunning := False\<rparr>)}"
    by (simp add: RfcRunLeave_def Let_def)
  then show ?thesis using EvLeave RfcPick_limits [of ?g] RfcRunDone_set [of _ ?g] RfcRunDone_set [of _ "?g\<lparr>rgRunning := False\<rparr>"]
    by (auto simp: le_max_iff_disj split: option.split list.split)
qed (auto simp: RfcAddAndRun_def RfcAppendTask_def ParAppendTask_def RfcInsertTask_def SetLimit_def RfcOnCancel_def RfcReschedule_def Let_def
    split: option.split list.split)

lemma RfcRunDone_limit: "rgMaxRunning (RfcRunDone (r, g)) = rgMaxRunning g"
  by (auto simp: RfcRunDone_def RfcOnCancel_def Let_def split: option.split)

lemma RfcPick_limit: "rgMaxRunning (RfcRunDone (RfcPick g)) = rgMaxRunning g"
  by (cases g rule: RfcPick_cases) (simp_all add: RfcRunDone_def)

lemma rfc_limit_step: "rgMaxRunning (rfc_step g e) \<le> max (rgMaxRunning g) RFC_MAX_REQS"
proof (cases e)
  case EvRun
  let ?g = "g\<lparr>rgTokens := rgTokens g - 1\<rparr>" and ?start = "g\<lparr>rgTokens := rgTokens g - 1, rgState := grpStarted, rgRunning := True\<rparr>"
  have "RfcRunEnter ?g \<in> {(Some STATUS_PENDING, ?g), (Some ERROR_CANCEL_INSTEAD, ?g), RfcPick ?g, RfcPick ?start}"
    by (simp add: RfcRunEnter_def)
  then show ?thesis using EvRun RfcPick_limit [of ?g] RfcPick_limit [of ?start] RfcRunDone_limit [of _ ?g] by auto
next
  case EvLeave
  let ?g = "g\<lparr>rgRunner := None\<rparr>"
  have "RfcRunLeave g \<in> {(Some STATUS_PENDING, ?g), (Some ERROR_CANCEL_INSTEAD, ?g), RfcPick ?g, (Some 0, ?g\<lparr>rgRunning := False\<rparr>)}"
    by (simp add: RfcRunLeave_def Let_def)
  then show ?thesis using EvLeave RfcPick_limit [of ?g] RfcRunDone_limit [of _ ?g] RfcRunDone_limit [of _ "?g\<lparr>rgRunning := False\<rparr>"]
    by (auto split: option.split list.split)
qed (auto simp: RfcAddAndRun_def RfcAppendTask_def ParAppendTask_def RfcInsertTask_def SetLimit_def RfcOnCancel_def RfcReschedule_def Let_def
    RfcOnChildComplete_def ParOnChildComplete_def ParRemoveTask_def split: option.split list.split)

text \<open>
  No step of any thread makes more tasks run than the limit allows: their number grows only
  up to \<open>m_dwMaxRunning\<close>, a lowered limit is reached as tasks complete, and 16, or the number
  the group was built with if that is more, is never exceeded. The queue of waiting tasks
  grows only up to \<open>m_dwMaxPending\<close>, except by \<open>InsertTask\<close>.
\<close>

theorem rfc_limits_hold:
  assumes "reach rfc_step rfc_any (new_rfc_group (Some n) b) g"
  shows "length (rgSet g) \<le> max n RFC_MAX_REQS \<and>
    (\<forall>e. length (rgSet (rfc_step g e)) \<le> max (length (rgSet g)) (rgMaxRunning g)) \<and>
    (\<forall>e. (\<forall>t. e \<noteq> EvInsert t) \<longrightarrow> length (rgPending (rfc_step g e)) \<le> max (length (rgPending g)) (rgMaxPending g))"
proof -
  have "length (rgSet g) \<le> max n RFC_MAX_REQS \<and> rgMaxRunning g \<le> max n RFC_MAX_REQS" using assms
  proof (induction rule: reach.induct)
    case start
    then show ?case by (simp add: new_rfc_group_def)
  next
    case (advance g e)
    then show ?case using rfc_limits_step [of g e] rfc_limit_step [of g e] by auto
  qed
  then show ?thesis using rfc_limits_step by blast
qed

subsection \<open>Every waiting task gets its turn\<close>

text \<open>The events that need no caller: a due run, the thread inside, a started task that completes.\<close>

definition sys_enabled :: "rfc_group \<Rightarrow> rfc_event \<Rightarrow> bool" where
  "sys_enabled g e = (case e of
      EvRun \<Rightarrow> rfc_run_due g
    | EvStart \<Rightarrow> rgToStart g \<noteq> []
    | EvLeave \<Rightarrow> rgRunner g = Some []
    | EvComplete t \<Rightarrow> t \<in> set (rgSet g) \<and> t \<in> set (rgStarted g)
    | _ \<Rightarrow> False)"

primrec sys_chain :: "rfc_group \<Rightarrow> rfc_event list \<Rightarrow> bool" where
  "sys_chain g [] = True"
| "sys_chain g (e # es) = (sys_enabled g e \<and> sys_chain (rfc_step g e) es)"

definition rfc_weight :: "rfc_group \<Rightarrow> nat" where
  "rfc_weight g = 6 * length (rgPending g) + 3 * length (rgSet g) + (case rgRunner g of None \<Rightarrow> 0 | Some ts \<Rightarrow> Suc (length ts)) +
     rgTokens g + (if rgState g = grpStarting then 1 else 0)"

definition rfc_live :: "rfc_group \<Rightarrow> nat multiset" where
  "rfc_live g = mset (rgStarted g) + mset (rgToStart g) + mset (rgPending g)"

text \<open>What is kept while only such events happen to a group that is not cancelled.\<close>

definition rfc_going :: "rfc_group \<Rightarrow> rfc_group \<Rightarrow> bool" where
  "rfc_going g g' \<longleftrightarrow> \<not> rgCanceling g' \<and> rfc_live g' = rfc_live g \<and> rgMaxRunning g' = rgMaxRunning g \<and>
     (rgRunning g' \<or> rgPending g' = [] \<and> rgState g' = grpStopped)"

lemma pick_going:
  assumes "rgRunner g = None" "\<not> rgCanceling g" "rgRunning g" "rgState g = grpStarted"
  shows "rfc_weight (RfcRunDone (RfcPick g)) \<le> rfc_weight g \<and> rfc_going g (RfcRunDone (RfcPick g))"
proof (cases g rule: RfcPick_cases)
  case empty
  then show ?thesis using assms by (auto simp: RfcRunDone_def rfc_weight_def rfc_going_def rfc_live_def rgToStart_def)
next
  case waits
  then show ?thesis using assms by (auto simp: RfcRunDone_def rfc_going_def)
next
  case (picks n)
  have "mset (rgPending g) = mset (take n (rgPending g)) + mset (drop n (rgPending g))" by (metis append_take_drop_id mset_append)
  then have "rfc_live (snd (RfcPick g)) = rfc_live g" using picks(4) assms(1) by (auto simp: rfc_live_def rgToStart_def)
  moreover have "length (fold List.insert (take n (rgPending g)) (rgSet g)) \<le> n + length (rgSet g)"
    using length_fold_insert [of "take n (rgPending g)" "rgSet g"] picks(2) by simp
  ultimately show ?thesis using picks assms by (simp add: RfcRunDone_def rfc_weight_def rfc_going_def)
qed

lemma sys_step:
  assumes i: "rfc_inv g" and c: "\<not> rgCanceling g" and r: "rgRunning g \<or> rgPending g = [] \<and> rgState g = grpStopped" and e: "sys_enabled g e"
  shows "rfc_weight (rfc_step g e) < rfc_weight g \<and> rfc_going g (rfc_step g e) \<and> rfc_legal g e"
proof -
  have st: "rgRunning g \<longrightarrow> rgState g = grpStarted" "rgRunner g \<noteq> None \<longrightarrow> rgRunning g" "rgState g \<noteq> grpStarting"
    using i c r by (auto simp: rfc_inv_def rfc_flags_ok_def)
  show ?thesis
  proof (cases e)
    case EvRun
    let ?g = "g\<lparr>rgTokens := rgTokens g - 1\<rparr>"
    have tk: "rgTokens g > 0" using e EvRun st(3) by (simp add: sys_enabled_def rfc_run_due_def)
    then have w: "rfc_weight ?g < rfc_weight g" by (auto simp: rfc_weight_def split: option.split)
    have live: "rfc_live ?g = rfc_live g" by (simp add: rfc_live_def rgToStart_def)
    show ?thesis
    proof (cases "rgRunning g \<and> rgRunner g = None")
      case True
      then have "RfcRunEnter ?g = RfcPick ?g" using c st by (simp add: RfcRunEnter_def rgNoSched_def)
      then show ?thesis using EvRun e w live pick_going [of ?g] True c st
        by (auto simp: sys_enabled_def rfc_legal_def rfc_going_def)
    next
      case False
      then have "RfcRunEnter ?g = (Some STATUS_PENDING, ?g)" using c st r by (auto simp: RfcRunEnter_def rgNoSched_def)
      then show ?thesis using EvRun e w live c r by (auto simp: sys_enabled_def rfc_legal_def rfc_going_def RfcRunDone_def)
    qed
  next
    case EvStart
    then obtain t ts where "rgRunner g = Some (t # ts)" using e by (auto simp: sys_enabled_def rgToStart_def neq_Nil_conv split: option.splits)
    then show ?thesis using EvStart c r st by (auto simp: rfc_weight_def rfc_going_def rfc_live_def rgToStart_def rfc_legal_def)
  next
    case EvLeave
    let ?g = "g\<lparr>rgRunner := None\<rparr>"
    have rn: "rgRunner g = Some []" "rgRunning g" using e EvLeave st(2) by (auto simp: sys_enabled_def)
    have w: "rfc_weight ?g < rfc_weight g" "rfc_live ?g = rfc_live g" using rn by (auto simp: rfc_weight_def rfc_live_def rgToStart_def)
    have p: "rfc_weight (RfcRunDone (RfcPick ?g)) \<le> rfc_weight ?g \<and> rfc_going ?g (RfcRunDone (RfcPick ?g))"
      by (rule pick_going) (use c rn st in auto)
    have step: "rfc_step g e = RfcRunDone (RfcRunLeave g)" "rfc_legal g e" using EvLeave rn by (simp_all add: rfc_legal_def)
    have flags: "\<not> rgCanceling ?g" "rgState ?g = grpStarted" "rgRunning ?g" using c rn st by simp_all
    consider "RfcRunLeave g = RfcPick ?g" | "RfcRunLeave g = (Some STATUS_PENDING, ?g)"
      | "RfcRunLeave g = (Some 0, ?g\<lparr>rgRunning := False\<rparr>)" "rgPending g = []"
    proof (cases "rgPending g \<noteq> [] \<and> rgMaxRunning g > length (rgSet g)"; cases "RfcGetTaskCount ?g > 0")
    qed (use c in \<open>auto simp: RfcRunLeave_def RfcGetTaskCount_def\<close>)
    then show ?thesis
    proof cases
      case 1
      then show ?thesis using step w p by (auto simp: rfc_going_def)
    next
      case 2
      then show ?thesis using step w flags by (simp add: rfc_going_def RfcRunDone_def)
    next
      case 3
      have "rfc_weight (?g\<lparr>rgRunning := False, rgState := grpStopped\<rparr>) \<le> rfc_weight ?g" by (simp add: rfc_weight_def)
      moreover have "rfc_live (?g\<lparr>rgRunning := False, rgState := grpStopped\<rparr>) = rfc_live ?g" by (simp add: rfc_live_def rgToStart_def)
      ultimately show ?thesis using 3 step w flags by (simp add: rfc_going_def RfcRunDone_def)
    qed
  next
    case (EvComplete t)
    then have t: "t \<in> set (rgSet g)" "t \<in> set (rgStarted g)" using e by (simp_all add: sys_enabled_def)
    then have "length (rgSet g) = Suc (length (remove1 t (rgSet g)))" by (simp add: length_remove1) (metis Suc_pred length_pos_if_in_set)
    then show ?thesis using EvComplete t c r
      by (auto simp: RfcOnChildComplete_def ParOnChildComplete_def ParRemoveTask_def RfcReschedule_def Let_def rfc_weight_def rfc_going_def
          rfc_live_def rgToStart_def rfc_legal_def)
  qed (use e in \<open>simp_all add: sys_enabled_def\<close>)
qed

lemma rfc_going_trans: "rfc_going g g1 \<Longrightarrow> rfc_going g1 g2 \<Longrightarrow> rfc_going g g2"
  by (auto simp: rfc_going_def)

lemma sys_run:
  assumes "rfc_inv g" "\<not> rgCanceling g" "rgRunning g \<or> rgPending g = [] \<and> rgState g = grpStopped" "sys_chain g es"
  shows "length es + rfc_weight (foldl rfc_step g es) \<le> rfc_weight g \<and> rfc_going g (foldl rfc_step g es) \<and> rfc_inv (foldl rfc_step g es)"
  using assms
proof (induction es arbitrary: g)
  case Nil
  then show ?case by (auto simp: rfc_going_def)
next
  case (Cons e es)
  have s: "rfc_weight (rfc_step g e) < rfc_weight g" "rfc_going g (rfc_step g e)" "rfc_legal g e" "sys_chain (rfc_step g e) es"
    using sys_step [OF Cons.prems(1-3), of e] Cons.prems(4) by simp_all
  have "rfc_inv (rfc_step g e)" using rfc_step_inv [OF Cons.prems(1) s(3)] .
  then show ?case using Cons.IH [of "rfc_step g e"] s rfc_going_trans [OF s(2)] by (auto simp: rfc_going_def)
qed

text \<open>
  C23: Every waiting task of a running group is started, when the limit of running tasks is not zero
  (a group built with \<open>propMaxReqs\<close> 0 never starts one) and \<open>AppendTask\<close> was only called before
  the first run. Without new tasks, new limits or a
  cancellation, the due runs, the thread inside the group and the completions of the started
  tasks cannot go on for ever (their number is bounded by a weight of the state), and when none
  of them is left to happen the queue is empty and what was started is what had been started,
  what was picked and what waited, each as often as it was given to the group.
\<close>

theorem rfc_drains:
  assumes "reach rfc_step rfc_legal (new_rfc_group a b) g" "rgRunning g" "0 < rgMaxRunning g" "sys_chain g es"
  shows "length es \<le> rfc_weight g \<and>
    ((\<forall>e. \<not> sys_enabled (foldl rfc_step g es) e) \<longrightarrow>
      rgPending (foldl rfc_step g es) = [] \<and>
      mset (rgStarted (foldl rfc_step g es)) = mset (rgStarted g) + mset (rgToStart g) + mset (rgPending g))"
proof -
  let ?g = "foldl rfc_step g es"
  have inv: "rfc_inv g" by (rule rfc.inv_reach [OF assms(1) new_rfc_inv])
  have c: "\<not> rgCanceling g" using inv assms(2) by (auto simp: rfc_inv_def rfc_flags_ok_def)
  have s: "length es + rfc_weight ?g \<le> rfc_weight g" "rfc_going g ?g" "rfc_inv ?g"
    using sys_run [OF inv c _ assms(4)] assms(2) by simp_all
  have "rgPending ?g = [] \<and> mset (rgStarted ?g) = rfc_live g" if none: "\<forall>e. \<not> sys_enabled ?g e"
  proof -
    have n: "rgToStart ?g = []" "rgRunner ?g \<noteq> Some []" "rgTokens ?g = 0" "\<forall>t \<in> set (rgSet ?g). t \<notin> set (rgStarted ?g)"
      using none [rule_format, of EvStart] none [rule_format, of EvLeave] none [rule_format, of EvRun] none [rule_format, of "EvComplete _"]
      by (auto simp: sys_enabled_def rfc_run_due_def)
    have "rgRunner ?g = None" using n(1,2) by (auto simp: rgToStart_def split: option.splits)
    moreover have "set (rgSet ?g) \<subseteq> set (rgStarted ?g)"
      using n(1) s(3) by (simp add: rfc_inv_def rfc_tasks_ok_def)
    then have "rgSet ?g = []" using n(4) by (cases "rgSet ?g") auto
    ultimately have p: "rgPending ?g = []"
      using s(2,3) assms(3) n(3) by (auto simp: rfc_inv_def rfc_awake_def rfc_going_def)
    have "rfc_live ?g = rfc_live g" using s(2) by (simp add: rfc_going_def)
    then show ?thesis using p n(1) by (simp add: rfc_live_def)
  qed
  then show ?thesis using s(1) by (simp add: rfc_live_def)
qed

subsection \<open>Examples\<close>

definition wit_rfc_events :: "rfc_event list" where
  "wit_rfc_events = [EvAppend 9, EvRun, EvStart, EvLeave, EvAdd 1, EvAdd 2, EvAdd 3]"

text \<open>Two slots, one taken by the placeholder: the group is about to run with three tasks waiting.\<close>

definition wit_rfc :: rfc_group where
  "wit_rfc = foldl rfc_step (new_rfc_group (Some 2) None) wit_rfc_events"

lemmas rfc_eval = RfcAppendTask_def ParAppendTask_def RfcAddAndRun_def RfcReschedule_def RfcRunEnter_def RfcRunLeave_def RfcPick_def RfcRunDone_def
  RfcGetTaskCount_def rgNoSched_def rfc_run_due_def Let_def

lemma wit_rfc: "wit_rfc = \<lparr>rgState = grpStarted, rgRunning = True, rgCanceling = False, rgSet = [9], rgPending = [1, 2, 3],
   rgMaxRunning = 2, rgMaxPending = 32, rgTokens = 3, rgRunner = None, rgAdded = [9, 1, 2, 3], rgStarted = [9], rgCancelled = [], rgDropped = []\<rparr>"
  by (simp add: wit_rfc_def wit_rfc_events_def new_rfc_group_def rfc_eval)

lemma wit_rfc_reach: "reach rfc_step rfc_legal (new_rfc_group (Some 2) None) wit_rfc"
  unfolding wit_rfc_def
  by (rule reach_foldl) (simp add: wit_rfc_events_def new_rfc_group_def rfc_legal_def rfc_eval)

lemma rfc_any_legal: "reach rfc_step rfc_legal g0 g \<Longrightarrow> reach rfc_step rfc_any g0 g"
  by (induction rule: reach.induct) (auto intro: reach.intros simp: rfc_any_def)

text \<open>Task 2 completes while it waits, and the placeholder is given to the group again.\<close>

definition wit_rfc2 :: rfc_group where
  "wit_rfc2 = foldl rfc_step wit_rfc [EvComplete 2, EvInsert 9]"

lemma wit_rfc2: "wit_rfc2 = wit_rfc\<lparr>rgPending := [9, 1, 3], rgTokens := 5, rgAdded := [9, 1, 2, 3, 9], rgDropped := [2]\<rparr>"
  by (simp add: wit_rfc2_def wit_rfc RfcOnChildComplete_def ParOnChildComplete_def ParRemoveTask_def RfcInsertTask_def rfc_eval)

lemma wit_rfc2_reach: "reach rfc_step rfc_legal (new_rfc_group (Some 2) None) wit_rfc2"
  unfolding wit_rfc2_def
  by (rule reach_chain [OF wit_rfc_reach]) (simp add: rfc_legal_def)

lemma rfc_tasks_conserved_witness:
  "mset [9, 1, 2, 3, 9] = mset [9] + mset (rgToStart wit_rfc2) + mset [9, 1, 3] + mset [2 :: nat] \<and> rgTokens wit_rfc2 > 0"
  using rfc_tasks_conserved [OF rfc_any_legal [OF wit_rfc2_reach]] by (simp add: wit_rfc2 wit_rfc)

lemma rfc_limits_hold_witness:
  "length (rgSet wit_rfc) \<le> max 2 RFC_MAX_REQS \<and>
    length (rgSet (rfc_step wit_rfc EvRun)) \<le> max (length (rgSet wit_rfc)) (rgMaxRunning wit_rfc) \<and>
    length (rgPending (rfc_step wit_rfc (EvAdd 5))) \<le> max (length (rgPending wit_rfc)) (rgMaxPending wit_rfc)"
  using rfc_limits_hold [OF rfc_any_legal [OF wit_rfc_reach]] by blast

definition wit_drain :: "rfc_event list" where
  "wit_drain = [EvRun, EvRun, EvStart, EvLeave, EvComplete 1, EvRun, EvStart, EvLeave, EvComplete 2, EvRun, EvStart, EvLeave,
     EvComplete 3, EvComplete 9, EvRun, EvRun]"

lemma rfc_drains_witness:
  "length wit_drain \<le> rfc_weight wit_rfc \<and> rgPending (foldl rfc_step wit_rfc wit_drain) = [] \<and>
    mset (rgStarted (foldl rfc_step wit_rfc wit_drain)) = {#9, 1, 2, 3#}"
proof -
  note ev = wit_rfc wit_drain_def RfcOnChildComplete_def ParOnChildComplete_def ParRemoveTask_def rfc_eval
  have fin: "rgRunner (foldl rfc_step wit_rfc wit_drain) = None" "rgTokens (foldl rfc_step wit_rfc wit_drain) = 0"
    "rgSet (foldl rfc_step wit_rfc wit_drain) = []" "rgState (foldl rfc_step wit_rfc wit_drain) = grpStopped"
    by (simp_all add: ev)
  have none: "\<not> sys_enabled (foldl rfc_step wit_rfc wit_drain) e" for e
    using fin by (cases e) (simp_all add: sys_enabled_def rfc_run_due_def rgToStart_def)
  have "length wit_drain \<le> rfc_weight wit_rfc \<and>
    ((\<forall>e. \<not> sys_enabled (foldl rfc_step wit_rfc wit_drain) e) \<longrightarrow>
      rgPending (foldl rfc_step wit_rfc wit_drain) = [] \<and>
      mset (rgStarted (foldl rfc_step wit_rfc wit_drain)) = mset (rgStarted wit_rfc) + mset (rgToStart wit_rfc) + mset (rgPending wit_rfc))"
    by (rule rfc_drains [OF wit_rfc_reach]) (simp_all add: ev sys_enabled_def rgToStart_def)
  then show ?thesis using none by (simp add: wit_rfc rgToStart_def)
qed

end
