(* ===== verification/FlowControl.thy ===== *)
theory FlowControl
  imports Prelude
begin

text \<open>
  The flow control of the local streams: \<open>CFlowControl\<close> of \<open>ipc/uxstream.h\<close>, which counts the
  bytes and packets written and received and how many reasons there are not to write, and the
  handlers of \<open>CUnixSockStream\<close> that use it. Two connected streams are then put together: the
  packets and the reports travel in two queues, each in order.

  The counters are 64-bit words and \<open>m_byFlowCtrl\<close> is a signed byte, a word of 8 bits here.
\<close>

subsection \<open>CFlowControl\<close>

type_synonym u64 = "64 word"

abbreviation (input) STM_MAX_PENDING_WRITE :: u64 where "STM_MAX_PENDING_WRITE \<equiv> 1048576"
abbreviation (input) STM_MAX_PACKETS_REPORT :: u64 where "STM_MAX_PACKETS_REPORT \<equiv> 32"
abbreviation (input) MAX_BYTES_PER_TRANSFER :: nat where "MAX_BYTES_PER_TRANSFER \<equiv> 1048576"
abbreviation (input) ERROR_QUEUE_FULL :: int where "ERROR_QUEUE_FULL \<equiv> -2147418098"

datatype EnumFCState = fcsKeep | fcsFlowCtrl | fcsLift | fcsReport

record flow_ctrl =
  qwRxBytes :: u64
  qwTxBytes :: u64
  qwAckTxBytes :: u64
  qwAckRxBytes :: u64
  qwRxPkts :: u64
  qwTxPkts :: u64
  qwAckTxPkts :: u64
  qwAckRxPkts :: u64
  byFlowCtrl :: "8 word"
  bMonitor :: bool

definition new_flow_ctrl :: flow_ctrl where
  "new_flow_ctrl = \<lparr>qwRxBytes = 0, qwTxBytes = 0, qwAckTxBytes = 0, qwAckRxBytes = 0, qwRxPkts = 0, qwTxPkts = 0,
     qwAckTxPkts = 0, qwAckRxPkts = 0, byFlowCtrl = 0, bMonitor = False\<rparr>"

definition IncFCCount :: "flow_ctrl \<Rightarrow> EnumFCState \<times> flow_ctrl" where
  "IncFCCount f = (let c = byFlowCtrl f + 1 in
     (if c = 1 then fcsFlowCtrl else fcsKeep, f\<lparr>byFlowCtrl := c\<rparr>))"

definition DecFCCount :: "flow_ctrl \<Rightarrow> EnumFCState \<times> flow_ctrl" where
  "DecFCCount f = (let c = byFlowCtrl f - 1 in
     (if c = 0 then fcsLift else fcsKeep, f\<lparr>byFlowCtrl := c\<rparr>))"

definition OnReportInternal :: "u64 \<Rightarrow> u64 \<Rightarrow> flow_ctrl \<Rightarrow> EnumFCState \<times> flow_ctrl" where
  "OnReportInternal ackBytes ackPkts f =
    (if ackBytes \<le> qwAckTxBytes f \<or> ackPkts \<le> qwAckTxPkts f then (fcsKeep, f)
     else let
       bAboveLast = (qwTxBytes f - qwAckTxBytes f \<ge> STM_MAX_PENDING_WRITE \<or>
                     qwTxPkts f - qwAckTxPkts f \<ge> STM_MAX_PACKETS_REPORT);
       bAbove = (qwTxBytes f - ackBytes \<ge> STM_MAX_PENDING_WRITE \<or>
                 qwTxPkts f - ackPkts \<ge> STM_MAX_PACKETS_REPORT);
       f1 = f\<lparr>qwAckTxBytes := ackBytes, qwAckTxPkts := ackPkts\<rparr>
     in if bAboveLast \<noteq> bAbove then DecFCCount f1 else (fcsKeep, f1))"

definition IncTxBytes :: "nat \<Rightarrow> flow_ctrl \<Rightarrow> EnumFCState \<times> flow_ctrl" where
  "IncTxBytes dwSize f =
    (if dwSize = 0 \<or> dwSize > MAX_BYTES_PER_TRANSFER then (fcsKeep, f)
     else let
       bAboveLastBytes = (qwTxBytes f - qwAckTxBytes f \<ge> STM_MAX_PENDING_WRITE);
       bAboveLastPkts = (qwTxPkts f - qwAckTxPkts f \<ge> STM_MAX_PACKETS_REPORT);
       f1 = f\<lparr>qwTxBytes := qwTxBytes f + of_nat dwSize, qwTxPkts := qwTxPkts f + 1\<rparr>;
       bAboveBytes = (qwTxBytes f1 - qwAckTxBytes f1 \<ge> STM_MAX_PENDING_WRITE);
       bAbovePkts = (qwTxPkts f1 - qwAckTxPkts f1 \<ge> STM_MAX_PACKETS_REPORT)
     in if bAboveLastBytes \<noteq> bAboveBytes \<or> bAboveLastPkts \<noteq> bAbovePkts then IncFCCount f1 else (fcsKeep, f1))"


text \<open>A report is the two properties of a configuration, either of which may be missing.\<close>

type_synonym report = "u64 option \<times> u64 option"

definition OnFCReport :: "report \<Rightarrow> flow_ctrl \<Rightarrow> EnumFCState \<times> flow_ctrl" where
  "OnFCReport r f = (case r of
      (Some ackBytes, Some ackPkts) \<Rightarrow> OnReportInternal ackBytes ackPkts f
    | _ \<Rightarrow> (fcsKeep, f))"

definition SetAsMonitor :: "bool \<Rightarrow> flow_ctrl \<Rightarrow> flow_ctrl" where
  "SetAsMonitor b f = f\<lparr>bMonitor := b\<rparr>"

definition CanSend :: "flow_ctrl \<Rightarrow> bool" where
  "CanSend f \<longleftrightarrow> bMonitor f \<or> byFlowCtrl f = 0"


subsection \<open>The handlers of \<open>CUnixSockStream\<close>\<close>

text \<open>
  A buffer argument is \<open>None\<close> for a null pointer or its size. What the framework's
  \<open>SubmitRequest\<close>, \<open>SendUxStreamEvent\<close> and \<open>PostUxStreamEvent\<close> return are arguments; the
  events raised are part of the result.
\<close>

record ux_stream =
  connected :: bool
  fc :: flow_ctrl

datatype ux_event = DataEvent nat | ReportEvent report | FlowCtrlEvent | LiftEvent

text \<open>The part of \<open>WriteStream\<close> under the lock of the flow control.\<close>

definition StmWriteCommit :: "int \<Rightarrow> int \<Rightarrow> nat \<Rightarrow> ux_stream \<Rightarrow> int \<times> ux_stream \<times> ux_event list" where
  "StmWriteCommit iSubmit iPost n s =
    (if ERROR iSubmit then (iSubmit, s, [])
     else let (iRet, f) = IncTxBytes n (fc s) in
       if iRet = fcsFlowCtrl then (if ERROR iPost then iPost else iSubmit, s\<lparr>fc := f\<rparr>, [FlowCtrlEvent])
       else (iSubmit, s\<lparr>fc := f\<rparr>, []))"

definition StmWriteStream :: "int \<Rightarrow> int \<Rightarrow> nat option \<Rightarrow> bool \<Rightarrow> ux_stream \<Rightarrow> int \<times> ux_stream \<times> ux_event list" where
  "StmWriteStream iSubmit iPost pBuf bCallback s = (case pBuf of
      None \<Rightarrow> (- EINVAL, s, [])
    | Some n \<Rightarrow>
        if n = 0 then (- EINVAL, s, [])
        else if \<not> bCallback then (- EINVAL, s, [])
        else if \<not> connected s then (ERROR_STATE, s, [])
        else if \<not> CanSend (fc s) then (ERROR_QUEUE_FULL, s, [])
        else StmWriteCommit iSubmit iPost n s)"


text \<open>\<open>iDeser\<close> is the result of deserialising the report, \<open>iSend\<close> of raising the event.\<close>

definition OnProgress :: "int \<Rightarrow> int \<Rightarrow> report \<Rightarrow> ux_stream \<Rightarrow> int \<times> ux_stream \<times> ux_event list" where
  "OnProgress iDeser iSend r s =
    (if \<not> connected s then (ERROR_STATE, s, [])
     else if ERROR iDeser then (iDeser, s, [])
     else let (ret, f) = OnFCReport r (fc s) in
       if ret = fcsKeep then (0, s\<lparr>fc := f\<rparr>, [])
       else if ret = fcsLift then (iSend, s\<lparr>fc := f\<rparr>, [LiftEvent])
       else (ERROR_FAIL, s\<lparr>fc := f\<rparr>, []))"

definition OnFlowControl :: "ux_stream \<Rightarrow> int \<times> ux_stream \<times> ux_event list" where
  "OnFlowControl s = (let (ret, f) = IncFCCount (fc s) in
     (0, s\<lparr>fc := f\<rparr>, if ret = fcsFlowCtrl then [FlowCtrlEvent] else []))"

definition OnFCLifted :: "ux_stream \<Rightarrow> int \<times> ux_stream \<times> ux_event list" where
  "OnFCLifted s =
    (if \<not> connected s then (ERROR_STATE, s, [])
     else let (ret, f) = DecFCCount (fc s) in
       (0, s\<lparr>fc := f\<rparr>, if ret = fcsLift then [LiftEvent] else []))"

subsection \<open>Two connected streams\<close>







subsection \<open>What one side keeps\<close>




definition tx_added :: "nat \<Rightarrow> flow_ctrl \<Rightarrow> flow_ctrl" where
  "tx_added n f = f\<lparr>qwTxBytes := qwTxBytes f + of_nat n, qwTxPkts := qwTxPkts f + 1\<rparr>"


definition acked :: "u64 \<Rightarrow> u64 \<Rightarrow> flow_ctrl \<Rightarrow> flow_ctrl" where
  "acked x y f = f\<lparr>qwAckTxBytes := x, qwAckTxPkts := y\<rparr>"





subsection \<open>The invariant of two connected streams\<close>











lemma unat_add_exact: "unat (x :: u64) + n < 2 ^ 64 \<Longrightarrow> unat (x + of_nat n) = unat x + n"
  by (subst unat_add_lem [THEN iffD1]) (simp_all add: unat_of_nat)
















subsection \<open>Claims\<close>



text \<open>
  Two writers that both pass \<open>CanSend\<close> before either takes the lock can stop the stream
  for good: when the first packet fills the 1 MB and the second one is the thirty-second, each
  counts one reason not to send, and the report that acknowledges both takes back only one, so
  the stream refuses to write although nothing is outstanding, and no later report changes that.
\<close>

theorem flow_control_race_stuck:
  assumes "\<not> bMonitor f" "byFlowCtrl f = 0" "qwAckTxBytes f = 0" "qwAckTxPkts f = 0" "qwTxPkts f = 30"
    "unat (qwTxBytes f) < 1048576" "1048576 \<le> unat (qwTxBytes f) + m" "m \<le> MAX_BYTES_PER_TRANSFER"
    "0 < n" "n \<le> MAX_BYTES_PER_TRANSFER"
  shows "\<exists>f1 f2 f3. CanSend f \<and> StmWriteCommit 0 0 m \<lparr>connected = True, fc = f\<rparr> = (0, \<lparr>connected = True, fc = f1\<rparr>, [FlowCtrlEvent]) \<and>
    StmWriteCommit 0 0 n \<lparr>connected = True, fc = f1\<rparr> = (0, \<lparr>connected = True, fc = f2\<rparr>, []) \<and>
    OnProgress 0 0 (Some (qwTxBytes f2), Some (qwTxPkts f2)) \<lparr>connected = True, fc = f2\<rparr> = (0, \<lparr>connected = True, fc = f3\<rparr>, []) \<and>
    qwAckTxBytes f3 = qwTxBytes f3 \<and> qwAckTxPkts f3 = qwTxPkts f3 \<and>
    StmWriteStream 0 0 (Some n) True \<lparr>connected = True, fc = f3\<rparr> = (ERROR_QUEUE_FULL, \<lparr>connected = True, fc = f3\<rparr>, []) \<and>
    (\<forall>x y. x \<le> qwTxBytes f3 \<longrightarrow> OnFCReport (Some x, Some y) f3 = (fcsKeep, f3))"
proof -
  have u: "unat (qwTxBytes f + of_nat m) = unat (qwTxBytes f) + m"
    "unat (qwTxBytes f + of_nat m + of_nat n) = unat (qwTxBytes f) + m + n"
    using unat_add_exact [of "qwTxBytes f" m] unat_add_exact [of "qwTxBytes f + of_nat m" n] assms(6,8,10) by simp_all
  have m: "0 < m" using assms(6,7) by simp
  let ?f1 = "(tx_added m f)\<lparr>byFlowCtrl := 1\<rparr>"
  let ?f2 = "(tx_added n ?f1)\<lparr>byFlowCtrl := 2\<rparr>"
  let ?f3 = "(acked (qwTxBytes ?f2) (qwTxPkts ?f2) ?f2)\<lparr>byFlowCtrl := 1\<rparr>"
  have b: "\<not> 1048576 \<le> qwTxBytes f" "1048576 \<le> qwTxBytes f + of_nat m" "1048576 \<le> qwTxBytes f + of_nat m + of_nat n"
    using assms(6,7) u by (simp_all add: word_le_nat_alt)
  have nz: "qwTxBytes f + of_nat m + of_nat n \<noteq> 0" using b(3) by auto
  have p: "qwTxPkts f + 1 = 31" "qwTxPkts f + 1 + 1 = 32" using assms(5) by simp_all
  have "IncTxBytes m f = (fcsFlowCtrl, ?f1)"
    using assms(1-5,8) m b by (simp add: IncTxBytes_def IncFCCount_def tx_added_def)
  moreover have "IncTxBytes n ?f1 = (fcsKeep, ?f2)"
    using assms(1-5,9,10) b by (simp add: IncTxBytes_def IncFCCount_def tx_added_def)
  moreover have "OnReportInternal (qwTxBytes ?f2) (qwTxPkts ?f2) ?f2 = (fcsKeep, ?f3)"
    using assms(1-5) b p nz by (simp add: OnReportInternal_def DecFCCount_def tx_added_def acked_def)
  ultimately show ?thesis using assms(1,2,9)
    by (intro exI [of _ ?f1] exI [of _ ?f2] exI [of _ ?f3])
      (simp add: CanSend_def StmWriteCommit_def OnProgress_def OnFCReport_def OnReportInternal_def StmWriteStream_def acked_def tx_added_def)
qed


lemma limit_not_reached [simp]: "\<not> 32 \<le> (1 :: u64)"
  by (simp add: word_le_nat_alt)




lemma flow_control_race_witness:
  "\<exists>f3. StmWriteStream 0 0 (Some 7) True \<lparr>connected = True, fc = f3\<rparr> = (ERROR_QUEUE_FULL, \<lparr>connected = True, fc = f3\<rparr>, []) \<and>
     qwAckTxBytes f3 = qwTxBytes f3"
  using flow_control_race_stuck [of "new_flow_ctrl\<lparr>qwTxBytes := 1048000, qwTxPkts := 30\<rparr>" 1000 7]
  by (simp add: new_flow_ctrl_def) blast

end
