(* ===== verification/IfState.thy ===== *)
theory IfState
  imports Prelude
begin

text \<open>
  The state of an interface: \<open>CInterfaceState\<close> and its subclasses of \<open>ipc/ifstat.cpp\<close>, with the
  subscriptions they hold at the connection points (\<open>CConnPointHelper\<close> of \<open>ipc/connhelp.h\<close>
  and \<open>CStlEventMap\<close> of \<open>include/stlcont.h\<close>).

  The port manager is outside of this component: what \<open>OpenPort\<close>, \<open>OpenPortByRef\<close> and the
  queries about a port answer are fields of a record the operations take as an argument. A
  virtual method is a function of the class of the object.
\<close>

subsection \<open>States and events\<close>

datatype EnumIfState = stateStopped | stateStarting | stateStarted | stateConnected | stateRecovery
  | statePaused | stateUnknown | stateStopping | statePausing | stateResuming | stateInvalid
  | stateIoDone | stateStartFailed

datatype EnumEventId = eventRetry | eventPortStarted | eventPortStartFailed | eventPortStopped | eventPortStopping
  | eventModOnline | eventModOffline | eventDBusOnline | eventDBusOffline | eventRmtModOnline | eventRmtModOffline
  | eventRmtDBusOnline | eventRmtDBusOffline | eventRmtSvrOnline | eventRmtSvrOffline
  | cmdOpenPort | cmdClosePort | cmdEnableEvent | cmdShutdown | cmdPause | cmdResume | eventResumed | eventPaused
  | cmdCleanup | eventOther nat | eventInvalid | eventTryLock

text \<open>\<open>iEvent >= eventInvalid\<close>.\<close>

definition invalid_event :: "EnumEventId \<Rightarrow> bool" where
  "invalid_event e \<longleftrightarrow> e = eventInvalid \<or> e = eventTryLock"

definition m_mapState :: "((EnumIfState \<times> EnumEventId) \<times> EnumIfState) list" where
  "m_mapState = [
    ((stateStopped,   cmdOpenPort),            stateStarting),
    ((stateStarting,  eventPortStarted),       stateConnected),
    ((stateStarting,  eventPortStartFailed),   stateStartFailed),
    ((stateStarting,  eventPortStopping),      stateStopped),
    ((stateStarting,  eventDBusOffline),       stateStopped),
    ((stateStarting,  eventRmtSvrOffline),     stateStopped),
    ((stateStarting,  cmdShutdown),            stateStopped),
    ((stateConnected, eventPaused),            statePaused),
    ((stateConnected, eventPortStopping),      stateStopping),
    ((stateConnected, eventDBusOffline),       stateStopping),
    ((stateConnected, eventRmtSvrOffline),     stateStopping),
    ((stateConnected, cmdShutdown),            stateStopping),
    ((stateConnected, eventModOffline),        stateRecovery),
    ((stateConnected, eventRmtModOffline),     stateRecovery),
    ((stateConnected, cmdPause),               statePausing),
    ((stateRecovery,  eventPortStopping),      stateStopping),
    ((stateRecovery,  eventModOffline),        stateRecovery),
    ((stateRecovery,  cmdEnableEvent),         stateRecovery),
    ((stateRecovery,  eventModOnline),         stateUnknown),
    ((stateRecovery,  eventRmtModOnline),      stateUnknown),
    ((stateRecovery,  eventDBusOffline),       stateStopping),
    ((stateRecovery,  eventRmtSvrOffline),     stateStopping),
    ((stateRecovery,  cmdShutdown),            stateStopping),
    ((statePaused,    eventPortStopping),      stateStopping),
    ((statePaused,    eventModOffline),        stateRecovery),
    ((statePaused,    eventDBusOffline),       stateStopping),
    ((statePaused,    eventRmtModOffline),     stateRecovery),
    ((statePaused,    eventRmtSvrOffline),     stateStopped),
    ((statePaused,    cmdShutdown),            stateStopping),
    ((statePaused,    cmdResume),              stateResuming),
    ((statePausing,   eventPaused),            statePaused),
    ((stateStopping,  cmdClosePort),           stateStopped),
    ((stateStartFailed, cmdCleanup),           stateStopping),
    ((stateStartFailed, eventRetry),           stateStarting),
    ((stateResuming,  eventResumed),           stateConnected)]"

subsection \<open>Connection points\<close>

text \<open>
  A connection point is an event map, from sinks to the number of their subscriptions, in the
  registry under the property of its topic; \<open>Inl\<close> is the error with which it is not found.
\<close>

datatype EnumPropId = propBusName | propPortClass | propPortId | propConnParams | propConnHandle | propRouterPath
  | propFd | propTimeoutSec | propKeepAliveSec | propListenOnly | propDestDBusName | propSrcDBusName | propObjPath
  | propEventSink | propIfPtr | propStartStopEvent | propDBusModEvent | propDBusSysEvent | propAdminEvent
  | propRmtModEvent | propRmtSvrEvent

type_synonym sink = nat
type_synonym event_map = "sink \<rightharpoonup> int"
type_synonym conn_points = "EnumPropId \<Rightarrow> int + event_map"

definition Map_SubscribeEvent :: "sink \<Rightarrow> event_map \<Rightarrow> event_map" where
  "Map_SubscribeEvent p m = (case m p of None \<Rightarrow> m(p \<mapsto> 1) | Some c \<Rightarrow> m(p \<mapsto> c + 1))"

definition Map_UnsubscribeEvent :: "sink \<Rightarrow> event_map \<Rightarrow> int \<times> event_map" where
  "Map_UnsubscribeEvent p m = (case m p of
      None \<Rightarrow> (- ENOENT, m)
    | Some c \<Rightarrow> (0, if c - 1 \<le> 0 then m(p := None) else m(p \<mapsto> c - 1)))"

definition SubscribeEvent :: "EnumPropId \<Rightarrow> sink option \<Rightarrow> conn_points \<Rightarrow> int \<times> conn_points" where
  "SubscribeEvent t p cp = (case p of
      None \<Rightarrow> (- EINVAL, cp)
    | Some p \<Rightarrow> (case cp t of
        Inl e \<Rightarrow> (e, cp)
      | Inr m \<Rightarrow> (0, cp(t := Inr (Map_SubscribeEvent p m)))))"

definition UnsubscribeEvent :: "EnumPropId \<Rightarrow> sink \<Rightarrow> conn_points \<Rightarrow> int \<times> conn_points" where
  "UnsubscribeEvent t p cp = (case cp t of
      Inl e \<Rightarrow> (e, cp)
    | Inr m \<Rightarrow> (case Map_UnsubscribeEvent p m of (ret, m') \<Rightarrow> (ret, cp(t := Inr m'))))"

subsection \<open>The interface state and the port manager\<close>

type_synonym handle = nat

abbreviation (input) INVALID_HANDLE :: handle where "INVALID_HANDLE \<equiv> 0"

datatype prop_val = VStr string | VInt nat | VObj nat

type_synonym props = "EnumPropId \<rightharpoonup> prop_val"

record if_state =
  iState :: EnumIfState
  iResumeState :: EnumIfState
  hPort :: handle
  vecTopicList :: "EnumPropId list"
  ifCfg :: props
  pInterface :: sink

datatype if_class = LocalProxyState | RemoteProxyState | IfServerState | TcpBdgePrxyState | IfTcpBridgeState
  | IfReqFwdrState | IfReqFwdrPrxyState | UnixSockStmState | DummyInterfaceState

record io_mgr =
  mgrOpenPort :: "props \<Rightarrow> int \<times> handle"
  mgrOpenPortByRef :: "handle \<Rightarrow> int"
  mgrClosePort :: "handle \<Rightarrow> int"
  mgrPortClass :: "handle \<Rightarrow> int + string"
  mgrPortPdoId :: "handle \<Rightarrow> int + nat"
  mgrPdoProps :: "handle \<Rightarrow> int + props"
  mgrReqProps :: props
  mgrRouterDest :: string

definition new_if_state :: "props \<Rightarrow> sink \<Rightarrow> if_state" where
  "new_if_state cfg p = \<lparr>iState = stateStopped, iResumeState = stateInvalid, hPort = INVALID_HANDLE,
     vecTopicList = [], ifCfg = cfg, pInterface = p\<rparr>"

subsection \<open>State switches\<close>

definition TestSetState :: "EnumEventId \<Rightarrow> if_state \<Rightarrow> int" where
  "TestSetState e s = (case map_of m_mapState (iState s, e) of None \<Rightarrow> ERROR_STATE | Some _ \<Rightarrow> 0)"

definition SetStateOnEvent :: "EnumEventId \<Rightarrow> if_state \<Rightarrow> int \<times> if_state" where
  "SetStateOnEvent e s = (case map_of m_mapState (iState s, e) of
      None \<Rightarrow> (ERROR_STATE, s)
    | Some new \<Rightarrow>
        if new = stateUnknown then (0, s\<lparr>iState := iResumeState s\<rparr>)
        else if new = stateRecovery then
          (if iState s \<noteq> stateRecovery then (0, s\<lparr>iResumeState := iState s, iState := new\<rparr>) else (0, s))
        else (0, s\<lparr>iState := new\<rparr>))"

subsection \<open>Subscriptions\<close>

fun unsubscribe_all :: "EnumPropId list \<Rightarrow> sink \<Rightarrow> conn_points \<Rightarrow> conn_points" where
  "unsubscribe_all [] p cp = cp"
| "unsubscribe_all (t # ts) p cp = unsubscribe_all ts p (snd (UnsubscribeEvent t p cp))"

definition UnsubscribeEvents :: "if_state \<Rightarrow> conn_points \<Rightarrow> if_state \<times> conn_points" where
  "UnsubscribeEvents s cp = (s\<lparr>vecTopicList := []\<rparr>, unsubscribe_all (vecTopicList s) (pInterface s) cp)"

text \<open>The loop of \<open>SubscribeEventsInternal\<close>; \<open>done\<close> is \<open>vecEvents\<close>.\<close>

fun subscribe_loop :: "EnumPropId list \<Rightarrow> sink \<Rightarrow> EnumPropId list \<Rightarrow> int \<Rightarrow> conn_points \<Rightarrow> int \<times> EnumPropId list \<times> conn_points" where
  "subscribe_loop [] p vecEvents ret cp = (ret, vecEvents, cp)"
| "subscribe_loop (t # ts) p vecEvents ret cp =
    (case SubscribeEvent t (Some p) cp of (ret1, cp1) \<Rightarrow>
       if ERROR ret1 then (ret1, vecEvents, cp1)
       else subscribe_loop ts p (vecEvents @ [t]) ret1 cp1)"

definition SubscribeEventsInternal :: "EnumPropId list \<Rightarrow> if_state \<Rightarrow> conn_points \<Rightarrow> int \<times> if_state \<times> conn_points" where
  "SubscribeEventsInternal ts s cp =
    (case UnsubscribeEvents s cp of (s1, cp1) \<Rightarrow>
     case subscribe_loop ts (pInterface s1) [] 0 cp1 of (ret, vecEvents, cp2) \<Rightarrow>
       if ERROR ret then (ret, s1, unsubscribe_all vecEvents (pInterface s1) cp2)
       else (ret, s1\<lparr>vecTopicList := vecEvents\<rparr>, cp2))"

definition topics_of :: "if_class \<Rightarrow> EnumPropId list option" where
  "topics_of c = (case c of
      LocalProxyState \<Rightarrow> Some [propStartStopEvent, propDBusModEvent, propDBusSysEvent, propAdminEvent]
    | UnixSockStmState \<Rightarrow> Some [propStartStopEvent, propDBusModEvent, propDBusSysEvent, propAdminEvent]
    | RemoteProxyState \<Rightarrow> Some [propStartStopEvent, propDBusModEvent, propRmtModEvent, propRmtSvrEvent, propDBusSysEvent, propAdminEvent]
    | IfServerState \<Rightarrow> Some [propDBusModEvent, propStartStopEvent, propDBusSysEvent, propAdminEvent]
    | IfReqFwdrState \<Rightarrow> Some [propDBusModEvent]
    | IfReqFwdrPrxyState \<Rightarrow> Some [propDBusModEvent]
    | _ \<Rightarrow> None)"

definition SubscribeEvents :: "if_class \<Rightarrow> if_state \<Rightarrow> conn_points \<Rightarrow> int \<times> if_state \<times> conn_points" where
  "SubscribeEvents c s cp = (case topics_of c of
      None \<Rightarrow> (0, s, cp)
    | Some ts \<Rightarrow> SubscribeEventsInternal ts s cp)"

subsection \<open>Properties of the interface\<close>

text \<open>\<open>GetProperty\<close> asks the port for its id when the interface has none, and remembers it.\<close>

definition If_GetProperty :: "io_mgr \<Rightarrow> EnumPropId \<Rightarrow> if_state \<Rightarrow> (int + prop_val) \<times> if_state" where
  "If_GetProperty io p s =
    (let local = (case ifCfg s p of None \<Rightarrow> Inl (- ENOENT) | Some v \<Rightarrow> Inr v) in
     if p = propPortId \<and> hPort s \<noteq> INVALID_HANDLE then
       (case ifCfg s p of
          Some (VInt n) \<Rightarrow> if n \<noteq> 4294967295 then (local, s) else
            (case mgrPortPdoId io (hPort s) of Inl e \<Rightarrow> (Inl e, s) | Inr d \<Rightarrow> (Inr (VInt d), s\<lparr>ifCfg := (ifCfg s)(p \<mapsto> VInt d)\<rparr>))
        | Some v \<Rightarrow> (local, s)
        | None \<Rightarrow>
            (case mgrPortPdoId io (hPort s) of Inl e \<Rightarrow> (Inl e, s) | Inr d \<Rightarrow> (Inr (VInt d), s\<lparr>ifCfg := (ifCfg s)(p \<mapsto> VInt d)\<rparr>)))
     else (local, s))"

text \<open>\<open>oParams.CopyProp( p, this )\<close>, and \<open>CopyProp( p, pPdo )\<close> into the interface.\<close>

definition copy_from_if :: "io_mgr \<Rightarrow> EnumPropId \<Rightarrow> props \<Rightarrow> if_state \<Rightarrow> int \<times> props \<times> if_state" where
  "copy_from_if io p ps s = (case If_GetProperty io p s of
      (Inl e, s1) \<Rightarrow> (e, ps, s1) | (Inr v, s1) \<Rightarrow> (0, ps(p \<mapsto> v), s1))"

definition copy_from_pdo :: "EnumPropId \<Rightarrow> props \<Rightarrow> if_state \<Rightarrow> int \<times> if_state" where
  "copy_from_pdo p pdo s = (case pdo p of
      None \<Rightarrow> (- ENOENT, s) | Some v \<Rightarrow> (0, s\<lparr>ifCfg := (ifCfg s)(p \<mapsto> v)\<rparr>))"

fun copy_all :: "EnumPropId list \<Rightarrow> props \<Rightarrow> if_state \<Rightarrow> int \<times> if_state" where
  "copy_all [] pdo s = (0, s)"
| "copy_all (p # ps) pdo s = (case copy_from_pdo p pdo s of (ret, s1) \<Rightarrow>
     if ERROR ret then (ret, s1) else copy_all ps pdo s1)"

definition as_str :: "prop_val \<Rightarrow> string" where
  "as_str v = (case v of VStr x \<Rightarrow> x | _ \<Rightarrow> [])"

definition IsMyPort :: "io_mgr \<Rightarrow> handle \<Rightarrow> if_state \<Rightarrow> bool" where
  "IsMyPort io h s =
    (if h = INVALID_HANDLE then False
     else if hPort s = h then True
     else if hPort s \<noteq> INVALID_HANDLE then False
     else case mgrPortClass io h of
       Inl _ \<Rightarrow> False
     | Inr c \<Rightarrow> (case ifCfg s propPortClass of None \<Rightarrow> False | Some v \<Rightarrow> c = as_str v))"

text \<open>\<open>IsMyDest\<close> of the proxies and of the servers differ in the property they compare.\<close>

definition dest_is :: "EnumPropId \<Rightarrow> string \<Rightarrow> if_state \<Rightarrow> bool" where
  "dest_is p strModName s = (case ifCfg s p of
      None \<Rightarrow> False
    | Some v \<Rightarrow> as_str v = strModName \<or> (case ifCfg s propObjPath of None \<Rightarrow> False | Some w \<Rightarrow> as_str w = strModName))"

definition IsMyDest :: "io_mgr \<Rightarrow> if_class \<Rightarrow> string \<Rightarrow> if_state \<Rightarrow> bool" where
  "IsMyDest io c strModName s = (case c of
      RemoteProxyState \<Rightarrow> dest_is propDestDBusName strModName s \<or> mgrRouterDest io = strModName
    | IfServerState \<Rightarrow> dest_is propSrcDBusName strModName s
    | IfTcpBridgeState \<Rightarrow> dest_is propSrcDBusName strModName s
    | IfReqFwdrState \<Rightarrow> dest_is propSrcDBusName strModName s
    | _ \<Rightarrow> dest_is propDestDBusName strModName s)"

subsection \<open>Opening and closing the port\<close>

definition SetupOpenPortParams :: "io_mgr \<Rightarrow> if_class \<Rightarrow> props \<Rightarrow> if_state \<Rightarrow> int \<times> props \<times> if_state" where
  "SetupOpenPortParams io c ps s = (case c of
      UnixSockStmState \<Rightarrow>
        (case copy_from_if io propFd ps s of (_, ps1, s1) \<Rightarrow>
         case copy_from_if io propTimeoutSec ps1 s1 of (_, ps2, s2) \<Rightarrow>
         case copy_from_if io propKeepAliveSec ps2 s2 of (_, ps3, s3) \<Rightarrow>
         case copy_from_if io propListenOnly ps3 s3 of (_, ps4, s4) \<Rightarrow> (0, ps4, s4))
    | RemoteProxyState \<Rightarrow>
        (case copy_from_if io propConnParams ps s of (_, ps1, s1) \<Rightarrow>
         case copy_from_if io propRouterPath ps1 s1 of (ret, ps2, s2) \<Rightarrow>
           (0, if ERROR ret then ps2(propRouterPath \<mapsto> VStr ''/'') else ps2, s2))
    | TcpBdgePrxyState \<Rightarrow> copy_from_if io propConnParams ps s
    | _ \<Rightarrow> (0, ps, s))"

text \<open>The parameters of the request, up to and with \<open>SetupOpenPortParams\<close>.\<close>

definition open_params :: "io_mgr \<Rightarrow> if_class \<Rightarrow> sink \<Rightarrow> if_state \<Rightarrow> int \<times> props \<times> if_state" where
  "open_params io c pCallback s =
    (case copy_from_if io propBusName (mgrReqProps io) s of (ret1, ps1, s1) \<Rightarrow>
       if ERROR ret1 then (ret1, ps1, s1)
     else case copy_from_if io propPortClass ps1 s1 of (ret2, ps2, s2) \<Rightarrow>
       if ERROR ret2 then (ret2, ps2, s2)
     else case copy_from_if io propPortId ps2 s2 of (ret3, ps3, s3) \<Rightarrow>
       if ERROR ret3 then (ret3, ps3, s3)
     else SetupOpenPortParams io c (ps3(propEventSink \<mapsto> VObj pCallback, propIfPtr \<mapsto> VObj (pInterface s3))) s3)"

definition OpenPortInternal :: "io_mgr \<Rightarrow> if_class \<Rightarrow> sink option \<Rightarrow> if_state \<Rightarrow> conn_points \<Rightarrow> int \<times> if_state \<times> conn_points" where
  "OpenPortInternal io c pCallback s cp = (case pCallback of
      None \<Rightarrow> (- EINVAL, s, cp)
    | Some cb \<Rightarrow>
        if iState s \<noteq> stateStarting then (ERROR_STATE, s, cp)
        else (case open_params io c cb s of (ret, ps, s1) \<Rightarrow>
          if ERROR ret then (ret, s1, cp)
          else (case mgrOpenPort io ps of (ret, h) \<Rightarrow>
            let s2 = s1\<lparr>hPort := h\<rparr> in
            if ret = STATUS_PENDING then (ret, s2, cp)
            else if SUCCEEDED ret then
              (case SetStateOnEvent eventPortStarted s2 of (ret3, s3) \<Rightarrow>
                 if ERROR ret3 then (ret3, s3, cp) else SubscribeEvents c s3 cp)
            else if ERROR ret then (ret, snd (SetStateOnEvent eventPortStartFailed s2), cp)
            else (ret, s2, cp))))"

text \<open>The properties of the port the interface takes over once the port is open.\<close>

definition pdo_props_of :: "if_class \<Rightarrow> EnumPropId list" where
  "pdo_props_of c = (case c of RemoteProxyState \<Rightarrow> [propConnHandle, propConnParams]
     | TcpBdgePrxyState \<Rightarrow> [propPortId, propConnParams] | _ \<Rightarrow> [])"

definition OpenPort :: "io_mgr \<Rightarrow> if_class \<Rightarrow> sink option \<Rightarrow> if_state \<Rightarrow> conn_points \<Rightarrow> int \<times> if_state \<times> conn_points" where
  "OpenPort io c pCallback s cp =
    (case OpenPortInternal io c pCallback s cp of (ret, s1, cp1) \<Rightarrow>
       if ret = STATUS_PENDING \<or> ERROR ret \<or> pdo_props_of c = [] then (ret, s1, cp1)
       else case mgrPdoProps io (hPort s1) of
         Inl e \<Rightarrow> (e, s1, cp1)
       | Inr pdo \<Rightarrow> (case copy_all (pdo_props_of c) pdo s1 of (ret2, s2) \<Rightarrow> (ret2, s2, cp1)))"

definition If_Start :: "io_mgr \<Rightarrow> if_class \<Rightarrow> sink option \<Rightarrow> if_state \<Rightarrow> conn_points \<Rightarrow> int \<times> if_state \<times> conn_points" where
  "If_Start io c pCallback s cp = OpenPort io c pCallback s cp"

definition ClosePort :: "io_mgr \<Rightarrow> if_state \<Rightarrow> conn_points \<Rightarrow> int \<times> if_state \<times> conn_points" where
  "ClosePort io s cp =
    (if hPort s = INVALID_HANDLE then (- EINVAL, s, cp)
     else case UnsubscribeEvents s cp of (s1, cp1) \<Rightarrow> (mgrClosePort io (hPort s), s1, cp1))"

subsection \<open>Events\<close>

text \<open>\<open>CInterfaceState::OnPortEvent\<close>.\<close>

definition base_OnPortEvent :: "io_mgr \<Rightarrow> if_class \<Rightarrow> EnumEventId \<Rightarrow> handle \<Rightarrow> if_state \<Rightarrow> conn_points \<Rightarrow> int \<times> if_state \<times> conn_points" where
  "base_OnPortEvent io c e h s cp =
    (if h = INVALID_HANDLE \<or> e = eventInvalid then (- EINVAL, s, cp)
     else if e = eventPortStartFailed then
       (case SetStateOnEvent eventPortStartFailed s of (ret, s1) \<Rightarrow> (ret, s1, cp))
     else if e = eventPortStarted then
       (let ret = TestSetState eventPortStarted s in
        if ERROR ret then (ret, s, cp)
        else if ERROR (mgrOpenPortByRef io h) then
          (case SetStateOnEvent eventPortStartFailed s of (ret, s1) \<Rightarrow> (ret, s1, cp))
        else (case SetStateOnEvent eventPortStarted (s\<lparr>hPort := h\<rparr>) of (ret, s1) \<Rightarrow>
          if ERROR ret then (ret, s1, cp) else SubscribeEvents c s1 cp))
     else if e = eventPortStopping then
       (if \<not> IsMyPort io h s then (- ENOENT, s, cp) else (0, s, cp))
     else if e = eventPortStopped then
       (case UnsubscribeEvents (s\<lparr>hPort := INVALID_HANDLE\<rparr>) cp of (s1, cp1) \<Rightarrow>
        case SetStateOnEvent cmdClosePort s1 of (ret, s2) \<Rightarrow> (ret, s2, cp1))
     else (0, s, cp))"

definition event_props_of :: "if_class \<Rightarrow> EnumPropId list" where
  "event_props_of c = (case c of RemoteProxyState \<Rightarrow> [propConnHandle, propConnParams, propRouterPath]
     | TcpBdgePrxyState \<Rightarrow> [propPortId, propConnParams] | _ \<Rightarrow> [])"

definition OnPortEvent :: "io_mgr \<Rightarrow> if_class \<Rightarrow> EnumEventId \<Rightarrow> handle \<Rightarrow> if_state \<Rightarrow> conn_points \<Rightarrow> int \<times> if_state \<times> conn_points" where
  "OnPortEvent io c e h s cp =
    (case base_OnPortEvent io c e h s cp of (ret, s1, cp1) \<Rightarrow>
       if e \<noteq> eventPortStarted \<or> ERROR ret \<or> event_props_of c = [] then (ret, s1, cp1)
       else case mgrPdoProps io h of
         Inl err \<Rightarrow> (err, s1, cp1)
       | Inr pdo \<Rightarrow> (case copy_all (event_props_of c) pdo s1 of (ret2, s2) \<Rightarrow> (ret2, s2, cp1)))"

definition OnModEvent :: "EnumEventId \<Rightarrow> string \<Rightarrow> if_state \<Rightarrow> int \<times> if_state" where
  "OnModEvent e strModule s =
    (if invalid_event e \<or> strModule = [] then (- EINVAL, s)
     else if e \<in> {eventRmtModOffline, eventModOffline, eventRmtModOnline, eventModOnline}
       then (0, snd (SetStateOnEvent e s))
     else (0, s))"

definition OnDBusEvent :: "EnumEventId \<Rightarrow> if_state \<Rightarrow> int \<times> if_state" where
  "OnDBusEvent e s = (if invalid_event e then (- EINVAL, s) else (0, s))"

definition OnAdminEvent :: "EnumEventId \<Rightarrow> if_state \<Rightarrow> int \<times> if_state" where
  "OnAdminEvent e s =
    (if invalid_event e then (- EINVAL, s)
     else if e = cmdShutdown then (if iState s = stateStopping then (0, s) else (ERROR_STATE, s))
     else if e = cmdPause then SetStateOnEvent eventPaused s
     else if e = cmdResume then SetStateOnEvent eventResumed s
     else (0, s))"

definition OnRmtModEvent :: "if_class \<Rightarrow> EnumEventId \<Rightarrow> string \<Rightarrow> if_state \<Rightarrow> int \<times> if_state" where
  "OnRmtModEvent c e strModule s = (if c = RemoteProxyState then OnModEvent e strModule s else (- ENOTSUP, s))"

definition OnRmtSvrEvent :: "if_class \<Rightarrow> EnumEventId \<Rightarrow> if_state \<Rightarrow> int \<times> if_state" where
  "OnRmtSvrEvent c e s = (if c = RemoteProxyState then (0, s) else (- ENOTSUP, s))"

subsection \<open>The interface as a machine\<close>

text \<open>\<open>IfSet\<close> stands for the calls of \<open>SetStateOnEvent\<close> by the interface that owns the state.\<close>

datatype if_op = IfSet EnumEventId | IfPort EnumEventId handle | IfMod EnumEventId string | IfDBus EnumEventId
  | IfAdmin EnumEventId | IfRmtMod EnumEventId string | IfRmtSvr EnumEventId
  | IfOpen "sink option" | IfClose | IfSubscribe | IfUnsubscribe

definition if_exec :: "io_mgr \<Rightarrow> if_class \<Rightarrow> if_op \<Rightarrow> if_state \<times> conn_points \<Rightarrow> int \<times> if_state \<times> conn_points" where
  "if_exec io c x m = (case m of (s, cp) \<Rightarrow> (case x of
      IfSet e \<Rightarrow> (case SetStateOnEvent e s of (ret, s1) \<Rightarrow> (ret, s1, cp))
    | IfPort e h \<Rightarrow> OnPortEvent io c e h s cp
    | IfMod e n \<Rightarrow> (case OnModEvent e n s of (ret, s1) \<Rightarrow> (ret, s1, cp))
    | IfDBus e \<Rightarrow> (case OnDBusEvent e s of (ret, s1) \<Rightarrow> (ret, s1, cp))
    | IfAdmin e \<Rightarrow> (case OnAdminEvent e s of (ret, s1) \<Rightarrow> (ret, s1, cp))
    | IfRmtMod e n \<Rightarrow> (case OnRmtModEvent c e n s of (ret, s1) \<Rightarrow> (ret, s1, cp))
    | IfRmtSvr e \<Rightarrow> (case OnRmtSvrEvent c e s of (ret, s1) \<Rightarrow> (ret, s1, cp))
    | IfOpen cb \<Rightarrow> OpenPort io c cb s cp
    | IfClose \<Rightarrow> ClosePort io s cp
    | IfSubscribe \<Rightarrow> SubscribeEvents c s cp
    | IfUnsubscribe \<Rightarrow> (case UnsubscribeEvents s cp of (s1, cp1) \<Rightarrow> (0, s1, cp1))))"

definition if_step :: "io_mgr \<Rightarrow> if_class \<Rightarrow> if_state \<times> conn_points \<Rightarrow> if_op \<Rightarrow> if_state \<times> conn_points" where
  "if_step io c m x = snd (if_exec io c x m)"

subsection \<open>The state table\<close>

definition live_states :: "EnumIfState set" where
  "live_states = {stateStopped, stateStarting, stateStartFailed, stateConnected, stateRecovery, statePaused,
     statePausing, stateResuming, stateStopping}"

lemma table_rows:
  assumes "map_of m_mapState (st, e) = Some new"
  shows "new \<in> insert stateUnknown live_states"
    "new = stateUnknown \<Longrightarrow> st = stateRecovery"
    "new = stateRecovery \<Longrightarrow> st \<in> {stateConnected, statePaused, stateRecovery}"
proof -
  have row: "((st, e), new) \<in> set m_mapState" by (rule map_of_SomeD [OF assms])
  have all: "\<forall>((st, e), new) \<in> set m_mapState. new \<in> insert stateUnknown live_states \<and> (new = stateUnknown \<longrightarrow> st = stateRecovery) \<and>
    (new = stateRecovery \<longrightarrow> st \<in> {stateConnected, statePaused, stateRecovery})"
    by (simp add: m_mapState_def live_states_def)
  from bspec [OF all row] show "new \<in> insert stateUnknown live_states" "new = stateUnknown \<Longrightarrow> st = stateRecovery"
    "new = stateRecovery \<Longrightarrow> st \<in> {stateConnected, statePaused, stateRecovery}" by auto
qed

text \<open>While the interface recovers it knows the state to go back to.\<close>

definition state_inv :: "if_state \<Rightarrow> bool" where
  "state_inv s \<longleftrightarrow> iState s \<in> live_states \<and> (iState s = stateRecovery \<longrightarrow> iResumeState s \<in> {stateConnected, statePaused})"

lemma SetStateOnEvent_inv [step_preserves]:
  assumes "state_inv s"
  shows "state_inv (snd (SetStateOnEvent e s))"
proof (cases "map_of m_mapState (iState s, e)")
  case None
  then show ?thesis using assms by (simp add: SetStateOnEvent_def)
next
  case (Some new)
  note r = table_rows [OF Some]
  show ?thesis using Some r assms
    by (auto simp: SetStateOnEvent_def state_inv_def live_states_def)
qed

lemma SetStateOnEvent_frame:
  "vecTopicList (snd (SetStateOnEvent e s)) = vecTopicList s" "pInterface (snd (SetStateOnEvent e s)) = pInterface s"
  "hPort (snd (SetStateOnEvent e s)) = hPort s" "ifCfg (snd (SetStateOnEvent e s)) = ifCfg s"
  "fst (SetStateOnEvent e s) = TestSetState e s"
  by (auto simp: SetStateOnEvent_def TestSetState_def split: option.split)

lemma SetStateOnEvent_error: "ERROR (fst (SetStateOnEvent e s)) \<Longrightarrow> snd (SetStateOnEvent e s) = s"
  by (auto simp: SetStateOnEvent_def split: option.splits if_splits)

subsection \<open>Subscriptions\<close>

text \<open>The connection points \<open>cp\<close> with one subscription of \<open>p\<close> to each of the topics.\<close>

definition with_subs :: "sink \<Rightarrow> EnumPropId list \<Rightarrow> conn_points \<Rightarrow> conn_points" where
  "with_subs p ts cp = (\<lambda>t. if t \<in> set ts then (case cp t of Inl e \<Rightarrow> Inl e | Inr m \<Rightarrow> Inr (m(p \<mapsto> 1))) else cp t)"

text \<open>Connection points \<open>p\<close> has no subscription at; a missing one answers with an error.\<close>

definition cp_ok :: "sink \<Rightarrow> conn_points \<Rightarrow> bool" where
  "cp_ok p cp \<longleftrightarrow> (\<forall>t. case cp t of Inl e \<Rightarrow> e < 0 | Inr m \<Rightarrow> m p = None)"

definition topics_ok :: "EnumPropId list \<Rightarrow> conn_points \<Rightarrow> bool" where
  "topics_ok ts cp \<longleftrightarrow> distinct ts \<and> (\<forall>t \<in> set ts. \<exists>m. cp t = Inr m)"

lemma topics_ok_Nil [simp]: "topics_ok [] cp" "with_subs p [] cp = cp"
  by (simp_all add: topics_ok_def with_subs_def)

lemma unsubscribe_all_with:
  "topics_ok ts cp \<Longrightarrow> cp_ok p cp \<Longrightarrow> unsubscribe_all ts p (with_subs p ts cp) = cp"
proof (induction ts)
  case (Cons t ts)
  obtain m where m: "cp t = Inr m" "m p = None"
    using Cons.prems by (auto simp: topics_ok_def cp_ok_def split: sum.splits)
  have "snd (UnsubscribeEvent t p (with_subs p (t # ts) cp)) = with_subs p ts cp"
    using m Cons.prems(1)
    by (auto simp: UnsubscribeEvent_def Map_UnsubscribeEvent_def with_subs_def topics_ok_def fun_upd_def intro!: ext)
  then show ?case using Cons by (simp add: topics_ok_def)
qed simp

lemma SubscribeEvent_with:
  assumes "topics_ok ts cp" "cp_ok p cp" "t \<notin> set ts"
  shows "case cp t of Inl e \<Rightarrow> SubscribeEvent t (Some p) (with_subs p ts cp) = (e, with_subs p ts cp) \<and> e < 0
    | Inr m \<Rightarrow> SubscribeEvent t (Some p) (with_subs p ts cp) = (0, with_subs p (ts @ [t]) cp) \<and> topics_ok (ts @ [t]) cp"
proof (cases "cp t")
  case (Inl e)
  then show ?thesis using assms by (auto simp: SubscribeEvent_def with_subs_def cp_ok_def dest: spec [of _ t])
next
  case (Inr m)
  then have "m p = None" using assms(2) by (auto simp: cp_ok_def dest: spec [of _ t])
  then show ?thesis using Inr assms
    by (auto simp: SubscribeEvent_def with_subs_def Map_SubscribeEvent_def topics_ok_def fun_upd_def intro!: ext)
qed

lemma subscribe_loop_with:
  "topics_ok done cp \<Longrightarrow> cp_ok p cp \<Longrightarrow> distinct (done @ ts) \<Longrightarrow> ret = 0 \<Longrightarrow>
   \<exists>ret' vec. subscribe_loop ts p done ret (with_subs p done cp) = (ret', vec, with_subs p vec cp) \<and> topics_ok vec cp \<and>
     (if \<forall>t \<in> set ts. \<exists>m. cp t = Inr m then ret' = 0 \<and> vec = done @ ts else ret' < 0)"
proof (induction ts arbitrary: "done" ret)
  case Nil
  then show ?case by simp
next
  case (Cons t ts)
  have t: "t \<notin> set done" using Cons.prems(3) by auto
  show ?case
  proof (cases "cp t")
    case (Inl e)
    have "SubscribeEvent t (Some p) (with_subs p done cp) = (e, with_subs p done cp)" "e < 0"
      using SubscribeEvent_with [OF Cons.prems(1,2) t] Inl by simp_all
    then show ?thesis using Cons.prems(1) Inl by (auto simp: ERROR_def)
  next
    case (Inr m)
    have s: "SubscribeEvent t (Some p) (with_subs p done cp) = (0, with_subs p (done @ [t]) cp)" "topics_ok (done @ [t]) cp"
      using SubscribeEvent_with [OF Cons.prems(1,2) t] Inr by simp_all
    have "distinct ((done @ [t]) @ ts)" using Cons.prems(3) by simp
    from Cons.IH [OF s(2) Cons.prems(2) this refl] obtain ret' vec where
      "subscribe_loop ts p (done @ [t]) 0 (with_subs p (done @ [t]) cp) = (ret', vec, with_subs p vec cp)" "topics_ok vec cp"
      "if \<forall>t \<in> set ts. \<exists>m. cp t = Inr m then ret' = 0 \<and> vec = (done @ [t]) @ ts else ret' < 0" by blast
    then show ?thesis using s(1) Inr by (intro exI [of _ ret'] exI [of _ vec]) (simp add: ERROR_def)
  qed
qed

text \<open>Subscribing is all or nothing, whatever was subscribed before.\<close>

lemma SubscribeEventsInternal_with:
  assumes "topics_ok (vecTopicList s) cp" "cp_ok (pInterface s) cp" "distinct ts"
  shows "\<exists>ret. SubscribeEventsInternal ts s (with_subs (pInterface s) (vecTopicList s) cp) =
    (if \<forall>t \<in> set ts. \<exists>m. cp t = Inr m
     then (0, s\<lparr>vecTopicList := ts\<rparr>, with_subs (pInterface s) ts cp)
     else (ret, s\<lparr>vecTopicList := []\<rparr>, cp)) \<and> ((\<exists>t \<in> set ts. \<nexists>m. cp t = Inr m) \<longrightarrow> ret < 0)"
proof -
  have u: "UnsubscribeEvents s (with_subs (pInterface s) (vecTopicList s) cp) = (s\<lparr>vecTopicList := []\<rparr>, cp)"
    using unsubscribe_all_with [OF assms(1,2)] by (simp add: UnsubscribeEvents_def)
  obtain ret' vec where l: "subscribe_loop ts (pInterface s) [] 0 cp = (ret', vec, with_subs (pInterface s) vec cp)"
    "topics_ok vec cp" "if \<forall>t \<in> set ts. \<exists>m. cp t = Inr m then ret' = 0 \<and> vec = ts else ret' < 0"
    using subscribe_loop_with [of "[]" cp "pInterface s" ts 0] assms(2,3) by auto
  show ?thesis
  proof (cases "\<forall>t \<in> set ts. \<exists>m. cp t = Inr m")
    case True
    then show ?thesis using u l by (simp add: SubscribeEventsInternal_def)
  next
    case False
    then have "ret' < 0" using l(3) by simp
    then show ?thesis using False u l(1) unsubscribe_all_with [OF l(2) assms(2)]
      by (intro exI [of _ ret']) (simp add: SubscribeEventsInternal_def ERROR_def)
  qed
qed

lemma topics_of_distinct: "topics_of c = Some ts \<Longrightarrow> distinct ts"
  by (cases c) (auto simp: topics_of_def)


subsection \<open>The invariant of an interface\<close>

definition core :: "if_state \<Rightarrow> EnumIfState \<times> EnumIfState \<times> EnumPropId list \<times> sink" where
  "core s = (iState s, iResumeState s, vecTopicList s, pInterface s)"

text \<open>
  \<open>cp0\<close> is the connection points without the interface: at any time it holds exactly one
  subscription to each topic it remembers, and nobody else's are touched.
\<close>

definition if_inv :: "sink \<Rightarrow> conn_points \<Rightarrow> if_state \<times> conn_points \<Rightarrow> bool" where
  "if_inv p cp0 m \<longleftrightarrow> (case m of (s, cp) \<Rightarrow> pInterface s = p \<and> state_inv s \<and> topics_ok (vecTopicList s) cp0 \<and>
     cp_ok p cp0 \<and> cp = with_subs p (vecTopicList s) cp0)"

lemma if_inv_core: "core s' = core s \<Longrightarrow> if_inv p cp0 (s', cp) = if_inv p cp0 (s, cp)"
  by (simp add: if_inv_def state_inv_def core_def)

lemma core_updates [simp]:
  "core (s\<lparr>hPort := h\<rparr>) = core s" "core (s\<lparr>ifCfg := c\<rparr>) = core s"
  by (simp_all add: core_def)

lemma If_GetProperty_core [simp]: "core (snd (If_GetProperty io p s)) = core s"
  by (auto simp: If_GetProperty_def Let_def split: option.split prop_val.split sum.split)

lemma copy_from_if_core [simp]: "core (snd (snd (copy_from_if io p ps s))) = core s"
  using If_GetProperty_core [of io p s]
  by (auto simp: copy_from_if_def simp del: If_GetProperty_core split: prod.split sum.split)

lemma copy_all_core [simp]: "core (snd (copy_all qs pdo s)) = core s"
  by (induction qs pdo s rule: copy_all.induct)
    (auto simp: copy_from_pdo_def split: prod.split option.split)

lemma copy_from_if_core': "copy_from_if io p ps s = (ret, ps1, s1) \<Longrightarrow> core s1 = core s"
  using copy_from_if_core [of io p ps s] by simp

lemma SetupOpenPortParams_core: "SetupOpenPortParams io c ps s = (ret, ps1, s1) \<Longrightarrow> core s1 = core s"
  by (auto simp: SetupOpenPortParams_def split: if_class.splits prod.splits dest!: copy_from_if_core')

lemma open_params_core: "open_params io c cb s = (ret, ps, s1) \<Longrightarrow> core s1 = core s"
  by (auto simp: open_params_def split: prod.splits if_splits dest!: copy_from_if_core' SetupOpenPortParams_core)

lemma if_inv_set:
  "if_inv p cp0 (s, cp) \<Longrightarrow> if_inv p cp0 (snd (SetStateOnEvent e s), cp)"
  by (simp add: if_inv_def SetStateOnEvent_inv SetStateOnEvent_frame)

lemma if_inv_set': "SetStateOnEvent e s = (ret, s1) \<Longrightarrow> if_inv p cp0 (s, cp) \<Longrightarrow> if_inv p cp0 (s1, cp)"
  using if_inv_set [of p cp0 s cp e] by simp

lemma if_inv_unsubscribe:
  assumes "if_inv p cp0 (s, cp)"
  shows "if_inv p cp0 (UnsubscribeEvents s cp)" "UnsubscribeEvents s cp = (s\<lparr>vecTopicList := []\<rparr>, cp0)"
  using assms unsubscribe_all_with [of "vecTopicList s" cp0 p]
  by (simp_all add: if_inv_def UnsubscribeEvents_def state_inv_def)

lemma if_inv_subscribe:
  assumes "if_inv p cp0 (s, cp)"
  shows "if_inv p cp0 (snd (SubscribeEvents c s cp))"
proof (cases "topics_of c")
  case None
  then show ?thesis using assms by (simp add: SubscribeEvents_def)
next
  case (Some ts)
  have i: "pInterface s = p" "topics_ok (vecTopicList s) cp0" "cp_ok p cp0" "cp = with_subs p (vecTopicList s) cp0" "state_inv s"
    using assms by (simp_all add: if_inv_def)
  note d = topics_of_distinct [OF Some]
  obtain ret where r: "SubscribeEventsInternal ts s cp =
    (if \<forall>t \<in> set ts. \<exists>m. cp0 t = Inr m then (0, s\<lparr>vecTopicList := ts\<rparr>, with_subs p ts cp0) else (ret, s\<lparr>vecTopicList := []\<rparr>, cp0))"
    using SubscribeEventsInternal_with [OF i(2) _ d] i(1,3,4) by blast
  show ?thesis using r i d Some by (simp add: SubscribeEvents_def if_inv_def state_inv_def topics_ok_def)
qed

lemma if_inv_OpenPortInternal:
  assumes "if_inv p cp0 (s, cp)"
  shows "if_inv p cp0 (snd (OpenPortInternal io c cb s cp))"
proof (cases "cb = None \<or> iState s \<noteq> stateStarting")
  case True
  then show ?thesis using assms by (auto simp: OpenPortInternal_def split: option.split)
next
  case False
  then obtain x where x: "cb = Some x" "iState s = stateStarting" by auto
  obtain ret ps s1 where o1: "open_params io c x s = (ret, ps, s1)" by (metis prod_cases3)
  obtain r2 h where o2: "mgrOpenPort io ps = (r2, h)" by (metis surj_pair)
  let ?s2 = "s1\<lparr>hPort := h\<rparr>"
  have i1: "if_inv p cp0 (s1, cp)" "if_inv p cp0 (?s2, cp)"
    using assms if_inv_core open_params_core [OF o1] core_updates(1) by metis+
  obtain r3 s3 where o3: "SetStateOnEvent eventPortStarted ?s2 = (r3, s3)" by (metis surj_pair)
  have i3: "if_inv p cp0 (s3, cp)" "if_inv p cp0 (snd (SetStateOnEvent eventPortStartFailed ?s2), cp)"
    using if_inv_set' [OF o3 i1(2)] if_inv_set [OF i1(2)] by simp_all
  show ?thesis using x o1 o2 o3 i1 i3 if_inv_subscribe [OF i3(1), of c]
    by (simp add: OpenPortInternal_def Let_def)
qed

lemma if_inv_OpenPort:
  assumes "if_inv p cp0 (s, cp)"
  shows "if_inv p cp0 (snd (OpenPort io c cb s cp))"
proof -
  obtain ret s1 cp1 where o1: "OpenPortInternal io c cb s cp = (ret, s1, cp1)" by (metis prod_cases3)
  have i: "if_inv p cp0 (s1, cp1)" using if_inv_OpenPortInternal [OF assms, of io c cb] o1 by simp
  have "if_inv p cp0 (snd (copy_all (pdo_props_of c) pdo s1), cp1)" for pdo
    using i if_inv_core [of "snd (copy_all (pdo_props_of c) pdo s1)" s1] by simp
  then show ?thesis using o1 i by (auto simp: OpenPort_def case_prod_beta split: sum.split)
qed

lemma if_inv_base_OnPortEvent:
  assumes "if_inv p cp0 (s, cp)"
  shows "if_inv p cp0 (snd (base_OnPortEvent io c e h s cp))"
proof -
  have h: "if_inv p cp0 (s\<lparr>hPort := k\<rparr>, cp)" for k using assms if_inv_core [of "s\<lparr>hPort := k\<rparr>" s] by simp
  have st: "if_inv p cp0 (s1, cp)" if "SetStateOnEvent ev s = (ret, s1)" for ev ret s1
    by (rule if_inv_set' [OF that assms])
  have st2: "if_inv p cp0 (s1, cp)" if "SetStateOnEvent ev (s\<lparr>hPort := k\<rparr>) = (ret, s1)" for ev ret s1 k
    by (rule if_inv_set' [OF that h])
  have un: "if_inv p cp0 (s2, cp1)"
    if "UnsubscribeEvents (s\<lparr>hPort := k\<rparr>) cp = (s1, cp1)" "SetStateOnEvent ev s1 = (ret, s2)" for k s1 cp1 ev ret s2
    using if_inv_unsubscribe(1) [OF h [of k]] if_inv_set' [OF that(2)] that(1) by simp
  show ?thesis
    unfolding base_OnPortEvent_def Let_def
    by (auto split: prod.split simp: assms intro: st un if_inv_subscribe st2)
qed

lemma if_inv_OnPortEvent:
  assumes "if_inv p cp0 (s, cp)"
  shows "if_inv p cp0 (snd (OnPortEvent io c e h s cp))"
proof -
  obtain ret s1 cp1 where o1: "base_OnPortEvent io c e h s cp = (ret, s1, cp1)" by (metis prod_cases3)
  have i: "if_inv p cp0 (s1, cp1)" using if_inv_base_OnPortEvent [OF assms, of io c e h] o1 by simp
  have "if_inv p cp0 (snd (copy_all (event_props_of c) pdo s1), cp1)" for pdo
    using i if_inv_core [of "snd (copy_all (event_props_of c) pdo s1)" s1] by simp
  then show ?thesis using o1 i by (auto simp: OnPortEvent_def case_prod_beta split: sum.split)
qed

lemma if_inv_OnModEvent: "if_inv p cp0 (s, cp) \<Longrightarrow> if_inv p cp0 (snd (OnModEvent e n s), cp)"
  by (auto simp: OnModEvent_def intro: if_inv_set)

lemma if_inv_step:
  assumes "if_inv p cp0 m"
  shows "if_inv p cp0 (if_step io c m x)"
proof -
  obtain s cp where m: "m = (s, cp)" by fastforce
  note i = assms [unfolded m]
  show ?thesis
  proof (cases x)
    case (IfSet e)
    then show ?thesis using if_inv_set [OF i, of e] m by (simp add: if_step_def if_exec_def case_prod_beta)
  next
    case (IfPort e h)
    then show ?thesis using if_inv_OnPortEvent [OF i] m by (simp add: if_step_def if_exec_def)
  next
    case (IfMod e n)
    then show ?thesis using if_inv_OnModEvent [OF i, of e n] m by (simp add: if_step_def if_exec_def case_prod_beta)
  next
    case (IfDBus e)
    then show ?thesis using i m by (simp add: if_step_def if_exec_def OnDBusEvent_def)
  next
    case (IfAdmin e)
    then show ?thesis using i m if_inv_set [OF i] by (auto simp: if_step_def if_exec_def OnAdminEvent_def case_prod_beta)
  next
    case (IfRmtMod e n)
    then show ?thesis using i m if_inv_OnModEvent [OF i, of e n] by (simp add: if_step_def if_exec_def OnRmtModEvent_def case_prod_beta)
  next
    case (IfRmtSvr e)
    then show ?thesis using i m by (simp add: if_step_def if_exec_def OnRmtSvrEvent_def)
  next
    case (IfOpen cb)
    then show ?thesis using if_inv_OpenPort [OF i] m by (simp add: if_step_def if_exec_def)
  next
    case IfClose
    then show ?thesis using i m if_inv_unsubscribe [OF i] by (simp add: if_step_def if_exec_def ClosePort_def)
  next
    case IfSubscribe
    then show ?thesis using if_inv_subscribe [OF i] m by (simp add: if_step_def if_exec_def)
  next
    case IfUnsubscribe
    then show ?thesis using if_inv_unsubscribe [OF i] m by (simp add: if_step_def if_exec_def)
  qed
qed

text \<open>Every operation is legal in every state: the interface has to survive any order of events.\<close>

interpretation im: event_machine "if_step io c" "\<lambda>m x. True" "if_inv p cp0" for io c p cp0
  by unfold_locales (rule if_inv_step)


subsection \<open>Claims\<close>

text \<open>
  C37: In every state an interface can reach, whatever order the events, commands and calls come
  in and whatever the port manager answers, the state is one of the nine the table knows,
  never unknown or invalid; a recovering interface remembers that it was connected or paused;
  and it holds exactly one subscription at each connection point it remembers, none at any
  other, with the subscriptions of all others untouched.
\<close>

theorem if_state_invariant:
  assumes "reach (if_step io c) (\<lambda>m x. True) (new_if_state cfg p, cp0) (s, cp)" "cp_ok p cp0"
  shows "iState s \<in> live_states \<and> (iState s = stateRecovery \<longrightarrow> iResumeState s \<in> {stateConnected, statePaused}) \<and>
    cp = with_subs p (vecTopicList s) cp0 \<and> topics_ok (vecTopicList s) cp0"
proof -
  have "if_inv p cp0 (new_if_state cfg p, cp0)"
    using assms(2) by (simp add: if_inv_def new_if_state_def state_inv_def live_states_def)
  from im.inv_reach [OF assms(1) this] show ?thesis by (simp add: if_inv_def state_inv_def)
qed

definition wit_io :: io_mgr where
  "wit_io = \<lparr>mgrOpenPort = (\<lambda>ps. (STATUS_PENDING, 0)), mgrOpenPortByRef = (\<lambda>h. - ENOENT), mgrClosePort = (\<lambda>h. 0),
     mgrPortClass = (\<lambda>h. Inl (- ENOENT)), mgrPortPdoId = (\<lambda>h. Inl (- ENOENT)),
     mgrPdoProps = (\<lambda>h. Inr [propConnHandle \<mapsto> VInt 1, propConnParams \<mapsto> VObj 2, propRouterPath \<mapsto> VStr ''/'']),
     mgrReqProps = Map.empty, mgrRouterDest = []\<rparr>"

definition wit_cps :: conn_points where
  "wit_cps = (\<lambda>t. if t = propStartStopEvent \<or> t = propDBusModEvent then Inr Map.empty else Inl (- ENOENT))"

lemma if_state_invariant_witness:
  "iState (fst (if_step wit_io LocalProxyState (if_step wit_io LocalProxyState (new_if_state Map.empty 7, wit_cps) IfSubscribe) (IfSet cmdOpenPort))) \<in> live_states"
proof -
  let ?m = "if_step wit_io LocalProxyState (if_step wit_io LocalProxyState (new_if_state Map.empty 7, wit_cps) IfSubscribe) (IfSet cmdOpenPort)"
  have "reach (if_step wit_io LocalProxyState) (\<lambda>m x. True) (new_if_state Map.empty 7, wit_cps) (fst ?m, snd ?m)"
    unfolding prod.collapse by (intro reach.advance reach.start) simp_all
  moreover have "cp_ok 7 wit_cps" by (simp add: cp_ok_def wit_cps_def)
  ultimately show ?thesis by (rule if_state_invariant [THEN conjunct1])
qed

text \<open>A sequence of state events.\<close>

definition set_states :: "EnumEventId list \<Rightarrow> if_state \<Rightarrow> if_state" where
  "set_states es s = foldl (\<lambda>s e. snd (SetStateOnEvent e s)) s es"

lemma recovery_keeps:
  "iState s = stateRecovery \<Longrightarrow> set es \<subseteq> {eventModOffline, cmdEnableEvent} \<Longrightarrow> set_states es s = s"
  by (induction es) (auto simp: set_states_def SetStateOnEvent_def m_mapState_def)

text \<open>
  An outage ends where it began: a connected or paused interface whose module or remote
  module goes offline recovers through any number of further offline and enable events and, on
  the module or the remote module coming back, is in exactly the state it was in, connected or
  paused, with its port, its properties and its subscriptions.
\<close>

theorem if_recovery_roundtrip:
  assumes "iState s \<in> {stateConnected, statePaused}" "off \<in> {eventModOffline, eventRmtModOffline}"
    "set es \<subseteq> {eventModOffline, cmdEnableEvent}" "on \<in> {eventModOnline, eventRmtModOnline}"
  shows "iState (set_states (off # es) s) = stateRecovery \<and>
    set_states (off # es @ [on]) s = s\<lparr>iResumeState := iState s\<rparr>"
proof -
  have o: "snd (SetStateOnEvent off s) = s\<lparr>iResumeState := iState s, iState := stateRecovery\<rparr>"
    using assms(1,2) by (elim insertE emptyE) (simp_all add: SetStateOnEvent_def m_mapState_def)
  have k: "set_states (off # es) s = s\<lparr>iResumeState := iState s, iState := stateRecovery\<rparr>"
    using recovery_keeps [of "s\<lparr>iResumeState := iState s, iState := stateRecovery\<rparr>" es] assms(3) o
    by (simp add: set_states_def)
  have "set_states (off # es @ [on]) s = snd (SetStateOnEvent on (set_states (off # es) s))"
    by (simp add: set_states_def)
  also have "\<dots> = s\<lparr>iResumeState := iState s, iState := iState s\<rparr>"
    unfolding k using assms(4) by (elim insertE emptyE) (simp_all add: SetStateOnEvent_def m_mapState_def)
  also have "\<dots> = s\<lparr>iResumeState := iState s\<rparr>" by (cases s) simp
  finally show ?thesis using k by simp
qed

lemma if_recovery_roundtrip_witness:
  "iState (set_states ([eventModOffline, cmdEnableEvent, eventModOffline] @ [eventRmtModOnline])
     ((new_if_state Map.empty 7)\<lparr>iState := statePaused\<rparr>)) = statePaused"
  using if_recovery_roundtrip [of "(new_if_state Map.empty 7)\<lparr>iState := statePaused\<rparr>" eventModOffline
      "[cmdEnableEvent, eventModOffline]" eventRmtModOnline] by simp

text \<open>
  C38: Subscribing is all or nothing: whatever the interface was subscribed to before, after
  \<open>SubscribeEvents\<close> of any class with topics it holds either one subscription to each topic of
  its class, with result 0, or, when one of the connection points does not exist, none at all,
  with an error; nobody else's subscription changes.
\<close>

theorem if_subscribe_all_or_nothing:
  assumes "topics_ok (vecTopicList s) cp0" "cp_ok (pInterface s) cp0" "topics_of c = Some ts"
    "SubscribeEvents c s (with_subs (pInterface s) (vecTopicList s) cp0) = (ret, s', cp')"
  shows "(if \<forall>t \<in> set ts. \<exists>m. cp0 t = Inr m
     then ret = 0 \<and> vecTopicList s' = ts \<and> cp' = with_subs (pInterface s) ts cp0
     else ERROR ret \<and> vecTopicList s' = [] \<and> cp' = cp0) \<and> iState s' = iState s \<and> hPort s' = hPort s"
proof -
  note d = topics_of_distinct [OF assms(3)]
  obtain e where e: "SubscribeEventsInternal ts s (with_subs (pInterface s) (vecTopicList s) cp0) =
    (if \<forall>t \<in> set ts. \<exists>m. cp0 t = Inr m then (0, s\<lparr>vecTopicList := ts\<rparr>, with_subs (pInterface s) ts cp0)
     else (e, s\<lparr>vecTopicList := []\<rparr>, cp0))" "(\<exists>t \<in> set ts. \<nexists>m. cp0 t = Inr m) \<longrightarrow> e < 0"
    using SubscribeEventsInternal_with [OF assms(1,2) d] by blast
  show ?thesis
  proof (cases "\<forall>t \<in> set ts. \<exists>m. cp0 t = Inr m")
    case True
    have "SubscribeEvents c s (with_subs (pInterface s) (vecTopicList s) cp0) = (0, s\<lparr>vecTopicList := ts\<rparr>, with_subs (pInterface s) ts cp0)"
      using e(1) assms(3) unfolding if_P [OF True] by (simp add: SubscribeEvents_def)
    then show ?thesis using assms(4) unfolding if_P [OF True] by auto
  next
    case False
    then have neg: "e < 0" using e(2) by blast
    have "SubscribeEvents c s (with_subs (pInterface s) (vecTopicList s) cp0) = (e, s\<lparr>vecTopicList := []\<rparr>, cp0)"
      using e(1) assms(3) unfolding if_not_P [OF False] by (simp add: SubscribeEvents_def)
    then show ?thesis using assms(4) neg unfolding if_not_P [OF False] by (auto simp: ERROR_def)
  qed
qed

lemma if_subscribe_all_or_nothing_witness:
  "\<exists>ret s'. SubscribeEvents LocalProxyState (new_if_state Map.empty 7) wit_cps = (ret, s', wit_cps) \<and> ERROR ret \<and> vecTopicList s' = []"
proof -
  obtain ret s' cp' where r: "SubscribeEvents LocalProxyState (new_if_state Map.empty 7)
      (with_subs (pInterface (new_if_state Map.empty 7)) (vecTopicList (new_if_state Map.empty 7)) wit_cps) = (ret, s', cp')"
    by (metis prod_cases3)
  have e: "with_subs (pInterface (new_if_state Map.empty 7)) (vecTopicList (new_if_state Map.empty 7)) wit_cps = wit_cps"
    by (simp add: new_if_state_def)
  have "(if \<forall>t \<in> set [propStartStopEvent, propDBusModEvent, propDBusSysEvent, propAdminEvent]. \<exists>m. wit_cps t = Inr m
     then ret = 0 \<and> vecTopicList s' = [propStartStopEvent, propDBusModEvent, propDBusSysEvent, propAdminEvent] \<and>
       cp' = with_subs (pInterface (new_if_state Map.empty 7)) [propStartStopEvent, propDBusModEvent, propDBusSysEvent, propAdminEvent] wit_cps
     else ERROR ret \<and> vecTopicList s' = [] \<and> cp' = wit_cps) \<and> iState s' = iState (new_if_state Map.empty 7) \<and> hPort s' = hPort (new_if_state Map.empty 7)"
    by (rule if_subscribe_all_or_nothing [OF _ _ _ r]) (simp_all add: new_if_state_def cp_ok_def wit_cps_def topics_of_def)
  moreover have "\<not> (\<forall>t \<in> set [propStartStopEvent, propDBusModEvent, propDBusSysEvent, propAdminEvent]. \<exists>m. wit_cps t = Inr m)"
    by (simp add: wit_cps_def)
  ultimately show ?thesis using r e by auto
qed

text \<open>
  A port that cannot be opened is reported as success: when \<open>OpenPortByRef\<close> fails on the
  event that the port has started, \<open>OnPortEvent\<close> overwrites the error with the result of the
  state switch and answers 0, with the interface in \<open>stateStartFailed\<close> and without a port; a
  remote proxy then even takes over the properties of the port it did not open.
\<close>

theorem if_port_open_failure_reports_success:
  assumes "iState s = stateStarting" "h \<noteq> INVALID_HANDLE" "ERROR (mgrOpenPortByRef io h)"
    "mgrPdoProps io h = Inr pdo" "pdo propConnHandle = Some a" "pdo propConnParams = Some b" "pdo propRouterPath = Some r"
  shows "OnPortEvent io LocalProxyState eventPortStarted h s cp = (0, s\<lparr>iState := stateStartFailed\<rparr>, cp) \<and>
    OnPortEvent io RemoteProxyState eventPortStarted h s cp =
      (0, s\<lparr>iState := stateStartFailed, ifCfg := (ifCfg s)(propConnHandle \<mapsto> a, propConnParams \<mapsto> b, propRouterPath \<mapsto> r)\<rparr>, cp)"
proof -
  have t: "TestSetState eventPortStarted s = 0" using assms(1) by (simp add: TestSetState_def m_mapState_def)
  have f: "SetStateOnEvent eventPortStartFailed s = (0, s\<lparr>iState := stateStartFailed\<rparr>)"
    using assms(1) by (simp add: SetStateOnEvent_def m_mapState_def)
  have b: "base_OnPortEvent io c eventPortStarted h s cp = (0, s\<lparr>iState := stateStartFailed\<rparr>, cp)" for c
    using assms(2,3) t f by (simp add: base_OnPortEvent_def)
  show ?thesis using assms by (simp add: OnPortEvent_def b event_props_of_def copy_from_pdo_def)
qed

lemma if_port_open_failure_witness:
  "fst (OnPortEvent wit_io LocalProxyState eventPortStarted 9 ((new_if_state Map.empty 7)\<lparr>iState := stateStarting\<rparr>) wit_cps) = 0 \<and>
   ERROR (mgrOpenPortByRef wit_io 9)"
  using if_port_open_failure_reports_success [of "(new_if_state Map.empty 7)\<lparr>iState := stateStarting\<rparr>" 9 wit_io
      "[propConnHandle \<mapsto> VInt 1, propConnParams \<mapsto> VObj 2, propRouterPath \<mapsto> VStr ''/'']" "VInt 1" "VObj 2" "VStr ''/''" wit_cps]
  by (simp add: wit_io_def)

end
