(* ===== verification/Irp.thy ===== *)
theory Irp
  imports Buffer Timer "HOL-Library.Monad_Syntax"
begin

unbundle bit_operations_syntax

text \<open>
  The I/O request packet of \<open>ipc/irp.cpp\<close> and \<open>ipc/irp.h\<close>: \<open>IRP_CONTEXT\<close>, what one port needs to
  know of a request, and \<open>IoRequestPacket\<close>, the stack of contexts a request collects on its way
  down the ports, with its state, its flags, its timer and the slave requests it waits for.

  The stack is \<open>m_vecCtxStack\<close> in the order of the vector, the lowest port last. A port, a
  callback, a thread or another request is a number, zero is the null pointer. Where a function
  reads \<open>back()\<close> of an empty vector or leaves through an exception, its result is \<open>None\<close>.
\<close>

subsection \<open>Constants\<close>

abbreviation (input) EPERM :: int where "EPERM \<equiv> 1"
abbreviation (input) ETIMEDOUT :: int where "ETIMEDOUT \<equiv> 110"

abbreviation (input) IRP_MASK8 :: "32 word" where "IRP_MASK8 \<equiv> 0xFF"
abbreviation (input) IRP_CTRLCODE_MASK :: "32 word" where "IRP_CTRLCODE_MASK \<equiv> 0xFFFF"

abbreviation (input) IRP_MJ_PNP :: "32 word" where "IRP_MJ_PNP \<equiv> 1"
abbreviation (input) IRP_MJ_FUNC :: "32 word" where "IRP_MJ_FUNC \<equiv> 2"
abbreviation (input) IRP_MJ_ASSOC :: "32 word" where "IRP_MJ_ASSOC \<equiv> 4"
abbreviation (input) IRP_MJ_GETPROP :: "32 word" where "IRP_MJ_GETPROP \<equiv> 5"
abbreviation (input) IRP_MJ_SETPROP :: "32 word" where "IRP_MJ_SETPROP \<equiv> 6"
abbreviation (input) IRP_MJ_INVALID :: "32 word" where "IRP_MJ_INVALID \<equiv> 0xFF"
abbreviation (input) IRP_MN_IOCTL :: "32 word" where "IRP_MN_IOCTL \<equiv> 4"
abbreviation (input) IRP_MN_INVALID :: "32 word" where "IRP_MN_INVALID \<equiv> 0xFF"
abbreviation (input) IRP_MN_ASSOC_RUN :: "32 word" where "IRP_MN_ASSOC_RUN \<equiv> 1"
abbreviation (input) CTRLCODE_INVALID :: "32 word" where "CTRLCODE_INVALID \<equiv> 0xFFFF"

abbreviation (input) IRP_DIR_MASK :: "32 word" where "IRP_DIR_MASK \<equiv> 3"
abbreviation (input) IRP_DIR_IN :: "32 word" where "IRP_DIR_IN \<equiv> 0"
abbreviation (input) IRP_SYNC_CALL :: "32 word" where "IRP_SYNC_CALL \<equiv> 4"
abbreviation (input) IRP_PENDING :: "32 word" where "IRP_PENDING \<equiv> 8"
abbreviation (input) IRP_NO_COMPLETE :: "32 word" where "IRP_NO_COMPLETE \<equiv> 0x10"
abbreviation (input) IRP_NON_DBUS :: "32 word" where "IRP_NON_DBUS \<equiv> 0x20"
abbreviation (input) IRP_CALLBACK_ONLY :: "32 word" where "IRP_CALLBACK_ONLY \<equiv> 0x40"
abbreviation (input) IRP_SUBMITED :: "32 word" where "IRP_SUBMITED \<equiv> 0x80"
abbreviation (input) IRP_COMP_INPLACE :: "32 word" where "IRP_COMP_INPLACE \<equiv> 0x100"

text \<open>The values of \<open>m_atmState\<close>.\<close>

datatype irp_state = IRP_STATE_READY | IRP_STATE_COMPLETING | IRP_STATE_COMPLETED | IRP_STATE_CANCELLING
  | IRP_STATE_CANCELLED | IRP_STATE_CANCEL_SLAVE | IRP_STATE_BUSY | IRP_STATE_COMPLETING_ASSOC

subsection \<open>The context of one port\<close>

record irp_ctx =
  cFlags :: "32 word"
  cStatus :: int
  cMajorCmd :: "32 word"
  cMinorCmd :: "32 word"
  cCtrlCmd :: "32 word"
  cReqData :: "cbuffer option"
  cRespData :: "cbuffer option"
  cExtBuf :: "cbuffer option"

definition new_ctx :: irp_ctx where
  "new_ctx = \<lparr>cFlags = 0, cStatus = 0, cMajorCmd = 0, cMinorCmd = 0, cCtrlCmd = 0, cReqData = None, cRespData = None, cExtBuf = None\<rparr>"

text \<open>\<open>operator=\<close> leaves the extension of its target.\<close>

definition assign_ctx :: "irp_ctx \<Rightarrow> irp_ctx \<Rightarrow> irp_ctx" where
  "assign_ctx rhs c = rhs\<lparr>cExtBuf := cExtBuf c\<rparr>"

definition GetMajorCmd :: "irp_ctx \<Rightarrow> 32 word" where "GetMajorCmd c = cMajorCmd c AND IRP_MASK8"
definition GetMinorCmd :: "irp_ctx \<Rightarrow> 32 word" where "GetMinorCmd c = cMinorCmd c AND IRP_MASK8"
definition GetCtrlCode :: "irp_ctx \<Rightarrow> 32 word" where "GetCtrlCode c = cCtrlCmd c AND IRP_CTRLCODE_MASK"

definition put_bits :: "32 word \<Rightarrow> 32 word \<Rightarrow> 32 word \<Rightarrow> 32 word" where
  "put_bits m v w = (w AND (NOT m)) OR (v AND m)"

definition SetMajorCmd :: "32 word \<Rightarrow> irp_ctx \<Rightarrow> irp_ctx" where
  "SetMajorCmd cmd c = c\<lparr>cMajorCmd := put_bits IRP_MASK8 cmd (cMajorCmd c)\<rparr>"
definition SetMinorCmd :: "32 word \<Rightarrow> irp_ctx \<Rightarrow> irp_ctx" where
  "SetMinorCmd cmd c = c\<lparr>cMinorCmd := put_bits IRP_MASK8 cmd (cMinorCmd c)\<rparr>"
definition SetCtrlCode :: "32 word \<Rightarrow> irp_ctx \<Rightarrow> irp_ctx" where
  "SetCtrlCode cmd c = c\<lparr>cCtrlCmd := put_bits IRP_CTRLCODE_MASK cmd (cCtrlCmd c)\<rparr>"

definition GetIoDirection :: "irp_ctx \<Rightarrow> 32 word" where "GetIoDirection c = cFlags c AND IRP_DIR_MASK"
definition SetIoDirection :: "32 word \<Rightarrow> irp_ctx \<Rightarrow> irp_ctx" where
  "SetIoDirection dir c = c\<lparr>cFlags := put_bits IRP_DIR_MASK dir (cFlags c)\<rparr>"

definition IsNonDBusReq :: "irp_ctx \<Rightarrow> bool" where "IsNonDBusReq c \<longleftrightarrow> 0 < (cFlags c AND IRP_NON_DBUS)"
definition SetNonDBusReq :: "bool \<Rightarrow> irp_ctx \<Rightarrow> irp_ctx" where
  "SetNonDBusReq bNonDBus c = c\<lparr>cFlags := (cFlags c AND (NOT IRP_NON_DBUS)) OR (if bNonDBus then IRP_NON_DBUS else 0)\<rparr>"

definition SetStatus :: "int \<Rightarrow> irp_ctx \<Rightarrow> irp_ctx" where "SetStatus st c = c\<lparr>cStatus := st\<rparr>"
definition SetExtBuf :: "cbuffer option \<Rightarrow> irp_ctx \<Rightarrow> int \<times> irp_ctx" where "SetExtBuf p c = (0, c\<lparr>cExtBuf := p\<rparr>)"
definition SetReqData :: "cbuffer option \<Rightarrow> irp_ctx \<Rightarrow> int \<times> irp_ctx" where "SetReqData p c = (0, c\<lparr>cReqData := p\<rparr>)"
definition SetRespData :: "cbuffer option \<Rightarrow> irp_ctx \<Rightarrow> int \<times> irp_ctx" where "SetRespData p c = (0, c\<lparr>cRespData := p\<rparr>)"

text \<open>
  The object in a data buffer as a property map. \<open>isCfg\<close> says which objects are one, the cast
  gives the null pointer for the others. \<open>GetRespAsCfg\<close> looks at the type of the request data,
  which it does not check for null.
\<close>

definition buf_as_cfg :: "(nat \<Rightarrow> bool) \<Rightarrow> cbuffer \<Rightarrow> int \<times> nat" where
  "buf_as_cfg isCfg b =
    (if bufEmpty b \<or> GetDataType b \<noteq> DataTypeObjPtr then (- EINVAL, 0)
     else if held b \<noteq> 0 \<and> isCfg (held b) then (0, held b) else (- EFAULT, 0))"

definition GetReqAsCfg :: "(nat \<Rightarrow> bool) \<Rightarrow> irp_ctx \<Rightarrow> int \<times> nat" where
  "GetReqAsCfg isCfg c = (case cReqData c of
      None \<Rightarrow> (- EFAULT, 0)
    | Some b \<Rightarrow> if GetDataType b \<noteq> DataTypeObjPtr then (- EINVAL, 0) else buf_as_cfg isCfg b)"

definition GetRespAsCfg :: "(nat \<Rightarrow> bool) \<Rightarrow> irp_ctx \<Rightarrow> (int \<times> nat) option" where
  "GetRespAsCfg isCfg c = (case cRespData c of
      None \<Rightarrow> Some (- EFAULT, 0)
    | Some b \<Rightarrow> (case cReqData c of
        None \<Rightarrow> None
      | Some q \<Rightarrow> Some (if GetDataType q \<noteq> DataTypeObjPtr then (- EINVAL, 0) else buf_as_cfg isCfg b)))"

subsection \<open>The request\<close>

text \<open>\<open>iSlaves\<close> are the keys of \<open>m_mapSlaveIrps\<close> in their order; its values are never read.\<close>

record irp =
  iStatus :: int
  iFlags :: "32 word"
  iState :: irp_state
  iCallback :: nat
  iContext :: nat
  iThread :: nat
  iStack :: "(nat \<times> irp_ctx) list"
  iTimeoutSec :: nat
  iTimerId :: int
  iMgr :: bool
  iCurPos :: nat
  iTid :: nat
  iMaster :: nat
  iSlaves :: "nat list"
  iMinSlaves :: nat

text \<open>The constructor leaves \<open>m_dwTid\<close> and \<open>m_dwTimeoutSec\<close> uninitialised.\<close>

definition new_irp :: "nat \<Rightarrow> nat \<Rightarrow> irp" where
  "new_irp tid sec = \<lparr>iStatus = STATUS_PENDING, iFlags = 0, iState = IRP_STATE_READY, iCallback = 0, iContext = 0, iThread = 0,
     iStack = [], iTimeoutSec = sec, iTimerId = - 1, iMgr = False, iCurPos = 0, iTid = tid, iMaster = 0, iSlaves = [], iMinSlaves = 0\<rparr>"

definition GetStackSize :: "irp \<Rightarrow> nat" where "GetStackSize x = length (iStack x)"

text \<open>The extension a port releases belongs to the context that is dropped.\<close>

definition PopCtxStack :: "irp \<Rightarrow> irp" where
  "PopCtxStack x = (if GetStackSize x = 0 then x else x\<lparr>iStack := butlast (iStack x)\<rparr>)"

definition GetTopStack :: "irp \<Rightarrow> irp_ctx option" where
  "GetTopStack x = (if iStack x = [] then None else Some (snd (last (iStack x))))"

definition GetTopPort :: "irp \<Rightarrow> nat option" where
  "GetTopPort x = (if iStack x = [] then None else Some (fst (last (iStack x))))"

datatype alloc_option = IOSTACK_ALLOC_NEW | IOSTACK_ALLOC_COPY | IOSTACK_ALLOC_OTHER

definition AllocNextStack :: "nat \<Rightarrow> alloc_option \<Rightarrow> irp \<Rightarrow> (int \<times> irp) option" where
  "AllocNextStack pPort iAlloc x =
    (if pPort = 0 \<and> iStack x \<noteq> [] then Some (- EINVAL, x)
     else case iAlloc of
       IOSTACK_ALLOC_COPY \<Rightarrow> map_option (\<lambda>c. (0, x\<lparr>iStack := iStack x @ [(pPort, assign_ctx c new_ctx)]\<rparr>)) (GetTopStack x)
     | IOSTACK_ALLOC_NEW \<Rightarrow> Some (0, x\<lparr>iStack := iStack x @ [(pPort, new_ctx)]\<rparr>)
     | IOSTACK_ALLOC_OTHER \<Rightarrow> Some (- EINVAL, x))"

definition IsIrpHolder :: "irp \<Rightarrow> bool" where "IsIrpHolder x \<longleftrightarrow> iCurPos x + 1 = GetStackSize x"

definition SetCurPos :: "nat \<Rightarrow> irp \<Rightarrow> bool \<times> irp" where
  "SetCurPos i x = (if i < length (iStack x) then (True, x\<lparr>iCurPos := i\<rparr>) else (False, x))"

definition GetCtxAt :: "nat \<Rightarrow> irp \<Rightarrow> irp_ctx option" where
  "GetCtxAt i x = (if i < length (iStack x) then Some (snd (iStack x ! i)) else None)"

definition GetPortAt :: "nat \<Rightarrow> irp \<Rightarrow> nat option" where
  "GetPortAt i x = (if i < length (iStack x) then Some (fst (iStack x ! i)) else None)"

definition GetCurCtx :: "irp \<Rightarrow> irp_ctx option" where "GetCurCtx x = GetCtxAt (iCurPos x) x"
definition GetCurPort :: "irp \<Rightarrow> nat option" where "GetCurPort x = GetPortAt (iCurPos x) x"

text \<open>A change through the reference to a context in the stack.\<close>

definition upd_ctx :: "nat \<Rightarrow> (irp_ctx \<Rightarrow> irp_ctx) \<Rightarrow> irp \<Rightarrow> irp" where
  "upd_ctx i f x = x\<lparr>iStack := (iStack x)[i := apsnd f (iStack x ! i)]\<rparr>"

definition upd_cur :: "(irp_ctx \<Rightarrow> irp_ctx) \<Rightarrow> irp \<Rightarrow> irp" where "upd_cur f x = upd_ctx (iCurPos x) f x"
definition upd_top :: "(irp_ctx \<Rightarrow> irp_ctx) \<Rightarrow> irp \<Rightarrow> irp" where "upd_top f x = upd_ctx (GetStackSize x - 1) f x"

definition MajorCmd :: "irp \<Rightarrow> 32 word option" where
  "MajorCmd x = (if GetStackSize x = 0 then Some IRP_MJ_INVALID else map_option GetMajorCmd (GetCurCtx x))"
definition MinorCmd :: "irp \<Rightarrow> 32 word option" where
  "MinorCmd x = (if GetStackSize x = 0 then Some IRP_MN_INVALID else map_option GetMinorCmd (GetCurCtx x))"
definition CtrlCode :: "irp \<Rightarrow> 32 word option" where
  "CtrlCode x = (if GetStackSize x = 0 then Some CTRLCODE_INVALID else map_option GetCtrlCode (GetCurCtx x))"
definition IoDirection :: "irp \<Rightarrow> 32 word option" where
  "IoDirection x = (if GetStackSize x = 0 then Some CTRLCODE_INVALID else map_option GetIoDirection (GetCurCtx x))"

subsection \<open>State and flags\<close>

text \<open>The two uses of \<open>compare_exchange_strong\<close>.\<close>

definition Irp_SetState :: "irp_state \<Rightarrow> irp_state \<Rightarrow> irp \<Rightarrow> bool \<times> irp" where
  "Irp_SetState cur new x = (if iState x = cur then (True, x\<lparr>iState := new\<rparr>) else (False, x))"

definition Irp_CanContinue :: "irp_state \<Rightarrow> irp \<Rightarrow> int \<times> irp" where
  "Irp_CanContinue new x =
    (if iState x = IRP_STATE_READY then (0, x\<lparr>iState := new\<rparr>)
     else if iState x \<in> {IRP_STATE_COMPLETED, IRP_STATE_CANCELLED} then (- EPERM, x)
     else (ERROR_STATE, x))"

definition set_flag :: "32 word \<Rightarrow> bool \<Rightarrow> irp \<Rightarrow> irp" where
  "set_flag f on x = x\<lparr>iFlags := (if on then iFlags x OR f else iFlags x AND (NOT f))\<rparr>"
definition has_flag :: "32 word \<Rightarrow> irp \<Rightarrow> bool" where
  "has_flag f x \<longleftrightarrow> (iFlags x AND f) \<noteq> 0"

definition IsPending :: "irp \<Rightarrow> bool" where "IsPending = has_flag IRP_PENDING"
definition MarkPending :: "irp \<Rightarrow> irp" where "MarkPending = set_flag IRP_PENDING True"
definition RemovePending :: "irp \<Rightarrow> irp" where "RemovePending = set_flag IRP_PENDING False"
definition IsSyncCall :: "irp \<Rightarrow> bool" where "IsSyncCall = has_flag IRP_SYNC_CALL"
definition SetSyncCall :: "bool \<Rightarrow> irp \<Rightarrow> irp" where "SetSyncCall = set_flag IRP_SYNC_CALL"
definition SetSubmited :: "irp \<Rightarrow> irp" where "SetSubmited = set_flag IRP_SUBMITED True"
definition ClearSubmited :: "irp \<Rightarrow> irp" where "ClearSubmited = set_flag IRP_SUBMITED False"
definition IsSubmited :: "irp \<Rightarrow> bool" where "IsSubmited = has_flag IRP_SUBMITED"
definition SetCbOnly :: "bool \<Rightarrow> irp \<Rightarrow> irp" where "SetCbOnly = set_flag IRP_CALLBACK_ONLY"
definition IsCbOnly :: "irp \<Rightarrow> bool" where "IsCbOnly = has_flag IRP_CALLBACK_ONLY"
definition SetNoComplete :: "bool \<Rightarrow> irp \<Rightarrow> irp" where "SetNoComplete = set_flag IRP_NO_COMPLETE"
definition IsNoComplete :: "irp \<Rightarrow> bool" where "IsNoComplete = has_flag IRP_NO_COMPLETE"
definition SetCompleteInPlace :: "bool \<Rightarrow> irp \<Rightarrow> irp" where "SetCompleteInPlace = set_flag IRP_COMP_INPLACE"
definition CompleteInPlace :: "irp \<Rightarrow> bool" where "CompleteInPlace = has_flag IRP_COMP_INPLACE"

text \<open>\<open>tid\<close> is the calling thread.\<close>

definition CanComplete :: "nat \<Rightarrow> irp \<Rightarrow> bool" where
  "CanComplete tid x \<longleftrightarrow> \<not> IsNoComplete x \<and> (iTid x \<noteq> tid \<or> IsPending x)"

subsection \<open>Slaves, timer, callback and thread\<close>

definition AddSlaveIrp :: "nat \<Rightarrow> irp \<Rightarrow> irp" where
  "AddSlaveIrp p x = (if p \<in> set (iSlaves x) then x
     else x\<lparr>iSlaves := insort p (iSlaves x), iMinSlaves := iMinSlaves x - 1\<rparr>)"

definition FindSlaveIrp :: "nat \<Rightarrow> irp \<Rightarrow> bool" where "FindSlaveIrp p x \<longleftrightarrow> p \<in> set (iSlaves x)"
definition RemoveSlaveIrp :: "nat \<Rightarrow> irp \<Rightarrow> irp" where "RemoveSlaveIrp p x = x\<lparr>iSlaves := remove1 p (iSlaves x)\<rparr>"
definition RemoveAllSlaves :: "irp \<Rightarrow> irp" where "RemoveAllSlaves x = x\<lparr>iSlaves := []\<rparr>"
definition GetSlaveCount :: "irp \<Rightarrow> nat" where "GetSlaveCount x = length (iSlaves x) + iMinSlaves x"
definition SetMinSlaves :: "nat \<Rightarrow> irp \<Rightarrow> irp" where "SetMinSlaves n x = x\<lparr>iMinSlaves := n mod 2 ^ 16\<rparr>"
definition SetMasterIrp :: "nat \<Rightarrow> irp \<Rightarrow> irp" where "SetMasterIrp p x = x\<lparr>iMaster := p\<rparr>"

definition SetCallback :: "nat \<Rightarrow> nat \<Rightarrow> irp \<Rightarrow> irp" where "SetCallback ev ctx x = x\<lparr>iCallback := ev, iContext := ctx\<rparr>"
definition RemoveCallback :: "irp \<Rightarrow> irp" where "RemoveCallback x = x\<lparr>iCallback := 0, iContext := 0\<rparr>"

definition HasTimer :: "irp \<Rightarrow> bool" where "HasTimer x \<longleftrightarrow> 0 < iTimerId x"

text \<open>\<open>p\<close> is the request itself, \<open>pMgr\<close> the manager whose timer service is the last argument.\<close>

definition Irp_SetTimer :: "nat \<Rightarrow> nat \<Rightarrow> nat \<Rightarrow> irp \<Rightarrow> timer_svc \<Rightarrow> irp \<times> timer_svc" where
  "Irp_SetTimer p dwTimeoutSec pMgr x svc =
    (let x1 = x\<lparr>iTimeoutSec := dwTimeoutSec\<rparr> in
     if dwTimeoutSec > 3600 * 72 \<or> pMgr = 0 then (x1, svc)
     else case AddTimer dwTimeoutSec (Some p) pMgr svc of (i, svc1) \<Rightarrow>
       (x1\<lparr>iMgr := True, iTimerId := (if 0 < i then i else iTimerId x1)\<rparr>, svc1))"

definition Irp_RemoveTimer :: "irp \<Rightarrow> timer_svc \<Rightarrow> irp \<times> timer_svc" where
  "Irp_RemoveTimer x svc = (if iMgr x \<and> 0 < iTimerId x then (x\<lparr>iTimerId := - 1\<rparr>, snd (RemoveTimer (iTimerId x) svc)) else (x, svc))"

definition Irp_ResetTimer :: "irp \<Rightarrow> timer_svc \<Rightarrow> timer_svc" where
  "Irp_ResetTimer x svc = (if iMgr x \<and> 0 < iTimerId x then snd (ResetTimer (iTimerId x) svc) else svc)"

text \<open>\<open>got\<close> is what \<open>GetThread\<close> of the pool answers: a result and a thread.\<close>

definition SetIrpThread :: "nat \<Rightarrow> int \<times> nat \<Rightarrow> irp \<Rightarrow> int \<times> irp" where
  "SetIrpThread pMgr got x =
    (if pMgr = 0 then (- EINVAL, x)
     else let x1 = x\<lparr>iMgr := True\<rparr> in
       if ERROR (fst got) then (fst got, x1)
       else (if snd got = 0 then - EFAULT else fst got, x1\<lparr>iThread := snd got\<rparr>))"

definition GetIrpThread :: "irp \<Rightarrow> int \<times> nat" where
  "GetIrpThread x = (if iThread x = 0 then - EFAULT else 0, iThread x)"

definition ClearIrpThread :: "irp \<Rightarrow> irp" where "ClearIrpThread x = x\<lparr>iThread := 0\<rparr>"

subsection \<open>Facts\<close>

lemma put_bits_read [simp]: "put_bits m v w AND m = v AND m"
  by (rule bit_word_eqI) (auto simp: put_bits_def bit_simps)

lemma command_roundtrip [simp]:
  "GetMajorCmd (SetMajorCmd cmd c) = cmd AND IRP_MASK8" "GetMinorCmd (SetMinorCmd cmd c) = cmd AND IRP_MASK8"
  "GetCtrlCode (SetCtrlCode cmd c) = cmd AND IRP_CTRLCODE_MASK" "GetIoDirection (SetIoDirection dir c) = dir AND IRP_DIR_MASK"
  by (simp_all add: GetMajorCmd_def SetMajorCmd_def GetMinorCmd_def SetMinorCmd_def GetCtrlCode_def SetCtrlCode_def
      GetIoDirection_def SetIoDirection_def)

lemma SetStatus_simps [simp]: "cStatus (SetStatus st c) = st" "GetMajorCmd (SetStatus st c) = GetMajorCmd c" "GetMinorCmd (SetStatus st c) = GetMinorCmd c"
  by (simp_all add: SetStatus_def GetMajorCmd_def GetMinorCmd_def)

lemma command_frame [simp]:
  "GetMajorCmd (SetMinorCmd cmd c) = GetMajorCmd c" "GetMajorCmd (SetIoDirection dir c) = GetMajorCmd c"
  "GetMinorCmd (SetMajorCmd cmd c) = GetMinorCmd c" "GetMinorCmd (SetIoDirection dir c) = GetMinorCmd c"
  "GetMajorCmd new_ctx = 0" "GetMinorCmd new_ctx = 0" "cStatus new_ctx = 0"
  by (simp_all add: GetMajorCmd_def SetMajorCmd_def GetMinorCmd_def SetMinorCmd_def SetIoDirection_def new_ctx_def)

lemma flag_fields [simp]:
  "iStack (set_flag f on x) = iStack x" "iState (set_flag f on x) = iState x" "iSlaves (set_flag f on x) = iSlaves x"
  "iMaster (set_flag f on x) = iMaster x" "iMinSlaves (set_flag f on x) = iMinSlaves x" "iTid (set_flag f on x) = iTid x"
  "iStatus (set_flag f on x) = iStatus x" "iTimerId (set_flag f on x) = iTimerId x" "iCallback (set_flag f on x) = iCallback x"
  by (simp_all add: set_flag_def)

lemma has_flag_mark [simp]: "f \<noteq> 0 \<Longrightarrow> has_flag f (set_flag f True x)" "\<not> has_flag f (set_flag f False x)"
proof -
  have "(iFlags x OR f) AND f = f" "(iFlags x AND (NOT f)) AND f = 0" by (rule bit_word_eqI; auto simp: bit_simps)+
  then show "f \<noteq> 0 \<Longrightarrow> has_flag f (set_flag f True x)" "\<not> has_flag f (set_flag f False x)"
    by (simp_all add: has_flag_def set_flag_def)
qed

text \<open>A slave is taken out as often as it was put in, and \<open>AddSlaveIrp\<close> uses up the slaves announced.\<close>

lemma slave_count_add:
  "p \<notin> set (iSlaves x) \<Longrightarrow> GetSlaveCount (AddSlaveIrp p x) = (if iMinSlaves x = 0 then Suc (GetSlaveCount x) else GetSlaveCount x)"
  by (simp add: GetSlaveCount_def AddSlaveIrp_def)

lemma slave_add_remove: "p \<notin> set (iSlaves x) \<Longrightarrow> sorted (iSlaves x) \<Longrightarrow> iSlaves (RemoveSlaveIrp p (AddSlaveIrp p x)) = iSlaves x"
  by (simp add: RemoveSlaveIrp_def AddSlaveIrp_def remove1_insort_key)

end
