(* ===== verification/PortIrp.thy ===== *)
theory PortIrp
  imports Irp
begin

text \<open>
  How a port handles a request: \<open>CPort::SubmitIrp\<close>, \<open>CompleteIrp\<close> and \<open>CancelIrp\<close> of \<open>ipc/port.cpp\<close> with
  the handlers every port has, and the gate keeper of \<open>ipc/port.h\<close>, the map of the requests that
  entered the stack of ports at its top. The virtual methods and the handlers of single commands are
  the record \<open>port_virtuals\<close>; the state machine of the port is \<open>PortState\<close>.

  The map of a port is the list of its keys. A result \<open>None\<close> is an exception or undefined.
\<close>

subsection \<open>What a class of ports adds\<close>

text \<open>
  \<open>pvSubmit\<close> handles a submitted request by its major command, \<open>pvCompletePnp\<close> and \<open>pvCancelPnp\<close>
  one of the start and stop requests; the number is the port.
\<close>

record port_virtuals =
  pvSubmit :: "nat \<Rightarrow> irp \<Rightarrow> (int \<times> irp) option"
  pvCompletePnp :: "nat \<Rightarrow> irp \<Rightarrow> (int \<times> irp) option"
  pvCompleteIoctl :: "nat \<Rightarrow> irp \<Rightarrow> int \<times> irp"
  pvCancelPnp :: "nat \<Rightarrow> irp \<Rightarrow> irp option"
  pvSlaveDone :: "nat \<Rightarrow> irp \<Rightarrow> irp \<Rightarrow> int \<times> irp"
  pvAllocExt :: "nat \<Rightarrow> irp_ctx \<Rightarrow> irp_ctx"
  pvLower :: "nat \<Rightarrow> nat"
  pvFilter :: "nat \<Rightarrow> bool"

subsection \<open>The gate keeper\<close>

abbreviation (input) IRP_MN_PNP_STOP :: "32 word" where "IRP_MN_PNP_STOP \<equiv> 2"
abbreviation (input) ERROR_CANNOT_CANCEL :: int where "ERROR_CANNOT_CANCEL \<equiv> -2147418107"
abbreviation (input) ERROR_CANNOT_COMP :: int where "ERROR_CANNOT_COMP \<equiv> -2147418101"

definition IsTopPort :: "nat \<Rightarrow> irp \<Rightarrow> bool option" where
  "IsTopPort this x = (if iStack x = [] then None else Some (fst (hd (iStack x)) \<noteq> 0 \<and> fst (hd (iStack x)) = this))"

definition IrpIn :: "nat \<Rightarrow> nat \<Rightarrow> irp \<Rightarrow> nat list \<Rightarrow> nat list option" where
  "IrpIn this p x m = do {
     b \<leftarrow> IsTopPort this x;
     c \<leftarrow> GetTopStack x;
     Some (if \<not> b \<or> GetMajorCmd c = IRP_MJ_PNP \<and> GetMinorCmd c = IRP_MN_PNP_STOP then m else List.insert p m) }"

definition IrpOut :: "nat \<Rightarrow> nat \<Rightarrow> irp \<Rightarrow> nat list \<Rightarrow> nat list option" where
  "IrpOut this p x m = map_option (\<lambda>b. if b then removeAll p m else m) (IsTopPort this x)"

subsection \<open>Submission\<close>

text \<open>A filter passes what it does not know to the port below, with a copy of its context.\<close>

definition PassUnknownIrp :: "port_virtuals \<Rightarrow> (nat \<Rightarrow> irp \<Rightarrow> (int \<times> irp) option) \<Rightarrow> nat \<Rightarrow> irp \<Rightarrow> (int \<times> irp) option" where
  "PassUnknownIrp pv lowerSubmit this x =
    (if GetStackSize x = 0 then Some (- EINVAL, x)
     else if pvFilter pv this \<and> pvLower pv this \<noteq> 0 then do {
       (ret, x1) \<leftarrow> AllocNextStack (pvLower pv this) IOSTACK_ALLOC_COPY x;
       if ERROR ret then Some (ret, x1)
       else do {
         (ret2, x3) \<leftarrow> lowerSubmit (pvLower pv this) (upd_top (pvAllocExt pv (pvLower pv this)) x1);
         if ret2 = STATUS_PENDING then Some (ret2, x3)
         else do {
           c \<leftarrow> GetTopStack x3;
           let x4 = snd (SetCurPos (iCurPos x1) (PopCtxStack x3));
           d \<leftarrow> GetCurCtx x4;
           Some (cStatus c, upd_cur (SetStatus (cStatus c)) x4) } } }
     else Some (- ENOTSUP, x))"

definition CPort_SubmitIrp :: "port_virtuals \<Rightarrow> (nat \<Rightarrow> irp \<Rightarrow> (int \<times> irp) option) \<Rightarrow> nat \<Rightarrow> nat \<Rightarrow> irp \<times> nat list \<Rightarrow>
    (int \<times> irp \<times> nat list) option" where
  "CPort_SubmitIrp pv lowerSubmit this p xm = (case xm of (x, m) \<Rightarrow> do {
     m1 \<leftarrow> IrpIn this p x m;
     let x1 = snd (SetCurPos (GetStackSize x - 1) x);
     c \<leftarrow> GetCurCtx x1;
     (ret, x2) \<leftarrow> (if GetMajorCmd c \<in> {IRP_MJ_PNP, IRP_MJ_FUNC, IRP_MJ_GETPROP, IRP_MJ_SETPROP}
        then pvSubmit pv this x1 else PassUnknownIrp pv lowerSubmit this x1);
     if ret = STATUS_PENDING then Some (ret, x2, m1)
     else do {
       let x3 = snd (SetCurPos (iCurPos x) x2);
       m2 \<leftarrow> IrpOut this p x3 m1;
       Some (ret, x3, m2) } })"

subsection \<open>Completion\<close>

text \<open>The status moves from the context of the lower port, which is dropped, to the one of this port.\<close>

definition CompleteFuncIrp :: "port_virtuals \<Rightarrow> nat \<Rightarrow> irp \<Rightarrow> (int \<times> irp) option" where
  "CompleteFuncIrp pv this x = do {
     mj \<leftarrow> MajorCmd x;
     mn \<leftarrow> MinorCmd x;
     let (ret, x1) = (if GetStackSize x = 0 \<or> mj \<noteq> IRP_MJ_FUNC then (- EINVAL, x)
       else if mn = IRP_MN_IOCTL then pvCompleteIoctl pv this x else (- ENOTSUP, x));
     if ret = STATUS_PENDING then Some (ret, x1)
     else do {
       c \<leftarrow> GetCurCtx x1;
       if IsIrpHolder x1 then Some (cStatus c, x1)
       else do {
         d \<leftarrow> GetTopStack x1;
         Some (cStatus d, PopCtxStack (upd_cur (SetStatus (cStatus d)) x1)) } } }"

definition CPort_CompleteIrp :: "port_virtuals \<Rightarrow> nat \<Rightarrow> nat \<Rightarrow> irp \<times> nat list \<Rightarrow> (int \<times> irp \<times> nat list) option" where
  "CPort_CompleteIrp pv this p xm = (case xm of (x, m) \<Rightarrow> do {
     (ret, x1) \<leftarrow> (if GetStackSize x = 0 then Some (- EINVAL, x)
       else do {
         c \<leftarrow> GetCurCtx x;
         if GetMajorCmd c = IRP_MJ_PNP then pvCompletePnp pv this x
         else if GetMajorCmd c = IRP_MJ_FUNC then CompleteFuncIrp pv this x
         else if GetMajorCmd c = IRP_MJ_ASSOC \<and> GetMinorCmd c = IRP_MN_ASSOC_RUN then Some (0, x)
         else let x1 = upd_cur (SetStatus (- ENOTSUP)) x in
           Some (- ENOTSUP, if IsIrpHolder x1 then x1 else PopCtxStack x1) });
     if ret = STATUS_PENDING then Some (ret, x1, m)
     else do { m1 \<leftarrow> IrpOut this p x1 m; Some (ret, x1, m1) } })"

subsection \<open>Cancellation\<close>

definition CancelFuncIrp :: "irp \<Rightarrow> irp option" where
  "CancelFuncIrp x = (if GetStackSize x = 0 \<or> IsIrpHolder x then Some x
     else do {
       c \<leftarrow> GetCurCtx x;
       d \<leftarrow> GetTopStack x;
       Some (PopCtxStack (upd_cur (SetStatus (cStatus d)) x)) })"

definition CPort_CancelIrp :: "port_virtuals \<Rightarrow> nat \<Rightarrow> nat \<Rightarrow> nat \<Rightarrow> bool \<Rightarrow> irp \<times> nat list \<Rightarrow> (int \<times> irp \<times> nat list) option" where
  "CPort_CancelIrp pv tid this p bForce xm = (case xm of (x, m) \<Rightarrow> do {
     (ret, x2) \<leftarrow> (if \<not> bForce \<and> \<not> CanComplete tid x then Some (ERROR_CANNOT_CANCEL, x)
       else if GetStackSize x = 0 then Some (- EINVAL, x)
       else do {
         c \<leftarrow> GetCurCtx x;
         x1 \<leftarrow> (if GetMajorCmd c = IRP_MJ_PNP then pvCancelPnp pv this x
            else if GetMajorCmd c = IRP_MJ_FUNC then CancelFuncIrp x
            else Some (upd_cur (SetStatus (- ECANCELED)) x));
         Some (0, if IsIrpHolder x1 then x1 else PopCtxStack x1) });
     m1 \<leftarrow> IrpOut this p x2 m;
     Some (ret, x2, m1) })"

subsection \<open>Masters and slaves\<close>

text \<open>\<open>pm\<close> and \<open>ps\<close> are the master \<open>x\<close> and the slave \<open>y\<close>.\<close>

definition MakeAssocIrp :: "port_virtuals \<Rightarrow> nat \<Rightarrow> nat \<Rightarrow> nat \<Rightarrow> irp \<Rightarrow> irp \<Rightarrow> (int \<times> irp \<times> irp) option" where
  "MakeAssocIrp pv this pm ps x y = do {
     c \<leftarrow> GetTopStack x;
     q \<leftarrow> GetTopPort x;
     let assoc = (GetMajorCmd c = IRP_MJ_ASSOC \<and> GetMinorCmd c = IRP_MN_ASSOC_RUN);
     if \<not> assoc \<and> q \<noteq> this then Some (- EINVAL, x, y)
     else do {
       x1 \<leftarrow> (if assoc then Some x else do {
          (_, x1) \<leftarrow> AllocNextStack this IOSTACK_ALLOC_NEW x;
          Some (upd_top (SetIoDirection IRP_DIR_IN \<circ> pvAllocExt pv this \<circ> SetMinorCmd IRP_MN_ASSOC_RUN \<circ> SetMajorCmd IRP_MJ_ASSOC) x1) });
       Some (0, AddSlaveIrp ps x1, SetMasterIrp pm y) } }"

end
