(* ===== verification/IoMgr.thy ===== *)
theory IoMgr
  imports PortIrp
begin

text \<open>
  The completion and the cancellation of requests by the I/O manager (\<open>CIoManager\<close> of
  \<open>ipc/iomgr.cpp\<close>, with \<open>CPort::CompleteAssocIrp\<close> of \<open>ipc/port.cpp\<close>). A request in work is completed
  or cancelled by whoever finds it ready first; the ports on its stack are visited from the lowest
  up; a request made by another request (a slave) reports to its master, which is completed with
  its last slave and takes its slaves along when it is cancelled.

  The lock of a request is held over a whole walk and released before another request is called.
  Wherever no lock is held, which is at the begin and the end of every call and between two locked
  parts, other threads can get in: the next entry of \<open>wOthers\<close> is the list of their calls, each of
  which runs through, with calls of others in its own gaps, before the first caller goes on.

  The functions call each other. They take the depth of the calls they may still nest; \<open>None\<close> is
  a depth that does not suffice, an exception, or undefined behaviour.
\<close>

subsection \<open>The state\<close>

text \<open>How the owner of a request learns that it is done.\<close>

datatype notice = PostSem nat | RunCallback nat | QueueCallback nat | QueueThread nat nat

primrec notice_irp :: "notice \<Rightarrow> nat" where
  "notice_irp (PostSem p) = p"
| "notice_irp (RunCallback p) = p"
| "notice_irp (QueueCallback p) = p"
| "notice_irp (QueueThread th p) = p"

datatype irp_call = ByComplete nat nat | ByCancel nat nat bool int

text \<open>
  The requests by their address, the gate keepers' maps by port, the notices given, the timer
  service, and the calls of other threads still to come.
\<close>

record io_world =
  wIrps :: "nat \<Rightarrow> irp"
  wIn :: "nat \<Rightarrow> nat list"
  wPosted :: "notice list"
  wTimers :: timer_svc
  wOthers :: "irp_call list list"

definition put_irp :: "nat \<Rightarrow> irp \<Rightarrow> io_world \<Rightarrow> io_world" where
  "put_irp p x w = w\<lparr>wIrps := (wIrps w)(p := x)\<rparr>"

definition upd_irp :: "nat \<Rightarrow> (irp \<Rightarrow> irp) \<Rightarrow> io_world \<Rightarrow> io_world" where
  "upd_irp p f w = put_irp p (f (wIrps w p)) w"

definition move_state :: "nat \<Rightarrow> irp_state \<Rightarrow> irp_state \<Rightarrow> io_world \<Rightarrow> io_world" where
  "move_state p cur new = upd_irp p (\<lambda>x. snd (Irp_SetState cur new x))"

subsection \<open>The owner is told\<close>

text \<open>The task that runs the callback can be created and scheduled.\<close>

definition PostCompleteIrp :: "nat \<Rightarrow> io_world \<Rightarrow> int \<times> io_world" where
  "PostCompleteIrp p w =
    (let x = wIrps w p; tell = (\<lambda>n. w\<lparr>wPosted := wPosted w @ [n]\<rparr>);
         (ret, w1) =
          (if IsSyncCall x then (if IsPending x then (0, tell (PostSem p)) else (ERROR_STATE, w))
           else if \<not> IsPending x then (0, w)
           else if CompleteInPlace x \<and> iCallback x \<noteq> 0 then (0, tell (RunCallback p))
           else case GetIrpThread x of (r, th) \<Rightarrow>
             if th = 0 then (if iCallback x \<noteq> 0 then (0, tell (QueueCallback p)) else (r, w))
             else if iCallback x \<noteq> 0 then (r, tell (QueueThread th p)) else (r, w))
     in (ret, upd_irp p ClearIrpThread w1))"

subsection \<open>The ports are visited\<close>

text \<open>
  The walk over the entries \<open>i - 1\<close> down to 0. \<open>oElem\<close> is \<open>vecStack[ i ]\<close>, which the ports below may
  have removed. The walk of a completion stops at a port that answers \<open>STATUS_PENDING\<close>.
\<close>

primrec complete_walk :: "port_virtuals \<Rightarrow> nat \<Rightarrow> nat \<Rightarrow> int \<Rightarrow> io_world \<Rightarrow> (int \<times> io_world) option" where
  "complete_walk pv p 0 ret w = Some (ret, w)"
| "complete_walk pv p (Suc i) ret w =
    (let x = wIrps w p in
     if length (iStack x) \<le> i then None
     else let port = fst (iStack x ! i) in
       if port = 0 then complete_walk pv p i ret w
       else do {
         (ret1, x1, m1) \<leftarrow> CPort_CompleteIrp pv port p (snd (SetCurPos i x), wIn w port);
         let w1 = put_irp p x1 (w\<lparr>wIn := (wIn w)(port := m1)\<rparr>);
         if ret1 = STATUS_PENDING then Some (ret1, w1) else complete_walk pv p i ret1 w1 })"

primrec cancel_walk :: "port_virtuals \<Rightarrow> nat \<Rightarrow> nat \<Rightarrow> bool \<Rightarrow> int \<Rightarrow> nat \<Rightarrow> bool \<Rightarrow> io_world \<Rightarrow> io_world option" where
  "cancel_walk pv tid p bForce iRet 0 bFirst w = Some w"
| "cancel_walk pv tid p bForce iRet (Suc i) bFirst w =
    (let x = wIrps w p in
     if length (iStack x) \<le> i then None
     else let port = fst (iStack x ! i) in
       if port = 0 then cancel_walk pv tid p bForce iRet i bFirst w
       else do {
         let x1 = (if bFirst then upd_ctx i (SetStatus (if iRet = 0 then - ECANCELED else iRet)) x else x);
         (_, x2, m1) \<leftarrow> CPort_CancelIrp pv tid port p bForce (snd (SetCurPos i x1), wIn w port);
         cancel_walk pv tid p bForce iRet i False (put_irp p x2 (w\<lparr>wIn := (wIn w)(port := m1)\<rparr>)) })"

text \<open>The timer is removed from the service; the request keeps its id.\<close>

definition drop_timer :: "nat \<Rightarrow> io_world \<Rightarrow> io_world" where
  "drop_timer p w = (if HasTimer (wIrps w p) then w\<lparr>wTimers := snd (RemoveTimer (iTimerId (wIrps w p)) (wTimers w))\<rparr> else w)"

text \<open>The locked part of a completion, once the request is known to be ready: the walk and what follows it.\<close>

definition complete_locked :: "port_virtuals \<Rightarrow> nat \<Rightarrow> io_world \<Rightarrow> (int \<times> io_world) option" where
  "complete_locked pv p w =
    (let x = wIrps w p in do {
     (ret, w1) \<leftarrow> (if IsCbOnly x \<or> iStack x = [] then Some (0, w) else complete_walk pv p (length (iStack x)) 0 w);
     if ret = STATUS_PENDING then Some (ret, move_state p IRP_STATE_COMPLETING IRP_STATE_READY w1)
     else do {
       w2 \<leftarrow> (if \<not> IsCbOnly x \<and> iStack x = [] then Some (upd_irp p (\<lambda>x. x\<lparr>iStatus := - EINVAL\<rparr>) w1)
              else if iStack (wIrps w1 p) = [] then None
              else Some (upd_irp p (\<lambda>x. x\<lparr>iStatus := cStatus (snd (hd (iStack x)))\<rparr>) w1));
       Some (0, move_state p IRP_STATE_COMPLETING IRP_STATE_COMPLETED (drop_timer p w2)) } })"

definition cancel_locked :: "port_virtuals \<Rightarrow> nat \<Rightarrow> nat \<Rightarrow> bool \<Rightarrow> int \<Rightarrow> io_world \<Rightarrow> io_world option" where
  "cancel_locked pv tid p bForce iRet w =
    (let x = wIrps w p in do {
     w1 \<leftarrow> (if IsCbOnly x then Some w else cancel_walk pv tid p bForce iRet (length (iStack x)) True w);
     Some (move_state p IRP_STATE_CANCELLING IRP_STATE_CANCELLED (drop_timer p (upd_irp p (\<lambda>x. x\<lparr>iStatus := iRet\<rparr>) w1))) })"

subsection \<open>Completion and cancellation\<close>

text \<open>The part of \<open>CPort::CompleteAssocIrp\<close> under the lock of the master: the result, and whether to complete it.\<close>

definition assoc_locked :: "port_virtuals \<Rightarrow> nat \<Rightarrow> nat \<Rightarrow> nat \<Rightarrow> io_world \<Rightarrow> (int \<times> bool \<times> io_world) option" where
  "assoc_locked pv this m s w =
    (case Irp_CanContinue IRP_STATE_COMPLETING_ASSOC (wIrps w m) of (ret, x) \<Rightarrow>
     if ERROR ret then Some (ret, False, w)
     else let back = (\<lambda>x. put_irp m (snd (Irp_SetState IRP_STATE_COMPLETING_ASSOC IRP_STATE_READY x)) w) in
       if iMaster (wIrps w s) \<noteq> m then Some (- EINVAL, False, back x)
       else let x1 = RemoveSlaveIrp s x in do {
         c \<leftarrow> GetTopStack x1;
         if GetMinorCmd c \<noteq> IRP_MN_ASSOC_RUN then Some (- ENOTSUP, False, back x1)
         else let (iRet, x2) = (if IsCbOnly x1 then (0, x1) else pvSlaveDone pv this x1 (wIrps w s)) in
           if GetSlaveCount x2 > 0 then Some (STATUS_PENDING, False, back x2)
           else do {
             q \<leftarrow> GetTopPort x2;
             let x3 = (if q = this then PopCtxStack x2 else x2);
             d \<leftarrow> GetTopStack x3;
             Some (0, True, back (upd_top (SetStatus iRet) x3)) } })"

text \<open>One round of the loop of \<open>CancelSlaves\<close> under the lock: the slave to cancel, and whether to go round again.\<close>

definition slaves_locked :: "irp \<Rightarrow> nat option \<times> bool \<times> irp" where
  "slaves_locked x =
    (case Irp_CanContinue IRP_STATE_CANCEL_SLAVE x of (ret, x1) \<Rightarrow>
     if ERROR ret then (None, False, x1)
     else let back = (\<lambda>x. snd (Irp_SetState IRP_STATE_CANCEL_SLAVE IRP_STATE_READY x)) in
       if GetSlaveCount x1 = 0 then (None, False, back x1)
       else (case iSlaves x1 of
           [] \<Rightarrow> (None, False, back (SetMinSlaves 0 x1))
         | s # _ \<Rightarrow>
             let x2 = RemoveSlaveIrp s x1 in
             if GetSlaveCount x2 > 0 then (if s = 0 then None else Some s, True, back x2)
             else if s \<noteq> 0 then (Some s, True, back (AddSlaveIrp 0 x2))
             else (None, False, back (RemoveSlaveIrp s x2))))"

text \<open>
  The functions of the manager call each other through \<open>go\<close>. \<open>CallSlaves\<close> is \<open>CancelSlaves\<close>, \<open>CallAssoc\<close> is
  \<open>CompleteAssocIrp\<close> of the manager, or \<open>CancelAssocIrp\<close> when \<open>bCancel\<close>, whose return value nobody
  looks at. \<open>CallOthers\<close> are calls other threads make.
\<close>

datatype io_call = CallComplete nat nat | CallCancel nat nat bool int | CallSlaves nat nat bool int | CallAssoc bool nat nat | CallOthers "irp_call list"

type_synonym io_run = "io_call \<Rightarrow> io_world \<Rightarrow> (int \<times> io_world) option"

text \<open>The lock is released.\<close>

definition Unlocked :: "io_run \<Rightarrow> io_world \<Rightarrow> io_world option" where
  "Unlocked go w = (case wOthers w of [] \<Rightarrow> Some w | cs # rest \<Rightarrow> map_option snd (go (CallOthers cs) (w\<lparr>wOthers := rest\<rparr>)))"

text \<open>The end of both: the lock is released, the master is told, and then the owner.\<close>

definition finish_irp :: "io_run \<Rightarrow> bool \<Rightarrow> nat \<Rightarrow> nat \<Rightarrow> io_world \<Rightarrow> (int \<times> io_world) option" where
  "finish_irp go bCancel tid p w = do {
     w1 \<leftarrow> Unlocked go w;
     w2 \<leftarrow> (if iMaster (wIrps w1 p) \<noteq> 0 then map_option snd (go (CallAssoc bCancel tid p) w1) else Some w1);
     Some (PostCompleteIrp p w2) }"

definition CompleteIrp_body :: "io_run \<Rightarrow> port_virtuals \<Rightarrow> nat \<Rightarrow> nat \<Rightarrow> io_world \<Rightarrow> (int \<times> io_world) option" where
  "CompleteIrp_body go pv tid p w =
    (if p = 0 then Some (- EINVAL, w)
     else if \<not> CanComplete tid (wIrps w p) then Some (ERROR_CANNOT_COMP, w)
     else if iState (wIrps w p) \<noteq> IRP_STATE_READY then Some (ERROR_STATE, w)
     else do {
       c \<leftarrow> GetTopStack (wIrps w p);
       w1 \<leftarrow> (if ERROR (cStatus c) \<and> GetSlaveCount (wIrps w p) \<noteq> 0
          then map_option snd (go (CallSlaves tid p True (cStatus c)) w) else Some w);
       (case Irp_CanContinue IRP_STATE_COMPLETING (wIrps w1 p) of (ret, x) \<Rightarrow>
        if ERROR ret then Some (ret, w1)
        else do {
          (ret2, w2) \<leftarrow> complete_locked pv p (put_irp p x w1);
          if ret2 = STATUS_PENDING then Some (ret2, w2) else finish_irp go False tid p w2 }) })"

definition CancelIrp_body :: "io_run \<Rightarrow> port_virtuals \<Rightarrow> nat \<Rightarrow> nat \<Rightarrow> bool \<Rightarrow> int \<Rightarrow> io_world \<Rightarrow> (int \<times> io_world) option" where
  "CancelIrp_body go pv tid p bForce iRet w =
    (if p = 0 then Some (- EINVAL, w)
     else do {
       (_, w1) \<leftarrow> go (CallSlaves tid p bForce iRet) w;
       if \<not> CanComplete tid (wIrps w1 p) then Some (0, w1)
       else (case Irp_CanContinue IRP_STATE_CANCELLING (wIrps w1 p) of (ret, x) \<Rightarrow>
         if ERROR ret then Some (ret, w1)
         else do { w2 \<leftarrow> cancel_locked pv tid p bForce iRet (put_irp p x w1); finish_irp go True tid p w2 }) })"

text \<open>The loop of \<open>CancelSlaves\<close>, whose rounds begin and end without the lock.\<close>

definition CancelSlaves_body :: "io_run \<Rightarrow> nat \<Rightarrow> nat \<Rightarrow> bool \<Rightarrow> int \<Rightarrow> io_world \<Rightarrow> (int \<times> io_world) option" where
  "CancelSlaves_body go tid p bForce iRet w =
    (case slaves_locked (wIrps w p) of (s, again, x) \<Rightarrow> do {
       w1 \<leftarrow> (case s of None \<Rightarrow> Some (put_irp p x w) | Some q \<Rightarrow> map_option snd (go (CallCancel tid q bForce iRet) (put_irp p x w)));
       if again then go (CallSlaves tid p bForce iRet) w1 else Some (0, w1) })"

definition AssocIrp_body :: "io_run \<Rightarrow> port_virtuals \<Rightarrow> bool \<Rightarrow> nat \<Rightarrow> nat \<Rightarrow> io_world \<Rightarrow> (int \<times> io_world) option" where
  "AssocIrp_body go pv bCancel tid s w =
    (let m = iMaster (wIrps w s) in
     if m = 0 then Some (- EFAULT, w)
     else do {
       port \<leftarrow> GetTopPort (wIrps w m);
       if port = 0 then Some (if bCancel then (- EFAULT, w) else (0, upd_irp s (SetMasterIrp 0) w))
       else do {
         (ret, bDone, w1) \<leftarrow> assoc_locked pv port m s w;
         wu \<leftarrow> Unlocked go w1;
         (ret2, w2) \<leftarrow> (if bDone then go (CallComplete tid m) wu else Some (ret, wu));
         Some (ret2, upd_irp s (SetMasterIrp 0) w2) } })"

definition Others_body :: "io_run \<Rightarrow> irp_call list \<Rightarrow> io_world \<Rightarrow> (int \<times> io_world) option" where
  "Others_body go cs w = (case cs of [] \<Rightarrow> Some (0, w) | c # rest \<Rightarrow> do {
     (_, w1) \<leftarrow> go (case c of ByComplete tid p \<Rightarrow> CallComplete tid p | ByCancel tid p bForce iRet \<Rightarrow> CallCancel tid p bForce iRet) w;
     go (CallOthers rest) w1 })"

definition io_body :: "io_run \<Rightarrow> port_virtuals \<Rightarrow> io_call \<Rightarrow> io_world \<Rightarrow> (int \<times> io_world) option" where
  "io_body go pv c w = (case c of
      CallComplete tid p \<Rightarrow> CompleteIrp_body go pv tid p w
    | CallCancel tid p bForce iRet \<Rightarrow> CancelIrp_body go pv tid p bForce iRet w
    | CallSlaves tid p bForce iRet \<Rightarrow> CancelSlaves_body go tid p bForce iRet w
    | CallAssoc bCancel tid s \<Rightarrow> AssocIrp_body go pv bCancel tid s w
    | CallOthers cs \<Rightarrow> Others_body go cs w)"

primrec io_go :: "nat \<Rightarrow> port_virtuals \<Rightarrow> io_run" where
  "io_go 0 pv = (\<lambda>c w. None)"
| "io_go (Suc f) pv = (\<lambda>c w. do {
     w1 \<leftarrow> Unlocked (io_go f pv) w;
     (ret, w2) \<leftarrow> io_body (io_go f pv) pv c w1;
     w3 \<leftarrow> Unlocked (io_go f pv) w2;
     Some (ret, w3) })"

declare io_go.simps [simp del]

definition CompleteIrp :: "nat \<Rightarrow> port_virtuals \<Rightarrow> nat \<Rightarrow> nat \<Rightarrow> io_world \<Rightarrow> (int \<times> io_world) option" where
  "CompleteIrp f pv tid p = io_go f pv (CallComplete tid p)"

definition CancelIrp :: "nat \<Rightarrow> port_virtuals \<Rightarrow> nat \<Rightarrow> nat \<Rightarrow> bool \<Rightarrow> int \<Rightarrow> io_world \<Rightarrow> (int \<times> io_world) option" where
  "CancelIrp f pv tid p bForce iRet = io_go f pv (CallCancel tid p bForce iRet)"

subsection \<open>Submission and timeout\<close>

text \<open>\<open>topmost\<close> is \<open>GetTopmostPort\<close>, \<open>lower\<close> the \<open>SubmitIrp\<close> of the ports below.\<close>

definition SubmitIrpInternal :: "port_virtuals \<Rightarrow> (nat \<Rightarrow> irp \<Rightarrow> (int \<times> irp) option) \<Rightarrow> (nat \<Rightarrow> nat) \<Rightarrow> bool \<Rightarrow> nat \<Rightarrow> nat \<Rightarrow> nat \<Rightarrow> io_world \<Rightarrow>
    (int \<times> io_world) option" where
  "SubmitIrpInternal pv lower topmost bTopmost tid pPort p w =
    (if p = 0 \<or> pPort = 0 then Some (- EINVAL, w)
     else let port = (if bTopmost then topmost pPort else pPort); x = SetSubmited ((wIrps w p)\<lparr>iTid := tid\<rparr>) in
       if iStack x = [] then None
       else let x1 = x\<lparr>iStack := butlast (iStack x) @ [(port, snd (last (iStack x)))]\<rparr>;
                ext = cExtBuf (snd (last (iStack x)));
                x2 = (if (case ext of None \<Rightarrow> True | Some b \<Rightarrow> bufEmpty b) then upd_top (pvAllocExt pv port) x1 else x1) in do {
         (ret, x3, m) \<leftarrow> CPort_SubmitIrp pv lower port p (x2, wIn w port);
         let x4 = (if ret \<noteq> STATUS_PENDING then (snd (Irp_SetState IRP_STATE_READY IRP_STATE_COMPLETED x3))\<lparr>iStatus := ret\<rparr> else MarkPending x3);
         Some (ret, put_irp p x4 (w\<lparr>wIn := (wIn w)(port := m)\<rparr>)) })"

definition OnTimeout :: "nat \<Rightarrow> port_virtuals \<Rightarrow> nat \<Rightarrow> nat \<Rightarrow> nat \<Rightarrow> io_world \<Rightarrow> (int \<times> io_world) option" where
  "OnTimeout f pv tid pMgr p w =
    (if pMgr = 0 then Some (- EINVAL, w)
     else if iStack (wIrps w p) = [] then None
     else map_option (\<lambda>(_, w1). (- ETIMEDOUT, w1))
       (CancelIrp f pv tid p True (- ETIMEDOUT) (upd_irp p (upd_top (SetStatus (- ETIMEDOUT))) w)))"

end
