(* ===== verification/IoTells.thy ===== *)
theory IoTells
  imports IoMgr
begin

text \<open>
  Whoever waits for a request is told once that it is done, and no sooner than it is done, whatever
  calls of other threads come in between. The locked parts of the manager change one request and
  keep what decides who is told; the rest is an induction over the depth of the calls.
\<close>

subsection \<open>Every owner is told once\<close>

definition told :: "nat \<Rightarrow> io_world \<Rightarrow> nat" where
  "told p w = length (filter (\<lambda>n. notice_irp n = p) (wPosted w))"

definition is_final :: "irp \<Rightarrow> bool" where
  "is_final x \<longleftrightarrow> iState x = IRP_STATE_COMPLETED \<or> iState x = IRP_STATE_CANCELLED"

text \<open>Somebody waits for the request: it was left pending, and is a synchronous call or has a callback.\<close>

definition owed :: "irp \<Rightarrow> bool" where
  "owed x \<longleftrightarrow> IsPending x \<and> (IsSyncCall x \<or> iCallback x \<noteq> 0)"

text \<open>What no port changes in a request it completes or cancels.\<close>

definition same_control :: "irp \<Rightarrow> irp \<Rightarrow> bool" where
  "same_control x y \<longleftrightarrow> iState y = iState x \<and> iFlags y = iFlags x \<and> iCallback y = iCallback x"

definition port_keeps :: "port_virtuals \<Rightarrow> bool" where
  "port_keeps pv \<longleftrightarrow> (\<forall>this x.
     (\<forall>r y. pvCompletePnp pv this x = Some (r, y) \<longrightarrow> same_control x y) \<and> same_control x (snd (pvCompleteIoctl pv this x)) \<and>
     (\<forall>y. pvCancelPnp pv this x = Some y \<longrightarrow> same_control x y) \<and> (\<forall>y. same_control x (snd (pvSlaveDone pv this x y))))"

lemma same_control_refl [simp]: "same_control x x"
  by (simp add: same_control_def)

lemma same_control_trans: "same_control x y \<Longrightarrow> same_control y z \<Longrightarrow> same_control x z"
  by (simp add: same_control_def)

lemma same_control_ops [simp]:
  "same_control x (PopCtxStack y) = same_control x y" "same_control x (upd_ctx i g y) = same_control x y" "same_control x (upd_cur g y) = same_control x y"
  "same_control x (snd (SetCurPos i y)) = same_control x y" "same_control (snd (SetCurPos i x)) y = same_control x y"
  "same_control (upd_ctx i g x) y = same_control x y" "same_control x (upd_top g y) = same_control x y"
  "same_control x (RemoveSlaveIrp s y) = same_control x y" "same_control x (AddSlaveIrp s y) = same_control x y"
  by (simp_all add: same_control_def PopCtxStack_def upd_ctx_def upd_cur_def upd_top_def SetCurPos_def RemoveSlaveIrp_def AddSlaveIrp_def)

lemma CompleteFuncIrp_keeps: "port_keeps pv \<Longrightarrow> CompleteFuncIrp pv this x = Some (r, y) \<Longrightarrow> same_control x y"
  unfolding port_keeps_def
  by (auto simp: CompleteFuncIrp_def Let_def split_beta split: bind_splits if_splits)

lemma CPort_CompleteIrp_keeps: "port_keeps pv \<Longrightarrow> CPort_CompleteIrp pv this p (x, m) = Some (r, y, m') \<Longrightarrow> same_control x y"
  using CompleteFuncIrp_keeps [of pv this x] unfolding port_keeps_def
  by (auto simp: CPort_CompleteIrp_def Let_def split: bind_splits if_splits)

lemma CPort_CancelIrp_keeps: "port_keeps pv \<Longrightarrow> CPort_CancelIrp pv tid this p bForce (x, m) = Some (r, y, m') \<Longrightarrow> same_control x y"
  unfolding port_keeps_def
  by (auto simp: CPort_CancelIrp_def CancelFuncIrp_def Let_def split: bind_splits if_splits)

lemma put_irp_simps [simp]:
  "wIrps (put_irp p x w) = (wIrps w)(p := x)" "wPosted (put_irp p x w) = wPosted w" "wTimers (put_irp p x w) = wTimers w"
  "wOthers (put_irp p x w) = wOthers w" "wIn (put_irp p x w) = wIn w" "put_irp p x (put_irp p y w) = put_irp p x w"
  by (simp_all add: put_irp_def)

lemma drop_timer_simps [simp]: "wIrps (drop_timer p w) = wIrps w" "wPosted (drop_timer p w) = wPosted w" "wOthers (drop_timer p w) = wOthers w"
  "wIn (drop_timer p w) = wIn w"
  by (simp_all add: drop_timer_def)

text \<open>Between \<open>w\<close> and \<open>w'\<close> nothing but the request \<open>p\<close> changed, and of that not its control.\<close>

definition only_ports :: "nat \<Rightarrow> io_world \<Rightarrow> io_world \<Rightarrow> bool" where
  "only_ports p w w' \<longleftrightarrow> same_control (wIrps w p) (wIrps w' p) \<and> (\<forall>q. q \<noteq> p \<longrightarrow> wIrps w' q = wIrps w q) \<and>
     wPosted w' = wPosted w \<and> wOthers w' = wOthers w"

lemma only_ports_refl [simp]: "only_ports p w w"
  by (simp add: only_ports_def)

lemma only_ports_trans: "only_ports p w w1 \<Longrightarrow> only_ports p w1 w2 \<Longrightarrow> only_ports p w w2"
  by (auto simp: only_ports_def intro: same_control_trans)

lemma complete_walk_keeps: "port_keeps pv \<Longrightarrow> complete_walk pv p i ret w = Some (r, w') \<Longrightarrow> only_ports p w w'"
proof (induction i arbitrary: ret w)
  case (Suc i)
  let ?x = "wIrps w p"
  show ?case
  proof (cases "fst (iStack ?x ! i) = 0")
    case True
    then show ?thesis using Suc by (auto simp: Let_def split: if_splits)
  next
    case False
    then obtain ret1 x1 m1 where c: "CPort_CompleteIrp pv (fst (iStack ?x ! i)) p (snd (SetCurPos i ?x), wIn w (fst (iStack ?x ! i))) = Some (ret1, x1, m1)"
      using Suc.prems(2) by (auto simp: Let_def split: if_splits bind_splits)
    let ?w1 = "put_irp p x1 (w\<lparr>wIn := (wIn w)(fst (iStack ?x ! i) := m1)\<rparr>)"
    have k: "only_ports p w ?w1" using CPort_CompleteIrp_keeps [OF Suc.prems(1) c] by (simp add: only_ports_def)
    have "w' = ?w1 \<or> complete_walk pv p i ret1 ?w1 = Some (r, w')"
      using Suc.prems(2) False c by (auto simp: Let_def split: if_splits)
    then show ?thesis using k Suc.IH [OF Suc.prems(1)] only_ports_trans [OF k] by blast
  qed
qed simp

lemma cancel_walk_keeps: "port_keeps pv \<Longrightarrow> cancel_walk pv tid p bForce iRet i bFirst w = Some w' \<Longrightarrow> only_ports p w w'"
proof (induction i arbitrary: bFirst w)
  case (Suc i)
  let ?x = "wIrps w p"
  show ?case
  proof (cases "fst (iStack ?x ! i) = 0")
    case True
    then show ?thesis using Suc by (auto simp: Let_def split: if_splits)
  next
    case False
    define x1 where "x1 = (if bFirst then upd_ctx i (SetStatus (if iRet = 0 then - ECANCELED else iRet)) ?x else ?x)"
    then obtain r x2 m1 where c: "CPort_CancelIrp pv tid (fst (iStack ?x ! i)) p bForce (snd (SetCurPos i x1), wIn w (fst (iStack ?x ! i))) = Some (r, x2, m1)"
      "cancel_walk pv tid p bForce iRet i False (put_irp p x2 (w\<lparr>wIn := (wIn w)(fst (iStack ?x ! i) := m1)\<rparr>)) = Some w'"
      using Suc.prems(2) False by (auto simp: Let_def split: if_splits bind_splits)
    have "same_control x1 x2" using CPort_CancelIrp_keeps [OF Suc.prems(1) c(1)] by simp
    then have "only_ports p w (put_irp p x2 (w\<lparr>wIn := (wIn w)(fst (iStack ?x ! i) := m1)\<rparr>))"
      by (simp add: only_ports_def x1_def split: if_splits)
    then show ?thesis using only_ports_trans Suc.IH [OF Suc.prems(1) c(2)] by blast
  qed
qed simp

text \<open>What any call does to the requests and to what their owners were told.\<close>

definition tells_once :: "io_world \<Rightarrow> io_world \<Rightarrow> bool" where
  "tells_once w w' \<longleftrightarrow> (\<forall>p. iFlags (wIrps w' p) = iFlags (wIrps w p) \<and> iCallback (wIrps w' p) = iCallback (wIrps w p) \<and>
     (is_final (wIrps w p) \<longrightarrow> iState (wIrps w' p) = iState (wIrps w p)) \<and>
     told p w' = told p w + (if \<not> is_final (wIrps w p) \<and> is_final (wIrps w' p) \<and> owed (wIrps w p) then 1 else 0))"

lemma tells_once_refl [simp]: "tells_once w w"
  by (simp add: tells_once_def)

lemma owed_cong: "iFlags x = iFlags y \<Longrightarrow> iCallback x = iCallback y \<Longrightarrow> owed x = owed y"
  by (simp add: owed_def IsPending_def IsSyncCall_def has_flag_def)

lemma is_final_cong: "iState x = iState y \<Longrightarrow> is_final x = is_final y"
  by (simp add: is_final_def)

lemma tells_once_trans: "tells_once w w1 \<Longrightarrow> tells_once w1 w2 \<Longrightarrow> tells_once w w2"
  unfolding tells_once_def
proof
  fix p
  assume a: "\<forall>p. iFlags (wIrps w1 p) = iFlags (wIrps w p) \<and> iCallback (wIrps w1 p) = iCallback (wIrps w p) \<and>
     (is_final (wIrps w p) \<longrightarrow> iState (wIrps w1 p) = iState (wIrps w p)) \<and>
     told p w1 = told p w + (if \<not> is_final (wIrps w p) \<and> is_final (wIrps w1 p) \<and> owed (wIrps w p) then 1 else 0)"
  and b: "\<forall>p. iFlags (wIrps w2 p) = iFlags (wIrps w1 p) \<and> iCallback (wIrps w2 p) = iCallback (wIrps w1 p) \<and>
     (is_final (wIrps w1 p) \<longrightarrow> iState (wIrps w2 p) = iState (wIrps w1 p)) \<and>
     told p w2 = told p w1 + (if \<not> is_final (wIrps w1 p) \<and> is_final (wIrps w2 p) \<and> owed (wIrps w1 p) then 1 else 0)"
  note ap = spec [OF a, of p] and bp = spec [OF b, of p]
  have o: "owed (wIrps w1 p) = owed (wIrps w p)" by (rule owed_cong) (use ap in simp_all)
  have f: "is_final (wIrps w p) \<Longrightarrow> is_final (wIrps w1 p)" "is_final (wIrps w1 p) \<Longrightarrow> is_final (wIrps w2 p)"
    using ap bp by (auto simp: is_final_def)
  show "iFlags (wIrps w2 p) = iFlags (wIrps w p) \<and> iCallback (wIrps w2 p) = iCallback (wIrps w p) \<and>
     (is_final (wIrps w p) \<longrightarrow> iState (wIrps w2 p) = iState (wIrps w p)) \<and>
     told p w2 = told p w + (if \<not> is_final (wIrps w p) \<and> is_final (wIrps w2 p) \<and> owed (wIrps w p) then 1 else 0)"
    using ap bp o f by (cases "is_final (wIrps w p)"; cases "is_final (wIrps w1 p)") simp_all
qed

text \<open>A change of requests that are not final, which tells nobody and finishes none.\<close>

lemma tells_once_quiet:
  assumes "wPosted w' = wPosted w" "\<And>p. iFlags (wIrps w' p) = iFlags (wIrps w p)" "\<And>p. iCallback (wIrps w' p) = iCallback (wIrps w p)"
    "\<And>p. iState (wIrps w' p) = iState (wIrps w p) \<or> \<not> is_final (wIrps w p) \<and> \<not> is_final (wIrps w' p)"
  shows "tells_once w w'"
  unfolding tells_once_def
proof
  fix p
  show "iFlags (wIrps w' p) = iFlags (wIrps w p) \<and> iCallback (wIrps w' p) = iCallback (wIrps w p) \<and>
     (is_final (wIrps w p) \<longrightarrow> iState (wIrps w' p) = iState (wIrps w p)) \<and>
     told p w' = told p w + (if \<not> is_final (wIrps w p) \<and> is_final (wIrps w' p) \<and> owed (wIrps w p) then 1 else 0)"
    using assms(1) assms(2-4) [of p] is_final_cong [of "wIrps w' p" "wIrps w p"] by (auto simp: told_def)
qed

lemma one_request_tells:
  assumes "only_ports p (put_irp p ((wIrps w p)\<lparr>iState := st\<rparr>) w) (put_irp p ((wIrps w' p)\<lparr>iState := st\<rparr>) w')"
    "\<not> is_final (wIrps w p)" "\<not> is_final (wIrps w' p)"
  shows "tells_once w w'"
proof (rule tells_once_quiet)
  fix q
  show "iFlags (wIrps w' q) = iFlags (wIrps w q)" "iCallback (wIrps w' q) = iCallback (wIrps w q)"
    "iState (wIrps w' q) = iState (wIrps w q) \<or> \<not> is_final (wIrps w q) \<and> \<not> is_final (wIrps w' q)"
    using assms by (cases "q = p"; simp add: only_ports_def same_control_def)+
qed (use assms in \<open>simp add: only_ports_def\<close>)

lemma only_ports_tells: "only_ports p w w' \<Longrightarrow> tells_once w w'"
proof (rule tells_once_quiet)
  fix q
  assume "only_ports p w w'"
  then show "iFlags (wIrps w' q) = iFlags (wIrps w q)" "iCallback (wIrps w' q) = iCallback (wIrps w q)"
    "iState (wIrps w' q) = iState (wIrps w q) \<or> \<not> is_final (wIrps w q) \<and> \<not> is_final (wIrps w' q)"
    by (cases "q = p"; simp add: only_ports_def same_control_def)+
qed (simp add: only_ports_def)

lemma told_tell: "told q (w\<lparr>wPosted := wPosted w @ [n]\<rparr>) = told q w + (if notice_irp n = q then 1 else 0)"
  by (simp add: told_def)

lemma PostCompleteIrp_tells:
  "told q (snd (PostCompleteIrp p w)) = told q w + (if q = p \<and> owed (wIrps w p) then 1 else 0)"
  "wIrps (snd (PostCompleteIrp p w)) = (wIrps w)(p := ClearIrpThread (wIrps w p))"
  by (auto simp: PostCompleteIrp_def Let_def owed_def upd_irp_def put_irp_def told_def GetIrpThread_def split: prod.splits)

definition run_tells :: "io_run \<Rightarrow> bool" where
  "run_tells go \<longleftrightarrow> (\<forall>c w r w'. go c w = Some (r, w') \<longrightarrow> tells_once w w')"

lemma run_tellsD: "run_tells go \<Longrightarrow> go c w = Some (r, w') \<Longrightarrow> tells_once w w'"
  by (auto simp: run_tells_def)

lemma Unlocked_tells: "run_tells go \<Longrightarrow> Unlocked go w = Some w' \<Longrightarrow> tells_once w w'"
proof -
  assume go: "run_tells go" and u: "Unlocked go w = Some w'"
  have "tells_once w (w\<lparr>wOthers := rest\<rparr>)" for rest by (rule tells_once_quiet) simp_all
  then show ?thesis using u run_tellsD [OF go] tells_once_trans
    by (fastforce simp: Unlocked_def split: list.splits)
qed

text \<open>The request that just became final is told at the end, whatever is done in between.\<close>

lemma finish_irp_tells:
  assumes go: "run_tells go" and f: "finish_irp go b tid p w1 = Some (r, w')"
    and w1: "only_ports p w (put_irp p (x\<lparr>iState := iState (wIrps w p)\<rparr>) w1)" "x = wIrps w1 p" "is_final x" "\<not> is_final (wIrps w p)"
  shows "tells_once w w'"
proof -
  obtain wa wb where a: "Unlocked go w1 = Some wa"
    and wb: "(if iMaster (wIrps wa p) \<noteq> 0 then map_option snd (go (CallAssoc b tid p) wa) else Some wa) = Some wb"
    and "Some (PostCompleteIrp p wb) = Some (r, w')"
    using f unfolding finish_irp_def by (elim bindE)
  then have b: "tells_once wa wb" "w' = snd (PostCompleteIrp p wb)"
    using run_tellsD [OF go] by (auto split: if_splits)
  have ab: "tells_once w1 wb" using Unlocked_tells [OF go a] b(1) tells_once_trans by blast
  have k: "iFlags x = iFlags (wIrps w p)" "iCallback x = iCallback (wIrps w p)" "wPosted w1 = wPosted w"
    "\<And>q. q \<noteq> p \<Longrightarrow> wIrps w1 q = wIrps w q"
    using w1(1) by (auto simp: only_ports_def same_control_def)
  note t = ab [unfolded tells_once_def, rule_format]
  have tw: "told q w1 = told q w" for q using k(3) by (simp add: told_def)
  have fb: "is_final (wIrps wb p)" "iState (wIrps wb p) = iState x" using t [of p] w1(2,3) by (auto simp: is_final_def)
  have ob: "owed (wIrps wb p) = owed (wIrps w p)" by (rule owed_cong) (use t [of p] k w1(2) in simp_all)
  show ?thesis unfolding tells_once_def
  proof (intro allI)
    fix q
    show "iFlags (wIrps w' q) = iFlags (wIrps w q) \<and> iCallback (wIrps w' q) = iCallback (wIrps w q) \<and>
       (is_final (wIrps w q) \<longrightarrow> iState (wIrps w' q) = iState (wIrps w q)) \<and>
       told q w' = told q w + (if \<not> is_final (wIrps w q) \<and> is_final (wIrps w' q) \<and> owed (wIrps w q) then 1 else 0)"
    proof (cases "q = p")
      case True
      have "is_final (ClearIrpThread (wIrps wb p))" using fb(1) by (simp add: ClearIrpThread_def is_final_def)
      moreover have "told p wb = told p w" using t [of p] w1(2,3) tw [of p] by simp
      moreover have "iFlags (wIrps wb p) = iFlags (wIrps w p)" "iCallback (wIrps wb p) = iCallback (wIrps w p)" using t [of p] k w1(2) by simp_all
      ultimately show ?thesis using True w1(4) ob
        by (simp add: b(2) PostCompleteIrp_tells) (simp add: ClearIrpThread_def)
    next
      case False
      then show ?thesis using t [of q] k(4) tw [of q] by (simp add: b(2) PostCompleteIrp_tells)
    qed
  qed
qed

lemma CanContinue_cases:
  obtains (ready) "iState x = IRP_STATE_READY" "Irp_CanContinue new x = (0, x\<lparr>iState := new\<rparr>)"
  | (busy) ret where "iState x \<noteq> IRP_STATE_READY" "Irp_CanContinue new x = (ret, x)" "ERROR ret"
proof (cases "iState x = IRP_STATE_READY")
  case False
  then show thesis by (intro busy [of "fst (Irp_CanContinue new x)"]) (simp_all add: Irp_CanContinue_def ERROR_def)
qed (simp add: ready Irp_CanContinue_def)

lemma complete_locked_keeps:
  assumes "port_keeps pv" "complete_locked pv p w = Some (r, w')" "iState (wIrps w p) = IRP_STATE_COMPLETING"
  shows "only_ports p w (put_irp p ((wIrps w' p)\<lparr>iState := IRP_STATE_COMPLETING\<rparr>) w') \<and>
    (if r = STATUS_PENDING then iState (wIrps w' p) = IRP_STATE_READY else iState (wIrps w' p) = IRP_STATE_COMPLETED)"
proof -
  obtain ret w1 where w1: "(if IsCbOnly (wIrps w p) \<or> iStack (wIrps w p) = [] then Some (0, w)
      else complete_walk pv p (length (iStack (wIrps w p))) 0 w) = Some (ret, w1)"
    using assms(2) by (auto simp: complete_locked_def Let_def split: bind_splits)
  then have k: "only_ports p w w1" using complete_walk_keeps [OF assms(1)] by (auto split: if_splits)
  then have st: "iState (wIrps w1 p) = IRP_STATE_COMPLETING" using assms(3) by (simp add: only_ports_def same_control_def)
  have "(ret = STATUS_PENDING \<and> r = STATUS_PENDING \<and> w' = move_state p IRP_STATE_COMPLETING IRP_STATE_READY w1) \<or>
    (r \<noteq> STATUS_PENDING \<and> (\<exists>s. w' = move_state p IRP_STATE_COMPLETING IRP_STATE_COMPLETED (drop_timer p (upd_irp p (\<lambda>x. x\<lparr>iStatus := s x\<rparr>) w1))))"
    using assms(2) w1 by (auto simp: complete_locked_def Let_def split: if_splits)
  then show ?thesis using k st
    by (auto simp: move_state_def upd_irp_def Irp_SetState_def only_ports_def same_control_def)
qed

lemma cancel_locked_keeps:
  assumes "port_keeps pv" "cancel_locked pv tid p bForce iRet w = Some w'" "iState (wIrps w p) = IRP_STATE_CANCELLING"
  shows "only_ports p w (put_irp p ((wIrps w' p)\<lparr>iState := IRP_STATE_CANCELLING\<rparr>) w') \<and> iState (wIrps w' p) = IRP_STATE_CANCELLED"
proof -
  obtain w1 where w1: "(if IsCbOnly (wIrps w p) then Some w else cancel_walk pv tid p bForce iRet (length (iStack (wIrps w p))) True w) = Some w1"
    "w' = move_state p IRP_STATE_CANCELLING IRP_STATE_CANCELLED (drop_timer p (upd_irp p (\<lambda>x. x\<lparr>iStatus := iRet\<rparr>) w1))"
    using assms(2) by (auto simp: cancel_locked_def Let_def split: bind_splits)
  then have k: "only_ports p w w1" using cancel_walk_keeps [OF assms(1)] by (auto split: if_splits)
  then have st: "iState (wIrps w1 p) = IRP_STATE_CANCELLING" using assms(3) by (simp add: only_ports_def same_control_def)
  then show ?thesis using k by (auto simp: w1(2) move_state_def upd_irp_def Irp_SetState_def only_ports_def same_control_def)
qed

text \<open>A locked part that leaves the request final, and the end of the call.\<close>

lemma locked_then_finish:
  assumes go: "run_tells go" and w: "\<not> is_final (wIrps w p)" "only_ports p (put_irp p ((wIrps w p)\<lparr>iState := st\<rparr>) w) (put_irp p ((wIrps w' p)\<lparr>iState := st\<rparr>) w')"
    "is_final (wIrps w' p)" "finish_irp go b tid p w' = Some (r, w'')"
  shows "tells_once w w''"
proof (rule finish_irp_tells [OF go w(4) _ refl w(3,1)])
  show "only_ports p w (put_irp p ((wIrps w' p)\<lparr>iState := iState (wIrps w p)\<rparr>) w')"
    using w(2) by (auto simp: only_ports_def same_control_def)
qed

lemma CompleteIrp_body_tells:
  assumes go: "run_tells go" and pv: "port_keeps pv" and c: "CompleteIrp_body go pv tid p w = Some (r, w')"
  shows "tells_once w w'"
proof (cases "p = 0 \<or> \<not> CanComplete tid (wIrps w p) \<or> iState (wIrps w p) \<noteq> IRP_STATE_READY")
  case True
  then show ?thesis using c by (auto simp: CompleteIrp_body_def split: if_splits)
next
  case False
  then obtain w1 where w1: "tells_once w w1" and rest: "(case Irp_CanContinue IRP_STATE_COMPLETING (wIrps w1 p) of (ret, x) \<Rightarrow>
        if ERROR ret then Some (ret, w1)
        else do {
          (ret2, w2) \<leftarrow> complete_locked pv p (put_irp p x w1);
          if ret2 = STATUS_PENDING then Some (ret2, w2) else finish_irp go False tid p w2 }) = Some (r, w')"
  proof -
    have "do {
       c \<leftarrow> GetTopStack (wIrps w p);
       w1 \<leftarrow> (if ERROR (cStatus c) \<and> GetSlaveCount (wIrps w p) \<noteq> 0
          then map_option snd (go (CallSlaves tid p True (cStatus c)) w) else Some w);
       (case Irp_CanContinue IRP_STATE_COMPLETING (wIrps w1 p) of (ret, x) \<Rightarrow>
        if ERROR ret then Some (ret, w1)
        else do {
          (ret2, w2) \<leftarrow> complete_locked pv p (put_irp p x w1);
          if ret2 = STATUS_PENDING then Some (ret2, w2) else finish_irp go False tid p w2 }) } = Some (r, w')"
      using c False unfolding CompleteIrp_body_def by simp
    then obtain c w1 where "GetTopStack (wIrps w p) = Some c" "(if ERROR (cStatus c) \<and> GetSlaveCount (wIrps w p) \<noteq> 0
          then map_option snd (go (CallSlaves tid p True (cStatus c)) w) else Some w) = Some w1"
      "(case Irp_CanContinue IRP_STATE_COMPLETING (wIrps w1 p) of (ret, x) \<Rightarrow>
        if ERROR ret then Some (ret, w1)
        else do {
          (ret2, w2) \<leftarrow> complete_locked pv p (put_irp p x w1);
          if ret2 = STATUS_PENDING then Some (ret2, w2) else finish_irp go False tid p w2 }) = Some (r, w')"
      by (elim bindE)
    moreover from this(2) have "tells_once w w1"
      using run_tellsD [OF go] by (fastforce split: if_splits)
    ultimately show thesis using that by blast
  qed
  show ?thesis
  proof (cases rule: CanContinue_cases [of "wIrps w1 p" IRP_STATE_COMPLETING])
    case (busy ret)
    then show ?thesis using rest w1 by simp
  next
    case ready
    let ?w = "put_irp p ((wIrps w1 p)\<lparr>iState := IRP_STATE_COMPLETING\<rparr>) w1"
    obtain ret2 w2 where w2: "complete_locked pv p ?w = Some (ret2, w2)"
      "(if ret2 = STATUS_PENDING then Some (ret2, w2) else finish_irp go False tid p w2) = Some (r, w')"
      using rest ready by (auto split: bind_splits)
    note k = complete_locked_keeps [OF pv w2(1), simplified]
    have nf: "\<not> is_final (wIrps w1 p)" using ready(1) by (simp add: is_final_def)
    have "tells_once w1 w'"
    proof (cases "ret2 = STATUS_PENDING")
      case True
      then have s2: "iState (wIrps w2 p) = IRP_STATE_READY" and eq: "w' = w2" using k w2(2) by auto
      show ?thesis unfolding eq
        by (rule one_request_tells [OF _ nf]) (use k s2 in \<open>auto simp: is_final_def\<close>)
    next
      case False
      then have "is_final (wIrps w2 p)" "finish_irp go False tid p w2 = Some (r, w')" using k w2(2) by (simp_all add: is_final_def)
      then show ?thesis using locked_then_finish [OF go nf] k by blast
    qed
    then show ?thesis using w1 tells_once_trans by blast
  qed
qed

lemma CancelIrp_body_tells:
  assumes go: "run_tells go" and pv: "port_keeps pv" and c: "CancelIrp_body go pv tid p bForce iRet w = Some (r, w')"
  shows "tells_once w w'"
proof (cases "p = 0")
  case True
  then show ?thesis using c by (simp add: CancelIrp_body_def)
next
  case False
  then obtain r1 w1 where g: "go (CallSlaves tid p bForce iRet) w = Some (r1, w1)" and rest:
    "(if \<not> CanComplete tid (wIrps w1 p) then Some (0, w1)
       else (case Irp_CanContinue IRP_STATE_CANCELLING (wIrps w1 p) of (ret, x) \<Rightarrow>
         if ERROR ret then Some (ret, w1)
         else do { w2 \<leftarrow> cancel_locked pv tid p bForce iRet (put_irp p x w1); finish_irp go True tid p w2 })) = Some (r, w')"
    using c by (auto simp: CancelIrp_body_def split: bind_splits)
  note w1 = run_tellsD [OF go g]
  show ?thesis
  proof (cases rule: CanContinue_cases [of "wIrps w1 p" IRP_STATE_CANCELLING])
    case (busy ret)
    then show ?thesis using rest w1 by (auto split: if_splits)
  next
    case ready
    let ?w = "put_irp p ((wIrps w1 p)\<lparr>iState := IRP_STATE_CANCELLING\<rparr>) w1"
    show ?thesis
    proof (cases "CanComplete tid (wIrps w1 p)")
      case True
      then obtain w2 where w2: "cancel_locked pv tid p bForce iRet ?w = Some w2" "finish_irp go True tid p w2 = Some (r, w')"
        using rest ready by (auto split: bind_splits)
      note k = cancel_locked_keeps [OF pv w2(1), simplified]
      have nf: "\<not> is_final (wIrps w1 p)" using ready(1) by (simp add: is_final_def)
      have "is_final (wIrps w2 p)" using k by (simp add: is_final_def)
      then have "tells_once w1 w'" using locked_then_finish [OF go nf] k w2(2) by blast
      then show ?thesis using w1 tells_once_trans by blast
    qed (use rest w1 in simp)
  qed
qed


text \<open>The master, whose slave is done, and the request whose slaves are cancelled stay as they are for their owners.\<close>

lemma state_and_back:
  assumes "Irp_CanContinue new x = (ret, x1)" "\<not> ERROR ret" "same_control x1 y"
  shows "same_control x (snd (Irp_SetState new IRP_STATE_READY y))"
  using assms by (cases rule: CanContinue_cases [of x new]) (auto simp: same_control_def Irp_SetState_def)

lemma assoc_locked_keeps:
  assumes pv: "port_keeps pv" and a: "assoc_locked pv this m s w = Some (r, b, w')"
  shows "only_ports m w w'"
proof -
  obtain ret x where x: "Irp_CanContinue IRP_STATE_COMPLETING_ASSOC (wIrps w m) = (ret, x)" by fastforce
  show ?thesis
  proof (cases "ERROR ret")
    case True
    then show ?thesis using a x by (simp add: assoc_locked_def)
  next
    case False
    have keep: "same_control x y \<Longrightarrow> w' = put_irp m (snd (Irp_SetState IRP_STATE_COMPLETING_ASSOC IRP_STATE_READY y)) w \<Longrightarrow> only_ports m w w'" for y
      using state_and_back [OF x False] by (auto simp: only_ports_def)
    have slave_done: "same_control x (snd (pvSlaveDone pv this (RemoveSlaveIrp s x) y))" for y
    proof -
      have "same_control (RemoveSlaveIrp s x) (snd (pvSlaveDone pv this (RemoveSlaveIrp s x) y))"
        using pv by (simp add: port_keeps_def)
      then show ?thesis by (simp add: same_control_def RemoveSlaveIrp_def)
    qed
    show ?thesis
      using a x False slave_done [of "wIrps w s"] keep
      by (fastforce simp: assoc_locked_def Let_def split_beta split: if_splits bind_splits)
  qed
qed

lemma slaves_locked_keeps:
  assumes "slaves_locked x = (s, again, y)"
  shows "same_control x y"
proof -
  obtain ret x1 where x: "Irp_CanContinue IRP_STATE_CANCEL_SLAVE x = (ret, x1)" by fastforce
  show ?thesis
  proof (cases "ERROR ret")
    case True
    then show ?thesis using assms x by (cases rule: CanContinue_cases [of x IRP_STATE_CANCEL_SLAVE]) (auto simp: slaves_locked_def)
  next
    case False
    have "same_control x1 (SetMinSlaves 0 x1)" by (simp add: same_control_def SetMinSlaves_def)
    then show ?thesis using assms x state_and_back [OF x False]
      by (auto simp: slaves_locked_def False Let_def split: list.splits if_splits)
  qed
qed

lemma SetMasterIrp_tells: "tells_once w (upd_irp s (SetMasterIrp m) w)"
  by (rule only_ports_tells [of s]) (simp add: only_ports_def same_control_def upd_irp_def SetMasterIrp_def)

lemma CancelSlaves_body_tells:
  assumes go: "run_tells go" and c: "CancelSlaves_body go tid p bForce iRet w = Some (r, w')"
  shows "tells_once w w'"
proof -
  obtain s again x where l: "slaves_locked (wIrps w p) = (s, again, x)" by (metis prod_cases3)
  obtain w1 where
    "(case s of None \<Rightarrow> Some (put_irp p x w) | Some q \<Rightarrow> map_option snd (go (CallCancel tid q bForce iRet) (put_irp p x w))) = Some w1"
    "(if again then go (CallSlaves tid p bForce iRet) w1 else Some (0, w1)) = Some (r, w')"
    using c unfolding CancelSlaves_body_def l prod.case by (elim bindE)
  moreover have "tells_once w (put_irp p x w)"
    by (rule only_ports_tells [of p]) (use slaves_locked_keeps [OF l] in \<open>simp add: only_ports_def\<close>)
  moreover from calculation have "tells_once (put_irp p x w) w1" "tells_once w1 w'"
    using run_tellsD [OF go] by (fastforce split: option.splits if_splits)+
  ultimately show ?thesis using tells_once_trans by meson
qed

lemma AssocIrp_body_tells:
  assumes go: "run_tells go" and pv: "port_keeps pv" and c: "AssocIrp_body go pv bCancel tid s w = Some (r, w')"
  shows "tells_once w w'"
proof -
  let ?m = "iMaster (wIrps w s)"
  have "w' = w \<or> w' = upd_irp s (SetMasterIrp 0) w \<or> (\<exists>w2. tells_once w w2 \<and> w' = upd_irp s (SetMasterIrp 0) w2)"
  proof (cases "?m = 0 \<or> GetTopPort (wIrps w ?m) = Some 0")
    case True
    then show ?thesis using c by (auto simp: AssocIrp_body_def Let_def split: if_splits)
  next
    case False
    then obtain port where "GetTopPort (wIrps w ?m) = Some port" "port \<noteq> 0"
      using c by (auto simp: AssocIrp_body_def Let_def split: bind_splits)
    then obtain a where "assoc_locked pv port ?m s w = Some a" and "(case a of (ret, bDone, w1) \<Rightarrow> do {
         wu \<leftarrow> Unlocked go w1;
         (ret2, w2) \<leftarrow> (if bDone then go (CallComplete tid ?m) wu else Some (ret, wu));
         Some (ret2, upd_irp s (SetMasterIrp 0) w2) }) = Some (r, w')"
      using c False by (auto simp: AssocIrp_body_def Let_def elim: bindE)
    then obtain ret b w1 where a: "assoc_locked pv port ?m s w = Some (ret, b, w1)" and "do {
         wu \<leftarrow> Unlocked go w1;
         (ret2, w2) \<leftarrow> (if b then go (CallComplete tid ?m) wu else Some (ret, wu));
         Some (ret2, upd_irp s (SetMasterIrp 0) w2) } = Some (r, w')" by (cases a) simp
    from this(2) obtain wu ret2 w2 where a2: "Unlocked go w1 = Some wu"
      "(if b then go (CallComplete tid ?m) wu else Some (ret, wu)) = Some (ret2, w2)"
      "w' = upd_irp s (SetMasterIrp 0) w2" by (elim bindE) auto
    have "tells_once wu w2" using a2(2) run_tellsD [OF go] by (auto split: if_splits)
    then have "tells_once w w2"
      using tells_once_trans [OF tells_once_trans [OF only_ports_tells [OF assoc_locked_keeps [OF pv a]] Unlocked_tells [OF go a2(1)]]] by blast
    then show ?thesis using a2(3) by blast
  qed
  then show ?thesis using SetMasterIrp_tells tells_once_trans by auto
qed

lemma Others_body_tells: "run_tells go \<Longrightarrow> Others_body go cs w = Some (r, w') \<Longrightarrow> tells_once w w'"
  using run_tellsD [of go] tells_once_trans
  by (fastforce simp: Others_body_def split: list.splits bind_splits)

lemma io_go_tells: "port_keeps pv \<Longrightarrow> run_tells (io_go f pv)"
proof (induction f)
  case (Suc f)
  note go = Suc.IH [OF Suc.prems]
  have "tells_once w w'" if "io_body (io_go f pv) pv c w = Some (r, w')" for c w r w'
    using that CompleteIrp_body_tells [OF go Suc.prems] CancelIrp_body_tells [OF go Suc.prems] CancelSlaves_body_tells [OF go]
      AssocIrp_body_tells [OF go Suc.prems] Others_body_tells [OF go] by (auto simp: io_body_def split: io_call.splits)
  then have "tells_once w w'" if "do {
     w1 \<leftarrow> Unlocked (io_go f pv) w;
     (ret, w2) \<leftarrow> io_body (io_go f pv) pv c w1;
     w3 \<leftarrow> Unlocked (io_go f pv) w2;
     Some (ret, w3) } = Some (r, w')" for c w r w'
    using that Unlocked_tells [OF go] by (elim bindE) (auto elim!: bindE, meson tells_once_trans)
  then show ?case unfolding run_tells_def io_go.simps by blast
qed (simp add: run_tells_def io_go.simps)

end
