(* ===== verification/IrpRuns.thy ===== *)
theory IrpRuns
  imports IoTells
begin

text \<open>
  What the completion and the cancellation of requests do when nobody interferes, exactly: for a
  request whose ports see plain function calls, and for a master with its slaves. The depths of the
  calls are given: they suffice, so the functions return.
\<close>

subsection \<open>Requests for ordinary functions\<close>

text \<open>Every port on the stack sees a plain function call.\<close>

definition func_entry :: "nat \<times> irp_ctx \<Rightarrow> bool" where
  "func_entry e \<longleftrightarrow> fst e \<noteq> 0 \<and> GetMajorCmd (snd e) = IRP_MJ_FUNC \<and> GetMinorCmd (snd e) \<noteq> IRP_MN_IOCTL"

definition top_status :: "irp \<Rightarrow> int" where "top_status x = cStatus (snd (last (iStack x)))"

text \<open>What is left of a request: the context of its first port, with the status the lowest port gave.\<close>

definition bottom_only :: "int \<Rightarrow> irp \<Rightarrow> irp" where
  "bottom_only st x = x\<lparr>iStack := [apsnd (SetStatus st) (hd (iStack x))], iCurPos := 0\<rparr>"

definition left_gate :: "nat \<Rightarrow> irp \<Rightarrow> (nat \<Rightarrow> nat list) \<Rightarrow> nat \<Rightarrow> nat list" where
  "left_gate p x g = g(fst (hd (iStack x)) := removeAll p (g (fst (hd (iStack x)))))"

lemma CompleteFunc_holder:
  assumes "iStack x = es @ [e]" "func_entry e" "iCurPos x = length es" "cStatus (snd e) \<noteq> STATUS_PENDING"
  shows "CPort_CompleteIrp pv (fst e) p (x, m) =
    Some (cStatus (snd e), x, if es = [] \<or> fst (hd es) = fst e then removeAll p m else m)"
  using assms by (cases es) (auto simp: CPort_CompleteIrp_def GetCurCtx_def GetCtxAt_def GetStackSize_def CompleteFuncIrp_def MajorCmd_def MinorCmd_def
      IsIrpHolder_def func_entry_def IrpOut_def IsTopPort_def)

lemma CompleteFunc_below:
  assumes "iStack x = es @ [e, t]" "func_entry e" "iCurPos x = length es" "cStatus (snd t) \<noteq> STATUS_PENDING"
  shows "CPort_CompleteIrp pv (fst e) p (x, m) =
    Some (cStatus (snd t), x\<lparr>iStack := es @ [apsnd (SetStatus (cStatus (snd t))) e]\<rparr>,
      if es = [] \<or> fst (hd es) = fst e then removeAll p m else m)"
  using assms by (cases es) (auto simp: CPort_CompleteIrp_def GetCurCtx_def GetCtxAt_def GetStackSize_def CompleteFuncIrp_def MajorCmd_def MinorCmd_def
      IsIrpHolder_def func_entry_def IrpOut_def IsTopPort_def upd_cur_def upd_ctx_def PopCtxStack_def GetTopStack_def nth_append list_update_append butlast_append)


lemma set_gate_again: "g(q := removeAll p (removeAll p (g q))) = g(q := removeAll p (g q))"
  by (rule ext) (simp add: removeAll_filter_not_eq)

lemma complete_walk_below:
  "wIrps w p = x \<Longrightarrow> iStack x = es @ [t] \<Longrightarrow> es \<noteq> [] \<Longrightarrow> (\<And>e. e \<in> set es \<Longrightarrow> func_entry e) \<Longrightarrow> cStatus (snd t) = st \<Longrightarrow> st \<noteq> STATUS_PENDING \<Longrightarrow>
   complete_walk pv p (length es) ret w = Some (st, put_irp p (bottom_only st x) (w\<lparr>wIn := left_gate p x (wIn w)\<rparr>))"
proof (induction es arbitrary: w x t ret rule: rev_induct)
  case (snoc e es)
  let ?x = "x\<lparr>iCurPos := length es\<rparr>"
  let ?y = "?x\<lparr>iStack := es @ [apsnd (SetStatus st) e]\<rparr>"
  let ?g = "if es = [] \<or> fst (hd es) = fst e then removeAll p (wIn w (fst e)) else wIn w (fst e)"
  let ?w = "put_irp p ?y (w\<lparr>wIn := (wIn w)(fst e := ?g)\<rparr>)"
  have e: "func_entry e" "fst e \<noteq> 0" using snoc.prems(4) [of e] by (simp_all add: func_entry_def)
  have "CPort_CompleteIrp pv (fst e) p (?x, wIn w (fst e)) = Some (st, ?y, ?g)"
    using CompleteFunc_below [of ?x es e t pv p "wIn w (fst e)"] snoc.prems(2,5,6) e(1) by simp
  then have step: "complete_walk pv p (length (es @ [e])) ret w = complete_walk pv p (length es) st ?w"
    using snoc.prems(1,2,6) e(2) by (simp add: Let_def SetCurPos_def nth_append)
  show ?case
  proof (cases "es = []")
    case True
    have "x\<lparr>iCurPos := 0, iStack := [apsnd (SetStatus st) e]\<rparr> = bottom_only st x" using snoc.prems(2) True by (simp add: bottom_only_def)
    then show ?thesis using step True snoc.prems(2) by (simp add: left_gate_def put_irp_def fun_upd_def)
  next
    case False
    have "complete_walk pv p (length es) st ?w = Some (st, put_irp p (bottom_only st ?y) (?w\<lparr>wIn := left_gate p ?y (wIn ?w)\<rparr>))"
      by (rule snoc.IH [of ?w ?y "apsnd (SetStatus st) e"]) (use False snoc.prems(4,6) in simp_all)
    moreover have "bottom_only st ?y = bottom_only st x" using False snoc.prems(2) by (simp add: bottom_only_def)
    moreover have "left_gate p ?y (wIn ?w) = left_gate p x (wIn w)"
      using False snoc.prems(2) by (auto simp: left_gate_def removeAll_filter_not_eq)
    ultimately show ?thesis using step by (simp add: put_irp_def)
  qed
qed simp


lemma SetStatus_same [simp]: "SetStatus (cStatus c) c = c" "SetStatus a (SetStatus b c) = SetStatus a c"
  by (simp_all add: SetStatus_def)


definition func_irp :: "irp \<Rightarrow> bool" where
  "func_irp x \<longleftrightarrow> iStack x \<noteq> [] \<and> list_all func_entry (iStack x) \<and> top_status x \<noteq> STATUS_PENDING \<and> \<not> IsCbOnly x"

lemma complete_walk_func:
  assumes x: "wIrps w p = x" "func_irp x"
  shows "complete_walk pv p (length (iStack x)) ret w =
    Some (top_status x, put_irp p (bottom_only (top_status x) x) (w\<lparr>wIn := left_gate p x (wIn w)\<rparr>))"
proof -
  obtain es t where st: "iStack x = es @ [t]" using x(2) by (metis func_irp_def rev_exhaust)
  then have t: "top_status x = cStatus (snd t)" "func_entry t" "fst t \<noteq> 0" "cStatus (snd t) \<noteq> STATUS_PENDING"
    and es: "\<And>e. e \<in> set es \<Longrightarrow> func_entry e"
    using x(2) by (auto simp: func_irp_def top_status_def func_entry_def list_all_iff)
  let ?x = "x\<lparr>iCurPos := length es\<rparr>"
  let ?g = "if es = [] \<or> fst (hd es) = fst t then removeAll p (wIn w (fst t)) else wIn w (fst t)"
  let ?w = "put_irp p ?x (w\<lparr>wIn := (wIn w)(fst t := ?g)\<rparr>)"
  have "CPort_CompleteIrp pv (fst t) p (?x, wIn w (fst t)) = Some (cStatus (snd t), ?x, ?g)"
    using CompleteFunc_holder [of ?x es t pv p "wIn w (fst t)"] st t by simp
  then have step: "complete_walk pv p (length (iStack x)) ret w = complete_walk pv p (length es) (top_status x) ?w"
    using x(1) st t by (simp add: Let_def SetCurPos_def nth_append)
  show ?thesis
  proof (cases "es = []")
    case True
    have "?x = bottom_only (top_status x) x" using st t(1) True by (simp add: bottom_only_def apsnd_def map_prod_def split_beta)
    then show ?thesis using step True st by (simp add: left_gate_def put_irp_def fun_upd_def)
  next
    case False
    have "complete_walk pv p (length es) (top_status x) ?w =
        Some (top_status x, put_irp p (bottom_only (top_status x) ?x) (?w\<lparr>wIn := left_gate p ?x (wIn ?w)\<rparr>))"
      by (rule complete_walk_below [where t = t]) (use st t False es in simp_all)
    moreover have "bottom_only (top_status x) ?x = bottom_only (top_status x) x" by (simp add: bottom_only_def)
    moreover have "left_gate p ?x (wIn ?w) = left_gate p x (wIn w)"
      using False st by (auto simp: left_gate_def removeAll_filter_not_eq)
    ultimately show ?thesis using step by (simp add: put_irp_def)
  qed
qed

text \<open>A completed request, and the world it leaves: out of the gate keeper's map, its timer removed.\<close>

definition completed :: "irp \<Rightarrow> irp" where
  "completed x = (bottom_only (top_status x) x)\<lparr>iStatus := top_status x, iState := IRP_STATE_COMPLETED\<rparr>"

definition after_done :: "nat \<Rightarrow> irp \<Rightarrow> io_world \<Rightarrow> io_world" where
  "after_done p y w = (drop_timer p w)\<lparr>wIrps := (wIrps w)(p := y), wIn := left_gate p (wIrps w p) (wIn w)\<rparr>"

lemma bottom_only_simps [simp]:
  "iState (bottom_only st x) = iState x" "iTimerId (bottom_only st x) = iTimerId x" "iFlags (bottom_only st x) = iFlags x"
  "iStack (bottom_only st x) = [apsnd (SetStatus st) (hd (iStack x))]" "bottom_only st (x\<lparr>iState := s\<rparr>) = (bottom_only st x)\<lparr>iState := s\<rparr>"
  "(bottom_only st x)\<lparr>iStatus := i, iState := s\<rparr>\<lparr>iState := s2\<rparr> = (bottom_only st x)\<lparr>iStatus := i, iState := s2\<rparr>"
  by (simp_all add: bottom_only_def)

lemma state_update_simps [simp]:
  "func_irp (x\<lparr>iState := s\<rparr>) = func_irp x" "top_status (x\<lparr>iState := s\<rparr>) = top_status x" "left_gate p (x\<lparr>iState := s\<rparr>) g = left_gate p x g"
  by (simp_all add: func_irp_def top_status_def left_gate_def IsCbOnly_def has_flag_def)

lemma complete_locked_func:
  assumes "func_irp x"
  shows "complete_locked pv p (put_irp p (x\<lparr>iState := IRP_STATE_COMPLETING\<rparr>) w) = Some (0, after_done p (completed x) (put_irp p x w))"
proof -
  let ?w = "put_irp p (x\<lparr>iState := IRP_STATE_COMPLETING\<rparr>) w"
  have ne: "iStack x \<noteq> []" "top_status x \<noteq> STATUS_PENDING" "\<not> IsCbOnly (x\<lparr>iState := IRP_STATE_COMPLETING\<rparr>)"
    using assms by (simp_all add: func_irp_def IsCbOnly_def has_flag_def)
  show ?thesis
    using complete_walk_func [of ?w p "x\<lparr>iState := IRP_STATE_COMPLETING\<rparr>" pv 0] assms ne
    by (simp add: complete_locked_def Let_def move_state_def upd_irp_def put_irp_def drop_timer_def HasTimer_def Irp_SetState_def
        after_done_def completed_def)
qed


subsection \<open>A completion without interference\<close>

lemma Unlocked_none [simp]: "wOthers w = [] \<Longrightarrow> Unlocked go w = Some w"
  by (simp add: Unlocked_def)

lemma io_go_quiet: "wOthers w = [] \<Longrightarrow> io_body (io_go f pv) pv c w = Some (r, w') \<Longrightarrow> wOthers w' = [] \<Longrightarrow> io_go (Suc f) pv c w = Some (r, w')"
  by (simp add: io_go.simps)

lemma PostCompleteIrp_posted:
  "map notice_irp (wPosted (snd (PostCompleteIrp p w))) = map notice_irp (wPosted w) @ (if owed (wIrps w p) then [p] else [])"
  "wOthers (snd (PostCompleteIrp p w)) = wOthers w" "wIn (snd (PostCompleteIrp p w)) = wIn w"
  by (auto simp: PostCompleteIrp_def Let_def owed_def upd_irp_def GetIrpThread_def split: prod.splits)

lemma after_done_simps [simp]:
  "wIrps (after_done p y w) = (wIrps w)(p := y)" "wPosted (after_done p y w) = wPosted w" "wOthers (after_done p y w) = wOthers w"
  "wIn (after_done p y w) = left_gate p (wIrps w p) (wIn w)"
  by (simp_all add: after_done_def)

lemma completed_simps [simp]:
  "iMaster (completed x) = iMaster x" "iFlags (completed x) = iFlags x" "iCallback (completed x) = iCallback x" "iState (completed x) = IRP_STATE_COMPLETED"
  "iStatus (completed x) = top_status x" "iStack (completed x) = [apsnd (SetStatus (top_status x)) (hd (iStack x))]" "owed (completed x) = owed x"
  by (simp_all add: completed_def bottom_only_def owed_def IsPending_def IsSyncCall_def has_flag_def)

lemma ClearIrpThread_simps [simp]:
  "iMaster (ClearIrpThread x) = iMaster x" "iState (ClearIrpThread x) = iState x" "iStatus (ClearIrpThread x) = iStatus x" "iStack (ClearIrpThread x) = iStack x"
  by (simp_all add: ClearIrpThread_def)

lemma put_irp_same [simp]: "put_irp p (wIrps w p) w = w"
  by (simp add: put_irp_def)

lemma CompleteIrp_body_func:
  assumes "p \<noteq> 0" "iState (wIrps w p) = IRP_STATE_READY" "CanComplete tid (wIrps w p)" "func_irp (wIrps w p)"
    "\<not> ERROR (top_status (wIrps w p)) \<or> GetSlaveCount (wIrps w p) = 0"
  shows "CompleteIrp_body go pv tid p w = finish_irp go False tid p (after_done p (completed (wIrps w p)) w)"
proof -
  have "GetTopStack (wIrps w p) = Some (snd (last (iStack (wIrps w p))))" using assms(4) by (simp add: GetTopStack_def func_irp_def)
  then show ?thesis using assms complete_locked_func [OF assms(4), of pv p w]
    by (auto simp: CompleteIrp_body_def Irp_CanContinue_def top_status_def)
qed

text \<open>
  C28: The completion of a request carries the status of the lowest port up to the first context and
  to the request, drops every other context, takes the request out of the gate keeper's map of its top
  port, and tells its owner if one waits. Nothing happens to any other request.
\<close>

lemma complete_irp_propagates:
  assumes "p \<noteq> 0" "iState (wIrps w p) = IRP_STATE_READY" "CanComplete tid (wIrps w p)" "func_irp (wIrps w p)" "iMaster (wIrps w p) = 0"
    "\<not> ERROR (top_status (wIrps w p)) \<or> GetSlaveCount (wIrps w p) = 0" "wOthers w = []"
  shows "\<exists>r w'. CompleteIrp (Suc f) pv tid p w = Some (r, w') \<and>
    iState (wIrps w' p) = IRP_STATE_COMPLETED \<and> iStatus (wIrps w' p) = top_status (wIrps w p) \<and>
    iStack (wIrps w' p) = [apsnd (SetStatus (top_status (wIrps w p))) (hd (iStack (wIrps w p)))] \<and>
    (\<forall>q. q \<noteq> p \<longrightarrow> wIrps w' q = wIrps w q) \<and> p \<notin> set (wIn w' (fst (hd (iStack (wIrps w p))))) \<and>
    map notice_irp (wPosted w') = map notice_irp (wPosted w) @ (if owed (wIrps w p) then [p] else [])"
proof -
  let ?w = "after_done p (completed (wIrps w p)) w"
  have "io_body (io_go f pv) pv (CallComplete tid p) w = Some (fst (PostCompleteIrp p ?w), snd (PostCompleteIrp p ?w))"
    using CompleteIrp_body_func [OF assms(1-4,6)] assms(5,7) by (simp add: io_body_def finish_irp_def)
  then have c: "CompleteIrp (Suc f) pv tid p w = Some (fst (PostCompleteIrp p ?w), snd (PostCompleteIrp p ?w))"
    unfolding CompleteIrp_def using io_go_quiet PostCompleteIrp_posted(2) assms(7) after_done_simps(3) by metis
  show ?thesis by (intro exI conjI, rule c) (simp_all add: PostCompleteIrp_posted PostCompleteIrp_tells left_gate_def)
qed


subsection \<open>A master and its slaves\<close>




text \<open>The master once its last slave has reported.\<close>

definition all_reported :: "irp \<Rightarrow> irp" where
  "all_reported x = upd_top (SetStatus 0) (PopCtxStack (x\<lparr>iSlaves := []\<rparr>))"


lemma state_same [simp]: "iState x = st \<Longrightarrow> x\<lparr>iState := st\<rparr> = x"
  by simp




lemma all_reported_simps [simp]:
  "iState (all_reported x) = iState x" "iMaster (all_reported x) = iMaster x" "owed (all_reported x) = owed x" "CanComplete tid (all_reported x) = CanComplete tid x"
  "IsCbOnly (all_reported x) = IsCbOnly x" "iSlaves (all_reported x) = []" "iMinSlaves (all_reported x) = iMinSlaves x"
  by (simp_all add: all_reported_def upd_top_def upd_ctx_def PopCtxStack_def owed_def IsPending_def IsSyncCall_def has_flag_def CanComplete_def
      IsNoComplete_def IsCbOnly_def)



lemma upd_irp_simps [simp]:
  "wIrps (upd_irp p f w) = (wIrps w)(p := f (wIrps w p))" "wPosted (upd_irp p f w) = wPosted w" "wOthers (upd_irp p f w) = wOthers w"
  by (simp_all add: upd_irp_def)

lemma SetMasterIrp_simps [simp]:
  "iState (SetMasterIrp m x) = iState x" "iStatus (SetMasterIrp m x) = iStatus x" "iStack (SetMasterIrp m x) = iStack x" "owed (SetMasterIrp m x) = owed x"
  by (simp_all add: SetMasterIrp_def owed_def IsPending_def IsSyncCall_def has_flag_def)



text \<open>The world in which the slave \<open>s\<close> is complete and the master has become \<open>x\<close>.\<close>

definition slave_reported :: "nat \<Rightarrow> nat \<Rightarrow> irp \<Rightarrow> io_world \<Rightarrow> io_world" where
  "slave_reported s m x w = put_irp m x (after_done s (completed (wIrps w s)) w)"

lemma slave_reported_simps [simp]:
  "wIrps (slave_reported s m x w) = (wIrps w)(s := completed (wIrps w s), m := x)" "wPosted (slave_reported s m x w) = wPosted w"
  "wOthers (slave_reported s m x w) = wOthers w"
  by (simp_all add: slave_reported_def)







subsection \<open>A cancellation without interference\<close>

lemma CanComplete_stack [simp]:
  "CanComplete tid (x\<lparr>iStack := l\<rparr>) = CanComplete tid x" "CanComplete tid (x\<lparr>iCurPos := i\<rparr>) = CanComplete tid x"
  "CanComplete tid (x\<lparr>iState := st\<rparr>) = CanComplete tid x"
  by (simp_all add: CanComplete_def IsNoComplete_def IsPending_def has_flag_def)





definition cancel_status :: "int \<Rightarrow> irp \<Rightarrow> int" where
  "cancel_status iRet x = (if GetMajorCmd (snd (last (iStack x))) = IRP_MJ_FUNC \<and> iRet \<noteq> 0 then iRet else - ECANCELED)"

definition cancelled :: "int \<Rightarrow> irp \<Rightarrow> irp" where
  "cancelled iRet x = (bottom_only (cancel_status iRet x) x)\<lparr>iStatus := iRet, iState := IRP_STATE_CANCELLED\<rparr>"








lemma cancelled_simps [simp]:
  "iState (cancelled iRet x) = IRP_STATE_CANCELLED" "iStatus (cancelled iRet x) = iRet" "iMaster (cancelled iRet x) = iMaster x" "owed (cancelled iRet x) = owed x"
  by (simp_all add: cancelled_def bottom_only_def owed_def IsPending_def IsSyncCall_def has_flag_def)











subsection \<open>Concrete requests\<close>

definition wit_ports :: port_virtuals where
  "wit_ports = \<lparr>pvSubmit = \<lambda>_ x. Some (STATUS_PENDING, x), pvCompletePnp = \<lambda>_ x. Some (0, x), pvCompleteIoctl = \<lambda>_ x. (0, x),
     pvCancelPnp = \<lambda>_ x. Some x, pvSlaveDone = \<lambda>_ x _. (0, x), pvAllocExt = \<lambda>_ c. c, pvLower = \<lambda>_. 0, pvFilter = \<lambda>_. False\<rparr>"

definition wit_call :: "int \<Rightarrow> irp_ctx" where "wit_call st = SetStatus st (SetMajorCmd IRP_MJ_FUNC new_ctx)"

definition wit_slave :: irp where
  "wit_slave = MarkPending (SetSyncCall True ((new_irp 4 0)\<lparr>iStack := [(8, wit_call 0), (9, wit_call (- EIO))], iMaster := 1\<rparr>))"

definition wit_master :: irp where
  "wit_master = (case MakeAssocIrp wit_ports 7 1 2 (MarkPending ((new_irp 4 0)\<lparr>iStack := [(7, wit_call 0)], iCallback := 6\<rparr>)) wit_slave of
     Some (_, x, _) \<Rightarrow> AddSlaveIrp 3 x)"

definition wit_world :: "irp_call list list \<Rightarrow> io_world" where
  "wit_world os = \<lparr>wIrps = (\<lambda>p. if p = 1 then wit_master else wit_slave), wIn = (\<lambda>_. [2, 3]), wPosted = [], wTimers = new_timer_svc 0, wOthers = os\<rparr>"

lemma wit_call_simps [simp]:
  "GetMajorCmd (wit_call st) = IRP_MJ_FUNC" "GetMinorCmd (wit_call st) = 0" "cStatus (wit_call st) = st"
  by (simp_all add: wit_call_def)

lemma wit_slave_facts [simp]:
  "iStack wit_slave = [(8, wit_call 0), (9, wit_call (- EIO))]" "iState wit_slave = IRP_STATE_READY" "iMaster wit_slave = 1" "iFlags wit_slave = 0xC"
  "iCallback wit_slave = 0" "iTid wit_slave = 4" "iSlaves wit_slave = []" "iMinSlaves wit_slave = 0"
  by (simp_all add: wit_slave_def MarkPending_def SetSyncCall_def set_flag_def new_irp_def)

lemma wit_master_facts [simp]:
  "iStack wit_master = [(7, wit_call 0), (7, SetIoDirection IRP_DIR_IN (SetMinorCmd IRP_MN_ASSOC_RUN (SetMajorCmd IRP_MJ_ASSOC new_ctx)))]"
  "iState wit_master = IRP_STATE_READY" "iMaster wit_master = 0" "iFlags wit_master = 8"
  "iCallback wit_master = 6" "iTid wit_master = 4" "iSlaves wit_master = [2, 3]" "iMinSlaves wit_master = 0"
  by (simp_all add: wit_master_def MakeAssocIrp_def GetTopStack_def GetTopPort_def AllocNextStack_def upd_top_def upd_ctx_def GetStackSize_def
      MarkPending_def set_flag_def new_irp_def wit_ports_def AddSlaveIrp_def)









lemma complete_irp_propagates_witness:
  "\<exists>r w'. CompleteIrp 1 wit_ports 5 4 ((wit_world [])\<lparr>wIrps := \<lambda>p. wit_slave\<lparr>iMaster := 0\<rparr>\<rparr>) = Some (r, w') \<and>
    iState (wIrps w' 4) = IRP_STATE_COMPLETED \<and> iStatus (wIrps w' 4) = - EIO \<and> iStack (wIrps w' 4) = [(8, wit_call (- EIO))] \<and>
    map notice_irp (wPosted w') = [4]"
proof -
  let ?w = "(wit_world [])\<lparr>wIrps := \<lambda>p. wit_slave\<lparr>iMaster := 0\<rparr>\<rparr>"
  have "CanComplete 5 (wIrps ?w 4)" "func_irp (wIrps ?w 4)" "owed (wIrps ?w 4)" "top_status (wIrps ?w 4) = - EIO"
    by (simp_all add: CanComplete_def IsNoComplete_def has_flag_def func_irp_def func_entry_def top_status_def IsCbOnly_def owed_def IsPending_def IsSyncCall_def)
  then show ?thesis using complete_irp_propagates [of 4 ?w 5 0 wit_ports]
    by (simp add: GetSlaveCount_def wit_world_def wit_call_def) (elim exE conjE, intro exI conjI, assumption+)
qed

end
