(* ===== verification/TaskThread.thy ===== *)
theory TaskThread
  imports Prelude "HOL-Library.Sublist"
begin

text \<open>
  The threads that run the tasks, of \<open>ipc/irpthread.cpp\<close> and \<open>ipc/mainloop.h\<close>: the queue of tasks, the
  thread that works it off (\<open>CTaskThread\<close>), the task source of the main loop (\<open>CMainIoLoopT\<close>), and
  the pool that picks the thread with the least load (\<open>CThreadPool\<close>).

  A task is a number, zero is the null pointer. A thread is cut into the steps between which other
  threads, and the task that is running, can come in: it has a program counter, and a step of its own
  is one event among those the others raise. A semaphore is its count; a wait that times out
  changes nothing.
\<close>

subsection \<open>The queue of tasks\<close>

definition QueAddTask :: "nat \<Rightarrow> nat list \<Rightarrow> nat list" where
  "QueAddTask t q = (if t \<noteq> 0 \<and> t \<in> set q then q else q @ [t])"

text \<open>The test for the null pointer is the wrong way round in the code: only a null pointer is ever removed.\<close>

definition QueRemoveTask :: "nat \<Rightarrow> nat list \<Rightarrow> int \<times> nat list" where
  "QueRemoveTask t q = (if t = 0 \<and> t \<in> set q then (0, remove1 t q) else (- ENOENT, q))"

definition QuePopHead :: "nat list \<Rightarrow> int \<times> nat list" where
  "QuePopHead q = (if q = [] then (- ENOENT, q) else (0, tl q))"

definition QueGetHead :: "nat list \<Rightarrow> int \<times> nat" where
  "QueGetHead q = (if q = [] then (- ENOENT, 0) else (0, hd q))"

definition QueGetSize :: "nat list \<Rightarrow> nat" where "QueGetSize q = length q"

subsection \<open>A runner of tasks\<close>

text \<open>
  The contract of whoever runs tasks: what has run, followed by what waits, is what was accepted. So
  tasks run in the order of their acceptance, each once for every time it was accepted.
\<close>

locale task_runner = event_machine step legal inv
  for step :: "'s \<Rightarrow> 'e \<Rightarrow> 's" and legal :: "'s \<Rightarrow> 'e \<Rightarrow> bool" and inv :: "'s \<Rightarrow> bool" +
  fixes ran :: "'s \<Rightarrow> 'a list" and waiting :: "'s \<Rightarrow> 'a list" and accepted :: "'s \<Rightarrow> 'a list"
  assumes fifo: "inv s \<Longrightarrow> ran s @ waiting s = accepted s"
begin

lemma runs_in_order: "reach step legal s0 s \<Longrightarrow> inv s0 \<Longrightarrow> ran s @ waiting s = accepted s"
  using fifo inv_reach by blast

lemma ran_prefix: "reach step legal s0 s \<Longrightarrow> inv s0 \<Longrightarrow> prefix (ran s) (accepted s)"
  using runs_in_order by (metis prefixI)

lemma all_ran: "reach step legal s0 s \<Longrightarrow> inv s0 \<Longrightarrow> waiting s = [] \<Longrightarrow> ran s = accepted s"
  using runs_in_order by fastforce

lemma ran_count: "reach step legal s0 s \<Longrightarrow> inv s0 \<Longrightarrow> count_list (ran s) a + count_list (waiting s) a = count_list (accepted s) a"
  using runs_in_order [of s0 s] by (metis count_list_append)

end

text \<open>
  A runner with a step of its own: while it is alive every step brings it nearer to having run all that
  waits, and with nothing waiting nothing comes up by itself.
\<close>

locale draining_runner = task_runner step legal inv ran waiting accepted
  for step :: "'s \<Rightarrow> 'e \<Rightarrow> 's" and legal :: "'s \<Rightarrow> 'e \<Rightarrow> bool" and inv :: "'s \<Rightarrow> bool"
    and ran :: "'s \<Rightarrow> 'a list" and waiting :: "'s \<Rightarrow> 'a list" and accepted :: "'s \<Rightarrow> 'a list" +
  fixes own :: "'s \<Rightarrow> 's" and alive :: "'s \<Rightarrow> bool" and left :: "'s \<Rightarrow> nat"
  assumes own_inv: "inv s \<Longrightarrow> inv (own s)"
    and own_accepted: "accepted (own s) = accepted s"
    and own_empty: "inv s \<Longrightarrow> waiting s = [] \<Longrightarrow> waiting (own s) = []"
    and own_left: "inv s \<Longrightarrow> alive s \<Longrightarrow> waiting s \<noteq> [] \<Longrightarrow> left (own s) < left s \<and> (alive (own s) \<or> waiting (own s) = [])"
begin

lemma drains: "inv s \<Longrightarrow> alive s \<or> waiting s = [] \<Longrightarrow> left s \<le> n \<or> waiting s = [] \<Longrightarrow>
  waiting ((own ^^ n) s) = [] \<and> ran ((own ^^ n) s) = accepted s"
proof (induction n arbitrary: s)
  case 0
  then have "waiting s = []" using own_left [of s] by (cases "waiting s = []") auto
  then show ?case using fifo [OF 0(1)] by simp
next
  case (Suc n)
  have "left (own s) \<le> n \<or> waiting (own s) = []" "alive (own s) \<or> waiting (own s) = []"
    using Suc.prems own_left [of s] own_empty [of s] by (cases "waiting s = []"; fastforce)+
  then show ?case using Suc.IH [OF own_inv [OF Suc.prems(1)]] by (simp add: funpow_swap1 own_accepted)
qed

lemma reached_drains: "reach step legal s0 s \<Longrightarrow> inv s0 \<Longrightarrow> alive s \<Longrightarrow> left s \<le> n \<Longrightarrow>
  waiting ((own ^^ n) s) = [] \<and> ran ((own ^^ n) s) = accepted s"
  using drains inv_reach by blast

end

subsection \<open>The thread\<close>

text \<open>
  Where the thread is in \<open>ThreadProc\<close>: at the outer loop, in the loop that empties the queue, waiting for
  the semaphore, in the loop after \<open>m_bExit\<close>, or at the end. \<open>ttRun\<close> is the task \<open>ProcessTask\<close> is
  running, which is still the head of the queue. \<open>ttDone\<close> and \<open>ttGot\<close> record which tasks have run, and which
  the queue took.
\<close>

datatype tt_pc = TtLoop | TtDrain | TtSleep | TtFinal | TtEnded

record task_thread =
  ttQue :: "nat list"
  ttPc :: tt_pc
  ttRun :: "nat option"
  ttExit :: bool
  ttSem :: nat
  ttDone :: "nat list"
  ttGot :: "nat list"

definition new_task_thread :: task_thread where
  "new_task_thread = \<lparr>ttQue = [], ttPc = TtLoop, ttRun = None, ttExit = False, ttSem = 0, ttDone = [], ttGot = []\<rparr>"

definition TtAddTask :: "nat \<Rightarrow> task_thread \<Rightarrow> task_thread" where
  "TtAddTask t s = s\<lparr>ttQue := QueAddTask t (ttQue s), ttSem := ttSem s + 1,
     ttGot := (if QueAddTask t (ttQue s) = ttQue s then ttGot s else ttGot s @ [t])\<rparr>"

definition TtRemoveTask :: "nat \<Rightarrow> task_thread \<Rightarrow> int \<times> task_thread" where
  "TtRemoveTask t s = (case QueRemoveTask t (ttQue s) of (ret, q) \<Rightarrow> (ret, s\<lparr>ttQue := q\<rparr>))"

definition TtStop :: "task_thread \<Rightarrow> task_thread" where
  "TtStop s = s\<lparr>ttExit := True, ttSem := ttSem s + 1\<rparr>"

text \<open>\<open>ProcessTask\<close> up to the call of the task, and from its return.\<close>

definition ProcessTask_begin :: "task_thread \<Rightarrow> int \<times> task_thread" where
  "ProcessTask_begin s = (case QueGetHead (ttQue s) of (ret, t) \<Rightarrow>
     if ERROR ret then (ret, s) else if t = 0 then (- EFAULT, s) else (0, s\<lparr>ttRun := Some t\<rparr>))"

definition ProcessTask_end :: "nat \<Rightarrow> task_thread \<Rightarrow> task_thread" where
  "ProcessTask_end t s = s\<lparr>ttRun := None, ttQue := snd (QuePopHead (ttQue s)), ttDone := ttDone s @ [t]\<rparr>"

definition tt_process :: "tt_pc \<Rightarrow> task_thread \<Rightarrow> task_thread" where
  "tt_process after s = (case ttRun s of
      Some t \<Rightarrow> ProcessTask_end t s
    | None \<Rightarrow> (case ProcessTask_begin s of (ret, s1) \<Rightarrow> if ERROR ret then s\<lparr>ttPc := after\<rparr> else s1))"

definition tt_own :: "task_thread \<Rightarrow> task_thread" where
  "tt_own s = (case ttPc s of
      TtLoop \<Rightarrow> s\<lparr>ttPc := (if ttExit s then TtFinal else TtDrain)\<rparr>
    | TtDrain \<Rightarrow> tt_process TtSleep s
    | TtSleep \<Rightarrow> if ttExit s then s\<lparr>ttPc := TtLoop\<rparr> else if ttSem s = 0 then s else s\<lparr>ttSem := ttSem s - 1, ttPc := TtLoop\<rparr>
    | TtFinal \<Rightarrow> tt_process TtEnded s
    | TtEnded \<Rightarrow> s)"

datatype tt_event = TtAdd nat | TtRemove nat | TtStopped | TtOwn

definition tt_step :: "task_thread \<Rightarrow> tt_event \<Rightarrow> task_thread" where
  "tt_step s e = (case e of TtAdd t \<Rightarrow> TtAddTask t s | TtRemove t \<Rightarrow> snd (TtRemoveTask t s) | TtStopped \<Rightarrow> TtStop s | TtOwn \<Rightarrow> tt_own s)"

text \<open>\<open>RescheduleTask\<close>, which adds the tasks, refuses a null pointer.\<close>

definition tt_legal :: "task_thread \<Rightarrow> tt_event \<Rightarrow> bool" where
  "tt_legal s e = (case e of TtAdd t \<Rightarrow> t \<noteq> 0 | _ \<Rightarrow> True)"

definition tt_inv :: "task_thread \<Rightarrow> bool" where
  "tt_inv s \<longleftrightarrow> ttDone s @ ttQue s = ttGot s \<and> 0 \<notin> set (ttQue s) \<and> distinct (ttQue s) \<and>
     (\<forall>t. ttRun s = Some t \<longrightarrow> (\<exists>q. ttQue s = t # q) \<and> ttPc s \<in> {TtDrain, TtFinal}) \<and>
     (ttPc s = TtSleep \<and> ttQue s \<noteq> [] \<longrightarrow> 0 < ttSem s \<or> ttExit s) \<and> (ttPc s \<in> {TtFinal, TtEnded} \<longrightarrow> ttExit s)"

lemma remove_real_task: "t \<noteq> 0 \<or> 0 \<notin> set q \<Longrightarrow> QueRemoveTask t q = (- ENOENT, q)"
  by (auto simp: QueRemoveTask_def)

lemma tt_inv_new: "tt_inv new_task_thread"
  by (simp add: tt_inv_def new_task_thread_def)

lemma tt_inv_AddTask: "tt_inv s \<Longrightarrow> t \<noteq> 0 \<Longrightarrow> tt_inv (TtAddTask t s)"
  by (auto simp: tt_inv_def TtAddTask_def QueAddTask_def)

lemma ProcessTask_begin_cases:
  assumes "tt_inv s" "ttRun s = None"
  shows "ProcessTask_begin s = (if ttQue s = [] then (- ENOENT, s) else (0, s\<lparr>ttRun := Some (hd (ttQue s))\<rparr>))"
  using assms by (cases "ttQue s") (auto simp: ProcessTask_begin_def QueGetHead_def ERROR_def tt_inv_def)

lemma tt_inv_process: "tt_inv s \<Longrightarrow> ttPc s = TtDrain \<and> after = TtSleep \<or> ttPc s = TtFinal \<and> after = TtEnded \<Longrightarrow> tt_inv (tt_process after s)"
proof (cases "ttRun s")
  case None
  assume i: "tt_inv s" and p: "ttPc s = TtDrain \<and> after = TtSleep \<or> ttPc s = TtFinal \<and> after = TtEnded"
  then show ?thesis using ProcessTask_begin_cases [OF i None] None
    by (cases "ttQue s") (auto simp: tt_process_def tt_inv_def ERROR_def)
next
  case (Some t)
  assume i: "tt_inv s" and p: "ttPc s = TtDrain \<and> after = TtSleep \<or> ttPc s = TtFinal \<and> after = TtEnded"
  then obtain q where "ttQue s = t # q" using Some by (auto simp: tt_inv_def)
  then show ?thesis using i p Some by (auto simp: tt_process_def tt_inv_def ProcessTask_end_def QuePopHead_def)
qed

lemma tt_inv_own: "tt_inv s \<Longrightarrow> tt_inv (tt_own s)"
proof (cases "ttPc s")
  case TtSleep
  assume "tt_inv s"
  then show ?thesis using TtSleep by (auto simp: tt_own_def tt_inv_def)
qed (auto simp: tt_own_def intro: tt_inv_process, auto simp: tt_inv_def)

lemma tt_inv_step: "tt_inv s \<Longrightarrow> tt_legal s e \<Longrightarrow> tt_inv (tt_step s e)"
proof (cases e)
  case (TtRemove t)
  assume i: "tt_inv s"
  then have "QueRemoveTask t (ttQue s) = (- ENOENT, ttQue s)" by (intro remove_real_task) (simp add: tt_inv_def)
  then show ?thesis using i TtRemove by (simp add: tt_step_def TtRemoveTask_def)
next
  case TtStopped
  assume "tt_inv s"
  then show ?thesis using TtStopped by (auto simp: tt_step_def TtStop_def tt_inv_def)
qed (auto simp: tt_step_def tt_legal_def intro: tt_inv_AddTask tt_inv_own)


subsection \<open>Everything that is queued is run\<close>

text \<open>The steps a thread needs at most until its queue is empty.\<close>

definition tt_left :: "task_thread \<Rightarrow> nat" where
  "tt_left s = 2 * length (ttQue s) - (if ttRun s = None then 0 else 1) + (case ttPc s of TtLoop \<Rightarrow> 1 | TtSleep \<Rightarrow> 2 | _ \<Rightarrow> 0)"

lemma tt_own_got [simp]: "ttGot (tt_own s) = ttGot s"
  by (auto simp: tt_own_def tt_process_def ProcessTask_begin_def ProcessTask_end_def split: tt_pc.splits option.splits prod.splits)

lemma tt_process_left:
  assumes "tt_inv s" "ttQue s \<noteq> []" "ttPc s \<in> {TtDrain, TtFinal}"
  shows "tt_left (tt_process after s) < tt_left s \<and> ttPc (tt_process after s) = ttPc s"
proof (cases "ttRun s")
  case None
  then show ?thesis using assms ProcessTask_begin_cases [OF assms(1) None]
    by (cases "ttQue s") (auto simp: tt_process_def tt_left_def ERROR_def)
next
  case (Some t)
  then obtain q where "ttQue s = t # q" using assms(1) by (auto simp: tt_inv_def)
  then show ?thesis using Some assms(3) by (auto simp: tt_process_def tt_left_def ProcessTask_end_def QuePopHead_def)
qed

lemma tt_own_left: "tt_inv s \<Longrightarrow> ttQue s \<noteq> [] \<Longrightarrow> ttPc s \<noteq> TtEnded \<Longrightarrow> tt_left (tt_own s) < tt_left s \<and> ttPc (tt_own s) \<noteq> TtEnded"
  using tt_process_left [of s TtSleep] tt_process_left [of s TtEnded]
  by (cases "ttPc s") (auto simp: tt_own_def tt_left_def tt_inv_def split: if_splits)

lemma tt_own_empty: "tt_inv s \<Longrightarrow> ttQue s = [] \<Longrightarrow> ttQue (tt_own s) = []"
  by (auto simp: tt_own_def tt_process_def tt_inv_def ProcessTask_begin_def QueGetHead_def ERROR_def split: tt_pc.splits option.splits)

lemma tt_left_bound: "tt_left s \<le> 2 * length (ttQue s) + 2"
  by (cases "ttPc s"; cases "ttRun s") (simp_all add: tt_left_def)

interpretation tt: draining_runner tt_step tt_legal tt_inv ttDone ttQue ttGot tt_own "\<lambda>s. ttPc s \<noteq> TtEnded" tt_left
  using tt_own_left by unfold_locales (auto intro: tt_inv_own tt_inv_step tt_own_empty, auto simp: tt_inv_def)

subsection \<open>The thread for one task\<close>

text \<open>
  \<open>COneshotTaskThread\<close> ends with its first task; \<open>ttExit\<close> is its \<open>m_bTaskDone\<close>. A null pointer in its queue would be
  called; \<open>None\<close> is that call.
\<close>

definition oneshot_own :: "task_thread \<Rightarrow> task_thread option" where
  "oneshot_own s = (case ttRun s of
      Some t \<Rightarrow> Some (s\<lparr>ttRun := None, ttExit := True, ttQue := snd (QuePopHead (ttQue s)), ttDone := ttDone s @ [t], ttPc := TtEnded\<rparr>)
    | None \<Rightarrow> if ttPc s = TtSleep then Some (if ttSem s = 0 then s else s\<lparr>ttSem := ttSem s - 1, ttPc := TtLoop\<rparr>)
        else if ttPc s = TtEnded \<or> ttExit s then Some (s\<lparr>ttPc := TtEnded\<rparr>)
        else (case QueGetHead (ttQue s) of (ret, t) \<Rightarrow>
          if ERROR ret then Some (s\<lparr>ttPc := TtSleep\<rparr>) else if t = 0 then None else Some (s\<lparr>ttRun := Some t\<rparr>)))"

lemma oneshot_runs_one:
  assumes "oneshot_own s = Some s'" "ttPc s = TtEnded \<longrightarrow> ttRun s = None" "length (ttDone s) \<le> 1" "ttDone s \<noteq> [] \<longrightarrow> ttPc s = TtEnded"
  shows "length (ttDone s') \<le> 1 \<and> (ttDone s' \<noteq> [] \<longrightarrow> ttPc s' = TtEnded) \<and> (ttPc s' = TtEnded \<longrightarrow> ttRun s' = None)"
  using assms by (auto simp: oneshot_own_def split: option.splits if_splits prod.splits)

subsection \<open>The tasks of the main loop\<close>

text \<open>
  \<open>TaskCallback\<close> takes a task out of the queue before it runs it. \<open>mlWakes\<close> are the wake-ups still to be
  read from the pipe of the loop, \<open>mlCb\<close> says that \<open>TaskCallback\<close> is active, \<open>mlDone\<close> has the tasks that ran and
  whether they ran with \<open>eventZero\<close> or were cancelled after the loop.
\<close>

record main_loop =
  mlQue :: "nat list"
  mlTaskDone :: bool
  mlWakes :: nat
  mlCb :: bool
  mlRun :: "nat option"
  mlStopped :: bool
  mlEnded :: bool
  mlDone :: "(nat \<times> bool) list"
  mlGot :: "nat list"

definition new_main_loop :: main_loop where
  "new_main_loop = \<lparr>mlQue = [], mlTaskDone = True, mlWakes = 0, mlCb = False, mlRun = None, mlStopped = False, mlEnded = False, mlDone = [], mlGot = []\<rparr>"

definition InstallTaskSource :: "main_loop \<Rightarrow> main_loop" where
  "InstallTaskSource s = (if mlTaskDone s then s\<lparr>mlTaskDone := False, mlWakes := mlWakes s + 1\<rparr> else s)"

definition MlAddTask :: "nat \<Rightarrow> main_loop \<Rightarrow> main_loop" where
  "MlAddTask t s = InstallTaskSource (s\<lparr>mlQue := QueAddTask t (mlQue s),
     mlGot := (if QueAddTask t (mlQue s) = mlQue s then mlGot s else mlGot s @ [t])\<rparr>)"

definition OnPreLoop :: "main_loop \<Rightarrow> main_loop" where
  "OnPreLoop s = (if 0 < QueGetSize (mlQue s) then InstallTaskSource s else s)"

definition OnPostLoop :: "main_loop \<Rightarrow> main_loop" where
  "OnPostLoop s = s\<lparr>mlQue := [], mlDone := mlDone s @ map (\<lambda>t. (t, False)) (mlQue s), mlEnded := True\<rparr>"

text \<open>A step of \<open>TaskCallback\<close>: a task returns, the loop is stopped, or the next task is looked for under the lock.\<close>

definition TaskCallback_step :: "main_loop \<Rightarrow> main_loop" where
  "TaskCallback_step s = (case mlRun s of
      Some t \<Rightarrow> s\<lparr>mlRun := None, mlDone := mlDone s @ [(t, True)]\<rparr>
    | None \<Rightarrow> if mlStopped s then s\<lparr>mlCb := False\<rparr>
        else (case QueGetHead (mlQue s) of (ret, t) \<Rightarrow>
          if ERROR ret then s\<lparr>mlTaskDone := True, mlCb := False\<rparr>
          else s\<lparr>mlQue := snd (QuePopHead (mlQue s)), mlRun := Some t\<rparr>))"

definition ml_own :: "main_loop \<Rightarrow> main_loop" where
  "ml_own s = (if mlCb s then TaskCallback_step s
     else if mlEnded s then s
     else if mlStopped s then OnPostLoop s
     else if mlWakes s = 0 then s
     else s\<lparr>mlWakes := mlWakes s - 1, mlCb := True\<rparr>)"

datatype ml_event = MlAdd nat | MlPre | MlSetStop | MlOwn

definition ml_step :: "main_loop \<Rightarrow> ml_event \<Rightarrow> main_loop" where
  "ml_step s e = (case e of MlAdd t \<Rightarrow> MlAddTask t s | MlPre \<Rightarrow> OnPreLoop s | MlSetStop \<Rightarrow> s\<lparr>mlStopped := True\<rparr> | MlOwn \<Rightarrow> ml_own s)"

definition ml_legal :: "main_loop \<Rightarrow> ml_event \<Rightarrow> bool" where
  "ml_legal s e = (case e of MlAdd t \<Rightarrow> t \<noteq> 0 | _ \<Rightarrow> True)"







lemma ml_own_frame [simp]: "mlGot (ml_own s) = mlGot s" "mlStopped (ml_own s) = mlStopped s"
  by (auto simp: ml_own_def TaskCallback_step_def OnPostLoop_def split: option.splits prod.splits)







subsection \<open>The pool\<close>

text \<open>\<open>load\<close> is \<open>GetLoadCount\<close> of a thread; \<open>made\<close> is what creating a thread gives, a result and a thread.\<close>

record thread_pool =
  tpMax :: int
  tpAscend :: bool
  tpThreads :: "nat list"
  tpCount :: int

definition least_loaded :: "(nat \<Rightarrow> int) \<Rightarrow> nat list \<Rightarrow> int \<times> nat \<Rightarrow> int \<times> nat" where
  "least_loaded load = fold (\<lambda>th (l, best). if load th < l then (load th, th) else (l, best))"

definition SetMaxThreads :: "nat \<Rightarrow> thread_pool \<Rightarrow> thread_pool" where
  "SetMaxThreads n s = s\<lparr>tpMax := (int n + 2 ^ 31) mod 2 ^ 32 - 2 ^ 31\<rparr>"

definition GetThread :: "(nat \<Rightarrow> int) \<Rightarrow> int \<times> nat \<Rightarrow> thread_pool \<Rightarrow> int \<times> nat \<times> thread_pool" where
  "GetThread load made s =
    (if tpMax s = 0 then (- ENOENT, 0, s)
     else let (iLeastLoad, thLeast) = least_loaded load (if tpAscend s then tpThreads s else rev (tpThreads s)) (10000, 0);
              s1 = s\<lparr>tpAscend := \<not> tpAscend s\<rparr> in
       if iLeastLoad \<le> 0 then (0, thLeast, s1)
       else if length (tpThreads s) < nat (tpMax s mod 2 ^ 32) then
         (if ERROR (fst made) then (fst made, 0, s1)
          else (0, snd made, s1\<lparr>tpThreads := tpThreads s @ [snd made], tpCount := tpCount s + 1\<rparr>))
       else (0, thLeast, s1))"

text \<open>\<open>iRefCount\<close> is the count \<open>AddRef\<close> answers.\<close>

definition PutThread :: "nat \<Rightarrow> nat \<Rightarrow> thread_pool \<Rightarrow> int \<times> thread_pool" where
  "PutThread iRefCount p s =
    (if p = 0 then (- EINVAL, s)
     else (0, if iRefCount = 2 \<and> nat (tpMax s mod 2 ^ 32) < length (tpThreads s) then s\<lparr>tpThreads := remove1 p (tpThreads s)\<rparr> else s))"

text \<open>Every thread of the pool is stopped, \<open>CTaskThread::Stop\<close>.\<close>

definition PoolStop :: "thread_pool \<Rightarrow> (nat \<Rightarrow> task_thread) \<Rightarrow> thread_pool \<times> (nat \<Rightarrow> task_thread)" where
  "PoolStop s w = (s\<lparr>tpThreads := []\<rparr>, fold (\<lambda>th w. w(th := TtStop (w th))) (tpThreads s) w)"

text \<open>\<open>CTaskThreadPool::RemoveTask\<close>: the threads are tried one after the other until one has the task.\<close>

primrec PoolRemoveTask :: "nat \<Rightarrow> nat list \<Rightarrow> int \<Rightarrow> (nat \<Rightarrow> task_thread) \<Rightarrow> int \<times> (nat \<Rightarrow> task_thread)" where
  "PoolRemoveTask t [] ret w = (ret, w)"
| "PoolRemoveTask t (th # ths) ret w = (case TtRemoveTask t (w th) of (ret1, s) \<Rightarrow>
     if SUCCEEDED ret1 then (ret1, w(th := s)) else PoolRemoveTask t ths ret1 (w(th := s)))"

lemma least_loaded_spec:
  "least_loaded load ths (l, b) = (l', th) \<Longrightarrow> l' \<le> l \<and> (\<forall>x\<in>set ths. l' \<le> load x) \<and> (l' = l \<and> th = b \<or> th \<in> set ths \<and> l' = load th)"
proof (induction ths arbitrary: l b)
  case (Cons a ths)
  then show ?case using Cons.IH [of "load a" a] Cons.IH [of l b]
    by (cases "load a < l") (fastforce simp: least_loaded_def)+
qed (simp add: least_loaded_def)

lemma pool_removes_nothing:
  "t \<noteq> 0 \<Longrightarrow> PoolRemoveTask t ths ret w = (if ths = [] then ret else - ENOENT, w)"
  by (induction ths arbitrary: ret w) (simp_all add: TtRemoveTask_def remove_real_task)

subsection \<open>Properties\<close>

text \<open>
  C31: A thread that is not at its end runs every task its queue has taken, in the order they came, each once
  for every time it was taken: after two steps for each task that waits, and two more, nothing waits,
  also when the thread was told to stop.
\<close>

lemma task_thread_runs_everything:
  assumes "reach tt_step tt_legal new_task_thread s" "ttPc s \<noteq> TtEnded" "2 * length (ttQue s) + 2 \<le> n"
  shows "ttQue ((tt_own ^^ n) s) = [] \<and> ttDone ((tt_own ^^ n) s) = ttGot s \<and> ttDone s @ ttQue s = ttGot s"
  using tt.reached_drains [OF assms(1) tt_inv_new assms(2)] tt.runs_in_order [OF assms(1) tt_inv_new] tt_left_bound [of s] assms(3) by simp


text \<open>
  C33: A task that is scheduled again while it runs. The main loop has taken it out of its queue and takes it
  again. The thread still has it at the head of its queue, where it counts as queued already; it is removed when
  it returns, and never runs for the second request.
\<close>

lemma rescheduled_while_running:
  assumes "reach tt_step tt_legal new_task_thread s" "ttRun s = Some t" "2 * length (ttQue s) + 2 \<le> n"
    and "mlRun m = Some t" "t \<notin> set (mlQue m)"
  shows "count_list (ttDone ((tt_own ^^ n) (tt_step s (TtAdd t)))) t = Suc (count_list (ttDone s) t) \<and>
    ttQue ((tt_own ^^ n) (tt_step s (TtAdd t))) = [] \<and> mlGot (ml_step m (MlAdd t)) = mlGot m @ [t]"
proof -
  let ?s = "tt_step s (TtAdd t)"
  have i: "tt_inv s" by (rule tt.inv_reach [OF assms(1) tt_inv_new])
  then obtain q where q: "ttQue s = t # q" "t \<notin> set q" "t \<noteq> 0" "ttPc s \<noteq> TtEnded" using assms(2) by (auto simp: tt_inv_def)
  then have s: "ttQue ?s = t # q" "ttGot ?s = ttGot s" "ttPc ?s \<noteq> TtEnded" by (simp_all add: tt_step_def TtAddTask_def QueAddTask_def)
  have "reach tt_step tt_legal new_task_thread ?s" using assms(1) by (rule reach.advance) (simp add: tt_legal_def q(3))
  then have "ttQue ((tt_own ^^ n) ?s) = [] \<and> ttDone ((tt_own ^^ n) ?s) = ttGot s"
    using tt.reached_drains [OF _ tt_inv_new s(3)] tt_left_bound [of ?s] assms(3) s q(1) by simp
  moreover have "ttGot s = ttDone s @ t # q" using i q(1) by (simp add: tt_inv_def)
  moreover have "mlGot (ml_step m (MlAdd t)) = mlGot m @ [t]"
    using assms(5) by (simp add: ml_step_def MlAddTask_def InstallTaskSource_def QueAddTask_def)
  moreover have "count_list q t = 0" using q(2) by (simp add: count_list_0_iff)
  ultimately show ?thesis by (simp add: count_list_append)
qed

text \<open>
  The pool gives the thread with the least load, or a new one when every thread is busy and there are fewer
  than the maximum; it never has more threads than that.
\<close>

lemma get_thread_least_loaded:
  assumes "0 < tpMax s" "tpMax s < 2 ^ 31" "\<forall>th\<in>set (tpThreads s). load th < 10000" "\<not> ERROR (fst made)" "length (tpThreads s) \<le> nat (tpMax s)"
    and "GetThread load made s = (ret, th, s')"
  shows "ret = 0 \<and> length (tpThreads s') \<le> nat (tpMax s') \<and>
    (if tpThreads s' = tpThreads s then th \<in> set (tpThreads s) \<and> (\<forall>x\<in>set (tpThreads s). load th \<le> load x)
     else th = snd made \<and> tpThreads s' = tpThreads s @ [th] \<and> (\<forall>x\<in>set (tpThreads s). 0 < load x))"
proof -
  let ?ths = "if tpAscend s then tpThreads s else rev (tpThreads s)"
  obtain l b where lb: "least_loaded load ?ths (10000, 0) = (l, b)" by fastforce
  have max: "nat (tpMax s mod 2 ^ 32) = nat (tpMax s)" using assms(1,2) by simp
  have sp: "\<forall>x\<in>set (tpThreads s). l \<le> load x" "l = 10000 \<and> b = 0 \<or> b \<in> set (tpThreads s) \<and> l = load b"
    using least_loaded_spec [OF lb] by (auto split: if_splits)
  have found: "tpThreads s \<noteq> [] \<Longrightarrow> b \<in> set (tpThreads s) \<and> l = load b" using sp assms(3) by (cases "tpThreads s") auto
  have l: "tpThreads s = [] \<Longrightarrow> l = 10000" using sp(2) by simp
  show ?thesis
  proof (cases "0 < l \<and> length (tpThreads s) < nat (tpMax s)")
    case True
    then have "ret = 0 \<and> th = snd made \<and> s' = s\<lparr>tpAscend := \<not> tpAscend s, tpThreads := tpThreads s @ [snd made], tpCount := tpCount s + 1\<rparr>"
      using assms(1,4,6) lb max by (auto simp: GetThread_def Let_def split: if_splits)
    then show ?thesis using True sp(1) by auto
  next
    case False
    then have "ret = 0 \<and> th = b \<and> s' = s\<lparr>tpAscend := \<not> tpAscend s\<rparr>" using assms(1,6) lb max by (auto simp: GetThread_def Let_def split: if_splits)
    moreover have "tpThreads s \<noteq> []" using False l assms(1) by auto
    ultimately show ?thesis using found sp(1) assms(5) by auto
  qed
qed


subsection \<open>Concrete runs\<close>

text \<open>A thread that has two tasks and is running the first of them.\<close>

definition wit_thread :: task_thread where
  "wit_thread = foldl tt_step new_task_thread [TtAdd 5, TtAdd 6, TtOwn, TtOwn]"

lemma wit_thread_facts:
  "ttQue wit_thread = [5, 6]" "ttPc wit_thread = TtDrain" "ttRun wit_thread = Some 5" "ttDone wit_thread = []" "ttGot wit_thread = [5, 6]"
  "reach tt_step tt_legal new_task_thread wit_thread"
proof -
  show "reach tt_step tt_legal new_task_thread wit_thread" unfolding wit_thread_def
    by (rule reach_foldl) (simp add: tt_legal_def)
qed (simp_all add: wit_thread_def new_task_thread_def tt_step_def TtAddTask_def QueAddTask_def tt_own_def tt_process_def ProcessTask_begin_def
    QueGetHead_def ERROR_def)

lemma task_thread_runs_everything_witness: "ttDone ((tt_own ^^ 6) wit_thread) = [5, 6]"
  using task_thread_runs_everything [OF wit_thread_facts(6), of 6] by (simp add: wit_thread_facts)

definition wit_loop :: main_loop where
  "wit_loop = foldl ml_step new_main_loop [MlAdd 5, MlOwn, MlOwn, MlAdd 6]"

lemma wit_loop_facts:
  "mlQue wit_loop = [6]" "mlRun wit_loop = Some 5" "mlEnded wit_loop = False" "mlGot wit_loop = [5, 6]" "reach ml_step ml_legal new_main_loop wit_loop"
proof -
  show "reach ml_step ml_legal new_main_loop wit_loop" unfolding wit_loop_def
    by (rule reach_foldl) (simp add: ml_legal_def)
qed (simp_all add: wit_loop_def new_main_loop_def ml_step_def MlAddTask_def InstallTaskSource_def QueAddTask_def ml_own_def TaskCallback_step_def
    QueGetHead_def QuePopHead_def ERROR_def)


lemma rescheduled_while_running_witness:
  "count_list (ttDone ((tt_own ^^ 6) (tt_step wit_thread (TtAdd 5)))) 5 = 1 \<and> mlGot (ml_step wit_loop (MlAdd 5)) = [5, 6, 5]"
  using rescheduled_while_running [OF wit_thread_facts(6,3), of 6 wit_loop] by (simp add: wit_thread_facts wit_loop_facts)

lemma get_thread_least_loaded_witness:
  "\<exists>s'. GetThread (\<lambda>th. if th = 1 then 3 else 2) (0, 9) \<lparr>tpMax = 2, tpAscend = True, tpThreads = [1, 2], tpCount = 2\<rparr> = (0, 2, s') \<and>
    tpThreads s' = [1, 2] \<and> (2 :: nat) \<in> set (tpThreads s')"
proof -
  let ?s = "\<lparr>tpMax = 2, tpAscend = True, tpThreads = [1, 2], tpCount = 2\<rparr>"
  let ?load = "\<lambda>th :: nat. if th = 1 then 3 else 2 :: int"
  obtain s' where g: "GetThread ?load (0, 9) ?s = (0, 2, s')" "tpThreads s' = [1, 2]" by (simp add: GetThread_def least_loaded_def)
  then show ?thesis using get_thread_least_loaded [of ?s ?load "(0, 9)" 0 2 s'] by (simp add: ERROR_def)
qed

end
