(* ===== verification/IrpThread.thy ===== *)
theory IrpThread
  imports TaskThread
begin

text \<open>
  The thread that calls the callbacks of completed requests, \<open>CIrpCompThread\<close> of \<open>ipc/irpthread.cpp\<close>. Two
  semaphores guard its queue: the free slots, for which \<open>AddIrp\<close> waits, and the requests, for which the thread
  waits. A request is a number that is not zero.
\<close>

abbreviation (input) ICT_MAX_IRPS :: nat where "ICT_MAX_IRPS \<equiv> 100"
abbreviation (input) ICT_MAX_IFS :: nat where "ICT_MAX_IFS \<equiv> 10"

subsection \<open>The thread\<close>

text \<open>
  \<open>itAdders\<close> are the callers of \<open>AddIrp\<close> that have their slot and not yet the lock. The thread waits, looks for
  the front of the queue, is in the callback of the request \<open>itCur\<close>, or has ended. \<open>itDone\<close> has the requests
  whose callbacks were called, \<open>itGot\<close> those \<open>AddIrp\<close> took, \<open>itStops\<close> the calls of \<open>Stop\<close>.
\<close>

datatype it_pc = ItWait | ItFront | ItCallback | ItEnded

record irp_thread =
  itQue :: "nat list"
  itPc :: it_pc
  itSlots :: nat
  itIrps :: nat
  itExit :: bool
  itAdders :: "nat list"
  itDone :: "nat list"
  itGot :: "nat list"
  itStops :: nat
  itIfs :: "nat list"

definition new_irp_thread :: irp_thread where
  "new_irp_thread = \<lparr>itQue = [], itPc = ItWait, itSlots = ICT_MAX_IRPS, itIrps = 0, itExit = False, itAdders = [], itDone = [], itGot = [],
     itStops = 0, itIfs = []\<rparr>"

text \<open>\<open>AddIrp\<close> up to the wait for a slot, which blocks when there is none (\<open>None\<close>), and from the lock on.\<close>

definition AddIrp_begin :: "nat \<Rightarrow> irp_thread \<Rightarrow> (int \<times> irp_thread) option" where
  "AddIrp_begin p s = (if p = 0 then Some (- EINVAL, s) else if itExit s then Some (ERROR_STATE, s)
     else if itSlots s = 0 then None else Some (0, s\<lparr>itSlots := itSlots s - 1, itAdders := itAdders s @ [p]\<rparr>))"

definition AddIrp_end :: "nat \<Rightarrow> irp_thread \<Rightarrow> irp_thread" where
  "AddIrp_end p s = s\<lparr>itAdders := remove1 p (itAdders s), itQue := itQue s @ [p], itIrps := itIrps s + 1, itGot := itGot s @ [p]\<rparr>"

definition It_Stop :: "irp_thread \<Rightarrow> irp_thread" where
  "It_Stop s = s\<lparr>itExit := True, itIrps := itIrps s + 1, itStops := itStops s + 1\<rparr>"

definition It_GetLoadCount :: "irp_thread \<Rightarrow> nat" where "It_GetLoadCount s = length (itQue s)"

definition AddIf :: "nat \<Rightarrow> irp_thread \<Rightarrow> int \<times> irp_thread" where
  "AddIf f s = (if length (itIfs s) < ICT_MAX_IFS then (0, s\<lparr>itIfs := List.insert f (itIfs s)\<rparr>) else (- ENOMEM, s))"

definition RemoveIf :: "nat \<Rightarrow> irp_thread \<Rightarrow> int \<times> irp_thread" where
  "RemoveIf f s = (if f \<in> set (itIfs s) then (0, s\<lparr>itIfs := remove1 f (itIfs s)\<rparr>) else (- ENOENT, s))"

text \<open>A step of \<open>ThreadProc\<close>. The front stays in the queue while its callback runs.\<close>

definition it_own :: "irp_thread \<Rightarrow> irp_thread" where
  "it_own s = (case itPc s of
      ItWait \<Rightarrow> if itExit s then s\<lparr>itPc := ItEnded\<rparr> else if itIrps s = 0 then s else s\<lparr>itIrps := itIrps s - 1, itPc := ItFront\<rparr>
    | ItFront \<Rightarrow> s\<lparr>itPc := (if itQue s = [] then ItWait else ItCallback)\<rparr>
    | ItCallback \<Rightarrow> s\<lparr>itDone := itDone s @ [hd (itQue s)], itQue := tl (itQue s), itSlots := itSlots s + 1, itPc := ItWait\<rparr>
    | ItEnded \<Rightarrow> s)"

datatype it_event = ItAddBegin nat | ItAddEnd nat | ItStop | ItOwn

definition it_step :: "irp_thread \<Rightarrow> it_event \<Rightarrow> irp_thread" where
  "it_step s e = (case e of ItAddBegin p \<Rightarrow> (case AddIrp_begin p s of None \<Rightarrow> s | Some (ret, s1) \<Rightarrow> s1)
    | ItAddEnd p \<Rightarrow> AddIrp_end p s | ItStop \<Rightarrow> It_Stop s | ItOwn \<Rightarrow> it_own s)"

definition it_legal :: "irp_thread \<Rightarrow> it_event \<Rightarrow> bool" where
  "it_legal s e = (case e of ItAddEnd p \<Rightarrow> p \<in> set (itAdders s) | _ \<Rightarrow> True)"

subsection \<open>The invariant\<close>

text \<open>Every slot is free, on its way or taken; every request in the queue has a post to wake the thread.\<close>

definition it_inv :: "irp_thread \<Rightarrow> bool" where
  "it_inv s \<longleftrightarrow> itDone s @ itQue s = itGot s \<and> itSlots s + length (itAdders s) + length (itQue s) = ICT_MAX_IRPS \<and>
     (itPc s = ItCallback \<longrightarrow> itQue s \<noteq> []) \<and> (0 < itStops s \<longrightarrow> itExit s) \<and> (itPc s = ItEnded \<longrightarrow> itExit s) \<and>
     (\<not> itExit s \<longrightarrow> itIrps s + (if itPc s = ItWait then 0 else 1) = length (itQue s))"

lemma it_inv_new: "it_inv new_irp_thread"
  by (simp add: it_inv_def new_irp_thread_def)

lemma it_inv_own: "it_inv s \<Longrightarrow> it_inv (it_own s)"
  by (cases "itPc s"; cases "itQue s") (auto simp: it_inv_def it_own_def)

lemma length_remove_member: "p \<in> set xs \<Longrightarrow> Suc (length (remove1 p xs)) = length xs"
  by (simp add: length_remove1) (metis Suc_pred length_pos_if_in_set)

lemma it_inv_step: "it_inv s \<Longrightarrow> it_legal s e \<Longrightarrow> it_inv (it_step s e)"
proof (cases e)
  case (ItAddBegin p)
  assume "it_inv s"
  then show ?thesis using ItAddBegin by (auto simp: it_step_def AddIrp_begin_def it_inv_def)
next
  case (ItAddEnd p)
  assume "it_inv s" "it_legal s e"
  then show ?thesis using ItAddEnd length_remove_member [of p "itAdders s"]
    by (auto simp: it_step_def AddIrp_end_def it_inv_def it_legal_def)
next
  case ItStop
  assume "it_inv s"
  then show ?thesis using ItStop by (auto simp: it_step_def It_Stop_def it_inv_def)
qed (simp add: it_step_def it_inv_own)

definition it_left :: "irp_thread \<Rightarrow> nat" where
  "it_left s = 3 * length (itQue s) - (case itPc s of ItWait \<Rightarrow> 0 | ItFront \<Rightarrow> 1 | _ \<Rightarrow> 2)"

lemma it_own_left: "it_inv s \<Longrightarrow> \<not> itExit s \<Longrightarrow> itQue s \<noteq> [] \<Longrightarrow> it_left (it_own s) < it_left s \<and> \<not> itExit (it_own s)"
  by (cases "itPc s"; cases "itQue s") (auto simp: it_inv_def it_own_def it_left_def)

interpretation it: draining_runner it_step it_legal it_inv itDone itQue itGot it_own "\<lambda>s. \<not> itExit s" it_left
proof unfold_locales
  fix s
  show "itGot (it_own s) = itGot s" by (auto simp: it_own_def split: it_pc.splits)
  show "itQue (it_own s) = []" if "it_inv s" "itQue s = []" using that by (auto simp: it_own_def split: it_pc.splits)
  show "it_left (it_own s) < it_left s \<and> (\<not> itExit (it_own s) \<or> itQue (it_own s) = [])" if "it_inv s" "\<not> itExit s" "itQue s \<noteq> []"
    using it_own_left [OF that] by simp
  show "itDone s @ itQue s = itGot s" if "it_inv s" using that by (simp add: it_inv_def)
qed (auto intro: it_inv_step it_inv_own)

subsection \<open>Properties\<close>

text \<open>
  C34: The thread calls the callbacks of the requests it was given in the order they came, each once, and has
  never more than a hundred of them; as long as nobody stops it, it is through with those in its queue after
  three steps for each.
\<close>

lemma irp_thread_completes_in_order:
  assumes "reach it_step it_legal new_irp_thread s"
  shows "itDone s @ itQue s = itGot s \<and> It_GetLoadCount s \<le> ICT_MAX_IRPS \<and>
    (\<not> itExit s \<and> 3 * length (itQue s) \<le> n \<longrightarrow> itQue ((it_own ^^ n) s) = [] \<and> itDone ((it_own ^^ n) s) = itGot s)"
proof -
  have "it_left s \<le> 3 * length (itQue s)" by (simp add: it_left_def)
  then show ?thesis
    using it.inv_reach [OF assms it_inv_new] it.reached_drains [OF assms it_inv_new, of n]
    by (auto simp: it_inv_def It_GetLoadCount_def)
qed

text \<open>
  Once it is stopped, the thread calls at most the callback it was about to call. The other requests in
  its queue are never completed: their owners are not told.
\<close>

lemma stopped_irp_thread_drops_requests:
  assumes "reach it_step it_legal new_irp_thread s" "itExit s"
  shows "itGot ((it_own ^^ n) s) = itGot s \<and> length (itDone ((it_own ^^ n) s)) \<le> length (itDone s) + 1 \<and>
    length (itQue s) \<le> length (itQue ((it_own ^^ n) s)) + 1"
proof -
  have own: "itExit (it_own t) \<and> itGot (it_own t) = itGot t \<and>
      length (itDone (it_own t)) + (if itPc (it_own t) \<in> {ItFront, ItCallback} then 1 else 0) \<le> length (itDone t) + (if itPc t \<in> {ItFront, ItCallback} then 1 else 0)"
    if "itExit t" for t
    using that by (auto simp: it_own_def split: it_pc.splits)
  have n: "itExit ((it_own ^^ n) s) \<and> itGot ((it_own ^^ n) s) = itGot s \<and>
      length (itDone ((it_own ^^ n) s)) + (if itPc ((it_own ^^ n) s) \<in> {ItFront, ItCallback} then 1 else 0)
        \<le> length (itDone s) + (if itPc s \<in> {ItFront, ItCallback} then 1 else 0)"
  proof (induction n)
    case (Suc n)
    then show ?case using own [of "(it_own ^^ n) s"] by auto
  qed (simp add: assms(2))
  have inv: "it_inv t" if "it_inv s" "t = (it_own ^^ k) s" for k t
    using that by (induction k arbitrary: t) (auto intro: it_inv_own)
  have i: "it_inv s" by (rule it.inv_reach [OF assms(1) it_inv_new])
  have "length (itDone s) + length (itQue s) = length (itGot s)" "length (itDone ((it_own ^^ n) s)) + length (itQue ((it_own ^^ n) s)) = length (itGot s)"
    using i inv [OF i refl, of n] n by (metis it_inv_def length_append)+
  then show ?thesis using n by (auto split: if_splits)
qed

subsection \<open>Concrete runs\<close>

definition wit_irps :: irp_thread where
  "wit_irps = foldl it_step new_irp_thread [ItAddBegin 5, ItAddBegin 6, ItAddEnd 6, ItAddEnd 5, ItOwn, ItOwn]"

lemma wit_irps_facts:
  "itQue wit_irps = [6, 5]" "itExit wit_irps = False" "itGot wit_irps = [6, 5]" "itDone wit_irps = []" "reach it_step it_legal new_irp_thread wit_irps"
  "reach it_step it_legal new_irp_thread (it_step wit_irps ItStop)"
proof -
  show r: "reach it_step it_legal new_irp_thread wit_irps" unfolding wit_irps_def
    by (rule reach_foldl) (simp add: it_legal_def it_step_def AddIrp_begin_def AddIrp_end_def new_irp_thread_def)
  show "reach it_step it_legal new_irp_thread (it_step wit_irps ItStop)" using r by (rule reach.advance) (simp add: it_legal_def)
qed (simp_all add: wit_irps_def new_irp_thread_def it_step_def AddIrp_begin_def AddIrp_end_def it_own_def)

lemma irp_thread_completes_in_order_witness: "itDone ((it_own ^^ 6) wit_irps) = [6, 5] \<and> It_GetLoadCount wit_irps \<le> 100"
  using irp_thread_completes_in_order [OF wit_irps_facts(5), of 6] by (simp add: wit_irps_facts)

lemma stopped_irp_thread_drops_requests_witness: "1 \<le> length (itQue ((it_own ^^ 50) (it_step wit_irps ItStop)))"
proof -
  have "itExit (it_step wit_irps ItStop)" "itQue (it_step wit_irps ItStop) = [6, 5]" by (simp_all add: it_step_def It_Stop_def wit_irps_facts)
  then show ?thesis using stopped_irp_thread_drops_requests [OF wit_irps_facts(6), of 50] by simp
qed

end
