(* ===== verification/Tasklet.thy ===== *)
theory Tasklet
  imports Timer
begin

text \<open>
  The base classes of the tasks, \<open>ipc/tasklets.h\<close> and \<open>ipc/tasklets.cpp\<close>: the guard that keeps two threads from
  running one task at once (\<open>CTasklet::CReentrancyGuard\<close>), and the task that runs again after a while as
  long as it has retries left (\<open>CTaskletRetriable\<close>), which sets a timer of \<open>Timer\<close>.
\<close>

subsection \<open>The guard against reentrance\<close>

text \<open>
  Each thread is outside, before the compare-and-exchange of \<open>MarkInProcess\<close> with the value it expects, waiting
  for the semaphore, inside, before the compare-and-exchange of \<open>ClearInProcess\<close>, or before its
  \<open>Sem_Post\<close>. \<open>rgPosts\<close> counts the calls that have been left.
\<close>

datatype rg_pc = RgOutside | RgEnter bool | RgWait | RgInside | RgLeave bool | RgPost

record reent_guard =
  rgInProcess :: bool
  rgSem :: nat
  rgPc :: "nat \<Rightarrow> rg_pc"
  rgPosts :: nat

definition new_reent_guard :: reent_guard where
  "new_reent_guard = \<lparr>rgInProcess = False, rgSem = 0, rgPc = (\<lambda>_. RgOutside), rgPosts = 0\<rparr>"

text \<open>
  A compare-and-exchange that fails leaves the value found in \<open>bExpected\<close>. After the wait \<open>bExpected\<close> is still
  true, so that the next one succeeds if the task is still in process.
\<close>

definition MarkInProcess_step :: "nat \<Rightarrow> reent_guard \<Rightarrow> reent_guard" where
  "MarkInProcess_step t s = (case rgPc s t of
      RgEnter bExpected \<Rightarrow>
        if rgInProcess s = bExpected then s\<lparr>rgInProcess := True, rgPc := (rgPc s)(t := RgInside)\<rparr>
        else if \<not> rgInProcess s then s\<lparr>rgPc := (rgPc s)(t := RgEnter False)\<rparr>
        else s\<lparr>rgPc := (rgPc s)(t := RgWait)\<rparr>
    | RgWait \<Rightarrow> if rgSem s = 0 then s else s\<lparr>rgSem := rgSem s - 1, rgPc := (rgPc s)(t := RgEnter True)\<rparr>
    | _ \<Rightarrow> s)"

definition ClearInProcess_step :: "nat \<Rightarrow> reent_guard \<Rightarrow> reent_guard" where
  "ClearInProcess_step t s = (case rgPc s t of
      RgLeave bExpected \<Rightarrow>
        if rgInProcess s = bExpected then s\<lparr>rgInProcess := False, rgPc := (rgPc s)(t := RgPost)\<rparr>
        else s\<lparr>rgPc := (rgPc s)(t := RgLeave (rgInProcess s))\<rparr>
    | RgPost \<Rightarrow> s\<lparr>rgSem := rgSem s + 1, rgPosts := rgPosts s + 1, rgPc := (rgPc s)(t := RgOutside)\<rparr>
    | _ \<Rightarrow> s)"

text \<open>A thread comes, goes on, or is done with the task and leaves.\<close>

datatype rg_event = RgCome nat | RgGoOn nat | RgDone nat

definition rg_step :: "reent_guard \<Rightarrow> rg_event \<Rightarrow> reent_guard" where
  "rg_step s e = (case e of
      RgCome t \<Rightarrow> s\<lparr>rgPc := (rgPc s)(t := RgEnter False)\<rparr>
    | RgGoOn t \<Rightarrow> ClearInProcess_step t (MarkInProcess_step t s)
    | RgDone t \<Rightarrow> s\<lparr>rgPc := (rgPc s)(t := RgLeave True)\<rparr>)"

definition rg_legal :: "reent_guard \<Rightarrow> rg_event \<Rightarrow> bool" where
  "rg_legal s e = (case e of RgCome t \<Rightarrow> rgPc s t = RgOutside | RgGoOn t \<Rightarrow> rgPc s t \<noteq> RgInside | RgDone t \<Rightarrow> rgPc s t = RgInside)"

definition rg_holds :: "rg_pc \<Rightarrow> bool" where "rg_holds c \<longleftrightarrow> c = RgInside \<or> (\<exists>b. c = RgLeave b)"

definition rg_inv :: "reent_guard \<Rightarrow> bool" where
  "rg_inv s \<longleftrightarrow> rgPosts s = 0 \<longrightarrow> rgSem s = 0 \<and> (\<forall>t. rgPc s t \<noteq> RgEnter True \<and> rgPc s t \<noteq> RgLeave False) \<and>
     (\<forall>t u. rg_holds (rgPc s t) \<and> rg_holds (rgPc s u) \<longrightarrow> t = u) \<and> (rgInProcess s \<longleftrightarrow> (\<exists>t. rg_holds (rgPc s t)))"

lemma rg_holds_simps [simp]:
  "rg_holds RgInside" "rg_holds (RgLeave b)" "\<not> rg_holds RgOutside" "\<not> rg_holds (RgEnter b)" "\<not> rg_holds RgWait" "\<not> rg_holds RgPost"
  by (simp_all add: rg_holds_def)

lemma rg_inv_new: "rg_inv new_reent_guard"
  by (simp add: rg_inv_def new_reent_guard_def)


lemma rg_inv_free: "rg_inv s \<Longrightarrow> rgPosts s = 0 \<Longrightarrow> \<not> rgInProcess s \<Longrightarrow> \<not> rg_holds (rgPc s t)"
  by (auto simp: rg_inv_def)

lemma rg_inv_step: "rg_inv s \<Longrightarrow> rg_legal s e \<Longrightarrow> rg_inv (rg_step s e)"
proof -
  assume i: "rg_inv s" and l: "rg_legal s e"
  show ?thesis
  proof (cases "rgPosts s = 0")
    case False
    then show ?thesis
      by (auto simp: rg_inv_def rg_step_def MarkInProcess_step_def ClearInProcess_step_def split: rg_event.splits rg_pc.splits)
  next
    case True
    then have s: "rgSem s = 0" "\<And>t. rgPc s t \<noteq> RgEnter True" "\<And>t. rgPc s t \<noteq> RgLeave False"
      "\<And>t u. rg_holds (rgPc s t) \<Longrightarrow> rg_holds (rgPc s u) \<Longrightarrow> t = u" "rgInProcess s \<longleftrightarrow> (\<exists>t. rg_holds (rgPc s t))"
      using i by (auto simp: rg_inv_def)
    show ?thesis
    proof (cases e)
      case (RgCome t)
      then have "\<not> rg_holds (rgPc s t)" using l by (simp add: rg_legal_def)
      then have h: "rg_holds ((if u = t then RgEnter False else rgPc s u)) = rg_holds (rgPc s u)" for u by auto
      show ?thesis using RgCome True s by (auto simp: rg_step_def rg_inv_def h)
    next
      case (RgDone t)
      then have "rg_holds (rgPc s t)" using l by (simp add: rg_legal_def)
      then have h: "rg_holds ((if u = t then RgLeave True else rgPc s u)) = rg_holds (rgPc s u)" for u by auto
      show ?thesis using RgDone True s by (auto simp: rg_step_def rg_inv_def h)
    next
      case (RgGoOn t)
      show ?thesis
      proof (cases "rgPc s t")
        case (RgEnter b)
        then have b: "b = False" using s(2) [of t] by (cases b) simp_all
        show ?thesis
        proof (cases "rgInProcess s")
          case False
          then have "\<not> rg_holds (rgPc s u)" for u using s(5) by blast
          then show ?thesis using RgGoOn RgEnter b False True s
            by (auto simp: rg_step_def rg_inv_def MarkInProcess_step_def ClearInProcess_step_def)
        next
          case True
          then have h: "rg_holds ((if u = t then RgWait else rgPc s u)) = rg_holds (rgPc s u)" for u using RgEnter by auto
          show ?thesis using RgGoOn RgEnter b True s \<open>rgPosts s = 0\<close>
            by (simp add: rg_step_def rg_inv_def MarkInProcess_step_def ClearInProcess_step_def h)
        qed
      next
        case (RgLeave b)
        then have b: "b = True" using s(3) [of t] by (cases b) simp_all
        have h: "rg_holds (rgPc s t)" using RgLeave by simp
        then have p: "rgInProcess s" using s(5) by blast
        have "\<not> rg_holds (rgPc s u)" if "u \<noteq> t" for u using s(4) [OF h] that by blast
        then show ?thesis using RgGoOn RgLeave b p True s
          by (auto simp: rg_step_def rg_inv_def MarkInProcess_step_def ClearInProcess_step_def)
      next
        case RgPost
        then show ?thesis using RgGoOn by (simp add: rg_step_def rg_inv_def MarkInProcess_step_def ClearInProcess_step_def)
      qed (use RgGoOn i s in \<open>simp_all add: rg_step_def MarkInProcess_step_def ClearInProcess_step_def\<close>)
    qed
  qed
qed

interpretation rg: event_machine rg_step rg_legal rg_inv
  by unfold_locales (rule rg_inv_step)

text \<open>One thread runs the task and leaves; then it comes again, and a second thread as well.\<close>

definition wit_guard :: reent_guard where
  "wit_guard = foldl rg_step new_reent_guard [RgCome 3, RgGoOn 3, RgDone 3, RgGoOn 3, RgGoOn 3, RgCome 3, RgGoOn 3, RgCome 4, RgGoOn 4, RgGoOn 4, RgGoOn 4]"

lemma wit_guard_facts: "rgPc wit_guard 3 = RgInside" "rgPc wit_guard 4 = RgInside" "rgPosts wit_guard = 1"
  "reach rg_step rg_legal new_reent_guard wit_guard"
proof -
  show "reach rg_step rg_legal new_reent_guard wit_guard" unfolding wit_guard_def
    by (rule reach_foldl) (simp add: rg_legal_def rg_step_def MarkInProcess_step_def ClearInProcess_step_def new_reent_guard_def)
qed (simp_all add: wit_guard_def rg_step_def MarkInProcess_step_def ClearInProcess_step_def new_reent_guard_def)

text \<open>
  C35: Until a thread has left the task for the first time, the guard keeps all but one thread out. It does not
  afterwards: the semaphore then has a post nobody waited for, and a thread that finds the task in process
  takes it, expects the task to be in process, finds it so, and enters.
\<close>

lemma reentrancy_guard_first_use:
  "(\<forall>s t u. reach rg_step rg_legal new_reent_guard s \<and> rgPosts s = 0 \<and> rgPc s t = RgInside \<and> rgPc s u = RgInside \<longrightarrow> t = u) \<and>
   (\<exists>s t u. reach rg_step rg_legal new_reent_guard s \<and> rgPosts s = 1 \<and> t \<noteq> u \<and> rgPc s t = RgInside \<and> rgPc s u = RgInside)"
proof
  show "\<forall>s t u. reach rg_step rg_legal new_reent_guard s \<and> rgPosts s = 0 \<and> rgPc s t = RgInside \<and> rgPc s u = RgInside \<longrightarrow> t = u"
    using rg.inv_reach [OF _ rg_inv_new] by (auto simp: rg_inv_def)
  show "\<exists>s t u. reach rg_step rg_legal new_reent_guard s \<and> rgPosts s = 1 \<and> t \<noteq> u \<and> rgPc s t = RgInside \<and> rgPc s u = RgInside"
    by (rule exI [of _ wit_guard], rule exI [of _ 3], rule exI [of _ 4]) (simp add: wit_guard_facts)
qed


lemma reentrancy_guard_first_use_witness:
  "rgPc (foldl rg_step new_reent_guard [RgCome 3, RgGoOn 3, RgCome 4, RgGoOn 4, RgGoOn 4]) 4 \<noteq> RgInside"
proof -
  let ?es = "[RgCome 3, RgGoOn 3, RgCome 4, RgGoOn 4, RgGoOn 4]"
  let ?s = "foldl rg_step new_reent_guard ?es"
  have r: "reach rg_step rg_legal new_reent_guard ?s"
    by (rule reach_foldl) (simp add: rg_legal_def rg_step_def MarkInProcess_step_def ClearInProcess_step_def new_reent_guard_def)
  have f: "rgPosts ?s = 0" "rgPc ?s 3 = RgInside"
    by (simp_all add: rg_step_def MarkInProcess_step_def ClearInProcess_step_def new_reent_guard_def)
  show ?thesis
  proof
    assume "rgPc ?s 4 = RgInside"
    then have "(3 :: nat) = 4" using conjunct1 [OF reentrancy_guard_first_use, rule_format, of ?s 3 4] r f by simp
    then show False by simp
  qed
qed

subsection \<open>Tasks with retries\<close>

abbreviation (input) eventTimeout :: nat where "eventTimeout \<equiv> 259"
abbreviation (input) eventRetry :: nat where "eventRetry \<equiv> 269"
abbreviation (input) TASKLET_RETRY_TIMES :: int where "TASKLET_RETRY_TIMES \<equiv> 3"
abbreviation (input) TASKLET_RETRY_DEF_INTERVALSEC :: nat where "TASKLET_RETRY_DEF_INTERVALSEC \<equiv> 10"

text \<open>The three properties of the task's map that the class uses, if they are set, and the id of its timer.\<close>

record retry_task =
  rtRetries :: "int option"
  rtBackup :: "int option"
  rtInterval :: "nat option"
  rtTimerId :: int

text \<open>The constructor fills in what its configuration leaves out, without the backup of the retries.\<close>

definition new_retry_task :: "int option \<Rightarrow> int option \<Rightarrow> nat option \<Rightarrow> retry_task" where
  "new_retry_task retries backup interval =
    \<lparr>rtRetries = Some (case retries of None \<Rightarrow> TASKLET_RETRY_TIMES | Some r \<Rightarrow> r), rtBackup = backup,
     rtInterval = Some (case interval of None \<Rightarrow> TASKLET_RETRY_DEF_INTERVALSEC | Some n \<Rightarrow> n), rtTimerId = 0\<rparr>"

definition SetRetries :: "int \<Rightarrow> retry_task \<Rightarrow> retry_task" where
  "SetRetries v x = x\<lparr>rtRetries := Some v, rtBackup := Some v\<rparr>"

definition CanRetry :: "retry_task \<Rightarrow> bool" where
  "CanRetry x \<longleftrightarrow> (case rtRetries x of None \<Rightarrow> False | Some v \<Rightarrow> 0 < v)"

definition DecRetries :: "retry_task \<Rightarrow> int \<times> retry_task" where
  "DecRetries x = (case rtRetries x of
      None \<Rightarrow> (- ENOENT, x)
    | Some v \<Rightarrow> if 0 < v then (v - 1, x\<lparr>rtRetries := Some (v - 1)\<rparr>) else (- ERANGE, x))"

text \<open>\<open>p\<close> is the task.\<close>

definition Rt_AddTimer :: "nat \<Rightarrow> nat \<Rightarrow> nat \<Rightarrow> timer_svc \<Rightarrow> int \<times> timer_svc" where
  "Rt_AddTimer p dwIntervalSec dwParam svc = (if dwIntervalSec = 0 then (- EINVAL, svc) else AddTimer dwIntervalSec (Some p) dwParam svc)"

definition Rt_ResetTimer :: "int \<Rightarrow> timer_svc \<Rightarrow> int \<times> timer_svc" where
  "Rt_ResetTimer i svc = (if i \<le> 0 then (- EINVAL, svc) else ResetTimer i svc)"

definition Rt_RemoveTimer :: "retry_task \<Rightarrow> timer_svc \<Rightarrow> int \<times> retry_task \<times> timer_svc" where
  "Rt_RemoveTimer x svc =
    (if rtTimerId x = 0 then (0, x, svc)
     else case (if rtTimerId x \<le> 0 then (- EINVAL, svc) else RemoveTimer (rtTimerId x) svc) of (ret, svc1) \<Rightarrow>
       (ret, x\<lparr>rtTimerId := 0\<rparr>, svc1))"

definition ScheduleRetry :: "nat \<Rightarrow> retry_task \<Rightarrow> timer_svc \<Rightarrow> int \<times> retry_task \<times> timer_svc" where
  "ScheduleRetry p x svc = (case rtInterval x of
      None \<Rightarrow> (- ENOENT, x, svc)
    | Some dwInterval \<Rightarrow> (case DecRetries x of (iRetries, x1) \<Rightarrow>
        if iRetries < 0 then (iRetries, x1, svc)
        else case Rt_AddTimer p dwInterval eventRetry svc of (i, svc1) \<Rightarrow>
          if i < 0 then (i, x1\<lparr>rtTimerId := 0\<rparr>, svc1) else (0, x1\<lparr>rtTimerId := i\<rparr>, svc1)))"

text \<open>
  The operator of the task: \<open>iEvent\<close> is the parameter of the timer that calls it, if it is called with parameters,
  \<open>process\<close> what \<open>Process\<close> returns.
\<close>

definition Retry_run :: "nat \<Rightarrow> (nat \<Rightarrow> int) \<Rightarrow> nat \<Rightarrow> nat option \<Rightarrow> retry_task \<times> timer_svc \<Rightarrow> int \<times> retry_task \<times> timer_svc" where
  "Retry_run p process dwContext iEvent xs = (case xs of (x, svc) \<Rightarrow>
    let x1 = (if dwContext = eventTimeout \<and> iEvent = Some eventRetry then x\<lparr>rtTimerId := 0\<rparr> else x); ret = process dwContext in
    if ret = STATUS_MORE_PROCESS_NEEDED
    then case ScheduleRetry p x1 svc of (iRet, x2, svc1) \<Rightarrow> (if ERROR iRet then iRet else ret, x2, svc1)
    else (ret, x1, svc))"

definition ResetRetries :: "retry_task \<Rightarrow> timer_svc \<Rightarrow> retry_task \<times> timer_svc" where
  "ResetRetries x svc = snd (Rt_RemoveTimer (case rtBackup x of None \<Rightarrow> x | Some v \<Rightarrow> x\<lparr>rtRetries := Some v\<rparr>) svc)"

definition Retry_OnCancel :: "retry_task \<Rightarrow> timer_svc \<Rightarrow> int \<times> retry_task \<times> timer_svc" where
  "Retry_OnCancel x svc = (0, ResetRetries x svc)"

text \<open>\<open>n\<close> runs, each called by the timer of the one before.\<close>

primrec retry_runs :: "nat \<Rightarrow> (nat \<Rightarrow> int) \<Rightarrow> nat \<Rightarrow> retry_task \<times> timer_svc \<Rightarrow> int list \<times> retry_task \<times> timer_svc" where
  "retry_runs p process 0 xs = ([], xs)"
| "retry_runs p process (Suc n) xs = (case Retry_run p process eventTimeout (Some eventRetry) xs of (ret, ys) \<Rightarrow>
     case retry_runs p process n ys of (rets, zs) \<Rightarrow> (ret # rets, zs))"

lemma AddTimer_id:
  assumes "0 < tsNextId svc"
  shows "\<exists>svc'. AddTimer sec (Some p) prm svc = (tsNextId svc, svc') \<and> 0 < tsNextId svc' \<and> length (tsTimers svc') = Suc (length (tsTimers svc))"
  using assms by (auto simp: AddTimer_def new_timer_id_def MAX_TIMER_ID_def)

lemma Retry_run_again:
  assumes "process eventTimeout = STATUS_MORE_PROCESS_NEEDED" "rtRetries x = Some (int (Suc r))" "rtInterval x = Some sec" "sec \<noteq> 0" "0 < tsNextId svc"
  shows "\<exists>svc'. Retry_run p process eventTimeout (Some eventRetry) (x, svc) = (STATUS_MORE_PROCESS_NEEDED, x\<lparr>rtRetries := Some (int r), rtTimerId := tsNextId svc\<rparr>, svc') \<and>
    0 < tsNextId svc' \<and> length (tsTimers svc') = Suc (length (tsTimers svc))"
  using AddTimer_id [OF assms(5), of sec p eventRetry] assms
  by (auto simp: Retry_run_def Let_def ScheduleRetry_def DecRetries_def Rt_AddTimer_def ERROR_def)


lemma Retry_run_last:
  assumes "process eventTimeout = STATUS_MORE_PROCESS_NEEDED" "rtRetries x = Some 0" "rtInterval x = Some sec"
  shows "Retry_run p process eventTimeout (Some eventRetry) (x, svc) = (- ERANGE, x\<lparr>rtTimerId := 0\<rparr>, svc)"
  using assms by (simp add: Retry_run_def Let_def ScheduleRetry_def DecRetries_def ERROR_def)

text \<open>
  C36: A task that always asks to be run again is run once for every retry it has left, each time by a timer of
  its own, and once more, when it returns \<open>-ERANGE\<close> and sets no timer.
\<close>

lemma retries_run_out:
  assumes "process eventTimeout = STATUS_MORE_PROCESS_NEEDED" "rtRetries x = Some (int r)" "rtInterval x = Some sec" "sec \<noteq> 0" "0 < tsNextId svc"
  shows "\<exists>x' svc'. retry_runs p process (Suc r) (x, svc) = (replicate r STATUS_MORE_PROCESS_NEEDED @ [- ERANGE], x', svc') \<and>
    rtRetries x' = Some 0 \<and> rtTimerId x' = 0 \<and> rtBackup x' = rtBackup x \<and> length (tsTimers svc') = length (tsTimers svc) + r"
  using assms(2,3,5)
proof (induction r arbitrary: x svc)
  case 0
  then show ?case using Retry_run_last [where p = p and process = process, OF assms(1), of x sec svc] by simp
next
  case (Suc r)
  obtain svc1 where run: "Retry_run p process eventTimeout (Some eventRetry) (x, svc) =
      (STATUS_MORE_PROCESS_NEEDED, x\<lparr>rtRetries := Some (int r), rtTimerId := tsNextId svc\<rparr>, svc1)"
    "0 < tsNextId svc1" "length (tsTimers svc1) = Suc (length (tsTimers svc))"
    using Retry_run_again [where p = p and process = process, OF assms(1) Suc.prems(1,2) assms(4) Suc.prems(3)] by blast
  obtain x' svc' where "retry_runs p process (Suc r) (x\<lparr>rtRetries := Some (int r), rtTimerId := tsNextId svc\<rparr>, svc1) =
      (replicate r STATUS_MORE_PROCESS_NEEDED @ [- ERANGE], x', svc')" "rtRetries x' = Some 0" "rtTimerId x' = 0" "rtBackup x' = rtBackup x"
    "length (tsTimers svc') = length (tsTimers svc1) + r"
    using Suc.IH [of "x\<lparr>rtRetries := Some (int r), rtTimerId := tsNextId svc\<rparr>" svc1] Suc.prems run by auto
  moreover have "retry_runs p process (Suc (Suc r)) (x, svc) =
      (case retry_runs p process (Suc r) (x\<lparr>rtRetries := Some (int r), rtTimerId := tsNextId svc\<rparr>, svc1) of (rets, zs) \<Rightarrow> (STATUS_MORE_PROCESS_NEEDED # rets, zs))"
    by (subst retry_runs.simps(2)) (simp only: run(1) prod.case)
  ultimately show ?case using run(3) by auto
qed

text \<open>
  Cancelling a task gives it back the retries it was given with \<open>SetProperty\<close>, whatever runs there were.
  The retries it has from its construction are not given back.
\<close>

lemma cancel_restores_retries:
  assumes "retry_runs p process n (SetRetries v x, svc) = (rets, x1, svc1)" "retry_runs p process n (new_retry_task a None b, svc) = (rets2, x2, svc2)"
  shows "rtRetries (fst (snd (Retry_OnCancel x1 svc1))) = Some v \<and> rtTimerId (fst (snd (Retry_OnCancel x1 svc1))) = 0 \<and>
    rtRetries (fst (snd (Retry_OnCancel x2 svc2))) = rtRetries x2"
proof -
  have keep: "rtBackup (fst (snd (Retry_run p process c e (y, t)))) = rtBackup y" for c e y t
    by (auto simp: Retry_run_def Let_def ScheduleRetry_def DecRetries_def split: option.splits prod.splits)
  have runs: "rtBackup (fst (snd (retry_runs p process n (y, t)))) = rtBackup y" for n y t
  proof (induction n arbitrary: y t)
    case (Suc n)
    then show ?case using keep [of eventTimeout "Some eventRetry" y t]
      by (cases "Retry_run p process eventTimeout (Some eventRetry) (y, t)") (auto split: prod.splits, metis fst_conv snd_conv)
  qed simp
  have "rtBackup x1 = Some v" "rtBackup x2 = None"
    using runs [of n "SetRetries v x" svc] runs [of n "new_retry_task a None b" svc] assms by (simp_all add: SetRetries_def new_retry_task_def)
  then show ?thesis
    by (auto simp: Retry_OnCancel_def ResetRetries_def Rt_RemoveTimer_def split: prod.splits)
qed

definition wit_retry :: retry_task where "wit_retry = new_retry_task None None (Some 5)"

lemma retries_run_out_witness:
  "\<exists>x' svc'. retry_runs 7 (\<lambda>_. STATUS_MORE_PROCESS_NEEDED) 4 (wit_retry, new_timer_svc 0) =
     ([STATUS_MORE_PROCESS_NEEDED, STATUS_MORE_PROCESS_NEEDED, STATUS_MORE_PROCESS_NEEDED, - ERANGE], x', svc') \<and> length (tsTimers svc') = 3"
  using retries_run_out [of "\<lambda>_. STATUS_MORE_PROCESS_NEEDED" wit_retry 3 5 "new_timer_svc 0" 7]
  by (auto simp: wit_retry_def new_retry_task_def new_timer_svc_def numeral_eq_Suc)

lemma cancel_restores_retries_witness:
  "\<exists>rets x1 svc1. retry_runs 7 (\<lambda>_. STATUS_MORE_PROCESS_NEEDED) 2 (SetRetries 9 wit_retry, new_timer_svc 0) = (rets, x1, svc1) \<and>
     rtRetries (fst (snd (Retry_OnCancel x1 svc1))) = Some 9"
proof -
  obtain rets x1 svc1 where a: "retry_runs 7 (\<lambda>_. STATUS_MORE_PROCESS_NEEDED) 2 (SetRetries 9 wit_retry, new_timer_svc 0) = (rets, x1, svc1)" by (metis prod_cases3)
  obtain rets2 x2 svc2 where b: "retry_runs 7 (\<lambda>_. STATUS_MORE_PROCESS_NEEDED) 2 (new_retry_task None None None, new_timer_svc 0) = (rets2, x2, svc2)" by (metis prod_cases3)
  show ?thesis using a cancel_restores_retries [OF a b] by blast
qed

end
