(* ===== verification/Spec2Isabelle.thy ===== *)
theory Spec2Isabelle
  imports PortState Registry StlCont Seri UxSend TcpStream Timer TaskGroupRfc FlowControl IfState IrpRuns IrpThread Tasklet
begin

text \<open>
  A verification library of rpc-frmwrk, an asynchronous RPC framework in C++ (\<open>src/combase\<close>,
  \<open>src/ipc\<close>, \<open>src/rpc\<close>). This theory only collects the others.

  \<^bold>\<open>The program.\<close> \<open>combase\<close> holds the base of everything: buffers, property maps, the registry,
  serialisation. \<open>ipc\<close> runs requests: an IRP travels down a stack of ports, each of which admits
  it in its state machine; an interface (proxy or server) wraps a port, keeps a state of its own
  that follows the events of the port and the server, and queues its work in task groups; timers
  retry and expire the requests. \<open>rpc\<close> carries them between hosts: the TCP port cuts a connection
  into streams of packets, the local sockets do so for the streams of the interfaces, with a flow
  control that stops a writer before the reader is flooded.

  \<^bold>\<open>The theories\<close>, the C++ they follow, and what their lemmas show.

  \<^item> \<open>Prelude\<close>: the result codes of \<open>include/defines.h\<close>, 32-bit arithmetic on \<open>nat\<close>, big-endian
    encodings, prefixes and windows of lists; the locale \<open>event_machine\<close> (a step function, the
    events a caller may send, an invariant), whose lemmas carry an invariant to every reachable
    state.
  \<^item> \<open>Buffer\<close>, \<open>BufSeri\<close>: \<open>CBuffer\<close> of \<open>combase/buffer.cpp\<close>. A block of memory, the window on it
    and the type word. Every byte touched is checked against its block (\<open>Undefined\<close> is an access
    outside). The operations keep the window in the block and stay inside it; \<open>Append\<close> and
    \<open>Resize\<close> refine the list operations on the window; a serialised buffer reads back.
  \<^item> \<open>ConfigDb\<close>, \<open>CfgSeri\<close>: \<open>CConfigDb\<close> of \<open>combase/config.cpp\<close>, a map of buffers under 32-bit
    keys, and its wire format. \<open>prop_store\<close> is the contract of a property map, which the map
    and, in \<open>Registry\<close>, the entries of the registry provide.
  \<^item> \<open>Registry\<close>: \<open>CRegistry\<close> and \<open>CDirEntry\<close> of \<open>combase/registry.cpp\<close>, a tree of directories
    with a current directory: the tree stays well formed, a failed \<open>MakeDir\<close> is undone, paths
    split and join back.
  \<^item> \<open>Seri\<close>: \<open>CSerialBase\<close> of \<open>combase/seribase.cpp\<close>, the values of ridl, whose types are a
    datatype: the bytes of a value of any type read back and leave the rest of the buffer, and
    what is read from bytes of any origin is a value of the type asked for.
  \<^item> \<open>StlCont\<close>: \<open>CStlVector\<close> and \<open>CStlMap\<close> of \<open>include/stlcont.h\<close> and \<open>combase/serial.cpp\<close>: vectors of
    numbers and of objects, and maps of numbers. The locale \<open>vector_element\<close> is what a vector
    needs of its elements; it is interpreted on the property maps of \<open>CfgSeri\<close>. A vector of them
    reads back, from a buffer that is not read a second time.
  \<^item> \<open>PortState\<close>: \<open>CPortState\<close> of \<open>ipc/portstat.cpp\<close>: shared and exclusive admissions on a
    stack above the life-cycle state. No exclusive admission beside a shared one, no more shared
    ones than allowed, and a pended stop is resumed when the last one leaves.
  \<^item> \<open>Irp\<close>: \<open>IRP_CONTEXT\<close> and \<open>IoRequestPacket\<close> of \<open>ipc/irp.cpp\<close>, the request and its stack of contexts.
    \<open>PortIrp\<close>: what every port does with a request (\<open>CPort\<close> of \<open>ipc/port.cpp\<close>, \<open>CIrpGateKeeper\<close>).
    \<open>IoMgr\<close>: \<open>SubmitIrpInternal\<close>, \<open>CompleteIrp\<close>, \<open>CancelIrp\<close> and \<open>CancelSlaves\<close> of \<open>CIoManager\<close>
    (\<open>ipc/iomgr.cpp\<close>), which walk over the ports, with the calls of other threads wherever no
    lock is held. \<open>IoTells\<close>: whatever comes in between, whoever waits for a request is told exactly
    once. \<open>IrpRuns\<close>: without interference, what completion and cancellation do exactly, also to
    a master and its slaves.
  \<^item> \<open>Tasklet\<close>: \<open>CTasklet\<close> and \<open>CTaskletRetriable\<close> of \<open>ipc/tasklets.h\<close> and \<open>ipc/tasklets.cpp\<close>: the guard that
    keeps a task from being run twice at once, which does so only for its first use, and the retries.
  \<^item> \<open>TaskThread\<close>, \<open>IrpThread\<close>: \<open>CTaskQueue\<close>, \<open>CTaskThread\<close>, \<open>CThreadPool\<close> and \<open>CIrpCompThread\<close> of
    \<open>ipc/irpthread.cpp\<close>, and the task source of the main loop (\<open>ipc/mainloop.h\<close>), cut into the steps
    between which other threads can come in. The locales \<open>task_runner\<close> and \<open>draining_runner\<close>, on top of
    \<open>event_machine\<close>, are the contract of a runner: what is accepted is run in order, and in a number
    of steps that is given. All three runners interpret them.
  \<^item> \<open>IfState\<close>: the nine state classes of \<open>ipc/ifstat.cpp\<close> with the subscriptions of
    \<open>ipc/connhelp.h\<close>: subscriptions follow the state, all or none of them are made, and an
    interface comes back after its port or server went away.
  \<^item> \<open>Timer\<close>: \<open>CTimerService\<close> of \<open>ipc/utils.cpp\<close>: which timers a tick fires, in which order, how
    late at most, and each at most once.
  \<^item> \<open>TaskGroup\<close>: \<open>CIfTaskGroup\<close> and \<open>CIfRootTaskGroup\<close> of \<open>ipc/iftasks.cpp\<close>. The loops of the
    code equal a reference definition on the list of results.
  \<^item> \<open>TaskGroupRfc\<close>: \<open>CIfParallelTaskGrpRfc\<close>: as the group releases its lock while it starts
    tasks, its runner is cut into steps; no task is lost or run twice, the two limits hold, and
    everything queued is run.
  \<^item> \<open>UxSock\<close>, \<open>UxSend\<close>: \<open>CRecvFilter\<close> and \<open>CSendQue\<close> of \<open>ipc/uxport.cpp\<close>. However the socket
    cuts the bytes, the packets sent are the packets received.
  \<^item> \<open>FlowControl\<close>: \<open>CFlowControl\<close> of \<open>ipc/uxstream.h\<close> and the handlers of \<open>CUnixSockStream\<close>
    around it, for two connected streams: bounds on what is in flight, no deadlock, and a race
    in which the writer stays stopped.
  \<^item> \<open>TcpPkt\<close>, \<open>TcpStream\<close>: packets and streams of \<open>rpc/tcpport.cpp\<close> and \<open>rpc/tcportex.cpp\<close>: a
    packet is written whole and in order, a read request gets the bytes of its stream in order,
    and the ring of streams serves each of them in turn.

  \<^bold>\<open>Interaction.\<close> \<open>CfgSeri\<close> writes buffers with \<open>BufSeri\<close> and \<open>Registry\<close> stores them with
  \<open>ConfigDb\<close>; the sockets and packets move the buffers of \<open>Buffer\<close>, so that their accesses are
  checked too; \<open>TcpStream\<close> reads with the sockets of \<open>UxSock\<close> and sends with those of \<open>UxSend\<close>.
  A request holds buffers of \<open>Buffer\<close>, its timer is one of \<open>Timer\<close>, as is the one of a task
  that is to be run again, and \<open>StlCont\<close> writes elements with
  \<open>CfgSeri\<close>. The
  provider of a contract interprets its locale on the definitions of the code: \<open>prop_store\<close>
  in \<open>ConfigDb\<close> and \<open>Registry\<close>, \<open>vector_element\<close> in \<open>StlCont\<close>, \<open>event_machine\<close> in \<open>PortState\<close>, \<open>Buffer\<close>, \<open>Registry\<close>,
  \<open>TaskGroupRfc\<close>, \<open>TcpStream\<close>, \<open>FlowControl\<close>, \<open>IfState\<close> and \<open>Tasklet\<close>, \<open>draining_runner\<close> in \<open>TaskThread\<close> and
  \<open>IrpThread\<close>.

  \<^bold>\<open>Conventions.\<close> A \<open>gint32\<close> is an \<open>int\<close>, negative for an error. A size is a \<open>nat\<close> with its wrap
  at \<open>2 ^ 32\<close> written out, a counter that the code compares or overflows is a word. A lock held
  from start to end is the atomicity of the operation; where the code releases it, the operation
  is cut into steps or takes the calls that come in between as an argument. What is not under
  \<open>src/\<close> is a parameter: \<open>malloc\<close> and the contents of fresh memory, \<open>getpagesize\<close>, LZ4, what a
  socket delivers or accepts; so are objects reached through virtual methods of arbitrary classes
  (\<open>objects\<close>), the port manager, and the callbacks of timers and tasks.

  \<^bold>\<open>Loops.\<close> A loop that runs over the bytes or packets left is a \<open>function\<close> with a measure, or
  recursion on the list. One that need not end is \<open>partial_function (option)\<close>, \<open>None\<close> when it
  never returns: the loops of \<open>CRecvFilter\<close>, \<open>CSendQue\<close>, \<open>CIncomingPacket\<close>, the task groups and
  \<open>GetPropIds\<close>. That they return is part of the theorems about them, and two theorems show inputs
  on which they do not. The functions of \<open>CIoManager\<close> call each other, through masters and slaves, and other
  threads call them: \<open>io_go\<close> takes the depth of the calls. \<open>IrpRuns\<close> shows depths that suffice: one for
  a request alone, the number of slaves plus four for a master. What holds of every run
  (\<open>IoTells\<close>) holds for every depth. Nothing else takes fuel.

  \<^bold>\<open>Not modelled.\<close> The object factory (constructors and shared libraries); reference counts and
  smart pointers; \<open>poll\<close>, the event sources of the loop and libdbus; the handlers the classes of ports add to \<open>CPort\<close> and
  the single tasks derived from the base classes; proxies and servers; handshakes, socket events, OpenSSL, GSSAPI and
  WebSocket; the router, the bridge and the request forwarder; \<open>ridlc\<close>, whose output and not whose
  run is the program; vendored and test code. Serialised structures call generated code. What the
  modelled classes leave out is said at the head of their theory.

  \<^bold>\<open>Plan.\<close> Done in this order: buffers and property maps, port states, registry, local sockets,
  serialisation, interface states, flow control, TCP packets and streams, timers, task groups,
  serialisable containers, requests and the I/O manager, the threads and the base classes of the
  tasks. Next would be the handlers of the classes of ports (\<open>ipc/rpcpdo.cpp\<close>,
  \<open>rpc/stmpdo.cpp\<close>) and the matches of the router (\<open>rpc/rpcroute.cpp\<close>).
\<close>

end
